(* ===== verification/Prelude.thy ===== *)
theory Prelude
  imports Main "HOL-Library.Word"
begin

text \<open>
  Shared vocabulary of the development: the machine types of the C++ sources, the exception
  type of the SPOE code, sequencing of computations that may throw, byte strings, and the
  generic lemmas on lists and words that several components use.
\<close>

unbundle bit_operations_syntax

section \<open>Machine types and exceptions\<close>

type_synonym u8 = "8 word"
type_synonym u16 = "16 word"
type_synonym u32 = "32 word"
type_synonym u64 = "64 word"
type_synonym bytes = "u8 list"

text \<open>A throwing computation returns the exception on the left.\<close>

datatype spoe_error = Error string

type_synonym 'a res = "spoe_error + 'a"

definition rbind :: "'e + 'a \<Rightarrow> ('a \<Rightarrow> 'e + 'b) \<Rightarrow> 'e + 'b" where
  "rbind m f = (case m of Inl e \<Rightarrow> Inl e | Inr x \<Rightarrow> f x)"

lemma rbind_simps [simp]:
  "rbind (Inl e) f = Inl e"
  "rbind (Inr x) f = f x"
  by (simp_all add: rbind_def)

lemma rbind_cong [fundef_cong]:
  assumes "m = m'" and "\<And>x. m' = Inr x \<Longrightarrow> f x = g x"
  shows "rbind m f = rbind m' g"
  using assms by (cases m') simp_all

lemma rbind_eq_Inr_iff [simp]: "rbind m f = Inr y \<longleftrightarrow> (\<exists>x. m = Inr x \<and> f x = Inr y)"
  by (cases m) simp_all

lemma rbind_eq_Inl_iff: "rbind m f = Inl e \<longleftrightarrow> m = Inl e \<or> (\<exists>x. m = Inr x \<and> f x = Inl e)"
  by (cases m) simp_all

lemma rbind_assoc: "rbind (rbind m f) g = rbind m (\<lambda>x. rbind (f x) g)"
  by (cases m) simp_all

section \<open>Ranges of the machine integers\<close>

lemma unat_bounds:
  fixes a :: u8 and b :: u16 and c :: u32 and d :: u64
  shows "unat a < 256" and "unat b < 65536" and "unat c < 4294967296"
    and "unat d < 18446744073709551616"
  by (rule order_less_le_trans [OF unsigned_less], simp)+

lemma unat_take_bit: "unat (take_bit k (w :: 'a :: len word)) = unat w mod 2 ^ k"
  by (simp add: unsigned_take_bit_eq flip: take_bit_eq_mod)

lemma unat_drop_bit: "unat (drop_bit k (w :: 'a :: len word)) = unat w div 2 ^ k"
  by (simp add: unat_drop_bit_eq flip: drop_bit_eq_div)

lemma unat_push_bit:
  "unat (push_bit k (w :: 'a :: len word)) = unat w * 2 ^ k mod 2 ^ LENGTH('a)"
  by (simp add: unsigned_push_bit_eq flip: take_bit_eq_mod push_bit_eq_mult)

lemma unat_ucast_u8_u64 [simp]: "unat (ucast (b :: u8) :: u64) = unat b"
  using unat_bounds(1) [of b] by (simp add: unsigned_ucast_eq take_bit_nat_eq_self)

section \<open>Byte strings\<close>

text \<open>\<open>std::string_view\<close> is a \<^typ>\<open>string\<close>, a span of \<open>uint8_t\<close> is a list of 8-bit words; the
  two casts of \<open>protocol_io.h\<close> reinterpret one as the other.\<close>

definition as_bytes :: "string \<Rightarrow> bytes" where
  "as_bytes s = map (\<lambda>c. of_nat (of_char c)) s"

definition as_chars :: "bytes \<Rightarrow> string" where
  "as_chars b = map (\<lambda>x. char_of (unat x)) b"

lemma as_bytes_simps [simp]:
  "as_bytes [] = []"
  "as_bytes (c # s) = of_nat (of_char c) # as_bytes s"
  "as_bytes (s @ t) = as_bytes s @ as_bytes t"
  "length (as_bytes s) = length s"
  by (simp_all add: as_bytes_def)

lemma as_chars_length [simp]: "length (as_chars b) = length b"
  by (simp add: as_chars_def)

lemma as_chars_as_bytes [simp]: "as_chars (as_bytes s) = s"
proof -
  have "of_char c < (256::nat)" for c
    by (simp add: of_char_def)
  then have "unat (of_nat (of_char c) :: u8) = of_char c" for c
    by (simp add: unsigned_of_nat take_bit_nat_eq_self)
  then show ?thesis by (simp add: as_chars_def as_bytes_def comp_def)
qed

lemma as_bytes_as_chars [simp]: "as_bytes (as_chars b) = b"
proof -
  have "(of_nat (of_char (char_of (unat x))) :: u8) = x" for x :: u8
  proof -
    have "unat x < 256"
      by (rule unat_bounds)
    then show ?thesis by simp
  qed
  then show ?thesis by (simp add: as_chars_def as_bytes_def comp_def)
qed

lemma as_bytes_eq_iff [simp]: "as_bytes s = as_bytes t \<longleftrightarrow> s = t"
  by (metis as_chars_as_bytes)

section \<open>Writing a block into a buffer\<close>

definition overwrite :: "'a list \<Rightarrow> nat \<Rightarrow> 'a list \<Rightarrow> 'a list" where
  "overwrite buf off xs = take off buf @ xs @ drop (off + length xs) buf"

lemma length_overwrite [simp]:
  "off + length xs \<le> length buf \<Longrightarrow> length (overwrite buf off xs) = length buf"
  by (simp add: overwrite_def)

lemma overwrite_Nil [simp]: "overwrite buf off [] = buf"
  by (simp add: overwrite_def)

lemma take_overwrite:
  "off + length xs \<le> length buf \<Longrightarrow> take (off + length xs) (overwrite buf off xs) = take off buf @ xs"
  by (simp add: overwrite_def)

lemma overwrite_Cons:
  assumes "off + length (x # xs) \<le> length buf"
  shows "overwrite buf off (x # xs) = overwrite (buf[off := x]) (Suc off) xs"
  using assms by (simp add: overwrite_def take_Suc_conv_app_nth upd_conv_take_nth_drop ac_simps)

lemma overwrite_snoc:
  assumes "off + length xs < length buf"
  shows "(overwrite buf off xs)[off + length xs := x] = overwrite buf off (xs @ [x])"
  using assms by (simp add: overwrite_def list_update_append Cons_nth_drop_Suc [symmetric] ac_simps)

lemma overwrite_overwrite:
  assumes "off + length xs + length ys \<le> length buf"
  shows "overwrite (overwrite buf off xs) (off + length xs) ys = overwrite buf off (xs @ ys)"
  using assms by (simp add: overwrite_def ac_simps)

section \<open>First match in a list\<close>

lemma find_SomeD: "find P xs = Some x \<Longrightarrow> P x \<and> x \<in> set xs"
  by (induction xs) (auto split: if_splits)

lemma find_Some_ex: "(\<exists>y. find P xs = Some y) \<longleftrightarrow> (\<exists>x \<in> set xs. P x)"
  by (induction xs) auto

section \<open>Decimal numerals\<close>

text \<open>\<open>std::to_string\<close> on an unsigned value.\<close>

definition digit_char :: "nat \<Rightarrow> char" where
  "digit_char d = char_of (48 + d)"

fun to_string :: "nat \<Rightarrow> string" where
  "to_string n = (if n < 10 then [digit_char n] else to_string (n div 10) @ [digit_char (n mod 10)])"

declare to_string.simps [simp del]

lemma to_string_nonempty [simp]: "to_string n \<noteq> []"
  by (subst to_string.simps) simp

end
