(* ===== verification/Data_Pool.thy ===== *)
theory Data_Pool
  imports Prelude "HOL-Library.Char_ord" "HOL-Library.List_Lexorder"
begin

text \<open>
  The pool of data records of the database builder (\<open>DataPool\<close> in \<open>src/mmdb_builder/builder.hpp\<close>,
  \<open>builder.cpp\<close>): interning, storing of JSON-like values, the content order and the merge of records.
  An identifier is an index into \<open>id_to_data_\<close>. The hash table is an association list searched with the
  equality of the stored variants; floating-point members are their IEEE bit patterns. The recursive
  operations follow identifiers; a fuel of the identifier plus one bounds the recursion, because every
  member of a record has a smaller identifier (\<open>pool_ok\<close>).
\<close>

section \<open>Data\<close>

datatype data =
  DNull | DStr string | DBytes bytes | DU16 u16 | DU32 u32 | DI32 u32 | DU64 u64 | DBool bool
| DFloat u32 | DDouble u64 | DObject "(string \<times> data) list" | DArray "data list"

datatype internal_data =
  IMonostate | IStr string | IBytes bytes | IU16 u16 | IU32 u32 | II32 u32 | IU64 u64 | IBool bool
| IFloat u32 | IDouble u64 | IMap "(nat \<times> nat) list" | IArray "nat list"

fun variant_index :: "internal_data \<Rightarrow> nat" where
  "variant_index IMonostate = 0"
| "variant_index (IStr _) = 1"
| "variant_index (IBytes _) = 2"
| "variant_index (IU16 _) = 3"
| "variant_index (IU32 _) = 4"
| "variant_index (II32 _) = 5"
| "variant_index (IU64 _) = 6"
| "variant_index (IBool _) = 7"
| "variant_index (IFloat _) = 8"
| "variant_index (IDouble _) = 9"
| "variant_index (IMap _) = 10"
| "variant_index (IArray _) = 11"

text \<open>IEEE comparisons on bit patterns with \<open>m\<close> mantissa bits and \<open>e\<close> exponent bits: a signed
  magnitude, equal for the two zeros, and incomparable for a NaN.\<close>

definition ieee_nan :: "nat \<Rightarrow> nat \<Rightarrow> nat \<Rightarrow> bool" where
  "ieee_nan e m x \<longleftrightarrow> x mod 2 ^ (e + m) > (2 ^ e - 1) * 2 ^ m"

definition ieee_key :: "nat \<Rightarrow> nat \<Rightarrow> nat \<Rightarrow> int" where
  "ieee_key e m x = (if x \<ge> 2 ^ (e + m) then - int (x mod 2 ^ (e + m)) else int x)"

definition ieee_eq :: "nat \<Rightarrow> nat \<Rightarrow> nat \<Rightarrow> nat \<Rightarrow> bool" where
  "ieee_eq e m x y \<longleftrightarrow> \<not> ieee_nan e m x \<and> \<not> ieee_nan e m y \<and> ieee_key e m x = ieee_key e m y"

definition ieee_less :: "nat \<Rightarrow> nat \<Rightarrow> nat \<Rightarrow> nat \<Rightarrow> bool" where
  "ieee_less e m x y \<longleftrightarrow> \<not> ieee_nan e m x \<and> \<not> ieee_nan e m y \<and> ieee_key e m x < ieee_key e m y"

text \<open>The equality of the variants.\<close>

fun data_eq :: "internal_data \<Rightarrow> internal_data \<Rightarrow> bool" where
  "data_eq (IFloat x) (IFloat y) \<longleftrightarrow> ieee_eq 8 23 (unat x) (unat y)"
| "data_eq (IDouble x) (IDouble y) \<longleftrightarrow> ieee_eq 11 52 (unat x) (unat y)"
| "data_eq x y \<longleftrightarrow> x = y"

record pool =
  strings :: "string list"
  data_to_id :: "(internal_data \<times> nat) list"
  id_to_data :: "internal_data list"
  row_sort_key :: string

definition pool_new :: pool where
  "pool_new = \<lparr>strings = [], data_to_id = [], id_to_data = [IMonostate], row_sort_key = []\<rparr>"

definition set_row_sort_key :: "pool \<Rightarrow> string \<Rightarrow> pool" where
  "set_row_sort_key p key = p\<lparr>row_sort_key := key\<rparr>"

section \<open>Interning and storing\<close>

definition intern_string :: "pool \<Rightarrow> string \<Rightarrow> string \<times> pool" where
  "intern_string p s = (s, if s \<in> set (strings p) then p else p\<lparr>strings := s # strings p\<rparr>)"

definition intern :: "pool \<Rightarrow> internal_data \<Rightarrow> nat \<times> pool" where
  "intern p d =
     (case find (\<lambda>(k, i). data_eq k d) (data_to_id p) of
        Some (k, i) \<Rightarrow> (i, p)
      | None \<Rightarrow>
          (let i = length (id_to_data p) in
           (i, p\<lparr>id_to_data := id_to_data p @ [d], data_to_id := (d, i) # data_to_id p\<rparr>)))"

definition intern_str :: "pool \<Rightarrow> string \<Rightarrow> nat \<times> pool" where
  "intern_str p s = (let (v, p) = intern_string p s in intern p (IStr v))"

definition str_at :: "pool \<Rightarrow> nat \<Rightarrow> string" where
  "str_at p i = (case id_to_data p ! i of IStr s \<Rightarrow> s | _ \<Rightarrow> [])"

text \<open>\<open>std::sort\<close> with a comparator, as an insertion sort.\<close>

fun insert_less :: "('a \<Rightarrow> 'a \<Rightarrow> bool) \<Rightarrow> 'a \<Rightarrow> 'a list \<Rightarrow> 'a list" where
  "insert_less lt x [] = [x]"
| "insert_less lt x (y # ys) = (if lt y x then y # insert_less lt x ys else x # y # ys)"

definition sort_less :: "('a \<Rightarrow> 'a \<Rightarrow> bool) \<Rightarrow> 'a list \<Rightarrow> 'a list" where
  "sort_less lt xs = foldr (insert_less lt) xs []"

fun store :: "pool \<Rightarrow> data \<Rightarrow> nat \<times> pool"
  and store_fields :: "pool \<Rightarrow> (string \<times> data) list \<Rightarrow> (nat \<times> nat) list \<times> pool"
  and store_items :: "pool \<Rightarrow> data list \<Rightarrow> nat list \<times> pool" where
  "store p DNull = (0, p)"
| "store p (DStr s) = intern_str p s"
| "store p (DBytes b) = intern p (IBytes b)"
| "store p (DU16 n) = intern p (IU16 n)"
| "store p (DU32 n) = intern p (IU32 n)"
| "store p (DI32 n) = intern p (II32 n)"
| "store p (DU64 n) = intern p (IU64 n)"
| "store p (DBool b) = intern p (IBool b)"
| "store p (DFloat f) = intern p (IFloat f)"
| "store p (DDouble f) = intern p (IDouble f)"
| "store p (DObject kvs) =
     (let (fs, p) = store_fields p kvs;
          fs = sort_less (\<lambda>a b. str_at p (fst a) < str_at p (fst b)) fs
      in intern p (IMap fs))"
| "store p (DArray vs) = (let (es, p) = store_items p vs in intern p (IArray es))"
| "store_fields p [] = ([], p)"
| "store_fields p ((k, v) # kvs) =
     (let (ki, p) = intern_str p k; (vi, p) = store p v; (fs, p) = store_fields p kvs
      in ((ki, vi) # fs, p))"
| "store_items p [] = ([], p)"
| "store_items p (v # vs) =
     (let (i, p) = store p v; (es, p) = store_items p vs in (i # es, p))"

section \<open>The content order\<close>

fun lex_less :: "('a \<Rightarrow> 'a \<Rightarrow> bool) \<Rightarrow> 'a list \<Rightarrow> 'a list \<Rightarrow> bool" where
  "lex_less lt xs [] \<longleftrightarrow> False"
| "lex_less lt [] (y # ys) \<longleftrightarrow> True"
| "lex_less lt (x # xs) (y # ys) \<longleftrightarrow> lt x y \<or> \<not> lt y x \<and> lex_less lt xs ys"

fun less_data_fuel :: "nat \<Rightarrow> pool \<Rightarrow> nat \<Rightarrow> nat \<Rightarrow> bool" where
  "less_data_fuel 0 p a b \<longleftrightarrow> False"
| "less_data_fuel (Suc n) p a b \<longleftrightarrow>
     (if a = b then False
      else
        (let da = id_to_data p ! a; db = id_to_data p ! b in
         if variant_index da \<noteq> variant_index db then variant_index da < variant_index db
         else case (da, db) of
           (IMap fa, IMap fb) \<Rightarrow>
             lex_less (\<lambda>x y. if fst x \<noteq> fst y then less_data_fuel n p (fst x) (fst y)
                             else less_data_fuel n p (snd x) (snd y)) fa fb
         | (IArray ea, IArray eb) \<Rightarrow> lex_less (less_data_fuel n p) ea eb
         | (IStr x, IStr y) \<Rightarrow> x < y
         | (IBytes x, IBytes y) \<Rightarrow> x < y
         | (IU16 x, IU16 y) \<Rightarrow> x < y
         | (IU32 x, IU32 y) \<Rightarrow> x < y
         | (II32 x, II32 y) \<Rightarrow> sint x < sint y
         | (IU64 x, IU64 y) \<Rightarrow> x < y
         | (IBool x, IBool y) \<Rightarrow> x < y
         | (IFloat x, IFloat y) \<Rightarrow> ieee_less 8 23 (unat x) (unat y)
         | (IDouble x, IDouble y) \<Rightarrow> ieee_less 11 52 (unat x) (unat y)
         | _ \<Rightarrow> False))"

definition less_data :: "pool \<Rightarrow> nat \<Rightarrow> nat \<Rightarrow> bool" where
  "less_data p a b = less_data_fuel (a + b + 1) p a b"

section \<open>Merging\<close>

fun columnar_loop :: "pool \<Rightarrow> (nat \<times> nat) list \<Rightarrow> nat option \<Rightarrow> nat option" where
  "columnar_loop p [] rows = rows"
| "columnar_loop p ((k, v) # fs) rows =
     (case id_to_data p ! v of
        IArray es \<Rightarrow>
          (case rows of
             None \<Rightarrow> columnar_loop p fs (Some (length es))
           | Some r \<Rightarrow> if length es \<noteq> r then None else columnar_loop p fs (Some r))
      | _ \<Rightarrow> None)"

text \<open>The number of rows of a columnar map, \<open>None\<close> for every other map.\<close>

definition columnar_rows :: "pool \<Rightarrow> (nat \<times> nat) list \<Rightarrow> nat option" where
  "columnar_rows p fs = (if fs = [] then None else columnar_loop p fs None)"

definition column_order :: "pool \<Rightarrow> (nat \<times> nat) list \<Rightarrow> nat list" where
  "column_order p fs =
     (let key_cols = filter (\<lambda>c. str_at p (fst (fs ! c)) = row_sort_key p) [0..<length fs] in
      key_cols @ filter (\<lambda>c. key_cols = [] \<or> hd key_cols \<noteq> c) [0..<length fs])"

definition elements_at :: "pool \<Rightarrow> nat \<Rightarrow> nat list" where
  "elements_at p i = (case id_to_data p ! i of IArray es \<Rightarrow> es | _ \<Rightarrow> [])"

definition rows_of :: "pool \<Rightarrow> (nat \<times> nat) list \<Rightarrow> nat \<Rightarrow> nat list list" where
  "rows_of p fs count = map (\<lambda>r. map (\<lambda>(k, v). elements_at p v ! r) fs) [0..<count]"

fun row_less :: "('a \<Rightarrow> 'a \<Rightarrow> bool) \<Rightarrow> nat list \<Rightarrow> 'a list \<Rightarrow> 'a list \<Rightarrow> bool" where
  "row_less lt [] x y \<longleftrightarrow> False"
| "row_less lt (c # cs) x y \<longleftrightarrow> (if x ! c \<noteq> y ! c then lt (x ! c) (y ! c) else row_less lt cs x y)"

fun intern_columns :: "pool \<Rightarrow> (nat \<times> nat) list \<Rightarrow> nat \<Rightarrow> nat list list \<Rightarrow> (nat \<times> nat) list \<times> pool" where
  "intern_columns p [] c rows = ([], p)"
| "intern_columns p ((k, v) # fs) c rows =
     (let (i, p) = intern p (IArray (map (\<lambda>row. row ! c) rows));
          (merged, p) = intern_columns p fs (c + 1) rows
      in ((k, i) # merged, p))"

definition merge_columnar :: "pool \<Rightarrow> (nat \<times> nat) list \<Rightarrow> nat \<Rightarrow> (nat \<times> nat) list \<Rightarrow> nat \<Rightarrow> nat \<times> pool" where
  "merge_columnar p ma rows_a mb rows_b =
     (let order = column_order p ma;
          rows = rows_of p ma rows_a @ rows_of p mb rows_b;
          rows = sort_less (row_less (less_data p) order) rows;
          rows = remdups_adj rows;
          (merged, p) = intern_columns p ma 0 rows
      in intern p (IMap merged))"

fun merge_fields ::
  "(pool \<Rightarrow> nat \<Rightarrow> nat \<Rightarrow> nat \<times> pool) \<Rightarrow> pool \<Rightarrow> (nat \<times> nat) list \<Rightarrow> (nat \<times> nat) list \<Rightarrow> (nat \<times> nat) list \<times> pool" where
  "merge_fields merge p [] fb = (fb, p)"
| "merge_fields merge p fa [] = (fa, p)"
| "merge_fields merge p ((ka, va) # fa) ((kb, vb) # fb) =
     (if ka = kb then
        (let (v, p) = merge p va vb; (fs, p) = merge_fields merge p fa fb in ((ka, v) # fs, p))
      else if str_at p ka < str_at p kb then
        (let (fs, p) = merge_fields merge p fa ((kb, vb) # fb) in ((ka, va) # fs, p))
      else
        (let (fs, p) = merge_fields merge p ((ka, va) # fa) fb in ((kb, vb) # fs, p)))"

fun deep_merge_fuel :: "nat \<Rightarrow> pool \<Rightarrow> nat \<Rightarrow> nat \<Rightarrow> nat \<times> pool" where
  "deep_merge_fuel 0 p a b = (b, p)"
| "deep_merge_fuel (Suc n) p a b =
     (if a = 0 then (b, p) else if b = 0 then (a, p) else if a = b then (a, p)
      else case (id_to_data p ! a, id_to_data p ! b) of
        (IArray ea, IArray eb) \<Rightarrow> intern p (IArray (ea @ eb))
      | (IMap ma, IMap mb) \<Rightarrow>
          (let same_keys = (map fst ma = map fst mb) in
           case (if same_keys then columnar_rows p ma else None, if same_keys then columnar_rows p mb else None) of
             (Some rows_a, Some rows_b) \<Rightarrow> merge_columnar p ma rows_a mb rows_b
           | _ \<Rightarrow> (let (merged, p) = merge_fields (deep_merge_fuel n) p ma mb in intern p (IMap merged)))
      | _ \<Rightarrow> (b, p))"

definition deep_merge :: "pool \<Rightarrow> nat \<Rightarrow> nat \<Rightarrow> nat \<times> pool" where
  "deep_merge p a b = deep_merge_fuel (a + b + 1) p a b"

section \<open>Sorting with a strict total order\<close>

text \<open>A comparator that is a strict total order on a set.\<close>

definition strict_total :: "('a \<Rightarrow> 'a \<Rightarrow> bool) \<Rightarrow> 'a set \<Rightarrow> bool" where
  "strict_total lt A \<longleftrightarrow>
     (\<forall>x \<in> A. \<not> lt x x) \<and> (\<forall>x \<in> A. \<forall>y \<in> A. x \<noteq> y \<longrightarrow> lt x y \<or> lt y x) \<and>
     (\<forall>x \<in> A. \<forall>y \<in> A. \<forall>z \<in> A. lt x y \<longrightarrow> lt y z \<longrightarrow> lt x z)"

lemma strict_totalD:
  assumes "strict_total lt A"
  shows "x \<in> A \<Longrightarrow> \<not> lt x x" and "x \<in> A \<Longrightarrow> y \<in> A \<Longrightarrow> x \<noteq> y \<Longrightarrow> lt x y \<or> lt y x"
    and "x \<in> A \<Longrightarrow> y \<in> A \<Longrightarrow> z \<in> A \<Longrightarrow> lt x y \<Longrightarrow> lt y z \<Longrightarrow> lt x z"
  using assms unfolding strict_total_def by blast+

lemma strict_total_subset: "strict_total lt A \<Longrightarrow> B \<subseteq> A \<Longrightarrow> strict_total lt B"
  unfolding strict_total_def by blast

lemma set_insert_less [simp]: "set (insert_less lt x xs) = insert x (set xs)"
  by (induction xs) auto

lemma set_sort_less [simp]: "set (sort_less lt xs) = set xs"
  by (induction xs) (simp_all add: sort_less_def)

lemma length_insert_less [simp]: "length (insert_less lt x xs) = Suc (length xs)"
  by (induction xs) auto

lemma length_sort_less [simp]: "length (sort_less lt xs) = length xs"
  by (induction xs) (simp_all add: sort_less_def)

text \<open>Sorted: no later element is less than an earlier one.\<close>

abbreviation sorted_less :: "('a \<Rightarrow> 'a \<Rightarrow> bool) \<Rightarrow> 'a list \<Rightarrow> bool" where
  "sorted_less lt \<equiv> sorted_wrt (\<lambda>x y. \<not> lt y x)"

lemma sorted_insert_less:
  assumes "strict_total lt (insert x (set xs))" and "sorted_less lt xs"
  shows "sorted_less lt (insert_less lt x xs)"
  using assms
proof (induction xs)
  case (Cons y ys)
  have IH: "sorted_less lt (insert_less lt x ys)"
    using Cons.prems by (intro Cons.IH) (auto intro: strict_total_subset)
  note tot = strict_totalD [OF Cons.prems(1)]
  show ?case
  proof (cases "lt y x")
    case True
    then have "\<not> lt x y" using tot(1,3) [of y] tot(3) by (meson insertI1 list.set_intros(1) insertCI)
    with True IH Cons.prems(2) show ?thesis by auto
  next
    case False
    have "\<not> lt z x" if "z \<in> set ys" for z
    proof
      assume "lt z x"
      have "\<not> lt z y" using Cons.prems(2) that by auto
      with that have "z = y \<or> lt y z" using tot(2) [of z y] by auto
      with \<open>lt z x\<close> False that show False using tot(3) [of y z x] by auto
    qed
    with False Cons.prems(2) show ?thesis by auto
  qed
qed simp

lemma sorted_sort_less: "strict_total lt (set xs) \<Longrightarrow> sorted_less lt (sort_less lt xs)"
proof (induction xs)
  case (Cons x xs)
  have "sorted_less lt (sort_less lt xs)"
    using Cons by (auto intro: strict_total_subset)
  then have "sorted_less lt (insert_less lt x (sort_less lt xs))"
    using Cons.prems by (intro sorted_insert_less) simp_all
  then show ?case by (simp add: sort_less_def)
qed (simp add: sort_less_def)

text \<open>Removing adjacent duplicates of a sorted list leaves the one strictly sorted list of its
  elements, so the result depends only on the set of elements.\<close>

lemma sorted_remdups_adj:
  assumes "strict_total lt (set xs)" and "sorted_less lt xs"
  shows "sorted_wrt lt (remdups_adj xs)"
  using assms
proof (induction xs rule: remdups_adj.induct)
  case (3 x y xs)
  note tot = strict_totalD [OF "3.prems"(1)]
  show ?case
  proof (cases "x = y")
    case True
    then show ?thesis using 3 by (auto intro: strict_total_subset)
  next
    case False
    have IH: "sorted_wrt lt (remdups_adj (y # xs))"
      using 3 False by (auto intro: strict_total_subset)
    have xy: "lt x y" using False tot(2) [of x y] "3.prems"(2) by auto
    have "lt x z" if "z \<in> set (y # xs)" for z
    proof (cases "z = y")
      case False
      then have "lt y z" using that tot(2) [of y z] "3.prems"(2) by auto
      then show ?thesis using xy that tot(3) [of x y z] by auto
    qed (simp add: xy)
    with IH \<open>x \<noteq> y\<close> show ?thesis by simp
  qed
qed simp_all

lemma strictly_sorted_unique:
  assumes "strict_total lt (set xs)" and "sorted_wrt lt xs" and "sorted_wrt lt ys" and "set xs = set ys"
  shows "xs = ys"
  using assms
proof (induction xs arbitrary: ys)
  case (Cons x xs)
  then obtain y ys' where ys: "ys = y # ys'" by (cases ys) auto
  note tot = strict_totalD [OF Cons.prems(1)]
  have notin: "x \<notin> set xs" "y \<notin> set ys'"
    using Cons.prems tot(1) by (auto simp: ys)
  have "x = y"
  proof (rule ccontr)
    assume "x \<noteq> y"
    then have "lt x y" "lt y x" using Cons.prems(2-4) by (auto simp: ys)
    then show False using tot(1) [of x] tot(3) [of x y x] Cons.prems(4) by (auto simp: ys)
  qed
  moreover have "set xs = set ys'"
    using Cons.prems(4) notin \<open>x = y\<close> by (auto simp: ys)
  ultimately show ?case
    using Cons.IH [of ys'] Cons.prems by (auto simp: ys intro: strict_total_subset)
qed simp

definition sort_unique :: "('a \<Rightarrow> 'a \<Rightarrow> bool) \<Rightarrow> 'a list \<Rightarrow> 'a list" where
  "sort_unique lt xs = remdups_adj (sort_less lt xs)"

lemma sort_unique_sorted:
  "strict_total lt (set xs) \<Longrightarrow> sorted_wrt lt (sort_unique lt xs)"
  unfolding sort_unique_def by (intro sorted_remdups_adj sorted_sort_less) simp_all

lemma set_sort_unique [simp]: "set (sort_unique lt xs) = set xs"
  by (simp add: sort_unique_def)

lemma sort_unique_cong:
  assumes "strict_total lt (set xs)" and "set xs = set ys"
  shows "sort_unique lt xs = sort_unique lt ys"
  using assms by (intro strictly_sorted_unique [of lt]) (simp_all add: sort_unique_sorted)

section \<open>Records as values\<close>

text \<open>What an identifier stands for. The guard holds in every pool the operations build.\<close>

function value_at :: "pool \<Rightarrow> nat \<Rightarrow> data" where
  "value_at p i =
     (case id_to_data p ! i of
        IMonostate \<Rightarrow> DNull
      | IStr s \<Rightarrow> DStr s
      | IBytes b \<Rightarrow> DBytes b
      | IU16 n \<Rightarrow> DU16 n
      | IU32 n \<Rightarrow> DU32 n
      | II32 n \<Rightarrow> DI32 n
      | IU64 n \<Rightarrow> DU64 n
      | IBool b \<Rightarrow> DBool b
      | IFloat f \<Rightarrow> DFloat f
      | IDouble f \<Rightarrow> DDouble f
      | IMap fs \<Rightarrow> DObject (map (\<lambda>(k, v). (str_at p k, if v < i then value_at p v else DNull)) fs)
      | IArray es \<Rightarrow> DArray (map (\<lambda>v. if v < i then value_at p v else DNull) es))"
  by pat_completeness auto
termination
  by (relation "measure snd") auto

declare value_at.simps [simp del]

text \<open>The content order on values.\<close>

fun data_index :: "data \<Rightarrow> nat" where
  "data_index DNull = 0"
| "data_index (DStr _) = 1"
| "data_index (DBytes _) = 2"
| "data_index (DU16 _) = 3"
| "data_index (DU32 _) = 4"
| "data_index (DI32 _) = 5"
| "data_index (DU64 _) = 6"
| "data_index (DBool _) = 7"
| "data_index (DFloat _) = 8"
| "data_index (DDouble _) = 9"
| "data_index (DObject _) = 10"
| "data_index (DArray _) = 11"

lemma lex_less_cong [fundef_cong]:
  assumes "xs = xs'" and "ys = ys'"
    and "\<And>x y. x \<in> set xs' \<Longrightarrow> y \<in> set ys' \<Longrightarrow> lt x y = lt' x y"
    and "\<And>x y. x \<in> set xs' \<Longrightarrow> y \<in> set ys' \<Longrightarrow> lt y x = lt' y x"
  shows "lex_less lt xs ys = lex_less lt' xs' ys'"
  unfolding assms(1,2) using assms(3,4)
proof (induction lt xs' ys' rule: lex_less.induct)
  case (3 lt x xs y ys)
  then show ?case by simp
qed simp_all

lemma size_member:
  fixes v :: data and fs :: "(string \<times> data) list"
  shows "(k, v) \<in> set fs \<Longrightarrow> size v < Suc (size_list (size_prod (\<lambda>x. 0) size) fs)"
    and "v \<in> set es \<Longrightarrow> size v < Suc (size_list size es)"
  by (induction fs, auto) (induction es, auto)

function value_less :: "data \<Rightarrow> data \<Rightarrow> bool" where
  "value_less x y =
     (if data_index x \<noteq> data_index y then data_index x < data_index y
      else case (x, y) of
        (DObject fx, DObject fy) \<Rightarrow>
          lex_less (\<lambda>u v. if fst u \<noteq> fst v then fst u < fst v else value_less (snd u) (snd v)) fx fy
      | (DArray ex, DArray ey) \<Rightarrow> lex_less value_less ex ey
      | (DStr a, DStr b) \<Rightarrow> a < b
      | (DBytes a, DBytes b) \<Rightarrow> a < b
      | (DU16 a, DU16 b) \<Rightarrow> a < b
      | (DU32 a, DU32 b) \<Rightarrow> a < b
      | (DI32 a, DI32 b) \<Rightarrow> sint a < sint b
      | (DU64 a, DU64 b) \<Rightarrow> a < b
      | (DBool a, DBool b) \<Rightarrow> a < b
      | (DFloat a, DFloat b) \<Rightarrow> ieee_less 8 23 (unat a) (unat b)
      | (DDouble a, DDouble b) \<Rightarrow> ieee_less 11 52 (unat a) (unat b)
      | _ \<Rightarrow> False)"
  by pat_completeness auto
termination
  by (relation "measure (\<lambda>(x, y). size x + size y)")
    (auto dest!: size_member)

declare value_less.simps [simp del]

section \<open>The content order is a strict total order\<close>

text \<open>Values without floating-point members, whose objects have strictly increasing keys like the
  \<open>std::map\<close> they come from.\<close>

fun plain :: "data \<Rightarrow> bool" where
  "plain (DFloat _) \<longleftrightarrow> False"
| "plain (DDouble _) \<longleftrightarrow> False"
| "plain (DObject fs) \<longleftrightarrow> sorted_wrt (<) (map fst fs) \<and> (\<forall>(k, v) \<in> set fs. plain v)"
| "plain (DArray es) \<longleftrightarrow> (\<forall>v \<in> set es. plain v)"
| "plain _ \<longleftrightarrow> True"

lemma strict_totalI:
  assumes "\<And>x. x \<in> A \<Longrightarrow> \<not> lt x x" and "\<And>x y. x \<in> A \<Longrightarrow> y \<in> A \<Longrightarrow> x \<noteq> y \<Longrightarrow> lt x y \<or> lt y x"
    and "\<And>x y z. x \<in> A \<Longrightarrow> y \<in> A \<Longrightarrow> z \<in> A \<Longrightarrow> lt x y \<Longrightarrow> lt y z \<Longrightarrow> lt x z"
  shows "strict_total lt A"
  using assms unfolding strict_total_def by blast

lemma lex_less_total:
  assumes tot: "strict_total lt A"
  shows "strict_total (lex_less lt) {xs. set xs \<subseteq> A}"
proof (rule strict_totalI)
  note t = strict_totalD [OF tot]
  show "\<not> lex_less lt xs xs" if "xs \<in> {xs. set xs \<subseteq> A}" for xs
    using that t(1) by (induction xs) auto
  show "lex_less lt xs ys \<or> lex_less lt ys xs" if "xs \<in> {xs. set xs \<subseteq> A}" "ys \<in> {xs. set xs \<subseteq> A}" "xs \<noteq> ys" for xs ys
    using that
  proof (induction xs arbitrary: ys)
    case (Cons x xs)
    then show ?case using t(2) [of x "hd ys"] by (cases ys) auto
  next
    case Nil
    then show ?case by (cases ys) auto
  qed
  show "lex_less lt xs zs"
    if "xs \<in> {xs. set xs \<subseteq> A}" "ys \<in> {xs. set xs \<subseteq> A}" "zs \<in> {xs. set xs \<subseteq> A}" "lex_less lt xs ys" "lex_less lt ys zs"
    for xs ys zs
    using that
  proof (induction xs arbitrary: ys zs)
    case Nil
    then show ?case by (cases ys; cases zs) auto
  next
    case (Cons x xs)
    obtain y ys' where ys: "ys = y # ys'" using Cons.prems(4) by (cases ys) simp_all
    obtain z zs' where "zs = z # zs'" using Cons.prems(5) by (cases zs) simp_all
    note eq = ys this
    have A: "x \<in> A" "y \<in> A" "z \<in> A" using Cons.prems by (auto simp: eq)
    show ?case
    proof (cases "x = y \<and> y = z")
      case True
      then show ?thesis using Cons.prems Cons.IH [of ys' zs'] t(1) [of x] A by (auto simp: eq)
    next
      case False
      have "lt x y \<or> x = y" using Cons.prems(4) t(2) [OF A(1,2)] by (auto simp: eq)
      moreover have "lt y z \<or> y = z" using Cons.prems(5) t(2) [OF A(2,3)] by (auto simp: eq)
      ultimately have "lt x z" using False t(3) [OF A] by blast
      then show ?thesis by (simp add: eq)
    qed
  qed
qed

definition field_less :: "('v \<Rightarrow> 'v \<Rightarrow> bool) \<Rightarrow> string \<times> 'v \<Rightarrow> string \<times> 'v \<Rightarrow> bool" where
  "field_less lt u v = (if fst u \<noteq> fst v then fst u < fst v else lt (snd u) (snd v))"

lemma field_less_total:
  assumes "strict_total lt A"
  shows "strict_total (field_less lt) {u. snd u \<in> A}"
proof (rule strict_totalI)
  note t = strict_totalD [OF assms]
  show "\<not> field_less lt u u" if "u \<in> {u. snd u \<in> A}" for u
    using that t(1) by (simp add: field_less_def)
  show "field_less lt u v \<or> field_less lt v u" if "u \<in> {u. snd u \<in> A}" "v \<in> {u. snd u \<in> A}" "u \<noteq> v" for u v
    using that t(2) [of "snd u" "snd v"] by (auto simp: field_less_def prod_eq_iff)
  show "field_less lt u w"
    if "u \<in> {u. snd u \<in> A}" "v \<in> {u. snd u \<in> A}" "w \<in> {u. snd u \<in> A}" "field_less lt u v" "field_less lt v w" for u v w
    using that t(3) [of "snd u" "snd v" "snd w"]
    by (auto simp: field_less_def split: if_splits dest: order.strict_trans)
qed

lemma data_index_cases:
  "data_index y = 0 \<longleftrightarrow> y = DNull" "data_index y = Suc 0 \<longleftrightarrow> (\<exists>s. y = DStr s)"
  "data_index y = 2 \<longleftrightarrow> (\<exists>b. y = DBytes b)" "data_index y = 3 \<longleftrightarrow> (\<exists>n. y = DU16 n)"
  "data_index y = 4 \<longleftrightarrow> (\<exists>n. y = DU32 n)" "data_index y = 5 \<longleftrightarrow> (\<exists>n. y = DI32 n)"
  "data_index y = 6 \<longleftrightarrow> (\<exists>n. y = DU64 n)" "data_index y = 7 \<longleftrightarrow> (\<exists>b. y = DBool b)"
  "data_index y = 8 \<longleftrightarrow> (\<exists>f. y = DFloat f)" "data_index y = 9 \<longleftrightarrow> (\<exists>f. y = DDouble f)"
  "data_index y = 10 \<longleftrightarrow> (\<exists>fs. y = DObject fs)" "data_index y = 11 \<longleftrightarrow> (\<exists>es. y = DArray es)"
  by (cases y; simp)+

lemma value_less_index:
  "data_index x \<noteq> data_index y \<Longrightarrow> value_less x y \<longleftrightarrow> data_index x < data_index y"
  by (subst value_less.simps) simp

lemma value_less_same:
  "value_less DNull DNull \<longleftrightarrow> False"
  "value_less (DStr s) (DStr s') \<longleftrightarrow> s < s'"
  "value_less (DBytes b) (DBytes b') \<longleftrightarrow> b < b'"
  "value_less (DU16 n2) (DU16 m2) \<longleftrightarrow> n2 < m2"
  "value_less (DU32 n4) (DU32 m4) \<longleftrightarrow> n4 < m4"
  "value_less (DI32 i) (DI32 j) \<longleftrightarrow> sint i < sint j"
  "value_less (DU64 n8) (DU64 m8) \<longleftrightarrow> n8 < m8"
  "value_less (DBool c) (DBool d) \<longleftrightarrow> c < d"
  "value_less (DObject fx) (DObject fy) \<longleftrightarrow>
     lex_less (field_less value_less) fx fy"
  "value_less (DArray ex) (DArray ey) \<longleftrightarrow> lex_less value_less ex ey"
  by (subst value_less.simps, simp add: field_less_def [abs_def])+

lemma value_less_total_size: "strict_total value_less {v. plain v \<and> size v < n}"
proof (induction n)
  case (Suc n)
  let ?A = "{v. plain v \<and> size v < n}"
  note arr = strict_totalD [OF lex_less_total [OF Suc]]
  note obj = strict_totalD [OF lex_less_total [OF field_less_total [OF Suc]]]
  have sint_total: "sint i < sint j \<or> sint j < sint i" if "i \<noteq> j" for i j :: u32
    using that signed_word_eqI [where 'a = int, of i j] by (meson linorder_neqE)
  have sub: "set es \<subseteq> ?A" if "plain (DArray es)" "size (DArray es) < Suc n" for es
    using that size_member(2) by fastforce
  have subo: "set fs \<subseteq> {u. snd u \<in> ?A}" if "plain (DObject fs)" "size (DObject fs) < Suc n" for fs
    using that size_member(1) by fastforce
  show ?case
  proof (rule strict_totalI)
    fix x assume "x \<in> {v. plain v \<and> size v < Suc n}"
    then show "\<not> value_less x x"
      using sub subo arr(1) obj(1) by (cases x) (auto simp: value_less_same)
  next
    fix x y assume xy: "x \<in> {v. plain v \<and> size v < Suc n}" "y \<in> {v. plain v \<and> size v < Suc n}" "x \<noteq> y"
    show "value_less x y \<or> value_less y x"
    proof (cases "data_index x = data_index y")
      case True
      then show ?thesis
        using xy sub subo arr(2) obj(2) sint_total by (cases x; cases y) (auto simp: value_less_same)
    qed (auto simp: value_less_index)
  next
    fix x y z assume xyz: "x \<in> {v. plain v \<and> size v < Suc n}" "y \<in> {v. plain v \<and> size v < Suc n}"
      "z \<in> {v. plain v \<and> size v < Suc n}" and less: "value_less x y" "value_less y z"
    have mono: "data_index x \<le> data_index y" "data_index y \<le> data_index z"
      using less value_less_index [of x y] value_less_index [of y z] by force+
    show "value_less x z"
    proof (cases "data_index x = data_index z")
      case True
      then have "data_index y = data_index x" "data_index z = data_index x" using mono by simp_all
      note idx = this
      show ?thesis
      proof (cases x)
        case (DObject fx)
        then obtain fy fz where "y = DObject fy" "z = DObject fz"
          using idx by (auto simp: data_index_cases)
        with DObject show ?thesis
          using obj(3) [of fx fy fz] subo xyz less by (simp add: value_less_same)
      next
        case (DArray ex)
        then obtain ey ez where "y = DArray ey" "z = DArray ez"
          using idx by (auto simp: data_index_cases)
        with DArray show ?thesis
          using arr(3) [of ex ey ez] sub xyz less by (simp add: value_less_same)
      qed (use idx less xyz in \<open>auto simp: value_less_same data_index_cases dest: order.strict_trans\<close>)
    qed (use mono in \<open>simp add: value_less_index\<close>)
  qed
qed (simp add: strict_total_def)

lemma value_less_total: "strict_total value_less {v. plain v}"
proof (rule strict_totalI)
  fix x y z assume "x \<in> {v. plain v}" "y \<in> {v. plain v}" "z \<in> {v. plain v}" "value_less x y" "value_less y z"
  then show "value_less x z"
    using strict_totalD(3) [OF value_less_total_size [of "Suc (size x + size y + size z)"], of x y z] by auto
next
  fix x y assume "x \<in> {v. plain v}" "y \<in> {v. plain v}" "x \<noteq> y"
  then show "value_less x y \<or> value_less y x"
    using strict_totalD(2) [OF value_less_total_size [of "Suc (size x + size y)"], of x y] by auto
next
  fix x assume "x \<in> {v. plain v}"
  then show "\<not> value_less x x"
    using strict_totalD(1) [OF value_less_total_size [of "Suc (size x)"], of x] by auto
qed

section \<open>Well-formed pools\<close>

fun refs :: "internal_data \<Rightarrow> nat set" where
  "refs (IMap fs) = (\<Union>(k, v) \<in> set fs. {k, v})"
| "refs (IArray es) = set es"
| "refs _ = {}"

fun is_float :: "internal_data \<Rightarrow> bool" where
  "is_float (IFloat _) \<longleftrightarrow> True"
| "is_float (IDouble _) \<longleftrightarrow> True"
| "is_float _ \<longleftrightarrow> False"

text \<open>A record that may be added to a pool: its members are there, and a map's keys are strings in
  strictly increasing order.\<close>

definition fields_ok :: "pool \<Rightarrow> (nat \<times> nat) list \<Rightarrow> bool" where
  "fields_ok p fs \<longleftrightarrow> sorted_wrt (<) (map (str_at p \<circ> fst) fs) \<and>
     (\<forall>(k, v) \<in> set fs. \<exists>s. id_to_data p ! k = IStr s)"

definition entry_ok :: "pool \<Rightarrow> nat \<Rightarrow> internal_data \<Rightarrow> bool" where
  "entry_ok p n d \<longleftrightarrow> \<not> is_float d \<and> d \<noteq> IMonostate \<and> (\<forall>j \<in> refs d. j < n) \<and>
     (\<forall>fs. d = IMap fs \<longrightarrow> fields_ok p fs)"

definition pool_ok :: "pool \<Rightarrow> bool" where
  "pool_ok p \<longleftrightarrow>
     id_to_data p \<noteq> [] \<and> id_to_data p ! 0 = IMonostate \<and> distinct (id_to_data p) \<and>
     (\<forall>i. 0 < i \<and> i < length (id_to_data p) \<longrightarrow> entry_ok p i (id_to_data p ! i)) \<and>
     data_to_id p = rev (map (\<lambda>i. (id_to_data p ! i, i)) [1..<length (id_to_data p)])"

abbreviation valid_id :: "pool \<Rightarrow> nat \<Rightarrow> bool" where
  "valid_id p i \<equiv> i < length (id_to_data p)"

definition extends :: "pool \<Rightarrow> pool \<Rightarrow> bool" where
  "extends p p' \<longleftrightarrow> (\<exists>xs. id_to_data p' = id_to_data p @ xs) \<and> row_sort_key p' = row_sort_key p"

lemma extends_refl [simp]: "extends p p"
  by (simp add: extends_def)

lemma extends_trans [trans]: "extends p q \<Longrightarrow> extends q r \<Longrightarrow> extends p r"
  by (auto simp: extends_def)

lemma extends_nth: "extends p p' \<Longrightarrow> valid_id p i \<Longrightarrow> id_to_data p' ! i = id_to_data p ! i"
  by (auto simp: extends_def nth_append)

lemma extends_valid: "extends p p' \<Longrightarrow> valid_id p i \<Longrightarrow> valid_id p' i"
  by (auto simp: extends_def)

lemma extends_str_at: "extends p p' \<Longrightarrow> valid_id p i \<Longrightarrow> str_at p' i = str_at p i"
  by (simp add: str_at_def extends_nth)

lemma pool_ok_entry: "pool_ok p \<Longrightarrow> 0 < i \<Longrightarrow> valid_id p i \<Longrightarrow> entry_ok p i (id_to_data p ! i)"
  by (simp add: pool_ok_def)

lemma pool_ok_refs: "pool_ok p \<Longrightarrow> valid_id p i \<Longrightarrow> j \<in> refs (id_to_data p ! i) \<Longrightarrow> j < i"
  by (cases "i = 0") (auto simp: pool_ok_def entry_ok_def)

lemma pool_ok_valid0 [simp]: "pool_ok p \<Longrightarrow> valid_id p 0"
  by (simp add: pool_ok_def)

lemma extends_value_at:
  assumes "pool_ok p" and "extends p p'"
  shows "valid_id p i \<Longrightarrow> value_at p' i = value_at p i"
proof (induction i rule: less_induct)
  case (less i)
  note nth = extends_nth [OF assms(2) less.prems]
  have members: "v < i \<and> value_at p' v = value_at p v" if "v \<in> refs (id_to_data p ! i)" for v
    using pool_ok_refs [OF assms(1) less.prems that] less by simp
  have keys: "str_at p' k = str_at p k" if "k \<in> refs (id_to_data p ! i)" for k
    using pool_ok_refs [OF assms(1) less.prems that] less.prems assms(2) by (intro extends_str_at) simp_all
  show ?case
    unfolding value_at.simps [of p' i] value_at.simps [of p i] nth
    using members keys by (cases "id_to_data p ! i") (fastforce intro!: map_cong)+
qed

lemma fields_ok_extends:
  assumes "extends p p'" and "fields_ok p fs" and "\<forall>j \<in> fst ` set fs. valid_id p j"
  shows "fields_ok p' fs"
proof -
  have "map (str_at p' \<circ> fst) fs = map (str_at p \<circ> fst) fs"
    using assms by (auto simp: extends_str_at)
  moreover have "id_to_data p' ! k = id_to_data p ! k" if "(k, v) \<in> set fs" for k v
    using assms(1,3) that by (force intro: extends_nth)
  then have "\<forall>(k, v) \<in> set fs. \<exists>s. id_to_data p' ! k = IStr s"
    using assms(2) by (auto simp: fields_ok_def)
  ultimately show ?thesis
    using assms(2) by (simp only: fields_ok_def)
qed

lemma entry_ok_extends:
  assumes "extends p p'" and "entry_ok p n d" and "n \<le> length (id_to_data p)"
  shows "entry_ok p' n d"
proof -
  have "fields_ok p' fs" if "d = IMap fs" for fs
    using assms that by (intro fields_ok_extends [OF assms(1)]) (force simp: entry_ok_def)+
  then show ?thesis using assms(2) by (simp add: entry_ok_def)
qed

lemma data_eq_iff: "\<not> is_float d \<Longrightarrow> data_eq k d \<longleftrightarrow> k = d"
  by (cases k; cases d) auto

lemma pool_ok_new: "pool_ok (set_row_sort_key pool_new key)"
  by (simp add: pool_ok_def pool_new_def set_row_sort_key_def)

lemma intern_spec:
  assumes "pool_ok p" and "entry_ok p (length (id_to_data p)) d" and "intern p d = (i, p')"
  shows "pool_ok p'" and "extends p p'" and "valid_id p' i" and "0 < i" and "id_to_data p' ! i = d"
proof -
  let ?n = "length (id_to_data p)"
  have table: "data_to_id p = rev (map (\<lambda>i. (id_to_data p ! i, i)) [1..<?n])" and "0 < ?n"
    and ids: "distinct (id_to_data p)" "id_to_data p ! 0 = IMonostate"
    using assms(1) by (simp_all add: pool_ok_def)
  have eq: "(\<lambda>(k, i). data_eq k d) = (\<lambda>(k, i). k = d)"
    using assms(2) by (auto simp: entry_ok_def data_eq_iff)
  have "pool_ok p' \<and> extends p p' \<and> valid_id p' i \<and> 0 < i \<and> id_to_data p' ! i = d"
  proof (cases "find (\<lambda>(k, i). data_eq k d) (data_to_id p)")
    case (Some ki)
    then have "ki \<in> set (data_to_id p)" "fst ki = d"
      using find_SomeD [OF Some] by (auto simp: eq)
    moreover have "i = snd ki" "p' = p"
      using Some assms(3) by (auto simp: intern_def split: prod.splits)
    ultimately show ?thesis using assms(1) by (auto simp: table)
  next
    case None
    have i: "i = ?n" and p': "p' = p\<lparr>id_to_data := id_to_data p @ [d], data_to_id := (d, ?n) # data_to_id p\<rparr>"
      using None assms(3) by (auto simp: intern_def Let_def)
    have ext: "extends p p'" by (simp add: p' extends_def)
    have "d \<notin> set (id_to_data p)"
    proof
      assume "d \<in> set (id_to_data p)"
      then obtain j where j: "j < ?n" "id_to_data p ! j = d" by (auto simp: in_set_conv_nth)
      have "j \<noteq> 0" using j(2) assms(2) ids(2) by (metis entry_ok_def)
      then have "(d, j) \<in> set (data_to_id p)" using j by (auto simp: table)
      then show False using None by (auto simp: eq find_None_iff)
    qed
    moreover have "entry_ok p' j (id_to_data p' ! j)" if "0 < j" "j < Suc ?n" for j
    proof (cases "j < ?n")
      case True
      then show ?thesis
        using entry_ok_extends [OF ext pool_ok_entry [OF assms(1) that(1) True]] extends_nth [OF ext True] by simp
    next
      case False
      then have "j = ?n" using that by simp
      then show ?thesis using entry_ok_extends [OF ext assms(2)] by (simp add: p')
    qed
    moreover have "(d, ?n) # data_to_id p = rev (map (\<lambda>i. ((id_to_data p @ [d]) ! i, i)) [1..<Suc ?n])"
      using \<open>0 < ?n\<close> by (auto simp: table nth_append Suc_leI simp del: length_greater_0_conv)
    ultimately have "pool_ok p'"
      unfolding pool_ok_def using ids \<open>0 < ?n\<close>
      by (simp add: p' nth_append Suc_leI del: length_greater_0_conv)
    then show ?thesis using ext \<open>0 < ?n\<close> by (simp add: i p' nth_append)
  qed
  then show "pool_ok p'" "extends p p'" "valid_id p' i" "0 < i" "id_to_data p' ! i = d" by auto
qed

section \<open>Identifiers are canonical\<close>

lemma value_at_map:
  assumes "pool_ok p" and "valid_id p i" and "id_to_data p ! i = IMap fs"
  shows "value_at p i = DObject (map (\<lambda>(k, v). (str_at p k, value_at p v)) fs)"
proof -
  have "v < i" if "(k, v) \<in> set fs" for k v
    using pool_ok_refs [OF assms(1,2), of v] assms(3) that by force
  then show ?thesis by (subst value_at.simps) (auto simp: assms(3))
qed

lemma value_at_array:
  assumes "pool_ok p" and "valid_id p i" and "id_to_data p ! i = IArray es"
  shows "value_at p i = DArray (map (value_at p) es)"
proof -
  have "v < i" if "v \<in> set es" for v
    using pool_ok_refs [OF assms(1,2), of v] assms(3) that by simp
  then show ?thesis by (subst value_at.simps) (auto simp: assms(3))
qed

lemma value_at_scalar:
  "id_to_data p ! i = IMonostate \<Longrightarrow> value_at p i = DNull"
  "id_to_data p ! i = IStr s \<Longrightarrow> value_at p i = DStr s"
  "id_to_data p ! i = IBytes b \<Longrightarrow> value_at p i = DBytes b"
  "id_to_data p ! i = IU16 n2 \<Longrightarrow> value_at p i = DU16 n2"
  "id_to_data p ! i = IU32 n4 \<Longrightarrow> value_at p i = DU32 n4"
  "id_to_data p ! i = II32 m4 \<Longrightarrow> value_at p i = DI32 m4"
  "id_to_data p ! i = IU64 n8 \<Longrightarrow> value_at p i = DU64 n8"
  "id_to_data p ! i = IBool c \<Longrightarrow> value_at p i = DBool c"
  by (subst value_at.simps, simp)+

lemma value_at_zero [simp]: "pool_ok p \<Longrightarrow> value_at p 0 = DNull"
  by (rule value_at_scalar) (simp add: pool_ok_def)

lemma no_float_at: "pool_ok p \<Longrightarrow> valid_id p i \<Longrightarrow> \<not> is_float (id_to_data p ! i)"
  by (cases "i = 0") (auto simp: pool_ok_def entry_ok_def)

lemma map_fields_at:
  assumes "pool_ok p" and "valid_id p i" and "id_to_data p ! i = IMap fs"
  shows "fields_ok p fs"
proof -
  have "0 < i" using assms by (cases "i = 0") (auto simp: pool_ok_def)
  then show ?thesis using pool_ok_entry [OF assms(1) _ assms(2)] assms(3) by (simp add: entry_ok_def)
qed

lemma data_index_value: "pool_ok p \<Longrightarrow> valid_id p i \<Longrightarrow> data_index (value_at p i) = variant_index (id_to_data p ! i)"
  by (subst value_at.simps) (simp split: internal_data.splits)

lemma nth_id_inject:
  "pool_ok p \<Longrightarrow> valid_id p i \<Longrightarrow> valid_id p j \<Longrightarrow> id_to_data p ! i = id_to_data p ! j \<longleftrightarrow> i = j"
  by (simp add: pool_ok_def nth_eq_iff_index_eq)

lemma str_at_inject:
  assumes "pool_ok p" and "valid_id p i" and "valid_id p j"
    and "id_to_data p ! i = IStr s" and "id_to_data p ! j = IStr t" and "str_at p i = str_at p j"
  shows "i = j"
  using assms nth_id_inject [OF assms(1-3)] by (simp add: str_at_def)

text \<open>Members of a record are valid.\<close>

lemma member_valid: "pool_ok p \<Longrightarrow> valid_id p i \<Longrightarrow> j \<in> refs (id_to_data p ! i) \<Longrightarrow> valid_id p j"
  using pool_ok_refs by fastforce

lemma fields_at:
  assumes "pool_ok p" and "valid_id p i" and "id_to_data p ! i = IMap fs" and "(k, v) \<in> set fs"
  shows "valid_id p k" and "valid_id p v" and "k < i" and "v < i" and "\<exists>s. id_to_data p ! k = IStr s"
proof -
  have "k \<in> refs (id_to_data p ! i)" "v \<in> refs (id_to_data p ! i)" using assms(3,4) by force+
  then show "valid_id p k" "valid_id p v" "k < i" "v < i"
    using member_valid [OF assms(1,2)] pool_ok_refs [OF assms(1,2)] by auto
  show "\<exists>s. id_to_data p ! k = IStr s"
    using map_fields_at [OF assms(1-3)] assms(4) by (auto simp: fields_ok_def)
qed

lemma value_at_inject:
  assumes "pool_ok p"
  shows "valid_id p i \<Longrightarrow> valid_id p j \<Longrightarrow> value_at p i = value_at p j \<Longrightarrow> i = j"
proof (induction i arbitrary: j rule: less_induct)
  case (less i)
  note ok = assms less.prems(1,2)
  have idx: "variant_index (id_to_data p ! i) = variant_index (id_to_data p ! j)"
    using data_index_value [OF assms less.prems(1)] data_index_value [OF assms less.prems(2)] less.prems(3) by simp
  have "id_to_data p ! i = id_to_data p ! j"
  proof (cases "id_to_data p ! i")
    case (IMap fs)
    then obtain gs where gs: "id_to_data p ! j = IMap gs" using idx by (cases "id_to_data p ! j") auto
    have eq: "map (\<lambda>(k, v). (str_at p k, value_at p v)) fs = map (\<lambda>(k, v). (str_at p k, value_at p v)) gs"
      using less.prems(3) value_at_map [OF assms less.prems(1) IMap] value_at_map [OF assms less.prems(2) gs] by simp
    then have len: "length fs = length gs" by (rule map_eq_imp_length_eq)
    have "fs = gs"
    proof (rule nth_equalityI [OF len])
      fix n assume n: "n < length fs"
      obtain k v where kv: "fs ! n = (k, v)" by fastforce
      obtain k' v' where kv': "gs ! n = (k', v')" by fastforce
      have "str_at p k = str_at p k'" "value_at p v = value_at p v'"
        using arg_cong [OF eq, of "\<lambda>xs. xs ! n"] n len kv kv' by simp_all
      moreover have "(k, v) \<in> set fs" "(k', v') \<in> set gs"
        using n len kv kv' nth_mem by metis+
      note f = fields_at [OF assms less.prems(1) IMap this(1)]
        and g = fields_at [OF assms less.prems(2) gs this(2)]
      ultimately have "k = k'" "v = v'"
        using str_at_inject [OF assms f(1) g(1)] f(5) g(5) less.IH [OF f(4,2) g(2)] by auto
      then show "fs ! n = gs ! n" by (simp add: kv kv')
    qed
    then show ?thesis by (simp add: IMap gs)
  next
    case (IArray es)
    then obtain ds where ds: "id_to_data p ! j = IArray ds" using idx by (cases "id_to_data p ! j") auto
    have eq: "map (value_at p) es = map (value_at p) ds"
      using less.prems(3) value_at_array [OF assms less.prems(1) IArray] value_at_array [OF assms less.prems(2) ds] by simp
    then have len: "length es = length ds" by (rule map_eq_imp_length_eq)
    have "es = ds"
    proof (rule nth_equalityI [OF len])
      fix n assume n: "n < length es"
      have "value_at p (es ! n) = value_at p (ds ! n)"
        using arg_cong [OF eq, of "\<lambda>xs. xs ! n"] n len by simp
      moreover have "es ! n \<in> refs (id_to_data p ! i)" "ds ! n \<in> refs (id_to_data p ! j)"
        using n len by (simp_all add: IArray ds)
      ultimately show "es ! n = ds ! n"
        using less.IH pool_ok_refs [OF assms less.prems(1)] member_valid [OF assms] less.prems by blast
    qed
    then show ?thesis by (simp add: IArray ds)
  qed (use idx less.prems(3) in \<open>cases "id_to_data p ! j"; simp add: value_at.simps [of p i] value_at.simps [of p j]\<close>)+
  then show ?case using nth_id_inject [OF ok] by simp
qed

lemma plain_value_at: "pool_ok p \<Longrightarrow> valid_id p i \<Longrightarrow> plain (value_at p i)"
proof (induction i rule: less_induct)
  case (less i)
  show ?case
  proof (cases "id_to_data p ! i")
    case (IMap fs)
    have "plain (value_at p v)" if "(k, v) \<in> set fs" for k v
      using fields_at [OF less.prems IMap that] less by simp
    moreover have "sorted_wrt (<) (map (str_at p \<circ> fst) fs)"
      using map_fields_at [OF less.prems IMap] by (simp add: fields_ok_def)
    ultimately show ?thesis
      by (auto simp: value_at_map [OF less.prems IMap] comp_def case_prod_beta)
  next
    case (IArray es)
    have "plain (value_at p v)" if "v \<in> set es" for v
      using that less pool_ok_refs [OF less.prems, of v] member_valid [OF less.prems, of v] by (simp add: IArray)
    then show ?thesis by (simp add: value_at_array [OF less.prems IArray])
  qed (use no_float_at [OF less.prems] in \<open>simp_all add: value_at.simps [of p i]\<close>)
qed

lemma lex_less_map: "lex_less lt (map f xs) (map f ys) \<longleftrightarrow> lex_less (\<lambda>x y. lt (f x) (f y)) xs ys"
  by (induction "\<lambda>x y. lt (f x) (f y)" xs ys rule: lex_less.induct) auto

lemma value_less_irrefl: "plain v \<Longrightarrow> \<not> value_less v v"
  using strict_totalD(1) [OF value_less_total] by simp

text \<open>The order on identifiers is the order on the values they stand for.\<close>

lemma less_data_fuel_value:
  assumes "pool_ok p"
  shows "valid_id p a \<Longrightarrow> valid_id p b \<Longrightarrow> a + b < n \<Longrightarrow>
    less_data_fuel n p a b = value_less (value_at p a) (value_at p b)"
proof (induction n arbitrary: a b)
  case (Suc n)
  note va = Suc.prems(1) and vb = Suc.prems(2)
  show ?case
  proof (cases "a = b")
    case True
    then show ?thesis using value_less_irrefl [OF plain_value_at [OF assms va]] by simp
  next
    case ab: False
    show ?thesis
    proof (cases "variant_index (id_to_data p ! a) = variant_index (id_to_data p ! b)")
      case False
      then show ?thesis
        using ab data_index_value [OF assms va] data_index_value [OF assms vb]
        by (simp add: Let_def value_less_index)
    next
      case idx: True
      show ?thesis
      proof (cases "id_to_data p ! a")
        case (IMap fs)
        then obtain gs where gs: "id_to_data p ! b = IMap gs" using idx by (cases "id_to_data p ! b") auto
        have "lex_less (\<lambda>x y. if fst x \<noteq> fst y then less_data_fuel n p (fst x) (fst y)
              else less_data_fuel n p (snd x) (snd y)) fs gs =
            lex_less (\<lambda>x y. field_less value_less (str_at p (fst x), value_at p (snd x))
              (str_at p (fst y), value_at p (snd y))) fs gs"
        proof (rule lex_less_cong [OF refl refl])
          have eq: "(if fst x \<noteq> fst y then less_data_fuel n p (fst x) (fst y) else less_data_fuel n p (snd x) (snd y)) =
              field_less value_less (str_at p (fst x), value_at p (snd x)) (str_at p (fst y), value_at p (snd y))"
            if "valid_id p (fst x)" "valid_id p (snd x)" "valid_id p (fst y)" "valid_id p (snd y)"
              "fst x + fst y < n" "snd x + snd y < n" "id_to_data p ! fst x = IStr s" "id_to_data p ! fst y = IStr t"
            for x y s t
            using that Suc.IH str_at_inject [OF assms that(1,3,7,8)]
            by (auto simp: field_less_def value_at_scalar(2) value_less_same str_at_def)
          fix x y assume "x \<in> set fs" "y \<in> set gs"
          then obtain k v k' v' where xy: "x = (k, v)" "y = (k', v')" "(k, v) \<in> set fs" "(k', v') \<in> set gs"
            by (metis surj_pair)
          note f = fields_at [OF assms va IMap xy(3)] and g = fields_at [OF assms vb gs xy(4)]
          show "(if fst x \<noteq> fst y then less_data_fuel n p (fst x) (fst y) else less_data_fuel n p (snd x) (snd y)) =
              field_less value_less (str_at p (fst x), value_at p (snd x)) (str_at p (fst y), value_at p (snd y))"
            and "(if fst y \<noteq> fst x then less_data_fuel n p (fst y) (fst x) else less_data_fuel n p (snd y) (snd x)) =
              field_less value_less (str_at p (fst y), value_at p (snd y)) (str_at p (fst x), value_at p (snd x))"
            using eq [of x y] eq [of y x] f g Suc.prems(3) xy(1,2) by auto
        qed
        then show ?thesis
          using ab by (simp add: IMap gs value_at_map [OF assms va IMap] value_at_map [OF assms vb gs]
              value_less_same lex_less_map case_prod_beta)
      next
        case (IArray es)
        then obtain ds where ds: "id_to_data p ! b = IArray ds" using idx by (cases "id_to_data p ! b") auto
        have m: "valid_id p x \<and> x < a" if "x \<in> set es" for x
          using that IArray pool_ok_refs [OF assms va, of x] member_valid [OF assms va, of x] by simp
        have m': "valid_id p x \<and> x < b" if "x \<in> set ds" for x
          using that ds pool_ok_refs [OF assms vb, of x] member_valid [OF assms vb, of x] by simp
        have "lex_less (less_data_fuel n p) es ds =
            lex_less (\<lambda>x y. value_less (value_at p x) (value_at p y)) es ds"
        proof (rule lex_less_cong [OF refl refl])
          fix x y assume "x \<in> set es" "y \<in> set ds"
          then show "less_data_fuel n p x y = value_less (value_at p x) (value_at p y)"
            and "less_data_fuel n p y x = value_less (value_at p y) (value_at p x)"
            using m [of x] m' [of y] Suc.prems(3) Suc.IH by auto
        qed
        then show ?thesis
          using ab by (simp add: IArray ds value_at_array [OF assms va IArray] value_at_array [OF assms vb ds]
              value_less_same lex_less_map)
      qed (use idx ab no_float_at [OF assms va] in
          \<open>cases "id_to_data p ! b"; simp add: value_at_scalar value_less_same Let_def\<close>)+
    qed
  qed
qed simp

lemma less_data_value:
  "pool_ok p \<Longrightarrow> valid_id p a \<Longrightarrow> valid_id p b \<Longrightarrow>
     less_data p a b = value_less (value_at p a) (value_at p b)"
  unfolding less_data_def by (rule less_data_fuel_value) simp_all

lemma less_data_total:
  assumes "pool_ok p"
  shows "strict_total (less_data p) {i. valid_id p i}"
proof (rule strict_totalI)
  note t = strict_totalD [OF value_less_total]
  note less = less_data_value [OF assms] and pl = plain_value_at [OF assms]
  show "\<not> less_data p x x" if "x \<in> {i. valid_id p i}" for x
    using that by (simp add: less value_less_irrefl pl)
  show "less_data p x y \<or> less_data p y x" if "x \<in> {i. valid_id p i}" "y \<in> {i. valid_id p i}" "x \<noteq> y" for x y
    using that t(2) [of "value_at p x" "value_at p y"] value_at_inject [OF assms] by (auto simp: less pl)
  show "less_data p x z"
    if "x \<in> {i. valid_id p i}" "y \<in> {i. valid_id p i}" "z \<in> {i. valid_id p i}" "less_data p x y" "less_data p y z" for x y z
    using that t(3) [of "value_at p x" "value_at p y" "value_at p z"] by (auto simp: less pl)
qed

end
