(* ===== verification/Pool_Merge.thy ===== *)
theory Pool_Merge
  imports Data_Pool
begin

text \<open>
  The record merge of the pool implements a merge on values (\<open>merge_values\<close>): the refinement of
  \<open>deep_merge\<close>, the round trip of \<open>store\<close>, and the independence of the merge of columnar records from the
  order of insertion. The locale \<open>record_pool\<close> is the interface that the tree of networks relies on.
\<close>

section \<open>Merging values\<close>

text \<open>What the merge means on values, without identifiers: nulls are neutral, equal values stay, arrays
  are concatenated, maps with the same keys whose members are arrays of one length are tables whose
  rows are united, sorted and deduplicated, other maps are merged key by key, and otherwise the second
  value wins.\<close>

fun elems :: "data \<Rightarrow> data list" where
  "elems (DArray es) = es"
| "elems _ = []"

definition table_rows :: "(string \<times> data) list \<Rightarrow> nat option" where
  "table_rows fs =
     (if fs \<noteq> [] \<and> (\<exists>n. \<forall>(k, v) \<in> set fs. \<exists>es. v = DArray es \<and> length es = n)
      then Some (length (elems (snd (hd fs)))) else None)"

definition table :: "(string \<times> data) list \<Rightarrow> nat \<Rightarrow> data list list" where
  "table fs n = map (\<lambda>r. map (\<lambda>(k, v). elems v ! r) fs) [0..<n]"

definition name_order :: "string \<Rightarrow> string list \<Rightarrow> nat list" where
  "name_order key names =
     (let ks = filter (\<lambda>c. names ! c = key) [0..<length names] in
      ks @ filter (\<lambda>c. ks = [] \<or> hd ks \<noteq> c) [0..<length names])"

definition table_columns :: "string list \<Rightarrow> data list list \<Rightarrow> (string \<times> data) list" where
  "table_columns names rows = map (\<lambda>c. (names ! c, DArray (map (\<lambda>row. row ! c) rows))) [0..<length names]"

definition merge_tables :: "string \<Rightarrow> (string \<times> data) list \<Rightarrow> nat \<Rightarrow> (string \<times> data) list \<Rightarrow> nat \<Rightarrow> (string \<times> data) list" where
  "merge_tables key fa ra fb rb =
     table_columns (map fst fa)
       (sort_unique (row_less value_less (name_order key (map fst fa))) (table fa ra @ table fb rb))"

function merge_values :: "string \<Rightarrow> data \<Rightarrow> data \<Rightarrow> data"
  and merge_objects :: "string \<Rightarrow> (string \<times> data) list \<Rightarrow> (string \<times> data) list \<Rightarrow> (string \<times> data) list" where
  "merge_values key x y =
     (if x = DNull then y else if y = DNull then x else if x = y then x
      else case (x, y) of
        (DArray ex, DArray ey) \<Rightarrow> DArray (ex @ ey)
      | (DObject fx, DObject fy) \<Rightarrow>
          (case (if map fst fx = map fst fy then table_rows fx else None,
                 if map fst fx = map fst fy then table_rows fy else None) of
             (Some rx, Some ry) \<Rightarrow> DObject (merge_tables key fx rx fy ry)
           | _ \<Rightarrow> DObject (merge_objects key fx fy))
      | _ \<Rightarrow> y)"
| "merge_objects key fx fy =
     (case (fx, fy) of
        ([], _) \<Rightarrow> fy
      | (_, []) \<Rightarrow> fx
      | ((kx, vx) # fx', (ky, vy) # fy') \<Rightarrow>
          if kx = ky then (kx, merge_values key vx vy) # merge_objects key fx' fy'
          else if kx < ky then (kx, vx) # merge_objects key fx' fy
          else (ky, vy) # merge_objects key fx fy')"
  by pat_completeness auto
termination
  by (relation "measure (\<lambda>x. case x of
      Inl (key, x, y) \<Rightarrow> 2 * (size x + size y)
    | Inr (key, fx, fy) \<Rightarrow> 2 * (size_list (size_prod (\<lambda>_. 0) size) fx + size_list (size_prod (\<lambda>_. 0) size) fy) + 1)") auto

declare merge_values.simps [simp del] merge_objects.simps [simp del]

lemma merge_objects_simps [simp]:
  "merge_objects key [] fy = fy"
  "merge_objects key ((kx, vx) # fx) [] = (kx, vx) # fx"
  "merge_objects key ((kx, vx) # fx) ((ky, vy) # fy) =
     (if kx = ky then (kx, merge_values key vx vy) # merge_objects key fx fy
      else if kx < ky then (kx, vx) # merge_objects key fx ((ky, vy) # fy)
      else (ky, vy) # merge_objects key ((kx, vx) # fx) fy)"
  by (simp_all add: merge_objects.simps)

lemma keys_merge_objects: "fst ` set (merge_objects key fx fy) = fst ` set fx \<union> fst ` set fy"
proof (induction "length fx + length fy" arbitrary: fx fy rule: less_induct)
  case less
  show ?case
  proof (cases fx; cases fy)
    fix u us w ws assume eq: "fx = u # us" "fy = w # ws"
    then show ?thesis
      using less [of us ws] less [of us fy] less [of fx ws]
      by (cases u; cases w) (auto simp: image_iff)
  qed (auto simp: merge_objects.simps)
qed

lemma sorted_merge_objects:
  "sorted_wrt (<) (map fst fx) \<Longrightarrow> sorted_wrt (<) (map fst fy) \<Longrightarrow> sorted_wrt (<) (map fst (merge_objects key fx fy))"
proof (induction "length fx + length fy" arbitrary: fx fy rule: less_induct)
  case less
  show ?case
  proof (cases fx)
    case (Cons u us)
    obtain ku vu where u: "u = (ku, vu)" by fastforce
    show ?thesis
    proof (cases fy)
      case (Cons w ws)
      obtain kw vw where w: "w = (kw, vw)" by fastforce
      note eq = \<open>fx = u # us\<close> u Cons w
      have IH: "sorted_wrt (<) (map fst (merge_objects key us ws))"
        "sorted_wrt (<) (map fst (merge_objects key us fy))" "sorted_wrt (<) (map fst (merge_objects key fx ws))"
        using less by (auto simp: eq)
      have above: "\<forall>k \<in> fst ` set us. ku < k" "\<forall>k \<in> fst ` set ws. kw < k"
        using less.prems by (auto simp: eq)
      have k: "fst ` set (merge_objects key us ws) = fst ` set us \<union> fst ` set ws"
        "fst ` set (merge_objects key us fy) = fst ` set us \<union> fst ` set fy"
        "fst ` set (merge_objects key fx ws) = fst ` set fx \<union> fst ` set ws"
        by (rule keys_merge_objects)+
      consider "ku = kw" | "ku < kw" | "kw < ku" using neqE by blast
      then show ?thesis
        using IH k above by cases (auto simp: eq dest: order.strict_trans)
    qed (use less.prems Cons u in simp)
  qed (use less.prems in simp)
qed

section \<open>Rows\<close>

lemma insert_less_map:
  assumes "\<And>x y. x \<in> S \<Longrightarrow> y \<in> S \<Longrightarrow> lt (f x) (f y) = lt' x y" and "x \<in> S" and "set xs \<subseteq> S"
  shows "insert_less lt (f x) (map f xs) = map f (insert_less lt' x xs)"
  using assms(2,3) by (induction xs) (auto simp: assms(1))

lemma sort_less_map:
  assumes "\<And>x y. x \<in> S \<Longrightarrow> y \<in> S \<Longrightarrow> lt (f x) (f y) = lt' x y" and "set xs \<subseteq> S"
  shows "sort_less lt (map f xs) = map f (sort_less lt' xs)"
  using assms(2)
proof (induction xs)
  case (Cons x xs)
  then have "sort_less lt (map f xs) = map f (sort_less lt' xs)" by simp
  then show ?case
    using insert_less_map [of S lt f lt' x "sort_less lt' xs"] assms(1) Cons.prems
    by (simp add: sort_less_def) (metis set_sort_less sort_less_def)
qed (simp add: sort_less_def)

lemma remdups_adj_map_inj_on: "inj_on f (set xs) \<Longrightarrow> remdups_adj (map f xs) = map f (remdups_adj xs)"
proof (induction xs rule: remdups_adj.induct)
  case (3 x y xs)
  have "f x = f y \<longleftrightarrow> x = y" using "3.prems" by (auto simp: inj_on_def)
  moreover have "inj_on f (set (y # xs))" "inj_on f (set (x # xs))"
    using "3.prems" by (auto intro: inj_on_subset)
  ultimately show ?case using 3 by simp
qed simp_all

lemma sort_unique_map:
  assumes "\<And>x y. x \<in> S \<Longrightarrow> y \<in> S \<Longrightarrow> lt (f x) (f y) = lt' x y" and "set xs \<subseteq> S" and "inj_on f S"
  shows "sort_unique lt (map f xs) = map f (sort_unique lt' xs)"
proof -
  have "inj_on f (set (sort_less lt' xs))" using assms(2,3) by (simp add: inj_on_subset)
  then show ?thesis
    using sort_less_map [of S lt f lt' xs] assms(1,2)
    by (simp add: sort_unique_def remdups_adj_map_inj_on)
qed

text \<open>Rows with entries in \<open>A\<close> and one per column.\<close>

abbreviation rows_in :: "'a set \<Rightarrow> nat \<Rightarrow> 'a list set" where
  "rows_in A n \<equiv> {row. length row = n \<and> set row \<subseteq> A}"

lemma row_less_total:
  assumes tot: "strict_total lt A" and cols: "set cs = {0..<n}"
  shows "strict_total (row_less lt cs) (rows_in A n)"
proof (rule strict_totalI)
  note t = strict_totalD [OF tot]
  show "\<not> row_less lt cs x x" for x
    by (induction cs) auto
  fix x y assume x: "x \<in> rows_in A n" and y: "y \<in> rows_in A n"
  have xA: "x ! c \<in> A" "y ! c \<in> A" if "c \<in> set cs" for c
    using that x y cols by auto
  {
    assume "x \<noteq> y"
    then obtain i where "i < n" "x ! i \<noteq> y ! i"
      using x y nth_equalityI [of x y] by (metis (mono_tags, lifting) mem_Collect_eq)
    then have "\<exists>c \<in> set cs. x ! c \<noteq> y ! c" using cols by auto
    moreover have "row_less lt ds x y \<or> row_less lt ds y x"
      if "set ds \<subseteq> set cs" "\<exists>c \<in> set ds. x ! c \<noteq> y ! c" for ds
      using that t(2) xA by (induction ds) auto
    ultimately show "row_less lt cs x y \<or> row_less lt cs y x" by blast
  }
  fix z assume z: "z \<in> rows_in A n" and less: "row_less lt cs x y" "row_less lt cs y z"
  have zA: "z ! c \<in> A" if "c \<in> set cs" for c using that z cols by auto
  have "row_less lt ds x z" if "set ds \<subseteq> set cs" "row_less lt ds x y" "row_less lt ds y z" for ds
    using that
  proof (induction ds)
    case (Cons c ds)
    have A: "x ! c \<in> A" "y ! c \<in> A" "z ! c \<in> A" using Cons.prems xA zA by auto
    show ?case
    proof (cases "x ! c = y ! c \<and> y ! c = z ! c")
      case False
      then have "lt (x ! c) (z ! c)" using Cons.prems(2,3) t(3) [OF A] by (auto split: if_splits)
      moreover from this have "x ! c \<noteq> z ! c" using t(1) A by metis
      ultimately show ?thesis by simp
    qed (use Cons in auto)
  qed simp
  then show "row_less lt cs x z" using less by blast
qed

lemma set_name_order: "set (name_order key names) = {0..<length names}"
proof -
  let ?ks = "filter (\<lambda>c. names ! c = key) [0..<length names]"
  have "hd ?ks \<in> set ?ks" if "?ks \<noteq> []" using that by (rule hd_in_set)
  then show ?thesis by (auto simp: name_order_def Let_def)
qed

lemma row_less_map:
  assumes "inj_on f A" and "\<And>x y. x \<in> A \<Longrightarrow> y \<in> A \<Longrightarrow> lt (f x) (f y) = lt' x y"
    and "x \<in> rows_in A n" and "y \<in> rows_in A n" and "set cs \<subseteq> {0..<n}"
  shows "row_less lt cs (map f x) (map f y) = row_less lt' cs x y"
  using assms(5)
proof (induction cs)
  case (Cons c cs)
  then have "x ! c \<in> A" "y ! c \<in> A" "c < n" "length x = n" "length y = n" using assms(3,4) by auto
  moreover from this have "f (x ! c) = f (y ! c) \<longleftrightarrow> x ! c = y ! c" using assms(1) by (auto simp: inj_on_def)
  ultimately show ?case using Cons assms(2) by simp
qed simp

section \<open>The pool implements the merge of values\<close>

abbreviation fields_value :: "pool \<Rightarrow> (nat \<times> nat) list \<Rightarrow> (string \<times> data) list" where
  "fields_value p fs \<equiv> map (\<lambda>(k, v). (str_at p k, value_at p v)) fs"

definition fields_valid :: "pool \<Rightarrow> (nat \<times> nat) list \<Rightarrow> bool" where
  "fields_valid p fs \<longleftrightarrow> (\<forall>(k, v) \<in> set fs. valid_id p k \<and> valid_id p v \<and> (\<exists>s. id_to_data p ! k = IStr s))"

lemma fields_valid_at:
  assumes "pool_ok p" and "valid_id p i" and "id_to_data p ! i = IMap fs"
  shows "fields_valid p fs"
  unfolding fields_valid_def
proof (clarify, intro conjI)
  fix k v assume "(k, v) \<in> set fs"
  from fields_at [OF assms this]
  show "valid_id p k" "valid_id p v" "\<exists>s. id_to_data p ! k = IStr s" by simp_all
qed

lemma fields_validD:
  "fields_valid p fs \<Longrightarrow> (k, v) \<in> set fs \<Longrightarrow> valid_id p k \<and> valid_id p v \<and> (\<exists>s. id_to_data p ! k = IStr s)"
  by (auto simp: fields_valid_def)

lemma fields_valid_extends:
  assumes "pool_ok p" and "extends p p'" and "fields_valid p fs"
  shows "fields_valid p' fs" and "fields_value p' fs = fields_value p fs"
  using assms extends_valid [OF assms(2)] extends_nth [OF assms(2)] extends_str_at [OF assms(2)]
    extends_value_at [OF assms(1,2)]
  by (auto simp: fields_valid_def)

text \<open>Two keys are the same identifier exactly when they are the same string.\<close>

lemma keys_eq:
  assumes "pool_ok p" and "fields_valid p fa" and "fields_valid p fb"
  shows "map fst fa = map fst fb \<longleftrightarrow> map fst (fields_value p fa) = map fst (fields_value p fb)"
proof -
  have names: "map fst (fields_value p fs) = map (str_at p) (map fst fs)" for fs
    by (simp add: comp_def case_prod_beta)
  have "inj_on (str_at p) (set (map fst fa) \<union> set (map fst fb))"
  proof (rule inj_onI)
    have key: "valid_id p k \<and> (\<exists>s. id_to_data p ! k = IStr s)" if "k \<in> set (map fst fa) \<union> set (map fst fb)" for k
      using that fields_validD [OF assms(2)] fields_validD [OF assms(3)] by auto
    fix k k' assume "k \<in> set (map fst fa) \<union> set (map fst fb)" "k' \<in> set (map fst fa) \<union> set (map fst fb)"
      "str_at p k = str_at p k'"
    then show "k = k'" using key [of k] key [of k'] str_at_inject [OF assms(1)] by blast
  qed
  then show ?thesis unfolding names using inj_on_map_eq_map by blast
qed

lemma columnar_loop_Some:
  "columnar_loop p fs (Some r) =
     (if \<forall>(k, v) \<in> set fs. \<exists>es. id_to_data p ! v = IArray es \<and> length es = r then Some r else None)"
  by (induction p fs "Some r" rule: columnar_loop.induct) (auto split: internal_data.splits)

lemma value_is_array:
  assumes "pool_ok p" and "valid_id p v"
  shows "(\<exists>es. value_at p v = DArray es \<and> length es = n) \<longleftrightarrow> (\<exists>es. id_to_data p ! v = IArray es \<and> length es = n)"
  using value_at_array [OF assms] data_index_value [OF assms]
  by (cases "id_to_data p ! v") (auto simp: data_index_cases)

lemma columnar_rows_value:
  assumes "pool_ok p" and "fields_valid p fs"
  shows "columnar_rows p fs = table_rows (fields_value p fs)"
proof (cases fs)
  case (Cons f fs')
  obtain k v where f: "f = (k, v)" by fastforce
  have v: "valid_id p v" using assms(2) by (auto simp: Cons f fields_valid_def)
  let ?arr = "\<lambda>n. \<forall>(k, v) \<in> set fs. \<exists>es. id_to_data p ! v = IArray es \<and> length es = n"
  have all: "(\<forall>(k, v) \<in> set (fields_value p fs). \<exists>es. v = DArray es \<and> length es = n) \<longleftrightarrow> ?arr n" for n
  proof -
    have "(\<exists>es. value_at p (snd x) = DArray es \<and> length es = n) \<longleftrightarrow>
        (\<exists>es. id_to_data p ! snd x = IArray es \<and> length es = n)" if "x \<in> set fs" for x
      using fields_validD [OF assms(2), of "fst x" "snd x"] that by (intro value_is_array [OF assms(1)]) simp
    then show ?thesis by (simp add: case_prod_beta)
  qed
  show ?thesis
  proof (cases "id_to_data p ! v")
    case (IArray es)
    have "columnar_rows p fs = (if ?arr (length es) then Some (length es) else None)"
      by (simp add: columnar_rows_def Cons f IArray columnar_loop_Some)
    moreover have "(\<exists>n. ?arr n) \<longleftrightarrow> ?arr (length es)"
    proof
      assume "\<exists>n. ?arr n"
      then obtain n where n: "?arr n" ..
      then have "n = length es" by (simp add: Cons f IArray)
      with n show "?arr (length es)" by simp
    qed blast
    moreover have "length (elems (snd (hd (fields_value p fs)))) = length es" "fields_value p fs \<noteq> []"
      by (simp_all add: Cons f value_at_array [OF assms(1) v IArray])
    ultimately show ?thesis
      unfolding table_rows_def all by (simp only: simp_thms)
  qed (use all in \<open>simp_all add: columnar_rows_def table_rows_def Cons f\<close>)
qed (simp add: columnar_rows_def table_rows_def)

lemma rows_of_value:
  assumes "pool_ok p" and "fields_valid p fs" and "columnar_rows p fs = Some n"
  shows "table (fields_value p fs) n = map (map (value_at p)) (rows_of p fs n)"
    and "set (rows_of p fs n) \<subseteq> rows_in {i. valid_id p i} (length fs)"
proof -
  have arr: "\<exists>es. id_to_data p ! v = IArray es \<and> length es = n" if "(k, v) \<in> set fs" for k v
  proof -
    have "fs \<noteq> []" using that by auto
    then obtain k0 v0 fs' where fs: "fs = (k0, v0) # fs'" by (cases fs) auto
    then obtain es where "id_to_data p ! v0 = IArray es"
      using assms(3) by (auto simp: columnar_rows_def split: internal_data.splits)
    with assms(3) that show ?thesis
      by (auto simp: columnar_rows_def fs columnar_loop_Some split: if_splits)
  qed
  have el: "elems (value_at p v) ! r = value_at p (elements_at p v ! r) \<and> valid_id p (elements_at p v ! r)"
    if "(k, v) \<in> set fs" "r < n" for k v r
  proof -
    note kv = that
    obtain es where es: "id_to_data p ! v = IArray es" "length es = n" using arr [OF kv(1)] by blast
    have v: "valid_id p v" using assms(2) that(1) by (auto simp: fields_valid_def)
    have "valid_id p (es ! r)" using member_valid [OF assms(1) v, of "es ! r"] es that(2) by simp
    then show ?thesis using es that(2) by (simp add: value_at_array [OF assms(1) v es(1)] elements_at_def)
  qed
  then show "table (fields_value p fs) n = map (map (value_at p)) (rows_of p fs n)"
    by (fastforce simp: table_def rows_of_def)
  show "set (rows_of p fs n) \<subseteq> rows_in {i. valid_id p i} (length fs)"
    using el by (fastforce simp: rows_of_def)
qed

lemma column_order_value:
  "column_order p fs = name_order (row_sort_key p) (map fst (fields_value p fs))"
proof -
  have "filter (\<lambda>c. map fst (fields_value p fs) ! c = row_sort_key p) [0..<length fs] =
      filter (\<lambda>c. str_at p (fst (fs ! c)) = row_sort_key p) [0..<length fs]"
    by (rule filter_cong) (simp_all add: case_prod_beta)
  then show ?thesis by (simp only: column_order_def name_order_def Let_def length_map)
qed

lemma intern_array_spec:
  assumes "pool_ok p" and "\<forall>e \<in> set es. valid_id p e" and "intern p (IArray es) = (i, p')"
  shows "pool_ok p'" and "extends p p'" and "valid_id p' i" and "0 < i"
    and "value_at p' i = DArray (map (value_at p) es)"
proof -
  have "entry_ok p (length (id_to_data p)) (IArray es)" using assms(2) by (simp add: entry_ok_def)
  note s = intern_spec [OF assms(1) this assms(3)]
  show "pool_ok p'" "extends p p'" "valid_id p' i" "0 < i" using s by simp_all
  have "map (value_at p') es = map (value_at p) es"
    using extends_value_at [OF assms(1) s(2)] assms(2) by simp
  then show "value_at p' i = DArray (map (value_at p) es)"
    using value_at_array [OF s(1,3,5)] by simp
qed

lemma intern_map_spec:
  assumes "pool_ok p" and "fields_valid p fs" and "fields_ok p fs" and "intern p (IMap fs) = (i, p')"
  shows "pool_ok p'" and "extends p p'" and "valid_id p' i" and "0 < i"
    and "value_at p' i = DObject (fields_value p fs)"
proof -
  have "entry_ok p (length (id_to_data p)) (IMap fs)"
    using assms(2,3) by (auto simp: entry_ok_def fields_valid_def)
  note s = intern_spec [OF assms(1) this assms(4)]
  show "pool_ok p'" "extends p p'" "valid_id p' i" "0 < i" using s by simp_all
  show "value_at p' i = DObject (fields_value p fs)"
    using value_at_map [OF s(1,3,5)] fields_valid_extends(2) [OF assms(1) s(2) assms(2)] by simp
qed

lemma intern_columns_spec:
  assumes "pool_ok p" and "fields_valid p fs" and "\<forall>row \<in> set rows. \<forall>c < n. valid_id p (row ! c)"
    and "c + length fs \<le> n" and "intern_columns p fs c rows = (merged, p')"
  shows "pool_ok p' \<and> extends p p' \<and> fields_valid p' merged \<and> map fst merged = map fst fs \<and>
    fields_value p' merged =
      map (\<lambda>(d, (k, v)). (str_at p k, DArray (map (\<lambda>row. value_at p (row ! d)) rows))) (enumerate c fs)"
  using assms
proof (induction fs arbitrary: p c merged p')
  case (Cons f fs)
  obtain k v where f: "f = (k, v)" by fastforce
  obtain i q where iq: "intern p (IArray (map (\<lambda>row. row ! c) rows)) = (i, q)" by fastforce
  obtain ms where ms: "intern_columns q fs (c + 1) rows = (ms, p')" "merged = (k, i) # ms"
    using Cons.prems(5) iq by (auto simp: f split: prod.splits)
  have col: "\<forall>e \<in> set (map (\<lambda>row. row ! c) rows). valid_id p e"
    using Cons.prems(3,4) by auto
  note s = intern_array_spec [OF Cons.prems(1) col iq]
  have fs: "fields_valid p fs" and k: "valid_id p k" "\<exists>s. id_to_data p ! k = IStr s"
    using Cons.prems(2) by (auto simp: f fields_valid_def)
  note q = fields_valid_extends [OF Cons.prems(1) s(2) fs]
  have rows: "\<forall>row \<in> set rows. \<forall>c < n. valid_id q (row ! c)"
    using Cons.prems(3) extends_valid [OF s(2)] by blast
  have len: "c + 1 + length fs \<le> n" using Cons.prems(4) by simp
  from Cons.IH [OF s(1) q(1) rows len ms(1)]
  have IH: "pool_ok p'" "extends q p'" "fields_valid p' ms" "map fst ms = map fst fs"
    "fields_value p' ms = map (\<lambda>(d, (k, v)). (str_at q k, DArray (map (\<lambda>row. value_at q (row ! d)) rows))) (enumerate (c + 1) fs)"
    by blast+
  have ext: "extends p p'" using s(2) IH(2) by (rule extends_trans)
  have kk: "valid_id p' k" "\<exists>s. id_to_data p' ! k = IStr s" "str_at p' k = str_at p k"
    using extends_valid [OF ext] extends_nth [OF ext] extends_str_at [OF ext] k by auto
  have i: "valid_id p' i" "value_at p' i = DArray (map (\<lambda>row. value_at p (row ! c)) rows)"
    using extends_valid [OF IH(2) s(3)] extends_value_at [OF s(1) IH(2) s(3)] s(5) by (simp_all add: comp_def)
  have "map (\<lambda>(d, (k, v)). (str_at q k, DArray (map (\<lambda>row. value_at q (row ! d)) rows))) (enumerate (c + 1) fs) =
      map (\<lambda>(d, (k, v)). (str_at p k, DArray (map (\<lambda>row. value_at p (row ! d)) rows))) (enumerate (c + 1) fs)"
  proof (rule map_cong [OF refl], clarify)
    fix d k v assume "(d, (k, v)) \<in> set (enumerate (c + 1) fs)"
    then have "d < n" "(k, v) \<in> set fs" using len nth_mem [of "d - (c + 1)" fs] by (auto simp: in_set_enumerate_eq)
    then show "str_at q k = str_at p k \<and> DArray (map (\<lambda>row. value_at q (row ! d)) rows) = DArray (map (\<lambda>row. value_at p (row ! d)) rows)"
      using extends_str_at [OF s(2)] extends_value_at [OF Cons.prems(1) s(2)] Cons.prems(3) fields_validD [OF fs]
      by auto
  qed
  then show ?case
    using IH ext kk i by (auto simp: ms(2) f fields_valid_def)
qed simp

lemma merge_columnar_spec:
  assumes ok: "pool_ok p" and a: "fields_valid p ma" "fields_ok p ma" "columnar_rows p ma = Some ra"
    and b: "fields_valid p mb" "columnar_rows p mb = Some rb" and keys: "map fst ma = map fst mb"
    and m: "merge_columnar p ma ra mb rb = (i, p')"
  shows "pool_ok p' \<and> extends p p' \<and> valid_id p' i \<and> 0 < i \<and>
    value_at p' i = DObject (merge_tables (row_sort_key p) (fields_value p ma) ra (fields_value p mb) rb)"
proof -
  let ?n = "length ma" and ?order = "column_order p ma" and ?V = "{j. valid_id p j}"
  have len: "length mb = ?n" using keys by (metis length_map)
  let ?rows = "rows_of p ma ra @ rows_of p mb rb"
  have in_rows: "set ?rows \<subseteq> rows_in ?V ?n"
    using rows_of_value(2) [OF ok a(1,3)] rows_of_value(2) [OF ok b] by (auto simp: len)
  have order: "set ?order = {0..<?n}" by (simp add: column_order_value set_name_order)
  let ?sorted = "sort_unique (row_less (less_data p) ?order) ?rows"
  have inj: "inj_on (value_at p) ?V" using value_at_inject [OF ok] by (auto intro: inj_onI)
  have injr: "inj_on (map (value_at p)) (rows_in ?V ?n)"
    using inj inj_on_map_eq_map unfolding inj_on_def by (smt (verit) mem_Collect_eq nth_equalityI length_map nth_map subsetD nth_mem)
  have sorted: "sort_unique (row_less value_less ?order) (map (map (value_at p)) ?rows) = map (map (value_at p)) ?sorted"
  proof (rule sort_unique_map [OF _ in_rows injr])
    fix x y assume "x \<in> rows_in ?V ?n" "y \<in> rows_in ?V ?n"
    then show "row_less value_less ?order (map (value_at p) x) (map (value_at p) y) = row_less (less_data p) ?order x y"
      using order less_data_value [OF ok] by (intro row_less_map [OF inj]) auto
  qed
  have valid: "\<forall>row \<in> set ?sorted. \<forall>c < ?n. valid_id p (row ! c)"
  proof (intro ballI allI impI)
    fix row c assume "row \<in> set ?sorted" and c: "c < ?n"
    then have "length row = ?n" "set row \<subseteq> ?V" using in_rows by auto
    then show "valid_id p (row ! c)" using c subsetD [OF _ nth_mem, of row ?V c] by simp
  qed
  obtain merged q where q: "intern_columns p ma 0 ?sorted = (merged, q)" by fastforce
  have i: "intern q (IMap merged) = (i, p')"
    using m q by (simp add: merge_columnar_def Let_def sort_unique_def)
  from intern_columns_spec [OF ok a(1) valid _ q]
  have s: "pool_ok q" "extends p q" "fields_valid q merged" "map fst merged = map fst ma"
    "fields_value q merged = map (\<lambda>(d, (k, v)). (str_at p k, DArray (map (\<lambda>row. value_at p (row ! d)) ?sorted))) (enumerate 0 ma)"
    by auto
  have "fields_ok q ma"
    using fields_validD [OF a(1)] by (intro fields_ok_extends [OF s(2) a(2)]) auto
  then have "fields_ok q merged"
    using s(3,4) by (auto simp: fields_ok_def fields_valid_def simp flip: map_map)
  note r = intern_map_spec [OF s(1,3) this i]
  have "fields_value q merged = merge_tables (row_sort_key p) (fields_value p ma) ra (fields_value p mb) rb"
  proof -
    have t: "table (fields_value p ma) ra @ table (fields_value p mb) rb = map (map (value_at p)) ?rows"
      using rows_of_value(1) [OF ok a(1,3)] rows_of_value(1) [OF ok b] by simp
    have "merge_tables (row_sort_key p) (fields_value p ma) ra (fields_value p mb) rb =
        table_columns (map fst (fields_value p ma)) (map (map (value_at p)) ?sorted)"
      unfolding merge_tables_def t using sorted by (simp only: column_order_value)
    also have "\<dots> = fields_value q merged"
    proof (rule nth_equalityI)
      show "length (table_columns (map fst (fields_value p ma)) (map (map (value_at p)) ?sorted)) = length (fields_value q merged)"
        by (simp add: s(5) table_columns_def del: length_map) simp
      fix c assume "c < length (table_columns (map fst (fields_value p ma)) (map (map (value_at p)) ?sorted))"
      then have c: "c < ?n" by (simp add: table_columns_def)
      have "length row = ?n" if "row \<in> set ?sorted" for row using that in_rows by auto
      then show "table_columns (map fst (fields_value p ma)) (map (map (value_at p)) ?sorted) ! c = fields_value q merged ! c"
        using c by (simp add: s(5) table_columns_def nth_enumerate_eq case_prod_beta del: set_sort_unique)
    qed
    finally show ?thesis by simp
  qed
  then show ?thesis using r s(1,2) extends_trans by auto
qed

text \<open>What a merge of two records promises, for identifiers whose sum is below \<open>n\<close>.\<close>

definition merges :: "(pool \<Rightarrow> nat \<Rightarrow> nat \<Rightarrow> nat \<times> pool) \<Rightarrow> nat \<Rightarrow> bool" where
  "merges merge n \<longleftrightarrow> (\<forall>p a b. pool_ok p \<longrightarrow> valid_id p a \<longrightarrow> valid_id p b \<longrightarrow> a + b < n \<longrightarrow>
     (let (i, p') = merge p a b in pool_ok p' \<and> extends p p' \<and> valid_id p' i \<and>
        value_at p' i = merge_values (row_sort_key p) (value_at p a) (value_at p b)))"

lemma mergesD:
  "merges merge n \<Longrightarrow> pool_ok p \<Longrightarrow> valid_id p a \<Longrightarrow> valid_id p b \<Longrightarrow> a + b < n \<Longrightarrow> merge p a b = (i, p') \<Longrightarrow>
     pool_ok p' \<and> extends p p' \<and> valid_id p' i \<and>
     value_at p' i = merge_values (row_sort_key p) (value_at p a) (value_at p b)"
  unfolding merges_def by (metis (mono_tags, lifting) case_prod_conv)

lemma fields_valid_Cons:
  "fields_valid p ((k, v) # fs) \<longleftrightarrow>
     valid_id p k \<and> valid_id p v \<and> (\<exists>s. id_to_data p ! k = IStr s) \<and> fields_valid p fs"
  by (auto simp: fields_valid_def)

lemma extends_key:
  "extends p p' \<Longrightarrow> row_sort_key p' = row_sort_key p"
  by (simp add: extends_def)

lemma merge_fields_spec:
  assumes "merges merge n" and "pool_ok p" and "fields_valid p fa" and "fields_valid p fb"
    and "\<forall>(k, v) \<in> set fa. \<forall>(k', v') \<in> set fb. v + v' < n"
    and "merge_fields merge p fa fb = (fs, p')"
  shows "pool_ok p' \<and> extends p p' \<and> fields_valid p' fs \<and>
    fields_value p' fs = merge_objects (row_sort_key p) (fields_value p fa) (fields_value p fb)"
  using assms
proof (induction merge p fa fb arbitrary: fs p' rule: merge_fields.induct)
  case (3 merge p ka va fa kb vb fb)
  have va: "valid_id p ka" "valid_id p va" "\<exists>s. id_to_data p ! ka = IStr s" "fields_valid p fa"
    and vb: "valid_id p kb" "valid_id p vb" "\<exists>s. id_to_data p ! kb = IStr s" "fields_valid p fb"
    using "3.prems"(3,4) by (simp_all add: fields_valid_Cons)
  have sum: "va + vb < n" "\<forall>(k, v) \<in> set fa. \<forall>(k', v') \<in> set fb. v + v' < n"
    "\<forall>(k, v) \<in> set fa. \<forall>(k', v') \<in> set ((kb, vb) # fb). v + v' < n"
    "\<forall>(k, v) \<in> set ((ka, va) # fa). \<forall>(k', v') \<in> set fb. v + v' < n"
    using "3.prems"(5) by auto
  have keys: "ka = kb \<longleftrightarrow> str_at p ka = str_at p kb"
    using str_at_inject [OF "3.prems"(2) va(1) vb(1)] va(3) vb(3) by auto
  have carry: "fields_valid p' ((k, i) # gs) \<and> str_at p' k = str_at p k"
    if "extends p p'" "fields_valid p' gs" "valid_id p k" "\<exists>s. id_to_data p ! k = IStr s" "valid_id p' i" for k i gs
    using that extends_valid [OF that(1)] extends_nth [OF that(1)] extends_str_at [OF that(1)]
    by (simp add: fields_valid_Cons)
  consider (eq) "ka = kb" | (lt) "ka \<noteq> kb" "str_at p ka < str_at p kb" | (gt) "ka \<noteq> kb" "\<not> str_at p ka < str_at p kb"
    by blast
  then show ?case
  proof cases
    case eq
    obtain v q where q: "merge p va vb = (v, q)" by fastforce
    obtain gs where gs: "merge_fields merge q fa fb = (gs, p')" "fs = (ka, v) # gs"
      using "3.prems"(6) eq q by (auto split: prod.splits)
    from mergesD [OF "3.prems"(1,2) va(2) vb(2) sum(1) q]
    have m: "pool_ok q" "extends p q" "valid_id q v"
      "value_at q v = merge_values (row_sort_key p) (value_at p va) (value_at p vb)" by blast+
    note fa = fields_valid_extends [OF "3.prems"(2) m(2) va(4)]
    note fb = fields_valid_extends [OF "3.prems"(2) m(2) vb(4)]
    have r: "pool_ok p'" "extends q p'" "fields_valid p' gs"
      "fields_value p' gs = merge_objects (row_sort_key q) (fields_value q fa) (fields_value q fb)"
      using "3.IH"(1) [OF eq q [symmetric] refl "3.prems"(1) m(1) fa(1) fb(1) sum(2) gs(1)] by blast+
    have ext: "extends p p'" using m(2) r(2) by (rule extends_trans)
    have v: "valid_id p' v" "value_at p' v = value_at q v"
      using extends_valid [OF r(2) m(3)] extends_value_at [OF m(1) r(2) m(3)] by simp_all
    show ?thesis
      using carry [OF ext r(3) va(1,3) v(1)] r ext eq fa(2) fb(2) v(2) m(4) extends_key [OF m(2)] gs(2) by simp
  next
    case lt
    obtain gs where gs: "merge_fields merge p fa ((kb, vb) # fb) = (gs, p')" "fs = (ka, va) # gs"
      using "3.prems"(6) lt by (auto split: prod.splits)
    have r: "pool_ok p'" "extends p p'" "fields_valid p' gs"
      "fields_value p' gs = merge_objects (row_sort_key p) (fields_value p fa) (fields_value p ((kb, vb) # fb))"
      using "3.IH"(2) [OF lt "3.prems"(1,2) va(4) "3.prems"(4) sum(3) gs(1)] by blast+
    have v: "valid_id p' va" "value_at p' va = value_at p va"
      using extends_valid [OF r(2) va(2)] extends_value_at [OF "3.prems"(2) r(2) va(2)] by simp_all
    show ?thesis
      using carry [OF r(2,3) va(1,3) v(1)] r lt v(2) keys gs(2) by simp
  next
    case gt
    obtain gs where gs: "merge_fields merge p ((ka, va) # fa) fb = (gs, p')" "fs = (kb, vb) # gs"
      using "3.prems"(6) gt by (auto split: prod.splits)
    have r: "pool_ok p'" "extends p p'" "fields_valid p' gs"
      "fields_value p' gs = merge_objects (row_sort_key p) (fields_value p ((ka, va) # fa)) (fields_value p fb)"
      using "3.IH"(3) [OF gt "3.prems"(1,2,3) vb(4) sum(4) gs(1)] by blast+
    have v: "valid_id p' vb" "value_at p' vb = value_at p vb"
      using extends_valid [OF r(2) vb(2)] extends_value_at [OF "3.prems"(2) r(2) vb(2)] by simp_all
    show ?thesis
      using carry [OF r(2,3) vb(1,3) v(1)] r gt v(2) keys gs(2) by simp
  qed
qed auto

lemma sorted_fields_ok:
  "fields_valid p fs \<Longrightarrow> sorted_wrt (<) (map fst (fields_value p fs)) \<Longrightarrow> fields_ok p fs"
  by (auto simp: fields_ok_def fields_valid_def comp_def case_prod_beta)

lemma fields_ok_sorted: "fields_ok p fs \<Longrightarrow> sorted_wrt (<) (map fst (fields_value p fs))"
  by (simp add: fields_ok_def comp_def case_prod_beta)

lemma merge_values_other:
  "x \<noteq> DNull \<Longrightarrow> y \<noteq> DNull \<Longrightarrow> x \<noteq> y \<Longrightarrow> data_index x \<noteq> data_index y \<or> data_index x < 10 \<Longrightarrow> merge_values key x y = y"
  by (subst merge_values.simps) (cases x; cases y; simp)

lemma deep_merge_fuel_step:
  assumes "a \<noteq> 0" and "b \<noteq> 0" and "a \<noteq> b"
  shows "id_to_data p ! a = IArray ea \<Longrightarrow> id_to_data p ! b = IArray eb \<Longrightarrow>
      deep_merge_fuel (Suc n) p a b = intern p (IArray (ea @ eb))"
    and "id_to_data p ! a = IMap ma \<Longrightarrow> id_to_data p ! b = IMap mb \<Longrightarrow> map fst ma = map fst mb \<Longrightarrow>
      columnar_rows p ma = Some ra \<Longrightarrow> columnar_rows p mb = Some rb \<Longrightarrow>
      deep_merge_fuel (Suc n) p a b = merge_columnar p ma ra mb rb"
    and "id_to_data p ! a = IMap ma \<Longrightarrow> id_to_data p ! b = IMap mb \<Longrightarrow>
      map fst ma \<noteq> map fst mb \<or> columnar_rows p ma = None \<or> columnar_rows p mb = None \<Longrightarrow>
      deep_merge_fuel (Suc n) p a b =
        (let (merged, p) = merge_fields (deep_merge_fuel n) p ma mb in intern p (IMap merged))"
    and "variant_index (id_to_data p ! a) \<noteq> variant_index (id_to_data p ! b) \<or> variant_index (id_to_data p ! a) < 10 \<Longrightarrow>
      deep_merge_fuel (Suc n) p a b = (b, p)"
proof -
  note step = deep_merge_fuel.simps(2) [of n p a b, unfolded if_not_P [OF assms(1)] if_not_P [OF assms(2)] if_not_P [OF assms(3)]]
  show "id_to_data p ! a = IArray ea \<Longrightarrow> id_to_data p ! b = IArray eb \<Longrightarrow>
      deep_merge_fuel (Suc n) p a b = intern p (IArray (ea @ eb))"
    unfolding step by simp
  show "id_to_data p ! a = IMap ma \<Longrightarrow> id_to_data p ! b = IMap mb \<Longrightarrow> map fst ma = map fst mb \<Longrightarrow>
      columnar_rows p ma = Some ra \<Longrightarrow> columnar_rows p mb = Some rb \<Longrightarrow>
      deep_merge_fuel (Suc n) p a b = merge_columnar p ma ra mb rb"
    unfolding step by simp
  show "id_to_data p ! a = IMap ma \<Longrightarrow> id_to_data p ! b = IMap mb \<Longrightarrow>
      map fst ma \<noteq> map fst mb \<or> columnar_rows p ma = None \<or> columnar_rows p mb = None \<Longrightarrow>
      deep_merge_fuel (Suc n) p a b =
        (let (merged, p) = merge_fields (deep_merge_fuel n) p ma mb in intern p (IMap merged))"
    unfolding step by (auto simp: Let_def split: option.splits)
  show "variant_index (id_to_data p ! a) \<noteq> variant_index (id_to_data p ! b) \<or> variant_index (id_to_data p ! a) < 10 \<Longrightarrow>
      deep_merge_fuel (Suc n) p a b = (b, p)"
    unfolding step by (auto split: internal_data.splits)
qed

lemma merge_values_step:
  assumes "x \<noteq> DNull" and "y \<noteq> DNull" and "x \<noteq> y"
  shows "x = DArray ex \<Longrightarrow> y = DArray ey \<Longrightarrow> merge_values key x y = DArray (ex @ ey)"
    and "x = DObject fx \<Longrightarrow> y = DObject fy \<Longrightarrow> map fst fx = map fst fy \<Longrightarrow> table_rows fx = Some rx \<Longrightarrow>
      table_rows fy = Some ry \<Longrightarrow> merge_values key x y = DObject (merge_tables key fx rx fy ry)"
    and "x = DObject fx \<Longrightarrow> y = DObject fy \<Longrightarrow> map fst fx \<noteq> map fst fy \<or> table_rows fx = None \<or> table_rows fy = None \<Longrightarrow>
      merge_values key x y = DObject (merge_objects key fx fy)"
  using assms by (subst merge_values.simps; auto split: option.splits)+

lemma deep_merge_fuel_maps:
  assumes IH: "merges (deep_merge_fuel n) n" and ok: "pool_ok p" and va: "valid_id p a" and vb: "valid_id p b"
    and sum: "a + b < Suc n" and ne: "a \<noteq> 0" "b \<noteq> 0" "a \<noteq> b" and nv: "value_at p a \<noteq> value_at p b"
    and maps: "id_to_data p ! a = IMap ma" "id_to_data p ! b = IMap mb"
    and m: "deep_merge_fuel (Suc n) p a b = (i, p')"
  shows "pool_ok p' \<and> extends p p' \<and> valid_id p' i \<and>
    value_at p' i = merge_values (row_sort_key p) (value_at p a) (value_at p b)"
proof -
  let ?x = "value_at p a" and ?y = "value_at p b" and ?k = "row_sort_key p"
  note fa = fields_valid_at [OF ok va maps(1)] map_fields_at [OF ok va maps(1)]
  note fb = fields_valid_at [OF ok vb maps(2)] map_fields_at [OF ok vb maps(2)]
  have x: "?x = DObject (fields_value p ma)" "?y = DObject (fields_value p mb)"
    by (rule value_at_map [OF ok va maps(1)] value_at_map [OF ok vb maps(2)])+
  have null: "?x \<noteq> DNull" "?y \<noteq> DNull" by (simp_all add: x)
  note keys = keys_eq [OF ok fa(1) fb(1)]
  note rows = columnar_rows_value [OF ok fa(1)] columnar_rows_value [OF ok fb(1)]
  show ?thesis
  proof (cases "map fst ma \<noteq> map fst mb \<or> columnar_rows p ma = None \<or> columnar_rows p mb = None")
    case False
    then obtain ra rb where r: "map fst ma = map fst mb" "columnar_rows p ma = Some ra" "columnar_rows p mb = Some rb"
      by auto
    have "merge_values ?k ?x ?y = DObject (merge_tables ?k (fields_value p ma) ra (fields_value p mb) rb)"
      using r keys rows by (intro merge_values_step(2) [OF null nv x]) simp_all
    moreover have "merge_columnar p ma ra mb rb = (i, p')"
      using m deep_merge_fuel_step(2) [OF ne maps r] by simp
    ultimately show ?thesis
      using merge_columnar_spec [OF ok fa r(2) fb(1) r(3,1)] by simp
  next
    case True
    obtain merged q where q: "merge_fields (deep_merge_fuel n) p ma mb = (merged, q)" by fastforce
    have i: "intern q (IMap merged) = (i, p')"
      using m deep_merge_fuel_step(3) [OF ne maps True] by (simp add: q)
    have "v + v' < n" if "(k, v) \<in> set ma" "(k', v') \<in> set mb" for k v k' v'
      using fields_at(4) [OF ok va maps(1) that(1)] fields_at(4) [OF ok vb maps(2) that(2)] sum by simp
    then have "\<forall>(k, v) \<in> set ma. \<forall>(k', v') \<in> set mb. v + v' < n" by blast
    from merge_fields_spec [OF IH ok fa(1) fb(1) this q]
    have s: "pool_ok q" "extends p q" "fields_valid q merged"
      "fields_value q merged = merge_objects ?k (fields_value p ma) (fields_value p mb)" by blast+
    have "fields_ok q merged"
      using sorted_merge_objects [OF fields_ok_sorted [OF fa(2)] fields_ok_sorted [OF fb(2)]]
      by (intro sorted_fields_ok [OF s(3)]) (simp only: s(4))
    note r = intern_map_spec [OF s(1,3) this i]
    have "merge_values ?k ?x ?y = DObject (merge_objects ?k (fields_value p ma) (fields_value p mb))"
      using True keys rows by (intro merge_values_step(3) [OF null nv x]) auto
    then show ?thesis using r s(2,4) extends_trans by auto
  qed
qed

lemma deep_merge_fuel_merges: "merges (deep_merge_fuel n) n"
proof (induction n)
  case (Suc n)
  show ?case
    unfolding merges_def
  proof (intro allI impI)
    fix p a b assume ok: "pool_ok p" and va: "valid_id p a" and vb: "valid_id p b" and sum: "a + b < Suc n"
    obtain i p' where m: "deep_merge_fuel (Suc n) p a b = (i, p')" by fastforce
    let ?x = "value_at p a" and ?y = "value_at p b" and ?k = "row_sort_key p"
    have "pool_ok p' \<and> extends p p' \<and> valid_id p' i \<and> value_at p' i = merge_values ?k ?x ?y"
    proof (cases "a = 0 \<or> b = 0 \<or> a = b")
      case True
      then have "p' = p \<and> i = (if a = 0 then b else a)" using m by (auto split: if_splits)
      moreover have "value_at p (if a = 0 then b else a) = merge_values ?k ?x ?y"
        using True ok by (auto simp: merge_values.simps [of _ ?x ?y])
      ultimately show ?thesis using ok va vb by simp
    next
      case False
      then have ne: "a \<noteq> 0" "b \<noteq> 0" "a \<noteq> b" by simp_all
      have null: "?x \<noteq> DNull" "?y \<noteq> DNull" "?x \<noteq> ?y"
        using ne value_at_inject [OF ok va pool_ok_valid0 [OF ok]]
          value_at_inject [OF ok vb pool_ok_valid0 [OF ok]] value_at_inject [OF ok va vb] ok by auto
      consider (arrays) ea eb where "id_to_data p ! a = IArray ea" "id_to_data p ! b = IArray eb"
        | (maps) ma mb where "id_to_data p ! a = IMap ma" "id_to_data p ! b = IMap mb"
        | (other) "variant_index (id_to_data p ! a) \<noteq> variant_index (id_to_data p ! b) \<or> variant_index (id_to_data p ! a) < 10"
        by (cases "id_to_data p ! a"; cases "id_to_data p ! b") auto
      then show ?thesis
      proof cases
        case arrays
        have "\<forall>e \<in> set (ea @ eb). valid_id p e"
          using member_valid [OF ok va] member_valid [OF ok vb] by (auto simp: arrays)
        moreover have "intern p (IArray (ea @ eb)) = (i, p')"
          using m deep_merge_fuel_step(1) [OF ne arrays] by simp
        moreover have "merge_values ?k ?x ?y = DArray (map (value_at p) (ea @ eb))"
          using merge_values_step(1) [OF null value_at_array [OF ok va arrays(1)] value_at_array [OF ok vb arrays(2)]]
          by simp
        ultimately show ?thesis
          using intern_array_spec [OF ok, of "ea @ eb" i p'] by simp
      next
        case maps
        show ?thesis by (rule deep_merge_fuel_maps [OF Suc ok va vb sum ne null(3) maps m])
      next
        case other
        then have "merge_values ?k ?x ?y = ?y"
          using null data_index_value [OF ok va] data_index_value [OF ok vb] by (intro merge_values_other) simp_all
        moreover have "i = b" "p' = p" using m deep_merge_fuel_step(4) [OF ne other] by simp_all
        ultimately show ?thesis using ok vb by simp
      qed
    qed
    then show "let (i, p') = deep_merge_fuel (Suc n) p a b in pool_ok p' \<and> extends p p' \<and> valid_id p' i \<and>
        value_at p' i = merge_values ?k ?x ?y"
      unfolding m Let_def prod.case .
  qed
qed (simp add: merges_def)

lemma deep_merge_spec:
  "pool_ok p \<Longrightarrow> valid_id p a \<Longrightarrow> valid_id p b \<Longrightarrow> deep_merge p a b = (i, p') \<Longrightarrow>
     pool_ok p' \<and> extends p p' \<and> valid_id p' i \<and>
     value_at p' i = merge_values (row_sort_key p) (value_at p a) (value_at p b)"
  unfolding deep_merge_def by (rule mergesD [OF deep_merge_fuel_merges [of "a + b + 1"]]) simp_all

section \<open>Storing\<close>

lemma insert_less_head: "\<forall>y \<in> set ys. \<not> lt y x \<Longrightarrow> insert_less lt x ys = x # ys"
  by (cases ys) simp_all

lemma sort_less_sorted: "sorted_less lt xs \<Longrightarrow> sort_less lt xs = xs"
  by (induction xs) (simp_all add: sort_less_def insert_less_head)

lemma intern_scalar_spec:
  assumes "pool_ok p" and "refs d = {}" and "\<not> is_float d" and "d \<noteq> IMonostate" and "intern p d = (i, p')"
    and "\<And>fs. d \<noteq> IMap fs"
  shows "pool_ok p' \<and> extends p p' \<and> valid_id p' i \<and> id_to_data p' ! i = d"
proof -
  have "entry_ok p (length (id_to_data p)) d" using assms by (simp add: entry_ok_def)
  from intern_spec [OF assms(1) this assms(5)] show ?thesis by simp
qed

lemma pool_ok_strings: "pool_ok (p\<lparr>strings := ss\<rparr>) \<longleftrightarrow> pool_ok p"
proof -
  have "str_at (p\<lparr>strings := ss\<rparr>) = str_at p" by (rule ext) (simp add: str_at_def)
  then have "fields_ok (p\<lparr>strings := ss\<rparr>) = fields_ok p" by (intro ext) (simp add: fields_ok_def comp_def)
  then have "entry_ok (p\<lparr>strings := ss\<rparr>) = entry_ok p" by (intro ext) (simp add: entry_ok_def)
  then show ?thesis by (simp add: pool_ok_def)
qed

lemma intern_str_spec:
  assumes "pool_ok p" and "intern_str p s = (i, p')"
  shows "pool_ok p' \<and> extends p p' \<and> valid_id p' i \<and> id_to_data p' ! i = IStr s"
proof -
  obtain q where q: "intern_string p s = (s, q)" "q = p \<or> q = p\<lparr>strings := s # strings p\<rparr>"
    by (simp add: intern_string_def)
  then have "pool_ok q" "extends p q" using assms(1) by (auto simp: pool_ok_strings extends_def)
  moreover have "intern q (IStr s) = (i, p')" using assms(2) q(1) by (simp add: intern_str_def)
  ultimately show ?thesis using intern_scalar_spec [of q "IStr s" i p'] extends_trans by auto
qed

lemma str_at_IStr: "id_to_data p ! i = IStr s \<Longrightarrow> str_at p i = s"
  by (simp add: str_at_def)

abbreviation stored :: "pool \<Rightarrow> pool \<Rightarrow> nat \<Rightarrow> data \<Rightarrow> bool" where
  "stored p p' i d \<equiv> pool_ok p' \<and> extends p p' \<and> valid_id p' i \<and> value_at p' i = d"

lemma store_spec:
  "pool_ok p \<Longrightarrow> plain d \<Longrightarrow> store p d = (i, p') \<Longrightarrow> stored p p' i d"
  "pool_ok p \<Longrightarrow> \<forall>(k, v) \<in> set kvs. plain v \<Longrightarrow> store_fields p kvs = (fs, p') \<Longrightarrow>
     pool_ok p' \<and> extends p p' \<and> fields_valid p' fs \<and> fields_value p' fs = kvs"
  "pool_ok p \<Longrightarrow> \<forall>v \<in> set vs. plain v \<Longrightarrow> store_items p vs = (es, p') \<Longrightarrow>
     pool_ok p' \<and> extends p p' \<and> (\<forall>e \<in> set es. valid_id p' e) \<and> map (value_at p') es = vs"
proof (induction p d and p kvs and p vs arbitrary: i p' and fs p' and es p' rule: store_store_fields_store_items.induct)
  case (11 p kvs)
  obtain fs q where q: "store_fields p kvs = (fs, q)" by fastforce
  have s: "pool_ok q" "extends p q" "fields_valid q fs" "fields_value q fs = kvs"
    using "11.IH" [OF "11.prems"(1) _ q] "11.prems"(2) by auto
  have keys: "sorted_wrt (<) (map (\<lambda>f. str_at q (fst f)) fs)"
    using "11.prems"(2) unfolding s(4) [symmetric] by (simp add: comp_def case_prod_beta)
  then have "sorted_less (\<lambda>a b. str_at q (fst a) < str_at q (fst b)) fs"
    unfolding sorted_wrt_map by (rule sorted_wrt_mono_rel [rotated]) (simp add: less_imp_not_less)
  then have "intern q (IMap fs) = (i, p')"
    using "11.prems"(3) by (simp add: q sort_less_sorted)
  moreover have "fields_ok q fs" using "11.prems"(2) by (intro sorted_fields_ok [OF s(3)]) (simp add: s(4))
  ultimately show ?case
    using intern_map_spec [OF s(1,3)] s(2,4) extends_trans by metis
next
  case (12 p vs)
  obtain es q where q: "store_items p vs = (es, q)" by fastforce
  have s: "pool_ok q" "extends p q" "\<forall>e \<in> set es. valid_id q e" "map (value_at q) es = vs"
    using "12.IH" [OF "12.prems"(1) _ q] "12.prems"(2) by auto
  have "intern q (IArray es) = (i, p')" using "12.prems"(3) by (simp add: q)
  then show ?case using intern_array_spec [OF s(1,3)] s(2,4) extends_trans by metis
next
  case (14 p k v kvs)
  obtain ki q where ki: "intern_str p k = (ki, q)" by fastforce
  obtain vi r where vi: "store q v = (vi, r)" by fastforce
  obtain gs where gs: "store_fields r kvs = (gs, p')" "fs = (ki, vi) # gs"
    using "14.prems"(3) by (auto simp: ki vi split: prod.splits)
  from intern_str_spec [OF "14.prems"(1) ki]
  have k: "pool_ok q" "extends p q" "valid_id q ki" "id_to_data q ! ki = IStr k" by blast+
  have v: "pool_ok r" "extends q r" "valid_id r vi" "value_at r vi = v"
    using "14.IH"(1) [OF ki [symmetric] refl k(1) _ vi] "14.prems"(2) by auto
  have g: "pool_ok p'" "extends r p'" "fields_valid p' gs" "fields_value p' gs = kvs"
    using "14.IH"(2) [OF ki [symmetric] refl vi [symmetric] refl v(1) _ gs(1)] "14.prems"(2) by auto
  have e: "extends q p'" using v(2) g(2) by (rule extends_trans)
  have "valid_id p' ki" "id_to_data p' ! ki = IStr k" "valid_id p' vi" "value_at p' vi = v"
    using extends_valid [OF e k(3)] extends_nth [OF e k(3)] k(4) extends_valid [OF g(2) v(3)]
      extends_value_at [OF v(1) g(2) v(3)] v(4) by simp_all
  then show ?case
    using g extends_trans [OF k(2) e] by (simp add: gs(2) fields_valid_Cons str_at_IStr)
next
  case (16 p v vs)
  obtain j q where j: "store p v = (j, q)" by fastforce
  obtain js where js: "store_items q vs = (js, p')" "es = j # js"
    using "16.prems"(3) by (auto simp: j split: prod.splits)
  have v: "pool_ok q" "extends p q" "valid_id q j" "value_at q j = v"
    using "16.IH"(1) [OF "16.prems"(1) _ j] "16.prems"(2) by auto
  have g: "pool_ok p'" "extends q p'" "\<forall>e \<in> set js. valid_id p' e" "map (value_at p') js = vs"
    using "16.IH"(2) [OF j [symmetric] refl v(1) _ js(1)] "16.prems"(2) by auto
  show ?case
    using g extends_trans [OF v(2) g(2)] extends_valid [OF g(2) v(3)] extends_value_at [OF v(1) g(2) v(3)] v(4)
    by (simp add: js(2))
next
  case (1 p)
  then show ?case using pool_ok_valid0 by auto
next
  case (2 p s)
  then show ?case using intern_str_spec [of p s i p'] value_at_scalar(2) by simp
qed (auto simp: fields_valid_def dest!: intern_scalar_spec [rotated 4] intro: value_at_scalar)

section \<open>The merge of tables depends only on the set of records\<close>

text \<open>Tables with the columns \<open>names\<close>.\<close>

definition is_table :: "string list \<Rightarrow> data \<Rightarrow> bool" where
  "is_table names x \<longleftrightarrow> plain x \<and> (\<exists>fs. x = DObject fs \<and> map fst fs = names \<and> table_rows fs \<noteq> None)"

fun row_list :: "data \<Rightarrow> data list list" where
  "row_list (DObject fs) = table fs (the (table_rows fs))"
| "row_list _ = []"

definition canonical_table :: "string \<Rightarrow> string list \<Rightarrow> data list list \<Rightarrow> data" where
  "canonical_table key names rows =
     DObject (table_columns names (sort_unique (row_less value_less (name_order key names)) rows))"

lemma table_rows_Some:
  assumes "table_rows fs = Some n"
  shows "fs \<noteq> []" and "(k, v) \<in> set fs \<Longrightarrow> \<exists>es. v = DArray es \<and> length es = n"
proof -
  from assms obtain m where fs: "fs \<noteq> []" and m: "\<forall>(k, v) \<in> set fs. \<exists>es. v = DArray es \<and> length es = m"
    and n: "n = length (elems (snd (hd fs)))"
    by (auto simp: table_rows_def split: if_splits)
  show "fs \<noteq> []" by (rule fs)
  have "\<exists>es. snd (hd fs) = DArray es \<and> length es = m" using m hd_in_set [OF fs] by (cases "hd fs") auto
  then have "m = n" using n by auto
  then show "(k, v) \<in> set fs \<Longrightarrow> \<exists>es. v = DArray es \<and> length es = n" using m by auto
qed

lemma rows_in_table:
  assumes "is_table names x"
  shows "set (row_list x) \<subseteq> rows_in {v. plain v} (length names)" and "names \<noteq> []"
proof -
  obtain fs n where x: "x = DObject fs" "map fst fs = names" "table_rows fs = Some n" "plain x"
    using assms by (auto simp: is_table_def)
  have cell: "plain (elems v ! r)" if "(k, v) \<in> set fs" "r < n" for k v r
  proof -
    note kv = that
    obtain es where "v = DArray es" "length es = n" using table_rows_Some(2) [OF x(3) kv(1)] by blast
    moreover have "plain v" using x(1,4) kv(1) by auto
    ultimately show ?thesis using kv(2) by simp
  qed
  have "length fs = length names" using x(2) by (metis length_map)
  then show "set (row_list x) \<subseteq> rows_in {v. plain v} (length names)"
    using cell by (auto simp: x(1,3) table_def)
  show "names \<noteq> []" using table_rows_Some(1) [OF x(3)] x(2) by auto
qed

lemma table_rows_columns:
  "names \<noteq> [] \<Longrightarrow> table_rows (table_columns names rows) = Some (length rows)"
  by (auto simp: table_rows_def table_columns_def hd_map)

lemma map_fst_table_columns: "map fst (table_columns names rows) = names"
  by (auto simp: table_columns_def intro: nth_equalityI)

lemma table_of_columns:
  assumes "\<forall>row \<in> set rows. length row = length names"
  shows "table (table_columns names rows) (length rows) = rows"
proof (rule nth_equalityI)
  fix r assume "r < length (table (table_columns names rows) (length rows))"
  then have r: "r < length rows" by (simp add: table_def)
  then have "length (rows ! r) = length names" using assms by simp
  then show "table (table_columns names rows) (length rows) ! r = rows ! r"
    using r by (auto simp: table_def table_columns_def intro: nth_equalityI)
qed (simp add: table_def)

lemma canonical_table_is_table:
  assumes "names \<noteq> []" and "sorted_wrt (<) names" and "set rows \<subseteq> rows_in {v. plain v} (length names)"
  shows "is_table names (canonical_table key names rows)"
    and "set (row_list (canonical_table key names rows)) = set rows"
proof -
  let ?sorted = "sort_unique (row_less value_less (name_order key names)) rows"
  have rows: "length row = length names" "\<forall>v \<in> set row. plain v" if "row \<in> set rows" for row
    using assms(3) that by auto
  have "plain (canonical_table key names rows)"
    using rows assms(2) map_fst_table_columns [of names ?sorted]
    by (auto simp: canonical_table_def) (auto simp: table_columns_def)
  then show "is_table names (canonical_table key names rows)"
    by (simp add: is_table_def canonical_table_def map_fst_table_columns table_rows_columns [OF assms(1)])
  show "set (row_list (canonical_table key names rows)) = set rows"
    using rows(1) by (simp add: canonical_table_def table_rows_columns [OF assms(1)] table_of_columns)
qed

lemma canonical_table_cong:
  assumes "set rows \<subseteq> rows_in {v. plain v} (length names)" and "set rows = set rows'"
  shows "canonical_table key names rows = canonical_table key names rows'"
proof -
  have "strict_total (row_less value_less (name_order key names)) (set rows)"
    using row_less_total [OF value_less_total set_name_order] assms(1) by (rule strict_total_subset)
  then show ?thesis using assms(2) by (simp add: canonical_table_def sort_unique_cong [of _ rows rows'])
qed

lemma merge_values_tables:
  assumes "is_table names x" and "is_table names y" and "x \<noteq> y"
  shows "merge_values key x y = canonical_table key names (row_list x @ row_list y)"
proof -
  obtain fx rx where x: "x = DObject fx" "map fst fx = names" "table_rows fx = Some rx"
    using assms(1) by (auto simp: is_table_def)
  obtain fy ry where y: "y = DObject fy" "map fst fy = names" "table_rows fy = Some ry"
    using assms(2) by (auto simp: is_table_def)
  have "merge_values key x y = DObject (merge_tables key fx rx fy ry)"
    using assms(3) x y by (intro merge_values_step(2)) simp_all
  then show ?thesis by (simp add: merge_tables_def canonical_table_def x y)
qed

lemma is_table_sorted: "is_table names x \<Longrightarrow> sorted_wrt (<) names"
  by (auto simp: is_table_def)

text \<open>The value that a non-empty list of tables merges to.\<close>

definition united :: "string \<Rightarrow> string list \<Rightarrow> data list \<Rightarrow> data" where
  "united key names xs =
     (if \<forall>x \<in> set xs. x = hd xs then hd xs else canonical_table key names (concat (map row_list xs)))"

lemma foldl_merge_tables:
  assumes "xs \<noteq> []" and "\<forall>x \<in> set xs. is_table names x"
  shows "foldl (merge_values key) DNull xs = united key names xs"
  using assms
proof (induction xs rule: rev_nonempty_induct)
  case (single x)
  then show ?case by (simp add: united_def merge_values.simps)
next
  case (snoc y xs)
  let ?rows = "concat (map row_list xs)"
  have y: "is_table names y" and tables: "\<forall>x \<in> set xs. is_table names x" using snoc.prems by simp_all
  have names: "names \<noteq> []" "sorted_wrt (<) names" using rows_in_table(2) [OF y] is_table_sorted [OF y] .
  have rows: "set ?rows \<subseteq> rows_in {v. plain v} (length names)"
    using rows_in_table(1) tables by fastforce
  note all = rows rows_in_table(1) [OF y]
  have fold: "foldl (merge_values key) DNull (xs @ [y]) = merge_values key (united key names xs) y"
    using snoc tables by simp
  show ?case
  proof (cases "\<forall>x \<in> set xs. x = hd xs")
    case True
    then have u: "united key names xs = hd xs" and h: "is_table names (hd xs)"
      using tables \<open>xs \<noteq> []\<close> by (simp_all add: united_def)
    have single: "set xs = {hd xs}" using True hd_in_set [OF \<open>xs \<noteq> []\<close>] by blast
    then have "set (row_list (hd xs) @ row_list y) = set (concat (map row_list (xs @ [y])))"
      by simp
    from canonical_table_cong [OF _ this]
    have c: "canonical_table key names (row_list (hd xs) @ row_list y) =
        canonical_table key names (concat (map row_list (xs @ [y])))"
      using rows_in_table(1) [OF h] all(2) by simp
    have hd: "hd (xs @ [y]) = hd xs" using \<open>xs \<noteq> []\<close> by simp
    show ?thesis
    proof (cases "hd xs = y")
      case True
      then have "\<forall>x \<in> set (xs @ [y]). x = hd (xs @ [y])" using single hd by simp
      then have "united key names (xs @ [y]) = y" using hd True by (simp add: united_def)
      moreover have "merge_values key y y = y" by (simp add: merge_values.simps [of _ y y])
      ultimately show ?thesis using True by (simp only: fold u)
    next
      case False
      then have "\<not> (\<forall>x \<in> set (xs @ [y]). x = hd (xs @ [y]))" using hd by auto
      then have "united key names (xs @ [y]) = canonical_table key names (concat (map row_list (xs @ [y])))"
        by (simp only: united_def if_False)
      then show ?thesis using merge_values_tables [OF h y False] c by (simp only: fold u)
    qed
  next
    case False
    let ?c = "canonical_table key names ?rows"
    have u: "united key names xs = ?c" using False by (auto simp: united_def)
    note c = canonical_table_is_table [OF names rows, of key]
    have goal: "united key names (xs @ [y]) = canonical_table key names (concat (map row_list (xs @ [y])))"
      using False \<open>xs \<noteq> []\<close> by (auto simp: united_def)
    show ?thesis
    proof (cases "?c = y")
      case True
      have "merge_values key ?c y = ?c" by (simp add: True merge_values.simps [of _ y y])
      also have "\<dots> = canonical_table key names (concat (map row_list (xs @ [y])))"
        using c(2) True by (intro canonical_table_cong [OF rows]) auto
      finally show ?thesis by (simp only: fold u goal)
    next
      case ne: False
      have "merge_values key ?c y = canonical_table key names (row_list ?c @ row_list y)"
        using merge_values_tables [OF c(1) y ne] .
      also have "\<dots> = canonical_table key names (concat (map row_list (xs @ [y])))"
        using c(2) all by (intro canonical_table_cong) auto
      finally show ?thesis by (simp only: fold u goal)
    qed
  qed
qed

lemma united_cong:
  assumes "\<forall>x \<in> set xs. is_table names x" and "set xs = set ys" and "xs \<noteq> []"
  shows "united key names xs = united key names ys"
proof -
  have "ys \<noteq> []" using assms(2,3) by auto
  then have "(\<forall>x \<in> set xs. x = hd xs) \<longleftrightarrow> (\<forall>x \<in> set ys. x = hd ys)"
    and "\<forall>x \<in> set xs. x = hd xs \<Longrightarrow> hd xs = hd ys"
    using hd_in_set assms(2,3) by metis+
  moreover have "canonical_table key names (concat (map row_list xs)) = canonical_table key names (concat (map row_list ys))"
    using assms rows_in_table(1) by (intro canonical_table_cong) fastforce+
  ultimately show ?thesis by (simp add: united_def)
qed

text \<open>Folding a merge over a list of records.\<close>

fun merge_all :: "('p \<Rightarrow> 'i \<Rightarrow> 'i \<Rightarrow> 'i \<times> 'p) \<Rightarrow> 'p \<Rightarrow> 'i \<Rightarrow> 'i list \<Rightarrow> 'i \<times> 'p" where
  "merge_all merge p acc [] = (acc, p)"
| "merge_all merge p acc (i # is) = (let (acc, p) = merge p acc i in merge_all merge p acc is)"

text \<open>What the tree relies on: a pool keeps what its identifiers mean while it grows, and the merge of
  two identifiers means the combination of their meanings.\<close>

locale record_pool =
  fixes inv :: "'p \<Rightarrow> bool" and valid :: "'p \<Rightarrow> 'i \<Rightarrow> bool" and grows :: "'p \<Rightarrow> 'p \<Rightarrow> bool"
    and meaning :: "'p \<Rightarrow> 'i \<Rightarrow> 'v" and merge :: "'p \<Rightarrow> 'i \<Rightarrow> 'i \<Rightarrow> 'i \<times> 'p" and combine :: "'p \<Rightarrow> 'v \<Rightarrow> 'v \<Rightarrow> 'v"
  assumes grows_refl: "grows p p" and grows_trans: "grows p q \<Longrightarrow> grows q r \<Longrightarrow> grows p r"
    and grows_valid: "grows p q \<Longrightarrow> valid p i \<Longrightarrow> valid q i"
    and grows_meaning: "inv p \<Longrightarrow> grows p q \<Longrightarrow> valid p i \<Longrightarrow> meaning q i = meaning p i"
    and grows_combine: "grows p q \<Longrightarrow> combine q = combine p"
    and merge_law: "inv p \<Longrightarrow> valid p a \<Longrightarrow> valid p b \<Longrightarrow> merge p a b = (i, q) \<Longrightarrow>
      inv q \<and> grows p q \<and> valid q i \<and> meaning q i = combine p (meaning p a) (meaning p b)"
begin

lemma merge_all_law:
  "inv p \<Longrightarrow> valid p acc \<Longrightarrow> \<forall>i \<in> set is. valid p i \<Longrightarrow> merge_all merge p acc is = (j, q) \<Longrightarrow>
     inv q \<and> grows p q \<and> valid q j \<and> meaning q j = foldl (combine p) (meaning p acc) (map (meaning p) is)"
proof (induction "is" arbitrary: p acc)
  case Nil
  then show ?case by (simp add: grows_refl)
next
  case (Cons i "is")
  obtain k r where m: "merge p acc i = (k, r)" by fastforce
  have law: "inv r" "grows p r" "valid r k" "meaning r k = combine p (meaning p acc) (meaning p i)"
    using merge_law [OF Cons.prems(1,2) _ m] Cons.prems(3) by auto
  have valid: "\<forall>i \<in> set is. valid r i" using Cons.prems(3) grows_valid [OF law(2)] by simp
  have "merge_all merge r k is = (j, q)" using Cons.prems(4) m by simp
  note IH = Cons.IH [OF law(1,3) valid this]
  have "map (meaning r) is = map (meaning p) is"
    using Cons.prems(3) grows_meaning [OF Cons.prems(1) law(2)] by simp
  note IH = IH [unfolded law(4) grows_combine [OF law(2)] this]
  then show ?case using grows_trans [OF law(2), of q] by simp
qed

end

interpretation pl: record_pool pool_ok valid_id extends value_at deep_merge "\<lambda>p. merge_values (row_sort_key p)"
proof unfold_locales
  fix p q r :: pool and a b i :: nat
  show "extends p p" by simp
  show "extends p q \<Longrightarrow> extends q r \<Longrightarrow> extends p r" by (rule extends_trans)
  show "extends p q \<Longrightarrow> valid_id p i \<Longrightarrow> valid_id q i" by (rule extends_valid)
  show "pool_ok p \<Longrightarrow> extends p q \<Longrightarrow> valid_id p i \<Longrightarrow> value_at q i = value_at p i" by (rule extends_value_at)
  show "extends p q \<Longrightarrow> merge_values (row_sort_key q) = merge_values (row_sort_key p)" by (simp add: extends_key)
  show "pool_ok p \<Longrightarrow> valid_id p a \<Longrightarrow> valid_id p b \<Longrightarrow> deep_merge p a b = (i, q) \<Longrightarrow>
      pool_ok q \<and> extends p q \<and> valid_id q i \<and>
      value_at q i = merge_values (row_sort_key p) (value_at p a) (value_at p b)"
    by (rule deep_merge_spec)
qed

section \<open>An example pool\<close>

definition example_row :: "string \<Rightarrow> data" where
  "example_row s = DObject [(''name'', DArray [DStr s])]"

definition example_pool :: pool where
  "example_pool = snd (store (snd (store (set_row_sort_key pool_new ''name'') (example_row ''b''))) (example_row ''a''))"

lemma example_pool_ok: "pool_ok example_pool"
  using store_spec(1) [OF store_spec(1) [THEN conjunct1, OF pool_ok_new], THEN conjunct1]
  by (simp add: example_pool_def example_row_def split_pairs2 prod_eq_iff del: store.simps)

lemma example_pool_values:
  "valid_id example_pool 4" "valid_id example_pool 7" "row_sort_key example_pool = ''name''"
  "value_at example_pool 4 = example_row ''b''" "value_at example_pool 7 = example_row ''a''"
  by code_simp+

lemma example_row_is_table: "is_table [''name''] (example_row s)"
  by (auto simp: is_table_def example_row_def table_rows_def)

section \<open>Properties\<close>

text \<open>Storing a value keeps the pool well-formed and every earlier record in place, and the identifier
  returned stands for exactly the stored value (for values without floating-point members whose
  object keys are sorted, as those of a \<open>std::map\<close> are).\<close>

theorem store_roundtrip:
  assumes "pool_ok p" and "plain d"
  shows "let (i, p') = store p d in
    pool_ok p' \<and> extends p p' \<and> valid_id p' i \<and> value_at p' i = d \<and> (\<forall>j. valid_id p j \<longrightarrow> value_at p' j = value_at p j)"
proof -
  obtain i p' where s: "store p d = (i, p')" by fastforce
  show ?thesis
    using store_spec(1) [OF assms s] extends_value_at [OF assms(1), of p'] by (simp add: s)
qed

theorem store_roundtrip_witness:
  "let (i, p') = store (set_row_sort_key pool_new ''name'') (DObject [(''name'', DArray [DStr ''a''])]) in
    value_at p' i = DObject [(''name'', DArray [DStr ''a''])]"
  using store_roundtrip [of "set_row_sort_key pool_new ''name''" "DObject [(''name'', DArray [DStr ''a''])]"]
    pool_ok_new
  by (simp add: case_prod_beta Let_def del: store.simps)

text \<open>The content order \<open>less_data\<close> is a strict total order on the identifiers of a pool, and equals
  the order on the values they stand for, so it does not depend on the order of interning.\<close>

theorem less_data_is_content_order:
  assumes "pool_ok p"
  shows "strict_total (less_data p) {i. valid_id p i} \<and>
    (\<forall>a b. valid_id p a \<longrightarrow> valid_id p b \<longrightarrow> less_data p a b = value_less (value_at p a) (value_at p b))"
  using less_data_total [OF assms] less_data_value [OF assms] by simp

theorem less_data_is_content_order_witness:
  "strict_total (less_data (set_row_sort_key pool_new ''name'')) {i. valid_id (set_row_sort_key pool_new ''name'') i}"
  using less_data_is_content_order [OF pool_ok_new] by blast

text \<open>C14: \<open>deep_merge\<close> implements the merge of values: it terminates (its recursion needs no more fuel
  than the sum of the two identifiers), keeps the pool well-formed and every earlier record in place,
  and the identifier it returns stands for the merge of the two values.\<close>

theorem deep_merge_refines_merge_values:
  assumes "pool_ok p" and "valid_id p a" and "valid_id p b"
  shows "let (i, p') = deep_merge p a b in
    pool_ok p' \<and> extends p p' \<and> valid_id p' i \<and>
    value_at p' i = merge_values (row_sort_key p) (value_at p a) (value_at p b)"
  using deep_merge_spec [OF assms, of "fst (deep_merge p a b)" "snd (deep_merge p a b)"]
  by (simp add: case_prod_beta)

theorem deep_merge_refines_merge_values_witness:
  "let (i, p') = deep_merge example_pool 4 7 in
    value_at p' i = merge_values ''name'' (example_row ''b'') (example_row ''a'')"
  using deep_merge_refines_merge_values [OF example_pool_ok example_pool_values(1,2)]
  by (simp add: example_pool_values case_prod_beta)

text \<open>Merging columnar records is independent of their order and of repetitions: two non-empty
  sequences with the same set of records, all tables with the same columns, merge to the same value.\<close>

theorem merge_order_independent:
  assumes "pool_ok p" and "\<forall>i \<in> set is. valid_id p i \<and> is_table names (value_at p i)" and "set is = set js"
  shows "let (i, p') = merge_all deep_merge p 0 is; (j, q') = merge_all deep_merge p 0 js in
    value_at p' i = value_at q' j"
proof (cases "is = []")
  case False
  obtain i p' where i: "merge_all deep_merge p 0 is = (i, p')" by fastforce
  obtain j q' where j: "merge_all deep_merge p 0 js = (j, q')" by fastforce
  have js: "js \<noteq> []" "\<forall>i \<in> set js. valid_id p i \<and> is_table names (value_at p i)"
    using False assms(2,3) by auto
  have fold: "foldl (merge_values (row_sort_key p)) DNull (map (value_at p) ks) = united (row_sort_key p) names (map (value_at p) ks)"
    if "ks \<noteq> []" "\<forall>i \<in> set ks. valid_id p i \<and> is_table names (value_at p i)" for ks
    using that by (intro foldl_merge_tables) auto
  have "value_at p' i = united (row_sort_key p) names (map (value_at p) is)"
    using pl.merge_all_law [OF assms(1) pool_ok_valid0 [OF assms(1)] _ i] assms(1,2) fold [OF False assms(2)] by simp
  moreover have "value_at q' j = united (row_sort_key p) names (map (value_at p) js)"
    using pl.merge_all_law [OF assms(1) pool_ok_valid0 [OF assms(1)] _ j] assms(1) js fold [OF js] by simp
  ultimately show ?thesis
    using united_cong [of "map (value_at p) is" names "map (value_at p) js"] assms(2,3) False i j by simp
qed (use assms(3) in simp)

theorem merge_order_independent_witness:
  "let (i, p') = merge_all deep_merge example_pool 0 [4, 7, 4]; (j, q') = merge_all deep_merge example_pool 0 [7, 4] in
    value_at p' i = value_at q' j"
  by (rule merge_order_independent [OF example_pool_ok, of _ "[''name'']"])
    (auto simp: example_pool_values example_row_is_table)

end
