(* ===== verification/Utils.thy ===== *)
theory Utils
  imports Prelude
begin

text \<open>
  String and address helpers (\<open>src/utils/string_utils.h\<close>, \<open>src/utils/net_utils.h\<close>,
  \<open>src/utils/environment.h\<close>): trimming, digit grouping, the strict dotted-quad parser and the
  wrapper around \<open>inet_pton\<close>, which is a parameter. The parser is proved to accept exactly the
  canonical dotted-quad texts.
\<close>

section \<open>Views\<close>

text \<open>The members of \<open>std::string_view\<close> the helpers call; \<open>None\<close> is \<open>npos\<close>.\<close>

definition substr :: "string \<Rightarrow> nat \<Rightarrow> nat \<Rightarrow> string" where
  "substr s pos n = take n (drop pos s)"

definition find_first_not_of :: "string \<Rightarrow> string \<Rightarrow> nat option" where
  "find_first_not_of s cs =
     (let k = length (takeWhile (\<lambda>c. c \<in> set cs) s) in if k < length s then Some k else None)"

definition find_last_not_of :: "string \<Rightarrow> string \<Rightarrow> nat option" where
  "find_last_not_of s cs = map_option (\<lambda>k. length s - 1 - k) (find_first_not_of (rev s) cs)"

definition find_char :: "string \<Rightarrow> char \<Rightarrow> nat option" where
  "find_char s c =
     (let k = length (takeWhile (\<lambda>x. x \<noteq> c) s) in if k < length s then Some k else None)"

section \<open>string\_utils.h\<close>

definition kWhitespace :: string where
  "kWhitespace = [CHR '' '', CHR 0x09, CHR 0x0D, CHR 0x0A]"

definition trim :: "string \<Rightarrow> string" where
  "trim text =
     (case find_first_not_of text kWhitespace of
        None \<Rightarrow> []
      | Some start \<Rightarrow>
          (case find_last_not_of text kWhitespace of
             None \<Rightarrow> []
           | Some stop \<Rightarrow> substr text start (stop - start + 1)))"

fun group_loop :: "string \<Rightarrow> nat \<Rightarrow> string \<Rightarrow> string" where
  "group_loop digits 0 out = out"
| "group_loop digits (Suc k) out =
     (let i = length digits - Suc k;
          out = (if i \<noteq> 0 \<and> (length digits - i) mod 3 = 0 then out @ '' '' else out)
      in group_loop digits k (out @ [digits ! i]))"

definition group_thousands :: "nat \<Rightarrow> string" where
  "group_thousands n = (let digits = to_string n in group_loop digits (length digits) [])"

section \<open>environment.h\<close>

text \<open>\<open>getenv\<close> is the environment as a map; an unset variable is \<open>None\<close>.\<close>

definition environment_non_empty :: "(string \<Rightarrow> string option) \<Rightarrow> string \<Rightarrow> string option" where
  "environment_non_empty getenv name =
     (case getenv name of Some v \<Rightarrow> if v \<noteq> [] then Some v else None | None \<Rightarrow> None)"

definition environment_or :: "(string \<Rightarrow> string option) \<Rightarrow> string \<Rightarrow> string \<Rightarrow> string" where
  "environment_or getenv name fallback = (case getenv name of Some v \<Rightarrow> v | None \<Rightarrow> fallback)"

section \<open>net\_utils.h\<close>

definition is_digit :: "char \<Rightarrow> bool" where
  "is_digit c \<longleftrightarrow> 48 \<le> (of_char c :: nat) \<and> (of_char c :: nat) \<le> 57"

definition digit_value :: "char \<Rightarrow> nat" where
  "digit_value c = of_char c - 48"

text \<open>The inner loop over the digits of one octet: \<open>None\<close> is an early \<open>return false\<close>.\<close>

function parse_digits :: "string \<Rightarrow> nat \<Rightarrow> nat \<Rightarrow> nat \<Rightarrow> (nat \<times> nat \<times> nat) option" where
  "parse_digits text pos v digits =
     (if pos < length text \<and> is_digit (text ! pos) then
        if digits = 1 \<and> v = 0 then None
        else let v' = v * 10 + digit_value (text ! pos) in
          if v' > 255 \<or> digits + 1 > 3 then None
          else parse_digits text (pos + 1) v' (digits + 1)
      else Some (v, digits, pos))"
  by pat_completeness auto
termination
  by (relation "measure (\<lambda>(text, pos, v, digits). length text - pos)") auto

declare parse_digits.simps [simp del]

function parse_octets :: "string \<Rightarrow> nat \<Rightarrow> nat \<Rightarrow> bytes \<Rightarrow> bytes option" where
  "parse_octets text pos octet octets =
     (if octet < 4 then
        case parse_digits text pos 0 0 of
          None \<Rightarrow> None
        | Some (v, digits, pos) \<Rightarrow>
            if digits = 0 then None
            else let octets = octets @ [of_nat v] in
              if octet < 3 then
                if pos \<ge> length text \<or> text ! pos \<noteq> CHR ''.'' then None
                else parse_octets text (pos + 1) (octet + 1) octets
              else parse_octets text pos (octet + 1) octets
      else if pos = length text then Some octets else None)"
  by pat_completeness auto
termination
  by (relation "measure (\<lambda>(text, pos, octet, octets). 4 - octet)") auto

declare parse_octets.simps [simp del]

definition parse_ipv4 :: "string \<Rightarrow> bytes option" where
  "parse_ipv4 text = parse_octets text 0 0 []"

text \<open>\<open>inet_pton(AF_INET6, \<dots>)\<close> reads a C string, so it sees the text up to the first NUL.\<close>

definition c_string :: "string \<Rightarrow> string" where
  "c_string s = takeWhile (\<lambda>c. c \<noteq> CHR 0x00) s"

definition INET6_ADDRSTRLEN :: nat where
  "INET6_ADDRSTRLEN = 46"

definition parse_ipv6 :: "(string \<Rightarrow> bytes option) \<Rightarrow> string \<Rightarrow> bytes option" where
  "parse_ipv6 inet_pton6 text =
     (if text = [] \<or> length text \<ge> INET6_ADDRSTRLEN then None else inet_pton6 (c_string text))"

section \<open>Trimming\<close>

abbreviation is_space :: "char \<Rightarrow> bool" where
  "is_space c \<equiv> c \<in> set kWhitespace"

lemma takeWhile_prefix:
  assumes "\<forall>x \<in> set l. P x" and "m \<noteq> []" and "\<not> P (hd m)"
  shows "takeWhile P (l @ m) = l"
  using assms by (cases m) simp_all

lemma trim_sandwich:
  assumes "\<forall>c \<in> set l. is_space c" and "\<forall>c \<in> set r. is_space c"
    and "m \<noteq> []" and "\<not> is_space (hd m)" and "\<not> is_space (last m)"
  shows "trim (l @ m @ r) = m"
proof -
  have "takeWhile is_space (l @ m @ r) = l"
    using assms by (intro takeWhile_prefix) auto
  moreover have "takeWhile is_space (rev (l @ m @ r)) = rev r"
    using assms takeWhile_prefix [of "rev r" is_space "rev m @ rev l"]
    by (simp add: hd_append hd_rev)
  moreover have "0 < length m" using assms(3) by simp
  ultimately show ?thesis
    by (simp add: trim_def find_first_not_of_def find_last_not_of_def substr_def)
qed

lemma trim_blank: "\<forall>c \<in> set s. is_space c \<Longrightarrow> trim s = []"
  by (simp add: trim_def find_first_not_of_def takeWhile_eq_all_conv [THEN iffD2])

lemma trim_decomposition:
  obtains l r where "s = l @ trim s @ r" "\<forall>c \<in> set l. is_space c" "\<forall>c \<in> set r. is_space c"
    "trim s = [] \<or> \<not> is_space (hd (trim s)) \<and> \<not> is_space (last (trim s))"
proof (cases "\<forall>c \<in> set s. is_space c")
  case True
  then show thesis using that [of s "[]"] by (simp add: trim_blank)
next
  case False
  let ?l = "takeWhile is_space s" and ?t = "dropWhile is_space s"
  let ?m = "rev (dropWhile is_space (rev ?t))" and ?r = "rev (takeWhile is_space (rev ?t))"
  have t: "?t \<noteq> []" using False by (simp add: dropWhile_eq_Nil_conv)
  then have hd: "\<not> is_space (hd ?t)" by (rule hd_dropWhile)
  have "rev ?t = takeWhile is_space (rev ?t) @ dropWhile is_space (rev ?t)"
    by (simp only: takeWhile_dropWhile_id)
  then have tm: "?t = ?m @ ?r"
    by (metis rev_append rev_rev_ident)
  have "\<exists>c \<in> set (rev ?t). \<not> is_space c"
    by (rule bexI [of _ "hd ?t"]) (use t hd in simp_all)
  then have rev_ne: "dropWhile is_space (rev ?t) \<noteq> []" by (simp add: dropWhile_eq_Nil_conv)
  then have m: "?m \<noteq> []" "\<not> is_space (last ?m)"
    using hd_dropWhile [OF rev_ne] by (simp_all add: last_rev)
  have "hd ?m = hd ?t" using tm m(1) by (metis hd_append2)
  have s: "s = ?l @ ?m @ ?r"
    by (subst tm [symmetric]) simp
  have "trim (?l @ ?m @ ?r) = ?m"
    by (rule trim_sandwich)
      (use m hd \<open>hd ?m = hd ?t\<close> in \<open>auto dest: set_takeWhileD\<close>)
  then have t: "trim s = ?m" by (simp flip: s)
  show thesis
    by (rule that [of ?l ?r])
      (use s t m hd \<open>hd ?m = hd ?t\<close> in \<open>auto dest: set_takeWhileD\<close>)
qed

lemma trim_idem [simp]: "trim (trim s) = trim s"
proof -
  obtain l r where "trim s = [] \<or> \<not> is_space (hd (trim s)) \<and> \<not> is_space (last (trim s))"
    by (rule trim_decomposition [of s])
  then show ?thesis
  proof
    assume "trim s = []"
    then show ?thesis by (simp add: trim_blank)
  next
    assume "\<not> is_space (hd (trim s)) \<and> \<not> is_space (last (trim s))"
    then show ?thesis
      using trim_sandwich [of "[]" "[]" "trim s"] by (cases "trim s = []") (simp_all add: trim_blank)
  qed
qed

section \<open>Digit grouping\<close>

lemma group_loop_digits:
  assumes "k \<le> length digits" and "CHR '' '' \<notin> set digits"
  shows "filter (\<lambda>c. c \<noteq> CHR '' '') (group_loop digits k out) =
    filter (\<lambda>c. c \<noteq> CHR '' '') out @ drop (length digits - k) digits"
  using assms
proof (induction k arbitrary: out)
  case 0
  then show ?case by simp
next
  case (Suc k)
  let ?i = "length digits - Suc k"
  have "?i < length digits" using Suc.prems by simp
  then have "drop ?i digits = digits ! ?i # drop (length digits - k) digits"
    using Suc.prems by (simp add: Cons_nth_drop_Suc [symmetric] Suc_diff_Suc)
  moreover have "digits ! ?i \<noteq> CHR '' ''"
    using nth_mem [OF \<open>?i < length digits\<close>] Suc.prems(2) by metis
  ultimately show ?case using Suc by (simp add: Let_def)
qed


section \<open>The dotted-quad parser accepts exactly the canonical texts\<close>

lemma of_char_digit_char: "k < 10 \<Longrightarrow> of_char (digit_char k) = 48 + k"
  by (simp add: digit_char_def)

lemma is_digit_digit_char [simp]: "k < 10 \<Longrightarrow> is_digit (digit_char k)"
  by (simp add: is_digit_def of_char_digit_char)

lemma digit_value_digit_char [simp]: "k < 10 \<Longrightarrow> digit_value (digit_char k) = k"
  by (simp add: digit_value_def of_char_digit_char)

lemma digit_cases:
  assumes "is_digit c"
  shows "digit_char (digit_value c) = c" and "digit_value c < 10"
proof -
  have "48 + digit_value c = of_char c"
    using assms by (simp add: is_digit_def digit_value_def)
  then show "digit_char (digit_value c) = c" by (simp add: digit_char_def)
  show "digit_value c < 10" using assms by (auto simp: is_digit_def digit_value_def)
qed

lemma to_string_small: "n < 10 \<Longrightarrow> to_string n = [digit_char n]"
  by (simp add: to_string.simps [of n])

lemma to_string_step: "0 < v \<Longrightarrow> k < 10 \<Longrightarrow> to_string (v * 10 + k) = to_string v @ [digit_char k]"
  by (simp add: to_string.simps [of "v * 10 + k"])

lemma to_string_large: "\<not> n < 10 \<Longrightarrow> to_string n = to_string (n div 10) @ [digit_char (n mod 10)]"
  by (simp add: to_string.simps [of n])

lemma to_string_digits: "c \<in> set (to_string n) \<Longrightarrow> is_digit c"
proof (induction n rule: to_string.induct)
  case (1 n)
  then show ?case by (cases "n < 10") (auto simp: to_string_small to_string_large)
qed

text \<open>What the inner loop has read so far is the numeral of the value it has built.\<close>

lemma parse_digits_sound:
  assumes "parse_digits s pos v d = Some (v', d', p)" and "v \<le> 255"
    and "pre = (if d = 0 then [] else to_string v)" and "d = 0 \<longrightarrow> v = 0" and "d = length pre"
  shows "v' \<le> 255 \<and> pos \<le> p \<and> (d' \<noteq> 0 \<longrightarrow> pre @ take (p - pos) (drop pos s) = to_string v')
    \<and> (pos \<le> length s \<longrightarrow> p \<le> length s)"
  using assms
proof (induction s pos v d arbitrary: pre rule: parse_digits.induct)
  case (1 s pos v d)
  show ?case
  proof (cases "pos < length s \<and> is_digit (s ! pos)")
    case True
    let ?k = "digit_value (s ! pos)"
    have c: "digit_char ?k = s ! pos" "?k < 10"
      using True digit_cases [of "s ! pos"] by simp_all
    have step: "\<not> (d = 1 \<and> v = 0)" "v * 10 + ?k \<le> 255" "d + 1 \<le> 3"
      "parse_digits s (pos + 1) (v * 10 + ?k) (d + 1) = Some (v', d', p)"
      using "1.prems"(1) True
      by (auto simp: parse_digits.simps [of s pos] Let_def split: if_splits)
    have "v = 0 \<Longrightarrow> d = 0"
    proof (rule ccontr)
      assume "v = 0" "d \<noteq> 0"
      then have "pre = [digit_char 0]" using "1.prems"(3) by (simp add: to_string_small)
      then have "d = 1" using "1.prems"(5) by simp
      with \<open>v = 0\<close> step(1) show False by simp
    qed
    then have pre: "to_string (v * 10 + ?k) = pre @ [s ! pos]"
      using "1.prems"(3,4) c to_string_step [of v ?k] to_string_small [of ?k]
      by (cases "d = 0") auto
    have "v' \<le> 255 \<and> pos + 1 \<le> p \<and>
        (d' \<noteq> 0 \<longrightarrow> (pre @ [s ! pos]) @ take (p - (pos + 1)) (drop (pos + 1) s) = to_string v') \<and>
        (pos + 1 \<le> length s \<longrightarrow> p \<le> length s)"
      using "1.IH" [of "v * 10 + ?k" "pre @ [s ! pos]"] True step pre "1.prems"(5) by simp
    moreover have "pos + 1 \<le> p \<Longrightarrow>
        take (p - pos) (drop pos s) = s ! pos # take (p - (pos + 1)) (drop (pos + 1) s)"
      using True by (simp add: Cons_nth_drop_Suc [symmetric] take_Cons' Suc_diff_Suc)
    ultimately show ?thesis using True by auto
  next
    case False
    then have "v' = v" "d' = d" "p = pos"
      using "1.prems"(1) by (auto simp: parse_digits.simps [of s pos v d])
    then show ?thesis using "1.prems"(2,3) by auto
  qed
qed

lemma parse_digits_step:
  assumes "pos < length s" and "s ! pos = digit_char k" and "k < 10"
    and "\<not> (d = 1 \<and> v = 0)" and "v * 10 + k \<le> 255" and "d < 3"
  shows "parse_digits s pos v d = parse_digits s (pos + 1) (v * 10 + k) (d + 1)"
  using assms by (auto simp: parse_digits.simps [of s pos v d])

lemma parse_digits_stop:
  "\<not> (pos < length s \<and> is_digit (s ! pos)) \<Longrightarrow> parse_digits s pos v d = Some (v, d, pos)"
  by (auto simp: parse_digits.simps [of s pos v d])

lemma nth_append_drop:
  assumes "drop pos s = xs @ ys" and "i < length xs"
  shows "pos + i < length s \<and> s ! (pos + i) = xs ! i"
proof -
  have "length s - pos = length xs + length ys"
    using arg_cong [OF assms(1), of length] by simp
  with assms(2) have len: "pos + i < length s" by linarith
  then have "s ! (pos + i) = drop pos s ! i" by simp
  with assms len show ?thesis by (simp add: nth_append)
qed

lemma parse_digits_complete:
  assumes rest: "drop pos s = to_string n @ r" and n: "n \<le> 255"
    and r: "r = [] \<or> \<not> is_digit (hd r)"
  shows "parse_digits s pos 0 0 = Some (n, length (to_string n), pos + length (to_string n))"
proof -
  let ?p = "pos + length (to_string n)"
  have stop: "parse_digits s ?p v d = Some (v, d, ?p)" for v d
  proof (rule parse_digits_stop)
    have "drop ?p s = drop (length (to_string n)) (drop pos s)" by (simp add: add.commute)
    then have "drop ?p s = r" by (simp add: rest)
    with r show "\<not> (?p < length s \<and> is_digit (s ! ?p))"
      by (metis drop_eq_Nil hd_drop_conv_nth linorder_not_less)
  qed
  note nth = nth_append_drop [OF rest]
  consider "n < 10" | "10 \<le> n" "n < 100" | "100 \<le> n" by linarith
  then show ?thesis
  proof cases
    case 1
    then show ?thesis
      using nth [of 0] stop parse_digits_step [of pos s n 0 0] by (simp add: to_string_small)
  next
    case 2
    then have str: "to_string n = [digit_char (n div 10), digit_char (n mod 10)]"
      by (simp add: to_string_large to_string_small)
    then show ?thesis
      using 2 nth [of 0] nth [of 1] stop parse_digits_step [of pos s "n div 10" 0 0]
        parse_digits_step [of "pos + 1" s "n mod 10" 1 "n div 10"] n by simp
  next
    case 3
    then have "n div 10 div 10 < 10" "\<not> n div 10 < 10" using n by simp_all
    then have str: "to_string n =
        [digit_char (n div 10 div 10), digit_char (n div 10 mod 10), digit_char (n mod 10)]"
      using 3 by (simp add: to_string_large to_string_small)
    have "n div 10 div 10 * 10 + n div 10 mod 10 = n div 10" "n div 10 * 10 + n mod 10 = n"
      by simp_all
    then show ?thesis
      using 3 n str nth [of 0] nth [of 1] nth [of 2] stop
        parse_digits_step [of pos s "n div 10 div 10" 0 0]
        parse_digits_step [of "pos + 1" s "n div 10 mod 10" 1 "n div 10 div 10"]
        parse_digits_step [of "pos + 2" s "n mod 10" 2 "n div 10"]
      by (simp add: numeral_2_eq_2 numeral_3_eq_3)
  qed
qed

text \<open>The dotted text of a list of octets.\<close>

fun dotted :: "bytes \<Rightarrow> string" where
  "dotted [] = []"
| "dotted [a] = to_string (unat a)"
| "dotted (a # b # os) = to_string (unat a) @ ''.'' @ dotted (b # os)"

lemma dotted_Cons: "os \<noteq> [] \<Longrightarrow> dotted (a # os) = to_string (unat a) @ CHR ''.'' # dotted os"
  by (cases os) simp_all

lemma not_is_digit_dot [simp]: "\<not> is_digit (CHR ''.'')"
  by (simp add: is_digit_def)

lemma parse_octets_complete:
  assumes "length os = 4 - octet" and "octet \<le> 4" and "drop pos s = dotted os" and "pos \<le> length s"
  shows "parse_octets s pos octet acc = Some (acc @ os)"
  using assms
proof (induction os arbitrary: octet pos acc)
  case Nil
  then show ?case by (simp add: parse_octets.simps [of s pos])
next
  case (Cons a os)
  let ?t = "to_string (unat a)"
  have a: "unat a \<le> 255" using unat_bounds(1) [of a] by simp
  obtain r where r: "drop pos s = ?t @ r" "r = (if os = [] then [] else CHR ''.'' # dotted os)"
    using Cons.prems(3) by (cases os) simp_all
  then have digits: "parse_digits s pos 0 0 = Some (unat a, length ?t, pos + length ?t)"
    using a by (intro parse_digits_complete [of pos s "unat a" r]) simp_all
  have len: "length s - pos = length ?t + length r"
    using arg_cong [OF r(1), of length] by simp
  have rest: "drop (pos + length ?t) s = r"
    using r(1) by (metis append_eq_conv_conj drop_drop add.commute)
  show ?case
  proof (cases "os = []")
    case True
    then have "parse_octets s (pos + length ?t) 4 (acc @ [a]) = Some (acc @ [a])"
      using r(2) len Cons.prems(4) by (simp add: parse_octets.simps [of s "pos + length ?t"])
    moreover have "octet = 3" using True Cons.prems by simp
    ultimately show ?thesis
      using True digits by (simp add: parse_octets.simps [of s pos 3 acc])
  next
    case False
    then have "octet < 3" using Cons.prems by (cases os) auto
    have dot: "pos + length ?t < length s" "s ! (pos + length ?t) = CHR ''.''"
      using False r(2) rest len by (auto simp: hd_drop_conv_nth [symmetric])
    have "drop (pos + length ?t + 1) s = dotted os"
      using rest r(2) False by (metis drop_drop add.commute drop_Suc_Cons drop_0 One_nat_def)
    then have "parse_octets s (pos + length ?t + 1) (octet + 1) (acc @ [a]) = Some (acc @ [a] @ os)"
      using Cons.IH [of "octet + 1" "pos + length ?t + 1" "acc @ [a]"] Cons.prems dot \<open>octet < 3\<close>
      by simp
    with digits dot \<open>octet < 3\<close> show ?thesis
      by (simp add: parse_octets.simps [of s pos octet acc])
  qed
qed

lemma parse_octets_sound:
  assumes "parse_octets s pos octet acc = Some res" and "octet \<le> 4" and "pos \<le> length s"
  shows "\<exists>os. length os = 4 - octet \<and> drop pos s = dotted os \<and> res = acc @ os"
  using assms
proof (induction s pos octet acc rule: parse_octets.induct)
  case (1 s pos octet acc)
  show ?case
  proof (cases "octet < 4")
    case False
    with 1 show ?thesis by (auto simp: parse_octets.simps [of s pos] split: if_splits)
  next
    case True
    then obtain v d p where digits: "parse_digits s pos 0 0 = Some (v, d, p)" "d \<noteq> 0"
      using "1.prems"(1)
      by (auto simp: parse_octets.simps [of s pos octet acc] Let_def split: option.splits if_splits)
    then have v: "v \<le> 255" "pos \<le> p" "p \<le> length s" "take (p - pos) (drop pos s) = to_string v"
      using parse_digits_sound [of s pos 0 0 v d p "[]"] "1.prems"(3) by auto
    then have split: "drop pos s = to_string v @ drop p s"
      by (metis append_take_drop_id drop_drop le_add_diff_inverse2)
    have uv: "unat (of_nat v :: u8) = v"
      using v(1) by (simp add: unsigned_of_nat take_bit_nat_eq_self)
    show ?thesis
    proof (cases "octet < 3")
      case last: False
      then have "parse_octets s p (octet + 1) (acc @ [of_nat v]) = Some res"
        using "1.prems"(1) True digits by (simp add: parse_octets.simps [of s pos octet acc])
      then have "p = length s" "res = acc @ [of_nat v]"
        using last True by (auto simp: parse_octets.simps [of s p] split: if_splits)
      with last True split show ?thesis
        by (intro exI [of _ "[of_nat v]"]) (simp add: uv)
    next
      case more: True
      then have dot: "p < length s" "s ! p = CHR ''.''"
        and rec: "parse_octets s (p + 1) (octet + 1) (acc @ [of_nat v]) = Some res"
        using "1.prems"(1) True digits
        by (auto simp: parse_octets.simps [of s pos octet acc] Let_def split: if_splits)
      obtain os where os: "length os = 4 - (octet + 1)" "drop (p + 1) s = dotted os"
        "res = (acc @ [of_nat v]) @ os"
        using "1.IH"(1) [OF True digits(1)] digits(2) more dot rec by fastforce
      have "drop p s = CHR ''.'' # dotted os"
        using dot os(2) by (simp add: Cons_nth_drop_Suc [symmetric])
      moreover have "os \<noteq> []" using os(1) more by auto
      ultimately show ?thesis
        using os split more by (intro exI [of _ "of_nat v # os"]) (simp add: uv dotted_Cons)
    qed
  qed
qed

lemma parse_ipv4_iff: "parse_ipv4 s = Some os \<longleftrightarrow> length os = 4 \<and> s = dotted os"
  using parse_octets_sound [of s 0 0 "[]" os] parse_octets_complete [of os 0 0 s "[]"]
  by (auto simp: parse_ipv4_def)

section \<open>Properties\<close>

text \<open>C26: the IPv4 parser accepts exactly the canonical dotted quads, four decimal octets without
  leading zeros, and returns those octets.\<close>

theorem parse_ipv4_canonical:
  "parse_ipv4 s = Some os \<longleftrightarrow>
     (\<exists>a b c d. os = [a, b, c, d] \<and>
        s = to_string (unat a) @ ''.'' @ to_string (unat b) @ ''.'' @
            to_string (unat c) @ ''.'' @ to_string (unat d))"
proof -
  have "length os = 4 \<longleftrightarrow> (\<exists>a b c d. os = [a, b, c, d])"
    by (auto simp: length_Suc_conv numeral_eq_Suc)
  then show ?thesis by (auto simp: parse_ipv4_iff)
qed

text \<open>trimming removes a prefix and a suffix of white space and nothing else: what is left is
  empty or starts and ends with another character, and it is the only such part of the text.\<close>

theorem trim_characterisation:
  "trim s = m \<longleftrightarrow>
     (\<exists>l r. s = l @ m @ r \<and> (\<forall>c \<in> set l \<union> set r. c \<in> {CHR '' '', CHR 0x09, CHR 0x0D, CHR 0x0A}) \<and>
        (if m = [] then True
         else hd m \<notin> {CHR '' '', CHR 0x09, CHR 0x0D, CHR 0x0A} \<and>
              last m \<notin> {CHR '' '', CHR 0x09, CHR 0x0D, CHR 0x0A}))"
    (is "_ = ?R")
proof -
  have ws: "set kWhitespace = {CHR '' '', CHR 0x09, CHR 0x0D, CHR 0x0A}"
    by (simp add: kWhitespace_def)
  show ?thesis
  proof
    assume "trim s = m"
    then show ?R
      by (rule_tac s = s in trim_decomposition) (auto simp flip: ws)
  next
    assume ?R
    then obtain l r where "s = l @ m @ r" "\<forall>c \<in> set l \<union> set r. is_space c"
      "m = [] \<or> \<not> is_space (hd m) \<and> \<not> is_space (last m)"
      unfolding ws by (auto split: if_splits)
    then show "trim s = m"
      using trim_sandwich [of l r m] trim_blank [of s] by (cases "m = []") auto
  qed
qed

theorem trim_characterisation_witness: "trim '' ab '' = ''ab''"
  by (subst trim_characterisation)
    (auto intro!: exI [of _ "'' ''"])

end
