(* ===== verification/Builder.thy ===== *)
theory Builder
  imports Pool_Merge Utils "HOL-Library.Sublist"
begin

text \<open>
  The tree of networks of the database builder (\<open>Builder\<close> in \<open>src/mmdb_builder/builder.hpp\<close>,
  \<open>builder.cpp\<close>): parsing of networks, insertion, pruning, numbering of the nodes and collection of the
  records in use. The nodes live in a vector and refer to each other by index, 0 standing for a missing
  child; the recursive walks are given the number of nodes as fuel, which bounds the depth of a tree
  whose nodes are distinct. The proofs relate the vector to a tree that carries its addresses
  (\<open>rep\<close>), in the style of heap abstractions for pointer programs.
\<close>

section \<open>State\<close>

record trie_node =
  child0 :: nat
  child1 :: nat
  node_data :: nat

definition new_node :: trie_node where
  "new_node = \<lparr>child0 = 0, child1 = 0, node_data = 0\<rparr>"

definition child :: "trie_node \<Rightarrow> bool \<Rightarrow> nat" where
  "child nd b = (if b then child1 nd else child0 nd)"

definition set_child :: "trie_node \<Rightarrow> bool \<Rightarrow> nat \<Rightarrow> trie_node" where
  "set_child nd b c = (if b then nd\<lparr>child1 := c\<rparr> else nd\<lparr>child0 := c\<rparr>)"

record network_entry =
  net_bits :: bytes
  prefix_len :: nat
  net_data :: nat

record builder =
  ip_version :: nat
  database_type :: string
  build_epoch :: u64
  nodes :: "trie_node list"
  bpool :: pool
  ipv4_root :: nat

section \<open>Nodes\<close>

definition alloc_node :: "trie_node list \<Rightarrow> nat \<times> trie_node list" where
  "alloc_node ns = (length ns, ns @ [new_node])"

definition builder_new :: "nat \<Rightarrow> string \<Rightarrow> u64 \<Rightarrow> builder" where
  "builder_new version db_type now =
     \<lparr>ip_version = version, database_type = db_type, build_epoch = now,
      nodes = snd (alloc_node []), bpool = pool_new, ipv4_root = 0\<rparr>"

definition set_build_epoch :: "builder \<Rightarrow> u64 \<Rightarrow> builder" where
  "set_build_epoch b epoch = b\<lparr>build_epoch := epoch\<rparr>"

definition builder_set_row_sort_key :: "builder \<Rightarrow> string \<Rightarrow> builder" where
  "builder_set_row_sort_key b key = b\<lparr>bpool := set_row_sort_key (bpool b) key\<rparr>"

definition store_data :: "builder \<Rightarrow> data \<Rightarrow> nat \<times> builder" where
  "store_data b d = (let (i, p) = store (bpool b) d in (i, b\<lparr>bpool := p\<rparr>))"

section \<open>Parsing networks\<close>

text \<open>\<open>std::from_chars\<close> into an \<open>unsigned\<close>, when it must consume the whole text: decimal digits only.\<close>

fun digits_value :: "string \<Rightarrow> nat \<Rightarrow> nat option" where
  "digits_value [] acc = Some acc"
| "digits_value (c # cs) acc =
     (if is_digit c then digits_value cs (acc * 10 + digit_value c) else None)"

definition from_chars_all :: "string \<Rightarrow> nat option" where
  "from_chars_all text = (if text = [] then None else digits_value text 0)"

text \<open>The part before the first slash and, when there is one, the part after it.\<close>

definition split_slash :: "string \<Rightarrow> string \<times> string option" where
  "split_slash cidr =
     (let ip = takeWhile (\<lambda>c. c \<noteq> CHR ''/'') cidr in
      (ip, if length ip = length cidr then None else Some (drop (length ip + 1) cidr)))"

definition parse_prefix :: "string option \<Rightarrow> nat option option" where
  "parse_prefix text =
     (case text of
        None \<Rightarrow> Some None
      | Some t \<Rightarrow>
          if t = [] \<or> length t > 3 then None
          else (case from_chars_all t of None \<Rightarrow> None | Some v \<Rightarrow> Some (Some v)))"

definition parse_network ::
  "(string \<Rightarrow> bytes option) \<Rightarrow> builder \<Rightarrow> string \<Rightarrow> nat \<Rightarrow> network_entry option" where
  "parse_network inet_pton6 b cidr d =
     (let (ip, text) = split_slash cidr in
      case parse_prefix text of
        None \<Rightarrow> None
      | Some explicit_prefix \<Rightarrow>
          (case parse_ipv4 ip of
             Some v4 \<Rightarrow>
               (let prefix = (case explicit_prefix of None \<Rightarrow> 32 | Some v \<Rightarrow> v) in
                if prefix > 32 then None
                else
                  (let offset = (if ip_version b = 6 then 12 else 0) in
                   Some \<lparr>net_bits = overwrite (replicate 16 0) offset v4,
                         prefix_len = (if ip_version b = 6 then prefix + 96 else prefix),
                         net_data = d\<rparr>))
           | None \<Rightarrow>
               if ip_version b = 4 then None
               else
                 (case parse_ipv6 inet_pton6 ip of
                    None \<Rightarrow> None
                  | Some bits \<Rightarrow>
                      (let prefix = (case explicit_prefix of None \<Rightarrow> 128 | Some v \<Rightarrow> v) in
                       if prefix > 128 then None
                       else Some \<lparr>net_bits = bits, prefix_len = prefix, net_data = d\<rparr>))))"

section \<open>Insertion\<close>

definition bit_at :: "bytes \<Rightarrow> nat \<Rightarrow> bool" where
  "bit_at bits depth = (and (drop_bit (7 - depth mod 8) (bits ! (depth div 8))) 1 \<noteq> 0)"

text \<open>One round of the loop of \<open>descend\<close>: a leaf with data hands it to two new children, a missing child
  on the way is created.\<close>

definition split_leaf :: "trie_node list \<Rightarrow> nat \<Rightarrow> trie_node list" where
  "split_leaf ns current =
     (if node_data (ns ! current) \<noteq> 0 then
        (let d = node_data (ns ! current);
             ns = ns[current := (ns ! current)\<lparr>node_data := 0\<rparr>];
             (c0, ns) = alloc_node ns;
             ns = ns[current := (ns ! current)\<lparr>child0 := c0\<rparr>];
             ns = ns[c0 := (ns ! c0)\<lparr>node_data := d\<rparr>];
             (c1, ns) = alloc_node ns;
             ns = ns[current := (ns ! current)\<lparr>child1 := c1\<rparr>];
             ns = ns[c1 := (ns ! c1)\<lparr>node_data := d\<rparr>]
         in ns)
      else ns)"

definition ensure_child :: "trie_node list \<Rightarrow> nat \<Rightarrow> bool \<Rightarrow> trie_node list" where
  "ensure_child ns current b =
     (if child (ns ! current) b = 0 then
        (let (c, ns) = alloc_node ns in ns[current := set_child (ns ! current) b c])
      else ns)"

function descend :: "trie_node list \<Rightarrow> nat \<Rightarrow> nat \<Rightarrow> bytes \<Rightarrow> nat \<Rightarrow> nat \<times> trie_node list" where
  "descend ns current depth bits to_depth =
     (if depth < to_depth then
        (let b = bit_at bits depth;
             ns = split_leaf ns current;
             ns = ensure_child ns current b
         in descend ns (child (ns ! current) b) (depth + 1) bits to_depth)
      else (current, ns))"
  by pat_completeness auto
termination
  by (relation "measure (\<lambda>(ns, current, depth, bits, to_depth). to_depth - depth)") auto

declare descend.simps [simp del]

text \<open>The body of the loop over the two children of an inner node.\<close>

definition merge_child ::
  "(trie_node list \<Rightarrow> pool \<Rightarrow> nat \<Rightarrow> nat \<Rightarrow> trie_node list \<times> pool) \<Rightarrow> trie_node list \<Rightarrow> pool \<Rightarrow> nat \<Rightarrow> bool \<Rightarrow> nat \<Rightarrow>
     trie_node list \<times> pool" where
  "merge_child merge ns p idx b new_data =
     (if child (ns ! idx) b = 0 then
        (let (c, ns) = alloc_node ns;
             ns = ns[idx := set_child (ns ! idx) b c];
             ns = ns[c := (ns ! c)\<lparr>node_data := new_data\<rparr>]
         in (ns, p))
      else merge ns p (child (ns ! idx) b) new_data)"

fun merge_subtree_fuel :: "nat \<Rightarrow> trie_node list \<Rightarrow> pool \<Rightarrow> nat \<Rightarrow> nat \<Rightarrow> trie_node list \<times> pool" where
  "merge_subtree_fuel 0 ns p idx new_data = (ns, p)"
| "merge_subtree_fuel (Suc n) ns p idx new_data =
     (if child0 (ns ! idx) = 0 \<and> child1 (ns ! idx) = 0 then
        (let existing = node_data (ns ! idx) in
         if existing = 0 \<or> existing = new_data then (ns[idx := (ns ! idx)\<lparr>node_data := new_data\<rparr>], p)
         else (let (m, p) = deep_merge p existing new_data in (ns[idx := (ns ! idx)\<lparr>node_data := m\<rparr>], p)))
      else
        (let (ns, p) = merge_child (merge_subtree_fuel n) ns p idx False new_data
         in merge_child (merge_subtree_fuel n) ns p idx True new_data))"

definition merge_subtree :: "trie_node list \<Rightarrow> pool \<Rightarrow> nat \<Rightarrow> nat \<Rightarrow> trie_node list \<times> pool" where
  "merge_subtree ns p idx new_data = merge_subtree_fuel (length ns) ns p idx new_data"

definition kV4Offset :: nat where
  "kV4Offset = 96"

definition kZeroBits :: bytes where
  "kZeroBits = replicate 16 0"

definition insert_bits :: "builder \<Rightarrow> bytes \<Rightarrow> nat \<Rightarrow> nat \<Rightarrow> builder" where
  "insert_bits b bits len d =
     (let below_v4 = (ip_version b = 6 \<and> len \<ge> kV4Offset \<and> take (kV4Offset div 8) bits = take (kV4Offset div 8) kZeroBits);
          b = (if below_v4 \<and> ipv4_root b = 0
               then (let (root4, ns) = descend (nodes b) 0 0 kZeroBits kV4Offset in b\<lparr>nodes := ns, ipv4_root := root4\<rparr>)
               else b);
          (start, start_depth) = (if below_v4 then (ipv4_root b, kV4Offset) else (0, 0));
          (idx, ns) = descend (nodes b) start start_depth bits len;
          (ns, p) = merge_subtree ns (bpool b) idx d
      in b\<lparr>nodes := ns, bpool := p\<rparr>)"

definition insert_parsed :: "builder \<Rightarrow> network_entry list \<Rightarrow> builder" where
  "insert_parsed b entries = foldl (\<lambda>b e. insert_bits b (net_bits e) (prefix_len e) (net_data e)) b entries"

definition insert_network_id ::
  "(string \<Rightarrow> bytes option) \<Rightarrow> builder \<Rightarrow> string \<Rightarrow> nat \<Rightarrow> bool \<times> builder" where
  "insert_network_id inet_pton6 b cidr d =
     (case parse_network inet_pton6 b cidr d of
        None \<Rightarrow> (False, b)
      | Some entry \<Rightarrow> (True, insert_parsed b [entry]))"

definition insert_network ::
  "(string \<Rightarrow> bytes option) \<Rightarrow> builder \<Rightarrow> string \<Rightarrow> data \<Rightarrow> bool \<times> builder" where
  "insert_network inet_pton6 b cidr d =
     (let (i, b) = store_data b d in insert_network_id inet_pton6 b cidr i)"

section \<open>Finalisation\<close>

text \<open>While \<open>depth_limit\<close> is positive the two children are pruned by asynchronous tasks on disjoint
  subtrees; \<open>sched\<close> says for each node whether the task of the second child takes effect first.\<close>

fun prune_tree_fuel :: "nat \<Rightarrow> (nat \<Rightarrow> bool) \<Rightarrow> nat \<Rightarrow> trie_node list \<Rightarrow> nat \<Rightarrow> nat \<times> trie_node list" where
  "prune_tree_fuel 0 sched depth_limit ns idx = (0, ns)"
| "prune_tree_fuel (Suc n) sched depth_limit ns idx =
     (if child0 (ns ! idx) = 0 \<and> child1 (ns ! idx) = 0 then (node_data (ns ! idx), ns)
      else
        (let c0 = child0 (ns ! idx); c1 = child1 (ns ! idx);
             visit = (\<lambda>c ns. if c \<noteq> 0 then prune_tree_fuel n sched (depth_limit - 1) ns c else (0, ns));
             (d0, d1, ns) =
               (if depth_limit > 0 \<and> sched idx
                then (let (d1, ns) = visit c1 ns; (d0, ns) = visit c0 ns in (d0, d1, ns))
                else (let (d0, ns) = visit c0 ns; (d1, ns) = visit c1 ns in (d0, d1, ns)))
         in if d0 \<noteq> 0 \<and> d1 \<noteq> 0 \<and> d0 = d1
            then (d0, ns[idx := \<lparr>child0 = 0, child1 = 0, node_data = d0\<rparr>])
            else (0, ns)))"

definition prune_tree_parallel :: "(nat \<Rightarrow> bool) \<Rightarrow> nat \<Rightarrow> trie_node list \<Rightarrow> nat \<Rightarrow> nat \<times> trie_node list" where
  "prune_tree_parallel sched depth_limit ns idx = prune_tree_fuel (length ns) sched depth_limit ns idx"

text \<open>\<open>mapping\<close> is indexed by node and initialised with \<open>unassigned\<close>.\<close>

definition unassigned :: nat where
  "unassigned = 0xFFFFFFFF"

fun assign_node_ids_fuel ::
  "nat \<Rightarrow> trie_node list \<Rightarrow> nat \<Rightarrow> nat \<times> nat list \<times> nat list \<Rightarrow> nat \<times> nat list \<times> nat list" where
  "assign_node_ids_fuel 0 ns current (next_id, mapping, ordered) = (next_id, mapping, ordered)"
| "assign_node_ids_fuel (Suc n) ns current (next_id, mapping, ordered) =
     (if child0 (ns ! current) = 0 \<and> child1 (ns ! current) = 0 then (next_id, mapping, ordered)
      else
        (let st = (next_id + 1, mapping[current := next_id], ordered @ [current]);
             st = (if child0 (ns ! current) \<noteq> 0 then assign_node_ids_fuel n ns (child0 (ns ! current)) st else st);
             st = (if child1 (ns ! current) \<noteq> 0 then assign_node_ids_fuel n ns (child1 (ns ! current)) st else st)
         in st))"

definition assign_node_ids :: "trie_node list \<Rightarrow> nat \<times> nat list \<times> nat list" where
  "assign_node_ids ns = assign_node_ids_fuel (length ns) ns 0 (0, replicate (length ns) unassigned, [])"

text \<open>An asynchronous branch fills a set of its own, which is then joined to the result.\<close>

fun collect_used_data_fuel :: "nat \<Rightarrow> nat \<Rightarrow> trie_node list \<Rightarrow> nat \<Rightarrow> nat list \<Rightarrow> nat list" where
  "collect_used_data_fuel 0 depth_limit ns current used = used"
| "collect_used_data_fuel (Suc n) depth_limit ns current used =
     (if child0 (ns ! current) = 0 \<and> child1 (ns ! current) = 0 then
        (if node_data (ns ! current) \<noteq> 0 then List.insert (node_data (ns ! current)) used else used)
      else
        (let visit = (\<lambda>c used.
               if c = 0 then used
               else if depth_limit > 0 then List.union (collect_used_data_fuel n (depth_limit - 1) ns c []) used
               else collect_used_data_fuel n 0 ns c used);
             used = visit (child0 (ns ! current)) used
         in visit (child1 (ns ! current)) used))"

definition collect_used_data_parallel :: "nat \<Rightarrow> trie_node list \<Rightarrow> nat list" where
  "collect_used_data_parallel depth_limit ns = collect_used_data_fuel (length ns) depth_limit ns 0 []"

end
