(* ===== verification/Builder_Tree.thy ===== *)
theory Builder_Tree
  imports Builder
begin

text \<open>
  The vector of nodes as a tree. A tree that carries the index of every node (\<open>rep\<close>) is related to the
  vector; descending, splitting and merging in the vector are shown to be functions on that tree
  (\<open>open_path\<close>, \<open>merge_tree\<close>), and nodes outside of the subtree at hand stay as they are (\<open>agree\<close>).
  The locale \<open>tree_pool\<close> states what the tree needs of the pool of records.
\<close>

section \<open>Trees in the vector of nodes\<close>

text \<open>A tree that carries the index of every node.\<close>

datatype tree = Absent | Leaf nat nat | Node nat tree tree

fun idx :: "tree \<Rightarrow> nat" where
  "idx Absent = 0"
| "idx (Leaf i d) = i"
| "idx (Node i l r) = i"

fun addrs :: "tree \<Rightarrow> nat list" where
  "addrs Absent = []"
| "addrs (Leaf i d) = [i]"
| "addrs (Node i l r) = i # addrs l @ addrs r"

fun rep :: "trie_node list \<Rightarrow> tree \<Rightarrow> bool" where
  "rep ns Absent \<longleftrightarrow> True"
| "rep ns (Leaf i d) \<longleftrightarrow> i < length ns \<and> ns ! i = \<lparr>child0 = 0, child1 = 0, node_data = d\<rparr>"
| "rep ns (Node i l r) \<longleftrightarrow>
     i < length ns \<and> ns ! i = \<lparr>child0 = idx l, child1 = idx r, node_data = 0\<rparr> \<and>
     (l \<noteq> Absent \<or> r \<noteq> Absent) \<and> rep ns l \<and> rep ns r"

text \<open>The addresses are distinct, and only the root of the whole tree may have index 0.\<close>

fun proper :: "tree \<Rightarrow> bool" where
  "proper (Node i l r) \<longleftrightarrow> 0 \<notin> set (addrs l @ addrs r) \<and> distinct (i # addrs l @ addrs r) \<and> proper l \<and> proper r"
| "proper t \<longleftrightarrow> True"

fun height :: "tree \<Rightarrow> nat" where
  "height (Node i l r) = Suc (max (height l) (height r))"
| "height t = 0"

fun lookup :: "tree \<Rightarrow> bool list \<Rightarrow> nat" where
  "lookup Absent bs = 0"
| "lookup (Leaf i d) bs = d"
| "lookup (Node i l r) [] = 0"
| "lookup (Node i l r) (b # bs) = lookup (if b then r else l) bs"

lemma idx_in_addrs: "t \<noteq> Absent \<Longrightarrow> idx t \<in> set (addrs t)"
  by (cases t) auto

lemma rep_addrs: "rep ns t \<Longrightarrow> i \<in> set (addrs t) \<Longrightarrow> i < length ns"
  by (induction t) auto

lemma rep_frame:
  "rep ns t \<Longrightarrow> (\<And>i. i \<in> set (addrs t) \<Longrightarrow> i < length ns' \<and> ns' ! i = ns ! i) \<Longrightarrow> rep ns' t"
  by (induction t) auto

lemma proper_distinct: "proper t \<Longrightarrow> distinct (addrs t)"
  by (cases t) auto

lemma idx_zero_iff: "0 \<notin> set (addrs t) \<Longrightarrow> idx t = 0 \<longleftrightarrow> t = Absent"
  using idx_in_addrs by (metis idx.simps(1))

section \<open>Descending\<close>

text \<open>The same loop on a list of bits.\<close>

fun descend_bits :: "trie_node list \<Rightarrow> nat \<Rightarrow> bool list \<Rightarrow> nat \<times> trie_node list" where
  "descend_bits ns current [] = (current, ns)"
| "descend_bits ns current (b # bs) =
     (let ns = ensure_child (split_leaf ns current) current b in descend_bits ns (child (ns ! current) b) bs)"

definition path :: "bytes \<Rightarrow> nat \<Rightarrow> nat \<Rightarrow> bool list" where
  "path bits from to = map (bit_at bits) [from..<to]"

lemma descend_path: "descend ns current depth bits to = descend_bits ns current (path bits depth to)"
proof (induction ns current depth bits to rule: descend.induct)
  case (1 ns current depth bits to)
  then show ?case
    by (subst descend.simps) (auto simp: path_def upt_conv_Cons Let_def)
qed

text \<open>What one round of the loop does to the tree at \<open>current\<close>, with the next free index \<open>n\<close>.\<close>

fun open_step :: "tree \<Rightarrow> bool \<Rightarrow> nat \<Rightarrow> tree \<times> nat" where
  "open_step Absent b n = (Absent, n)"
| "open_step (Leaf i d) b n =
     (if d \<noteq> 0 then (Node i (Leaf n d) (Leaf (Suc n) d), n + 2)
      else if b then (Node i Absent (Leaf n 0), Suc n)
      else (Node i (Leaf n 0) Absent, Suc n))"
| "open_step (Node i l r) b n =
     (if b then (if r = Absent then (Node i l (Leaf n 0), Suc n) else (Node i l r, n))
      else (if l = Absent then (Node i (Leaf n 0) r, Suc n) else (Node i l r, n)))"

fun map_child :: "(tree \<Rightarrow> tree) \<Rightarrow> bool \<Rightarrow> tree \<Rightarrow> tree" where
  "map_child f b (Node i l r) = (if b then Node i l (f r) else Node i (f l) r)"
| "map_child f b t = t"

fun tree_child :: "bool \<Rightarrow> tree \<Rightarrow> tree" where
  "tree_child b (Node i l r) = (if b then r else l)"
| "tree_child b t = Absent"

fun open_path :: "tree \<Rightarrow> bool list \<Rightarrow> nat \<Rightarrow> tree" where
  "open_path t [] n = t"
| "open_path t (b # bs) n = (let (t, n) = open_step t b n in map_child (\<lambda>c. open_path c bs n) b t)"

fun sub_at :: "tree \<Rightarrow> bool list \<Rightarrow> tree" where
  "sub_at t [] = t"
| "sub_at t (b # bs) = sub_at (tree_child b t) bs"

fun put_at :: "tree \<Rightarrow> bool list \<Rightarrow> tree \<Rightarrow> tree" where
  "put_at t [] s = s"
| "put_at t (b # bs) s = map_child (\<lambda>c. put_at c bs s) b t"

lemma rep_tree_child: "rep ns t \<Longrightarrow> rep ns (tree_child b t)"
  by (cases t) auto

lemma proper_tree_child: "proper t \<Longrightarrow> proper (tree_child b t)"
  by (cases t) auto

lemma addrs_tree_child: "set (addrs (tree_child b t)) \<subseteq> set (addrs t)"
  by (cases t) auto

lemma nth_split_leaf:
  assumes "current < length ns" and "node_data (ns ! current) \<noteq> 0"
  shows "split_leaf ns current =
    ns[current := \<lparr>child0 = length ns, child1 = Suc (length ns), node_data = 0\<rparr>] @
      [\<lparr>child0 = 0, child1 = 0, node_data = node_data (ns ! current)\<rparr>,
       \<lparr>child0 = 0, child1 = 0, node_data = node_data (ns ! current)\<rparr>]"
  using assms
  by (cases "ns ! current") (simp add: split_leaf_def alloc_node_def new_node_def Let_def list_update_append nth_append)

lemma nth_ensure_child:
  assumes "current < length ns" and "child (ns ! current) b = 0"
  shows "ensure_child ns current b = ns[current := set_child (ns ! current) b (length ns)] @ [new_node]"
  using assms by (simp add: ensure_child_def alloc_node_def list_update_append nth_append)

text \<open>Nodes outside of \<open>A\<close> stay.\<close>

definition agree :: "trie_node list \<Rightarrow> trie_node list \<Rightarrow> nat set \<Rightarrow> bool" where
  "agree ns ns' A \<longleftrightarrow> length ns \<le> length ns' \<and> (\<forall>i < length ns. i \<notin> A \<longrightarrow> ns' ! i = ns ! i)"

lemma agree_refl [simp]: "agree ns ns A"
  by (simp add: agree_def)

lemma agree_trans: "agree ns ns' A \<Longrightarrow> agree ns' ns'' B \<Longrightarrow> \<forall>i < length ns. i \<in> B \<longrightarrow> i \<in> A \<Longrightarrow> agree ns ns'' A"
  by (auto simp: agree_def)

lemma rep_agree:
  assumes "rep ns t" and "agree ns ns' A" and "set (addrs t) \<inter> A = {}"
  shows "rep ns' t"
  using assms(1)
proof (rule rep_frame)
  fix i assume "i \<in> set (addrs t)"
  then show "i < length ns' \<and> ns' ! i = ns ! i"
    using rep_addrs [OF assms(1)] assms(2,3) by (fastforce simp: agree_def)
qed

lemma open_step_Node:
  assumes "t \<noteq> Absent"
  shows "\<exists>l r n'. open_step t b n = (Node (idx t) l r, n') \<and> tree_child b (Node (idx t) l r) \<noteq> Absent"
  using assms by (cases t) auto

lemma open_step_rep:
  assumes "rep ns t" and "proper t" and "t \<noteq> Absent"
    and "ns' = ensure_child (split_leaf ns (idx t)) (idx t) b" and "open_step t b (length ns) = (t', n')"
  shows "rep ns' t'" and "proper t'" and "length ns' = n'" and "agree ns ns' {idx t}" and "length ns \<le> n'"
    and "set (addrs t') \<subseteq> set (addrs t) \<union> {length ns..<n'}" and "child (ns' ! idx t) b = idx (tree_child b t')"
proof -
  have "rep ns' t' \<and> proper t' \<and> length ns' = n' \<and> agree ns ns' {idx t} \<and> length ns \<le> n' \<and>
    set (addrs t') \<subseteq> set (addrs t) \<union> {length ns..<n'}"
  proof (cases t)
    case (Leaf i d)
    have i: "i < length ns" "ns ! i = \<lparr>child0 = 0, child1 = 0, node_data = d\<rparr>" using assms(1) by (simp_all add: Leaf)
    show ?thesis
    proof (cases "d = 0")
      case True
      have "ns' = ns[i := set_child (ns ! i) b (length ns)] @ [new_node]"
        using i True assms(4) by (simp add: Leaf split_leaf_def nth_ensure_child child_def)
      then show ?thesis
        using assms(5) i True by (auto simp: Leaf agree_def nth_append new_node_def set_child_def split: if_splits)
    next
      case False
      have "split_leaf ns i = ns[i := \<lparr>child0 = length ns, child1 = Suc (length ns), node_data = 0\<rparr>] @
          [\<lparr>child0 = 0, child1 = 0, node_data = d\<rparr>, \<lparr>child0 = 0, child1 = 0, node_data = d\<rparr>]"
        using nth_split_leaf [OF i(1)] False by (simp add: i(2))
      moreover from this have "ns' = split_leaf ns i"
        using i(1) assms(4) by (auto simp: Leaf ensure_child_def child_def nth_append)
      ultimately show ?thesis
        using assms(5) i False by (auto simp: Leaf agree_def nth_append)
    qed
  next
    case (Node i l r)
    have i: "i < length ns" "ns ! i = \<lparr>child0 = idx l, child1 = idx r, node_data = 0\<rparr>" "rep ns l" "rep ns r"
      and absent: "idx l = 0 \<longleftrightarrow> l = Absent" "idx r = 0 \<longleftrightarrow> r = Absent"
      and disj: "i \<notin> set (addrs l)" "i \<notin> set (addrs r)"
      using assms(1,2) idx_zero_iff [of l] idx_zero_iff [of r] by (simp_all add: Node)
    have ns': "ns' = ensure_child ns i b" using assms(4) i by (simp add: Node split_leaf_def)
    show ?thesis
    proof (cases "tree_child b t = Absent")
      case True
      then have eq: "ns' = ns[i := set_child (ns ! i) b (length ns)] @ [new_node]"
        using i absent by (cases b) (simp_all add: ns' Node nth_ensure_child child_def)
      have agree: "agree ns ns' {i}" using i(1) by (simp add: eq agree_def nth_append)
      have "rep ns' l" "rep ns' r" using rep_agree [OF _ agree] i disj by simp_all
      moreover have "length ns \<notin> set (addrs l)" "length ns \<notin> set (addrs r)"
        using rep_addrs [OF i(3)] rep_addrs [OF i(4)] by blast+
      ultimately show ?thesis
        using True assms(2,5) agree i
        by (cases b) (auto simp: Node eq nth_append new_node_def set_child_def)
    next
      case False
      then have "ns' = ns" using i absent by (cases b) (simp_all add: ns' Node ensure_child_def child_def)
      then show ?thesis using False assms(1,2,5) by (cases b) (auto simp: Node)
    qed
  qed (use assms(3) in simp)
  then show "rep ns' t'" "proper t'" "length ns' = n'" "agree ns ns' {idx t}" "length ns \<le> n'"
    "set (addrs t') \<subseteq> set (addrs t) \<union> {length ns..<n'}" by simp_all
  then show "child (ns' ! idx t) b = idx (tree_child b t')"
    using open_step_Node [OF assms(3), of b "length ns"] assms(5)
    by (cases t') (force simp: child_def)+
qed

text \<open>The whole loop.\<close>

lemma map_child_Absent [simp]: "map_child f b t = Absent \<longleftrightarrow> t = Absent"
  by (cases t) auto

lemma idx_map_child [simp]: "idx (map_child f b t) = idx t"
  by (cases t) auto

lemma idx_open_step: "open_step t b n = (t', n') \<Longrightarrow> idx t' = idx t"
  by (cases t) (auto split: if_splits)

lemma idx_open_path [simp]: "idx (open_path t bs n) = idx t"
  by (cases bs) (auto simp: split_beta idx_open_step prod_eq_iff)

lemma open_step_Absent: "fst (open_step t b n) = Absent \<longleftrightarrow> t = Absent"
  by (cases t) auto

lemma open_path_Absent [simp]: "open_path t bs n = Absent \<longleftrightarrow> t = Absent"
  by (cases bs) (simp_all add: split_beta open_step_Absent)

lemma map_child_rep:
  assumes "rep ns t" and "proper t" and "agree ns ns' (set (addrs (tree_child b t)))"
    and "rep ns' (f (tree_child b t))" and "idx (f (tree_child b t)) = idx (tree_child b t)"
    and "proper (f (tree_child b t))" and "tree_child b t \<noteq> Absent"
    and "f (tree_child b t) \<noteq> Absent"
    and "set (addrs (f (tree_child b t))) \<subseteq> set (addrs (tree_child b t)) \<union> {length ns..}"
  shows "rep ns' (map_child f b t) \<and> proper (map_child f b t)"
proof (cases t)
  case (Node i l r)
  let ?o = "tree_child (\<not> b) t"
  have i: "i < length ns" "i \<notin> set (addrs (tree_child b t))" using assms(1,2) by (auto simp: Node)
  have "rep ns' ?o"
    using assms(1,2) by (intro rep_agree [OF _ assms(3)]) (auto simp: Node)
  moreover have "ns' ! i = ns ! i" "i < length ns'" using i assms(3) by (auto simp: agree_def)
  moreover have "x < length ns" if "x \<in> set (addrs t)" for x using rep_addrs [OF assms(1) that] .
  then have "set (addrs (f (tree_child b t))) \<inter> set (addrs ?o) = {}" "i \<notin> set (addrs (f (tree_child b t)))"
    "0 \<notin> set (addrs (f (tree_child b t)))"
    using assms(2,9) i by (fastforce simp: Node split: if_splits)+
  ultimately show ?thesis
    using assms by (cases b) (auto simp: Node proper_distinct)
qed (use assms(7) in simp_all)

lemma descend_rep:
  assumes "rep ns t" and "proper t" and "t \<noteq> Absent" and "descend_bits ns (idx t) bs = (i, ns')"
  shows "rep ns' (open_path t bs (length ns)) \<and> proper (open_path t bs (length ns)) \<and>
    i = idx (sub_at (open_path t bs (length ns)) bs) \<and> agree ns ns' (set (addrs t)) \<and>
    set (addrs (open_path t bs (length ns))) \<subseteq> set (addrs t) \<union> {length ns..}"
  using assms
proof (induction bs arbitrary: ns t)
  case (Cons b bs)
  let ?ns = "ensure_child (split_leaf ns (idx t)) (idx t) b"
  obtain l r n' where open_step: "open_step t b (length ns) = (Node (idx t) l r, n')"
    and c: "tree_child b (Node (idx t) l r) \<noteq> Absent" using open_step_Node [OF Cons.prems(3)] by blast
  let ?t = "Node (idx t) l r" and ?c = "tree_child b (Node (idx t) l r)"
  note s = open_step_rep [OF Cons.prems(1-3) refl open_step]
  have step: "descend_bits ?ns (idx ?c) bs = (i, ns')" using Cons.prems(4) s(7) by (simp add: Let_def)
  have cr: "rep ?ns ?c" "proper ?c" "set (addrs ?c) \<subseteq> set (addrs ?t)" 
    using rep_tree_child [OF s(1)] proper_tree_child [OF s(2)] addrs_tree_child by blast+
  note IH = Cons.IH [OF cr(1,2) c step, unfolded s(3)]
  then have IH: "rep ns' (open_path ?c bs n')" "proper (open_path ?c bs n')" "i = idx (sub_at (open_path ?c bs n') bs)"
    "agree ?ns ns' (set (addrs ?c))" "set (addrs (open_path ?c bs n')) \<subseteq> set (addrs ?c) \<union> {n'..}"
    by blast+
  have op: "open_path t (b # bs) (length ns) = map_child (\<lambda>c. open_path c bs n') b ?t" by (simp add: open_step)
  have "rep ns' (map_child (\<lambda>c. open_path c bs n') b ?t) \<and> proper (map_child (\<lambda>c. open_path c bs n') b ?t)"
    using map_child_rep [OF s(1,2) IH(4), of "\<lambda>c. open_path c bs n'"] IH c s(3) by simp
  moreover have "agree ns ns' (set (addrs t))"
  proof (rule agree_trans [OF _ IH(4)])
    show "agree ns ?ns (set (addrs t))" using s(4) idx_in_addrs [OF Cons.prems(3)] by (auto simp: agree_def)
    show "\<forall>i < length ns. i \<in> set (addrs ?c) \<longrightarrow> i \<in> set (addrs t)" using cr(3) s(6) by auto
  qed
  moreover have "set (addrs (map_child (\<lambda>c. open_path c bs n') b ?t)) \<subseteq> set (addrs t) \<union> {length ns..}"
  proof
    fix x assume "x \<in> set (addrs (map_child (\<lambda>c. open_path c bs n') b ?t))"
    then have "x \<in> set (addrs ?t) \<or> x \<in> set (addrs (open_path ?c bs n'))" by (cases b) auto
    then have "x \<in> set (addrs ?t) \<or> n' \<le> x" using IH(5) cr(3) by auto
    then show "x \<in> set (addrs t) \<union> {length ns..}" using s(5,6) by auto
  qed
  moreover have "sub_at (map_child (\<lambda>c. open_path c bs n') b ?t) (b # bs) = sub_at (open_path ?c bs n') bs"
    by (cases b) simp_all
  ultimately show ?case unfolding op using IH(3) by simp
qed auto

lemma sub_at_open_path: "t \<noteq> Absent \<Longrightarrow> sub_at (open_path t bs n) bs \<noteq> Absent"
proof (induction bs arbitrary: t n)
  case (Cons b bs)
  obtain l r n' where "open_step t b n = (Node (idx t) l r, n')" "tree_child b (Node (idx t) l r) \<noteq> Absent"
    using open_step_Node [OF Cons.prems] by blast
  then show ?case using Cons.IH [of "if b then r else l" n'] by (cases b) simp_all
qed simp

lemma lookup_open_step: "open_step t b n = (t', n') \<Longrightarrow> lookup t' (c # a) = lookup t (c # a)"
  by (cases t) (auto split: if_splits)

lemma lookup_map_child:
  "(\<And>a. length a = k \<Longrightarrow> lookup (f (tree_child b t)) a = lookup (tree_child b t) a) \<Longrightarrow>
     length a = Suc k \<Longrightarrow> lookup (map_child f b t) a = lookup t a"
  by (cases t; cases a) auto

lemma lookup_open_path: "length bs \<le> length a \<Longrightarrow> lookup (open_path t bs n) a = lookup t a"
proof (induction bs arbitrary: t n a)
  case (Cons b bs)
  obtain t' n' where s: "open_step t b n = (t', n')" by fastforce
  obtain c a' where a: "a = c # a'" using Cons.prems by (cases a) auto
  have "lookup (map_child (\<lambda>c. open_path c bs n') b t') a = lookup t' a"
    using Cons by (intro lookup_map_child [of "length a'"]) (auto simp: a)
  then show ?case using lookup_open_step [OF s] by (simp add: s a)
qed simp

lemma height_open_path: "height (open_path t bs n) \<le> max (height t) (length bs)"
proof (induction bs arbitrary: t n)
  case (Cons b bs)
  obtain t' n' where s: "open_step t b n = (t', n')" by fastforce
  have "height t' \<le> max (height t) 1" using s by (cases t) (auto split: if_splits)
  moreover have "height (map_child (\<lambda>c. open_path c bs n') b t') \<le> max (height t') (Suc (length bs))"
    using Cons.IH [of "tree_child b t'" n'] by (cases t'; cases b) (simp_all add: max_def split: if_splits)
  ultimately show ?case by (simp add: s)
qed simp

section \<open>Replacing a subtree\<close>

text \<open>Paths stay open and keep the nodes they lead to.\<close>

definition keeps_paths :: "tree \<Rightarrow> tree \<Rightarrow> bool" where
  "keeps_paths t t' \<longleftrightarrow>
     (\<forall>q. sub_at t q \<noteq> Absent \<longrightarrow> sub_at t' q \<noteq> Absent \<and> idx (sub_at t' q) = idx (sub_at t q))"

lemma keeps_paths_refl [simp]: "keeps_paths t t"
  by (simp add: keeps_paths_def)

lemma keeps_paths_trans: "keeps_paths t t' \<Longrightarrow> keeps_paths t' t'' \<Longrightarrow> keeps_paths t t''"
  unfolding keeps_paths_def by metis

lemma sub_at_Absent [simp]: "sub_at Absent q = Absent"
  by (induction q) auto

lemma keeps_paths_Absent [simp]: "keeps_paths Absent t"
  by (simp add: keeps_paths_def)

lemma sub_at_Leaf: "sub_at (Leaf i d) q \<noteq> Absent \<Longrightarrow> q = []"
  by (cases q) auto

lemma keeps_paths_Leaf [simp]: "keeps_paths (Leaf i d) t \<longleftrightarrow> t \<noteq> Absent \<and> idx t = i"
  unfolding keeps_paths_def using sub_at_Leaf by (metis idx.simps(2) sub_at.simps(1) tree.distinct(1))

lemma keeps_paths_Node:
  "keeps_paths l l' \<Longrightarrow> keeps_paths r r' \<Longrightarrow> keeps_paths (Node i l r) (Node i l' r')"
  unfolding keeps_paths_def
proof (intro allI impI)
  fix q assume *: "\<forall>q. sub_at l q \<noteq> Absent \<longrightarrow> sub_at l' q \<noteq> Absent \<and> idx (sub_at l' q) = idx (sub_at l q)"
    "\<forall>q. sub_at r q \<noteq> Absent \<longrightarrow> sub_at r' q \<noteq> Absent \<and> idx (sub_at r' q) = idx (sub_at r q)"
    "sub_at (Node i l r) q \<noteq> Absent"
  then show "sub_at (Node i l' r') q \<noteq> Absent \<and> idx (sub_at (Node i l' r') q) = idx (sub_at (Node i l r) q)"
    by (cases q) (auto split: if_splits)
qed

lemma keeps_paths_map_child:
  "keeps_paths (tree_child b t) (f (tree_child b t)) \<Longrightarrow> keeps_paths t (map_child f b t)"
  by (cases t; cases b) (auto intro: keeps_paths_Node)

lemma keeps_paths_open_step: "open_step t b n = (t', n') \<Longrightarrow> keeps_paths t t'"
  by (cases t) (auto split: if_splits intro: keeps_paths_Node)

lemma keeps_paths_open_path: "keeps_paths t (open_path t bs n)"
proof (induction bs arbitrary: t n)
  case (Cons b bs)
  obtain t' n' where s: "open_step t b n = (t', n')" by fastforce
  have "keeps_paths t' (map_child (\<lambda>c. open_path c bs n') b t')" by (intro keeps_paths_map_child Cons.IH)
  then show ?case using keeps_paths_trans [OF keeps_paths_open_step [OF s]] by (simp add: s)
qed simp

lemma keeps_paths_put_at: "keeps_paths (sub_at t bs) s \<Longrightarrow> keeps_paths t (put_at t bs s)"
proof (induction bs arbitrary: t)
  case (Cons b bs)
  then show ?case by (auto intro: keeps_paths_map_child)
qed simp

lemma tree_child_Node: "tree_child b t \<noteq> Absent \<Longrightarrow> \<exists>i l r. t = Node i l r"
  by (cases t) auto

lemma sub_at_root: "sub_at t bs \<noteq> Absent \<Longrightarrow> t \<noteq> Absent"
  by auto

lemma addrs_map_child:
  "set (addrs (map_child f b t)) \<subseteq> set (addrs t) \<union> set (addrs (f (tree_child b t)))"
  by (cases t) auto

lemma addrs_put_at: "set (addrs (put_at t bs s)) \<subseteq> set (addrs t) \<union> set (addrs s)"
proof (induction bs arbitrary: t)
  case (Cons b bs)
  show ?case
    using addrs_map_child [of "\<lambda>c. put_at c bs s" b t] Cons.IH [of "tree_child b t"] addrs_tree_child [of b t] by auto
qed simp

lemma addrs_sub_at: "set (addrs (sub_at t bs)) \<subseteq> set (addrs t)"
  by (induction bs arbitrary: t) (use addrs_tree_child in fastforce)+

lemma idx_put_at: "idx s = idx (sub_at t bs) \<Longrightarrow> idx (put_at t bs s) = idx t"
  by (cases bs) simp_all

lemma put_at_Absent: "sub_at t bs \<noteq> Absent \<Longrightarrow> s \<noteq> Absent \<Longrightarrow> put_at t bs s \<noteq> Absent"
  by (cases bs) auto

lemma rep_sub_at: "rep ns t \<Longrightarrow> rep ns (sub_at t bs)"
  by (induction bs arbitrary: t) (simp_all add: rep_tree_child)

lemma proper_sub_at: "proper t \<Longrightarrow> proper (sub_at t bs)"
  by (induction bs arbitrary: t) (simp_all add: proper_tree_child)

lemma put_at_rep:
  assumes "rep ns t" and "proper t" and "sub_at t bs \<noteq> Absent" and "agree ns ns' (set (addrs (sub_at t bs)))"
    and "rep ns' s" and "proper s" and "s \<noteq> Absent" and "idx s = idx (sub_at t bs)"
    and "set (addrs s) \<subseteq> set (addrs (sub_at t bs)) \<union> {length ns..}"
  shows "rep ns' (put_at t bs s) \<and> proper (put_at t bs s)"
  using assms
proof (induction bs arbitrary: t)
  case (Cons b bs)
  let ?c = "tree_child b t"
  have sub: "sub_at t (b # bs) = sub_at ?c bs" by simp
  note prems = Cons.prems [unfolded sub]
  have c: "?c \<noteq> Absent" using prems(3) by (rule sub_at_root)
  have IH: "rep ns' (put_at ?c bs s)" "proper (put_at ?c bs s)"
    using Cons.IH [OF rep_tree_child [OF prems(1)] proper_tree_child [OF prems(2)] prems(3-9)] by auto
  have "agree ns ns' (set (addrs ?c))" using prems(4) addrs_sub_at [of ?c bs] by (auto simp: agree_def)
  moreover have "set (addrs (put_at ?c bs s)) \<subseteq> set (addrs ?c) \<union> {length ns..}"
    using addrs_put_at [of ?c bs s] prems(9) addrs_sub_at [of ?c bs] by blast
  ultimately show ?case
    using map_child_rep [OF prems(1,2), of ns' b "\<lambda>c. put_at c bs s"] IH c idx_put_at [OF prems(8)]
      put_at_Absent [OF prems(3,7)] by simp
qed simp

lemma lookup_put_at:
  "sub_at t bs \<noteq> Absent \<Longrightarrow>
     lookup (put_at t bs s) a = (if prefix bs a then lookup s (drop (length bs) a) else lookup t a)"
proof (induction bs arbitrary: t a)
  case (Cons b bs)
  then obtain i l r where t: "t = Node i l r" using sub_at_root tree_child_Node by (metis sub_at.simps(2))
  show ?case using Cons by (cases a) (auto simp: t)
qed simp

lemma lookup_sub_at:
  "sub_at t bs \<noteq> Absent \<Longrightarrow> prefix bs a \<Longrightarrow> lookup t a = lookup (sub_at t bs) (drop (length bs) a)"
proof (induction bs arbitrary: t a)
  case (Cons b bs)
  then obtain i l r where t: "t = Node i l r" using sub_at_root tree_child_Node by (metis sub_at.simps(2))
  show ?case using Cons by (cases a) (auto simp: t)
qed simp

lemma height_sub_at: "sub_at t bs \<noteq> Absent \<Longrightarrow> length bs + height (sub_at t bs) \<le> height t"
proof (induction bs arbitrary: t)
  case (Cons b bs)
  then obtain i l r where t: "t = Node i l r" using sub_at_root tree_child_Node by (metis sub_at.simps(2))
  show ?case using Cons.IH [of "tree_child b t"] Cons.prems by (auto simp: t split: if_splits)
qed simp

lemma height_put_at: "height (put_at t bs s) \<le> max (height t) (length bs + height s)"
proof (induction bs arbitrary: t)
  case (Cons b bs)
  show ?case using Cons.IH [of "tree_child b t"] by (cases t; cases b) (simp_all add: max_def split: if_splits)
qed simp

fun leaf_data :: "tree \<Rightarrow> nat set" where
  "leaf_data Absent = {}"
| "leaf_data (Leaf i d) = {d}"
| "leaf_data (Node i l r) = leaf_data l \<union> leaf_data r"

lemma leaf_data_open_path: "leaf_data (open_path t bs n) \<subseteq> insert 0 (leaf_data t)"
proof (induction bs arbitrary: t n)
  case (Cons b bs)
  obtain t' n' where s: "open_step t b n = (t', n')" by fastforce
  have "leaf_data t' \<subseteq> insert 0 (leaf_data t)" using s by (cases t) (auto split: if_splits)
  moreover have "leaf_data (map_child (\<lambda>c. open_path c bs n') b t') \<subseteq> insert 0 (leaf_data t')"
    using Cons.IH [of "tree_child b t'" n'] by (cases t'; cases b) auto
  ultimately show ?case by (auto simp: s)
qed auto

lemma leaf_data_put_at: "leaf_data (put_at t bs s) \<subseteq> leaf_data t \<union> leaf_data s"
proof (induction bs arbitrary: t)
  case (Cons b bs)
  show ?case using Cons.IH [of "tree_child b t"] by (cases t; cases b) auto
qed auto

lemma leaf_data_sub_at: "leaf_data (sub_at t bs) \<subseteq> leaf_data t"
proof (induction bs arbitrary: t)
  case (Cons b bs)
  show ?case using Cons.IH [of "tree_child b t"] by (cases t; cases b) auto
qed auto

lemma lookup_leaf_data: "lookup t a \<in> insert 0 (leaf_data t)"
  by (induction t a rule: lookup.induct) auto

section \<open>Merging a record into a subtree\<close>

fun merge_tree :: "('p \<Rightarrow> nat \<Rightarrow> nat \<Rightarrow> nat \<times> 'p) \<Rightarrow> 'p \<Rightarrow> tree \<Rightarrow> nat \<Rightarrow> nat \<Rightarrow> tree \<times> nat \<times> 'p" where
  "merge_tree merge p Absent d n = (Leaf n d, Suc n, p)"
| "merge_tree merge p (Leaf i e) d n =
     (if e = 0 \<or> e = d then (Leaf i d, n, p) else (let (m, p) = merge p e d in (Leaf i m, n, p)))"
| "merge_tree merge p (Node i l r) d n =
     (let (l, n, p) = merge_tree merge p l d n; (r, n, p) = merge_tree merge p r d n in (Node i l r, n, p))"

lemma merge_tree_shape:
  "merge_tree merge p t d n = (t', n', p') \<Longrightarrow>
     n \<le> n' \<and> t' \<noteq> Absent \<and> keeps_paths t t' \<and> height t' = height t \<and> (t \<noteq> Absent \<longrightarrow> idx t' = idx t)"
proof (induction t arbitrary: p n t' n' p')
  case (Node i l r)
  obtain l' n1 p1 where l: "merge_tree merge p l d n = (l', n1, p1)" by (metis prod_cases3)
  obtain r' where r: "merge_tree merge p1 r d n1 = (r', n', p')" and t': "t' = Node i l' r'"
    using Node.prems l by (auto split: prod.splits)
  show ?case using Node.IH(1) [OF l] Node.IH(2) [OF r] by (simp add: t' keeps_paths_Node)
qed (auto split: if_splits prod.splits)

text \<open>A pool of records with a null identifier, which the tree stores at empty leaves.\<close>

locale tree_pool = record_pool inv valid grows meaning merge combine
  for inv :: "'p \<Rightarrow> bool" and valid :: "'p \<Rightarrow> nat \<Rightarrow> bool" and grows :: "'p \<Rightarrow> 'p \<Rightarrow> bool"
    and meaning :: "'p \<Rightarrow> nat \<Rightarrow> 'v" and merge :: "'p \<Rightarrow> nat \<Rightarrow> nat \<Rightarrow> nat \<times> 'p" and combine :: "'p \<Rightarrow> 'v \<Rightarrow> 'v \<Rightarrow> 'v" +
  assumes valid_null: "inv p \<Longrightarrow> valid p 0"
    and combine_null: "inv p \<Longrightarrow> combine p (meaning p 0) v = v"
    and combine_same: "combine p v v = v"
begin

lemma merge_tree_law:
  "inv p \<Longrightarrow> \<forall>x \<in> leaf_data t. valid p x \<Longrightarrow> valid p d \<Longrightarrow> merge_tree merge p t d n = (t', n', q) \<Longrightarrow>
     inv q \<and> grows p q \<and> (\<forall>x \<in> leaf_data t'. valid q x) \<and>
     (\<forall>a. height t \<le> length a \<longrightarrow>
        meaning q (lookup t' a) = combine p (meaning p (lookup t a)) (meaning p d))"
proof (induction t arbitrary: p n t' n' q)
  case Absent
  then show ?case using grows_refl combine_null by auto
next
  case (Leaf i e)
  show ?case
  proof (cases "e = 0 \<or> e = d")
    case True
    then show ?thesis using Leaf grows_refl combine_null combine_same by auto
  next
    case False
    obtain m where m: "merge p e d = (m, q)" "t' = Leaf i m"
      using Leaf.prems(4) False by (auto split: prod.splits)
    from merge_law [OF Leaf.prems(1) _ Leaf.prems(3) m(1)] Leaf.prems(2) show ?thesis by (simp add: m(2))
  qed
next
  case (Node i l r)
  obtain l' n1 p1 where l: "merge_tree merge p l d n = (l', n1, p1)" by (metis prod_cases3)
  obtain r' where r: "merge_tree merge p1 r d n1 = (r', n', q)" and t': "t' = Node i l' r'"
    using Node.prems(4) l by (auto split: prod.splits)
  have vl: "\<forall>x \<in> leaf_data l. valid p x" and vr: "\<forall>x \<in> leaf_data r. valid p x" using Node.prems(2) by auto
  note L = Node.IH(1) [OF Node.prems(1) vl Node.prems(3) l]
  have g: "inv p1" "grows p p1" and validl: "\<forall>x \<in> leaf_data l'. valid p1 x"
    and meanl: "\<And>a. height l \<le> length a \<Longrightarrow> meaning p1 (lookup l' a) = combine p (meaning p (lookup l a)) (meaning p d)"
    using L by auto
  have vr1: "\<forall>x \<in> leaf_data r. valid p1 x" using vr grows_valid [OF g(2)] by blast
  note R = Node.IH(2) [OF g(1) vr1 grows_valid [OF g(2) Node.prems(3)] r]
  have g1: "inv q" "grows p1 q" and validr: "\<forall>x \<in> leaf_data r'. valid q x"
    and meanr: "\<And>a. height r \<le> length a \<Longrightarrow> meaning q (lookup r' a) = combine p1 (meaning p1 (lookup r a)) (meaning p1 d)"
    using R by auto
  have "valid p (lookup r a)" for a using lookup_leaf_data [of r a] vr valid_null [OF Node.prems(1)] by auto
  then have r0: "combine p1 (meaning p1 (lookup r a)) (meaning p1 d) = combine p (meaning p (lookup r a)) (meaning p d)" for a
    using grows_meaning [OF Node.prems(1) g(2)] grows_combine [OF g(2)] Node.prems(3) by simp
  have "valid p1 (lookup l' a)" for a using lookup_leaf_data [of l' a] validl valid_null [OF g(1)] by auto
  then have l0: "meaning q (lookup l' a) = meaning p1 (lookup l' a)" for a
    using grows_meaning [OF g(1) g1(2)] by simp
  have "meaning q (lookup t' a) = combine p (meaning p (lookup (Node i l r) a)) (meaning p d)"
    if "height (Node i l r) \<le> length a" for a
  proof -
    note h = that
    obtain b bs where a: "a = b # bs" "height l \<le> length bs" "height r \<le> length bs"
      using h by (cases a) auto
    show ?thesis using meanl [OF a(2)] meanr [OF a(3)] l0 r0 by (cases b) (simp_all add: a(1) t')
  qed
  then show ?case
    using g1 grows_trans [OF g(2) g1(2)] validl validr grows_valid [OF g1(2)] by (auto simp: t')
qed

end

interpretation tp: tree_pool pool_ok valid_id extends value_at deep_merge "\<lambda>p. merge_values (row_sort_key p)"
  by unfold_locales (simp_all add: merge_values.simps, simp add: pool_ok_def)

text \<open>The recursion over the vector does the same.\<close>

lemma merge_child_rep:
  assumes "rep ns t" and "proper t" and t: "t = Node i l r" and m: "merge_tree deep_merge p (tree_child b t) d (length ns) = (c', n', p')"
    and "merge_child merge ns p i b d = (ns', q)"
    and IH: "tree_child b t \<noteq> Absent \<Longrightarrow> merge ns p (idx (tree_child b t)) d = (ns', q) \<Longrightarrow>
      q = p' \<and> rep ns' c' \<and> proper c' \<and> length ns' = n' \<and> agree ns ns' (set (addrs (tree_child b t))) \<and>
      set (addrs c') \<subseteq> set (addrs (tree_child b t)) \<union> {length ns..<n'}"
  shows "q = p' \<and> rep ns' (map_child (\<lambda>_. c') b t) \<and> proper (map_child (\<lambda>_. c') b t) \<and> length ns' = n' \<and>
    agree ns ns' (set (addrs t)) \<and> set (addrs (map_child (\<lambda>_. c') b t)) \<subseteq> set (addrs t) \<union> {length ns..<n'}"
proof -
  let ?c = "tree_child b t"
  have i: "i < length ns" "ns ! i = \<lparr>child0 = idx l, child1 = idx r, node_data = 0\<rparr>" "rep ns l" "rep ns r"
    and fresh: "i \<notin> set (addrs l)" "i \<notin> set (addrs r)" "0 \<notin> set (addrs l)" "0 \<notin> set (addrs r)"
    using assms(1,2) by (simp_all add: t)
  have c: "child (ns ! i) b = idx ?c" by (simp add: i(2) t child_def)
  have zero: "idx ?c = 0 \<longleftrightarrow> ?c = Absent" using fresh by (intro idx_zero_iff) (simp add: t)
  show ?thesis
  proof (cases "?c = Absent")
    case True
    let ?new = "\<lparr>child0 = 0, child1 = 0, node_data = d\<rparr>"
    have r: "c' = Leaf (length ns) d" "n' = Suc (length ns)" "p' = p" using m True by simp_all
    have ns': "ns' = ns[i := set_child (ns ! i) b (length ns)] @ [?new]" "q = p"
      using assms(5) True zero c i(1)
      by (auto simp: merge_child_def alloc_node_def new_node_def list_update_append nth_append Let_def)
    have agree: "agree ns ns' {i}" using i(1) by (simp add: ns' agree_def nth_append)
    have "rep ns' l" "rep ns' r" using rep_agree [OF _ agree] i fresh by simp_all
    moreover have "length ns \<notin> set (addrs l)" "length ns \<notin> set (addrs r)"
      using rep_addrs [OF i(3)] rep_addrs [OF i(4)] by blast+
    moreover have "agree ns ns' (set (addrs t))" using agree by (auto simp: agree_def t)
    ultimately show ?thesis
      using True i assms(1,2) r by (cases b) (auto simp: t ns' nth_append set_child_def)
  next
    case False
    then have "merge ns p (idx ?c) d = (ns', q)" using assms(5) zero c by (simp add: merge_child_def)
    from IH [OF False this]
    have s: "q = p'" "rep ns' c'" "proper c'" "length ns' = n'" "agree ns ns' (set (addrs ?c))"
      "set (addrs c') \<subseteq> set (addrs ?c) \<union> {length ns..<n'}" by blast+
    have idx: "idx c' = idx ?c" "c' \<noteq> Absent" using merge_tree_shape [OF m] False by auto
    have sub: "set (addrs c') \<subseteq> set (addrs ?c) \<union> {length ns..}" using s(6) by auto
    have "rep ns' (map_child (\<lambda>_. c') b t) \<and> proper (map_child (\<lambda>_. c') b t)"
      using map_child_rep [OF assms(1,2) s(5), of "\<lambda>_. c'"] s(2,3) idx False sub by simp
    moreover have "set (addrs (map_child (\<lambda>_. c') b t)) \<subseteq> set (addrs t) \<union> {length ns..<n'}"
      using addrs_map_child [of "\<lambda>_. c'" b t] s(6) addrs_tree_child [of b t] by blast
    moreover have "agree ns ns' (set (addrs t))" using s(5) addrs_tree_child [of b t] by (auto simp: agree_def)
    ultimately show ?thesis using s(1,4) by blast
  qed
qed

lemma merge_subtree_rep:
  assumes "rep ns t" and "proper t" and "t \<noteq> Absent" and "height t < fuel"
    and "merge_tree deep_merge p t d (length ns) = (t', n', p')" and "merge_subtree_fuel fuel ns p (idx t) d = (ns', q)"
  shows "q = p' \<and> rep ns' t' \<and> proper t' \<and> length ns' = n' \<and> agree ns ns' (set (addrs t)) \<and>
    set (addrs t') \<subseteq> set (addrs t) \<union> {length ns..<n'}"
  using assms
proof (induction t arbitrary: ns p t' n' p' fuel ns' q)
  case (Leaf i e)
  then obtain f where fuel: "fuel = Suc f" by (cases fuel) auto
  have i: "i < length ns" "ns ! i = \<lparr>child0 = 0, child1 = 0, node_data = e\<rparr>" using Leaf.prems(1) by simp_all
  show ?case
    using Leaf.prems(5,6) i by (auto simp: fuel agree_def Let_def split: if_splits prod.splits)
next
  case (Node i l r)
  let ?t = "Node i l r"
  obtain f where fuel: "fuel = Suc f" and h: "height l < f" "height r < f" using Node.prems(4) by (cases fuel) auto
  obtain l' n1 p1 where l: "merge_tree deep_merge p l d (length ns) = (l', n1, p1)" by (metis prod_cases3)
  obtain r' where r: "merge_tree deep_merge p1 r d n1 = (r', n', p')" and t': "t' = Node i l' r'"
    using Node.prems(5) l by (auto split: prod.splits)
  obtain ns1 q1 where m1: "merge_child (merge_subtree_fuel f) ns p i False d = (ns1, q1)" by fastforce
  have nz: "\<not> (child0 (ns ! i) = 0 \<and> child1 (ns ! i) = 0)"
    using Node.prems(1,2) idx_zero_iff [of l] idx_zero_iff [of r] by auto
  have m2: "merge_child (merge_subtree_fuel f) ns1 q1 i True d = (ns', q)"
    using Node.prems(6) nz m1 by (simp add: fuel)
  have pl: "proper l" "proper r" "rep ns l" "rep ns r" using Node.prems(1,2) by simp_all
  have s1: "q1 = p1 \<and> rep ns1 (map_child (\<lambda>_. l') False ?t) \<and> proper (map_child (\<lambda>_. l') False ?t) \<and> length ns1 = n1 \<and>
    agree ns ns1 (set (addrs ?t)) \<and> set (addrs (map_child (\<lambda>_. l') False ?t)) \<subseteq> set (addrs ?t) \<union> {length ns..<n1}"
  proof (rule merge_child_rep [OF Node.prems(1,2) refl _ m1])
    show "merge_tree deep_merge p (tree_child False ?t) d (length ns) = (l', n1, p1)" using l by simp
    assume "tree_child False ?t \<noteq> Absent" "merge_subtree_fuel f ns p (idx (tree_child False ?t)) d = (ns1, q1)"
    then show "q1 = p1 \<and> rep ns1 l' \<and> proper l' \<and> length ns1 = n1 \<and> agree ns ns1 (set (addrs (tree_child False ?t))) \<and>
        set (addrs l') \<subseteq> set (addrs (tree_child False ?t)) \<union> {length ns..<n1}"
      using Node.IH(1) [OF pl(3,1) _ h(1) l] by simp
  qed
  let ?t1 = "Node i l' r"
  have st1: "q1 = p1" "rep ns1 ?t1" "proper ?t1" "length ns1 = n1" "agree ns ns1 (set (addrs ?t))"
    "set (addrs ?t1) \<subseteq> set (addrs ?t) \<union> {length ns..<n1}" using s1 by simp_all
  have pr: "rep ns1 r" "proper r" using st1(2,3) by simp_all
  have s2: "q = p' \<and> rep ns' (map_child (\<lambda>_. r') True ?t1) \<and> proper (map_child (\<lambda>_. r') True ?t1) \<and> length ns' = n' \<and>
    agree ns1 ns' (set (addrs ?t1)) \<and> set (addrs (map_child (\<lambda>_. r') True ?t1)) \<subseteq> set (addrs ?t1) \<union> {length ns1..<n'}"
  proof (rule merge_child_rep [OF st1(2,3) refl _ m2])
    show "merge_tree deep_merge q1 (tree_child True ?t1) d (length ns1) = (r', n', p')" using r st1(1,4) by simp
    assume "tree_child True ?t1 \<noteq> Absent" "merge_subtree_fuel f ns1 q1 (idx (tree_child True ?t1)) d = (ns', q)"
    then show "q = p' \<and> rep ns' r' \<and> proper r' \<and> length ns' = n' \<and> agree ns1 ns' (set (addrs (tree_child True ?t1))) \<and>
        set (addrs r') \<subseteq> set (addrs (tree_child True ?t1)) \<union> {length ns1..<n'}"
      using Node.IH(2) [OF pr _ h(2), of p1 r' n' p' ns' q] r st1(1,4) by simp
  qed
  have le: "length ns \<le> n1" "n1 \<le> n'" using merge_tree_shape [OF l] merge_tree_shape [OF r] by auto
  have "agree ns ns' (set (addrs ?t))"
    using s2 st1(5,6) by (intro agree_trans [of ns ns1 _ ns' "set (addrs ?t1)"]) auto
  moreover have "set (addrs (Node i l' r')) \<subseteq> set (addrs ?t) \<union> {length ns..<n'}"
    using s2 st1(4,6) le by (auto simp del: addrs.simps) (fastforce simp del: addrs.simps)+
  ultimately show ?case using s2 by (simp add: t')
qed simp

end
