(* ===== verification/Builder_Insert.thy ===== *)
theory Builder_Insert
  imports Builder_Tree
begin

text \<open>
  Insertion of networks. The invariant of the builder (\<open>builder_inv\<close>) covers the cached node of
  \<open>::/96\<close>; under it, an insertion merges the record into exactly the addresses of the network, and a
  sequence of insertions leaves at every address the merge of the records of the networks that contain
  it, in any order for columnar records.
\<close>

section \<open>Insertion below an open path\<close>

lemma height_addrs: "rep ns t \<Longrightarrow> t \<noteq> Absent \<Longrightarrow> height t < length (addrs t)"
proof (induction t)
  case (Node i l r)
  have "l = Absent \<or> height l < length (addrs l)" "r = Absent \<or> height r < length (addrs r)"
    "l \<noteq> Absent \<or> r \<noteq> Absent" using Node by auto
  then show ?case by auto
qed simp_all

lemma height_fuel:
  assumes "rep ns t" and "proper t" and "t \<noteq> Absent"
  shows "height t < length ns"
proof -
  have "length (addrs t) = card (set (addrs t))" using proper_distinct [OF assms(2)] by (simp add: distinct_card)
  also have "\<dots> \<le> card {0..<length ns}" using rep_addrs [OF assms(1)] by (intro card_mono) auto
  finally show ?thesis using height_addrs [OF assms(1,3)] by simp
qed

text \<open>A tree whose leaves are records of the pool and whose paths have at most \<open>w\<close> bits.\<close>

definition tree_ok :: "nat \<Rightarrow> trie_node list \<Rightarrow> pool \<Rightarrow> tree \<Rightarrow> bool" where
  "tree_ok w ns p t \<longleftrightarrow> rep ns t \<and> proper t \<and> t \<noteq> Absent \<and> height t \<le> w \<and> pool_ok p \<and> (\<forall>x \<in> leaf_data t. valid_id p x)"

lemma tree_ok_lookup_valid: "tree_ok w ns p t \<Longrightarrow> valid_id p (lookup t a)"
  using lookup_leaf_data [of t a] pool_ok_valid0 [of p] by (auto simp: tree_ok_def simp del: pool_ok_valid0)

lemma sub_at_put_at: "sub_at t z \<noteq> Absent \<Longrightarrow> sub_at (put_at t z s) (z @ ys) = sub_at s ys"
proof (induction z arbitrary: t)
  case (Cons b z)
  then obtain i l r where t: "t = Node i l r" using sub_at_root tree_child_Node by (metis sub_at.simps(2))
  show ?case using Cons.IH [of "tree_child b t"] Cons.prems by (cases b) (simp_all add: t)
qed simp

lemma open_below:
  assumes ok: "tree_ok w ns p t" and z: "sub_at t z \<noteq> Absent"
    and len: "length z + length ys \<le> w" and d: "descend_bits ns (idx (sub_at t z)) ys = (i, ns')"
  obtains t' where "tree_ok w ns' p t'" and "keeps_paths t t'" and "sub_at t' (z @ ys) \<noteq> Absent"
    and "i = idx (sub_at t' (z @ ys))" and "\<And>a. w \<le> length a \<Longrightarrow> lookup t' a = lookup t a"
proof -
  let ?s = "sub_at t z" and ?o = "open_path (sub_at t z) ys (length ns)"
  let ?t = "put_at t z ?o"
  have ok: "rep ns t" "proper t" "height t \<le> w" "pool_ok p" "\<forall>x \<in> leaf_data t. valid_id p x"
    using ok by (simp_all add: tree_ok_def)
  from descend_rep [OF rep_sub_at [OF ok(1)] proper_sub_at [OF ok(2)] z d]
  have o: "rep ns' ?o" "proper ?o" "i = idx (sub_at ?o ys)" "agree ns ns' (set (addrs ?s))"
    "set (addrs ?o) \<subseteq> set (addrs ?s) \<union> {length ns..}" by blast+
  have oa: "?o \<noteq> Absent" using z by simp
  have r: "rep ns' ?t" "proper ?t" using put_at_rep [OF ok(1,2) z o(4,1,2) oa _ o(5)] by simp_all
  have "height ?o \<le> max (height ?s) (length ys)" by (rule height_open_path)
  then have h: "height ?t \<le> w"
    using height_put_at [of t z ?o] height_sub_at [OF z] ok(3) len by linarith
  have "leaf_data ?t \<subseteq> insert 0 (leaf_data t)"
    using leaf_data_put_at [of t z ?o] leaf_data_open_path [of ?s ys "length ns"] leaf_data_sub_at [of t z] by blast
  then have "tree_ok w ns' p ?t"
    using r h ok(4,5) put_at_Absent [OF z oa] pool_ok_valid0 [OF ok(4)] unfolding tree_ok_def by blast
  moreover have "keeps_paths t ?t" by (intro keeps_paths_put_at keeps_paths_open_path)
  moreover have sub: "sub_at ?t (z @ ys) = sub_at ?o ys"
    by (rule sub_at_put_at [OF z])
  moreover have "lookup ?t a = lookup t a" if "w \<le> length a" for a
    using lookup_put_at [OF z, of ?o a] lookup_sub_at [OF z, of a]
      lookup_open_path [of ys "drop (length z) a" ?s "length ns"] that len by simp
  ultimately show ?thesis
    using that [of ?t] o(3) sub_at_open_path [OF z, of ys "length ns"] by simp
qed

lemma merge_below:
  assumes ok: "tree_ok w ns p t" and z: "sub_at t z \<noteq> Absent" and d: "valid_id p d"
    and m: "merge_subtree ns p (idx (sub_at t z)) d = (ns', p')"
  obtains t' where "tree_ok w ns' p' t'" and "keeps_paths t t'" and "extends p p'"
    and "\<And>a. length a = w \<Longrightarrow> value_at p' (lookup t' a) =
      (if prefix z a then merge_values (row_sort_key p) (value_at p (lookup t a)) (value_at p d)
       else value_at p (lookup t a))"
proof -
  let ?s = "sub_at t z"
  have r: "rep ns t" "proper t" "height t \<le> w" "pool_ok p" "\<forall>x \<in> leaf_data t. valid_id p x"
    using ok by (simp_all add: tree_ok_def)
  obtain s' n' q where mt: "merge_tree deep_merge p ?s d (length ns) = (s', n', q)" by (metis prod_cases3)
  note rs = rep_sub_at [OF r(1), of z] proper_sub_at [OF r(2), of z]
  from merge_subtree_rep [OF rs z height_fuel [OF rs z] mt m [unfolded merge_subtree_def]]
  have s: "p' = q" "rep ns' s'" "proper s'" "agree ns ns' (set (addrs ?s))"
    "set (addrs s') \<subseteq> set (addrs ?s) \<union> {length ns..<n'}" by blast+
  have sub: "set (addrs s') \<subseteq> set (addrs ?s) \<union> {length ns..}" using s(5) by auto
  note shape = merge_tree_shape [OF mt]
  have vs: "\<forall>x \<in> leaf_data ?s. valid_id p x" using r(5) leaf_data_sub_at by blast
  have law: "pool_ok p'" "extends p p'" "\<forall>x \<in> leaf_data s'. valid_id p' x"
    and val: "\<And>a. height ?s \<le> length a \<Longrightarrow> value_at p' (lookup s' a) =
        merge_values (row_sort_key p) (value_at p (lookup ?s a)) (value_at p d)"
    using tp.merge_tree_law [OF r(4) vs d mt] s(1) by auto
  let ?t = "put_at t z s'"
  have "rep ns' ?t \<and> proper ?t" using put_at_rep [OF r(1,2) z s(4,2,3) _ _ sub] shape z by auto
  moreover have "height ?t \<le> w"
    using height_put_at [of t z s'] height_sub_at [OF z] r(3) shape by simp
  moreover have "\<forall>x \<in> leaf_data ?t. valid_id p' x"
    using leaf_data_put_at [of t z s'] law(3) r(5) extends_valid [OF law(2)] by blast
  ultimately have ok': "tree_ok w ns' p' ?t"
    using law(1) put_at_Absent [OF z] shape by (simp add: tree_ok_def)
  have look: "value_at p' (lookup ?t a) =
      (if prefix z a then merge_values (row_sort_key p) (value_at p (lookup t a)) (value_at p d)
       else value_at p (lookup t a))" if "length a = w" for a
  proof (cases "prefix z a")
    case True
    have "height ?s \<le> length (drop (length z) a)" using height_sub_at [OF z] r(3) that by simp
    then show ?thesis
      using val [of "drop (length z) a"] lookup_put_at [OF z, of s' a] lookup_sub_at [OF z True] True by simp
  next
    case False
    then show ?thesis
      using lookup_put_at [OF z, of s' a] extends_value_at [OF r(4) law(2) tree_ok_lookup_valid [OF ok]] by simp
  qed
  show ?thesis
    using that [OF ok' _ law(2) look] keeps_paths_put_at [of t z s'] shape by blast
qed

section \<open>The builder's invariant\<close>

definition address_bits :: "builder \<Rightarrow> nat" where
  "address_bits b = (if ip_version b = 4 then 32 else 128)"

text \<open>The nodes are a tree over the pool, and \<open>ipv4_root_\<close>, once set, is the node of \<open>::/96\<close>.\<close>

definition builder_inv :: "builder \<Rightarrow> bool" where
  "builder_inv b \<longleftrightarrow> (\<exists>t. tree_ok (address_bits b) (nodes b) (bpool b) t \<and> idx t = 0 \<and>
     (ipv4_root b \<noteq> 0 \<longrightarrow> ip_version b = 6 \<and> sub_at t (replicate 96 False) \<noteq> Absent \<and>
        idx (sub_at t (replicate 96 False)) = ipv4_root b))"

text \<open>The record that the tree holds for an address: the walk a reader of the tree makes.\<close>

fun walk :: "trie_node list \<Rightarrow> nat \<Rightarrow> bool list \<Rightarrow> nat" where
  "walk ns i [] = node_data (ns ! i)"
| "walk ns i (b # bs) =
     (if child0 (ns ! i) = 0 \<and> child1 (ns ! i) = 0 then node_data (ns ! i)
      else if child (ns ! i) b = 0 then 0 else walk ns (child (ns ! i) b) bs)"

definition record_for :: "builder \<Rightarrow> bool list \<Rightarrow> data" where
  "record_for b a = value_at (bpool b) (walk (nodes b) 0 a)"

lemma walk_rep: "rep ns t \<Longrightarrow> proper t \<Longrightarrow> t \<noteq> Absent \<Longrightarrow> walk ns (idx t) a = lookup t a"
proof (induction a arbitrary: t)
  case Nil
  then show ?case by (cases t) auto
next
  case (Cons b bs)
  show ?case
  proof (cases t)
    case (Node i l r)
    have z: "idx l = 0 \<longleftrightarrow> l = Absent" "idx r = 0 \<longleftrightarrow> r = Absent"
      using Cons.prems(2) idx_zero_iff by (simp_all add: Node)
    show ?thesis
      using Cons.prems Cons.IH [of "tree_child b t"] z by (cases b) (auto simp: Node child_def)
  qed (use Cons.prems in simp_all)
qed

lemma tree_ok_record:
  "tree_ok w (nodes b) (bpool b) t \<Longrightarrow> idx t = 0 \<Longrightarrow> record_for b a = value_at (bpool b) (lookup t a)"
  using walk_rep [of "nodes b" t a] by (simp add: tree_ok_def record_for_def)

lemma path_append: "i \<le> j \<Longrightarrow> j \<le> k \<Longrightarrow> path bits i j @ path bits j k = path bits i k"
  using upt_add_eq_append [of i j "k - j"] by (simp add: path_def flip: map_append)

lemma length_path [simp]: "length (path bits i j) = j - i"
  by (simp add: path_def)

lemma path_zero:
  assumes "take 12 bits = replicate 12 0"
  shows "path bits 0 96 = replicate 96 False"
proof -
  have "bit_at bits k = False" if "k < 96" for k
  proof -
    have k: "k div 8 < 12" using that by simp
    then have "bits ! (k div 8) = take 12 bits ! (k div 8)" by simp
    then have "bits ! (k div 8) = 0" using k by (simp only: assms nth_replicate)
    then show ?thesis by (simp add: bit_at_def)
  qed
  then show ?thesis by (intro nth_equalityI) (simp_all add: path_def)
qed

lemma kZeroBits_path: "path kZeroBits 0 96 = replicate 96 False"
  by (rule path_zero) (simp add: kZeroBits_def)

text \<open>One insertion, below a path that is open already.\<close>

lemma insert_below:
  assumes ok: "tree_ok w ns p t" and z: "sub_at t z \<noteq> Absent" and len: "length z + length ys \<le> w" and d: "valid_id p d"
    and "descend_bits ns (idx (sub_at t z)) ys = (i, ns1)" and "merge_subtree ns1 p i d = (ns2, p2)"
  obtains t' where "tree_ok w ns2 p2 t'" and "keeps_paths t t'" and "extends p p2"
    and "\<And>a. length a = w \<Longrightarrow> value_at p2 (lookup t' a) =
      (if prefix (z @ ys) a then merge_values (row_sort_key p) (value_at p (lookup t a)) (value_at p d)
       else value_at p (lookup t a))"
proof -
  obtain t1 where t1: "tree_ok w ns1 p t1" "keeps_paths t t1" "sub_at t1 (z @ ys) \<noteq> Absent"
    "i = idx (sub_at t1 (z @ ys))" "\<And>a. w \<le> length a \<Longrightarrow> lookup t1 a = lookup t a"
    using open_below [OF ok z len assms(5)] by blast
  obtain t' where t': "tree_ok w ns2 p2 t'" "keeps_paths t1 t'" "extends p p2"
    "\<And>a. length a = w \<Longrightarrow> value_at p2 (lookup t' a) =
      (if prefix (z @ ys) a then merge_values (row_sort_key p) (value_at p (lookup t1 a)) (value_at p d)
       else value_at p (lookup t1 a))"
    using merge_below [OF t1(1,3) d assms(6) [unfolded t1(4)]] by blast
  show ?thesis using that [OF t'(1) keeps_paths_trans [OF t1(2) t'(2)] t'(3)] t'(4) t1(5) by simp
qed

definition below_v4 :: "builder \<Rightarrow> bytes \<Rightarrow> nat \<Rightarrow> bool" where
  "below_v4 b bits len \<longleftrightarrow> ip_version b = 6 \<and> len \<ge> 96 \<and> take 12 bits = replicate 12 0"

lemma insert_bits_simps:
  "\<not> below_v4 b bits len \<Longrightarrow>
     insert_bits b bits len d =
       (let (i, ns) = descend (nodes b) 0 0 bits len; (ns, p) = merge_subtree ns (bpool b) i d
        in b\<lparr>nodes := ns, bpool := p\<rparr>)"
  "below_v4 b bits len \<Longrightarrow> ipv4_root b \<noteq> 0 \<Longrightarrow>
     insert_bits b bits len d =
       (let (i, ns) = descend (nodes b) (ipv4_root b) 96 bits len; (ns, p) = merge_subtree ns (bpool b) i d
        in b\<lparr>nodes := ns, bpool := p\<rparr>)"
  "below_v4 b bits len \<Longrightarrow> ipv4_root b = 0 \<Longrightarrow>
     insert_bits b bits len d =
       (let (root4, ns) = descend (nodes b) 0 0 kZeroBits 96; (i, ns) = descend ns root4 96 bits len;
            (ns, p) = merge_subtree ns (bpool b) i d
        in b\<lparr>nodes := ns, ipv4_root := root4, bpool := p\<rparr>)"
  by (auto simp: insert_bits_def below_v4_def kV4Offset_def kZeroBits_def Let_def split: prod.splits)

lemma idx_sub_at_zero:
  assumes "proper t" and "sub_at t z \<noteq> Absent" and "z \<noteq> []"
  shows "idx (sub_at t z) \<noteq> 0"
proof -
  obtain b z' where z: "z = b # z'" using assms(3) by (cases z) auto
  then obtain i l r where t: "t = Node i l r"
    using assms(2) sub_at_root tree_child_Node by (metis sub_at.simps(2))
  have "idx (sub_at t z) \<in> set (addrs (tree_child b t))"
    using idx_in_addrs [OF assms(2)] addrs_sub_at [of "tree_child b t" z'] by (auto simp: z)
  then show ?thesis using assms(1) by (auto simp: t split: if_splits)
qed

text \<open>The end of an insertion: the descent from a node \<open>t1\<close> reaches without changing a record, and the merge.\<close>

lemma insert_bits_finish:
  assumes t: "tree_ok (address_bits b) (nodes b) (bpool b) t" "idx t = 0"
    and d: "valid_id (bpool b) d" and len: "len \<le> address_bits b"
    and st: "tree_ok (address_bits b) ns1 (bpool b) t1" "keeps_paths t t1"
      "\<And>a. address_bits b \<le> length a \<Longrightarrow> lookup t1 a = lookup t a"
      "sub_at t1 z \<noteq> Absent" "z @ ys = path bits 0 len" "descend_bits ns1 (idx (sub_at t1 z)) ys = (i, ns2)"
      "merge_subtree ns2 (bpool b) i d = (ns3, p3)" "b' = b\<lparr>nodes := ns3, ipv4_root := root4, bpool := p3\<rparr>"
      "root4 \<noteq> 0 \<longrightarrow> ip_version b = 6 \<and> sub_at t1 (replicate 96 False) \<noteq> Absent \<and>
        idx (sub_at t1 (replicate 96 False)) = root4"
  shows "builder_inv b' \<and> address_bits b' = address_bits b \<and> extends (bpool b) (bpool b') \<and>
    (\<forall>a. length a = address_bits b \<longrightarrow> record_for b' a =
       (if prefix (path bits 0 len) a then merge_values (row_sort_key (bpool b)) (record_for b a) (value_at (bpool b) d)
        else record_for b a))"
proof -
  let ?w = "address_bits b" and ?p = "bpool b" and ?z = "replicate 96 False"
  have l: "length z + length ys \<le> ?w" using arg_cong [OF st(5), of length] len by simp
  obtain t' where t': "tree_ok ?w ns3 p3 t'" "keeps_paths t1 t'" "extends ?p p3"
    "\<And>a. length a = ?w \<Longrightarrow> value_at p3 (lookup t' a) =
      (if prefix (z @ ys) a then merge_values (row_sort_key ?p) (value_at ?p (lookup t1 a)) (value_at ?p d)
       else value_at ?p (lookup t1 a))"
    using insert_below [OF st(1,4) l d st(6,7)] by blast
  have w: "address_bits b' = ?w" "nodes b' = ns3" "bpool b' = p3" "ipv4_root b' = root4" "ip_version b' = ip_version b"
    using st(8) by (simp_all add: address_bits_def)
  have ne: "t \<noteq> Absent" "t1 \<noteq> Absent" using t(1) st(1) by (simp_all add: tree_ok_def)
  have idx: "idx t' = 0"
    using ne t(2) st(2) t'(2) unfolding keeps_paths_def by (metis sub_at.simps(1))
  have "root4 \<noteq> 0 \<longrightarrow> ip_version b = 6 \<and> sub_at t' ?z \<noteq> Absent \<and> idx (sub_at t' ?z) = root4"
    using st(9) t'(2) unfolding keeps_paths_def by metis
  then have "builder_inv b'" using t'(1) idx w by (auto simp: builder_inv_def)
  moreover have "record_for b' a =
     (if prefix (path bits 0 len) a then merge_values (row_sort_key ?p) (record_for b a) (value_at ?p d)
      else record_for b a)" if a: "length a = ?w" for a
    using tree_ok_record [OF _ idx, of ?w b' a] tree_ok_record [OF t(1,2), of a] t'(1) t'(4) [OF a] w a
      st(3) [of a] st(5) by simp
  ultimately show ?thesis using w t'(3) by simp
qed

lemma insert_bits_tree:
  assumes inv: "builder_inv b" and d: "valid_id (bpool b) d" and len: "len \<le> address_bits b"
    and b': "b' = insert_bits b bits len d"
  shows "builder_inv b' \<and> address_bits b' = address_bits b \<and> extends (bpool b) (bpool b') \<and>
    (\<forall>a. length a = address_bits b \<longrightarrow> record_for b' a =
       (if prefix (path bits 0 len) a then merge_values (row_sort_key (bpool b)) (record_for b a) (value_at (bpool b) d)
        else record_for b a))"
proof -
  let ?w = "address_bits b" and ?p = "bpool b" and ?z = "replicate 96 False"
  obtain t where t: "tree_ok ?w (nodes b) ?p t" "idx t = 0"
    "ipv4_root b \<noteq> 0 \<longrightarrow> ip_version b = 6 \<and> sub_at t ?z \<noteq> Absent \<and> idx (sub_at t ?z) = ipv4_root b"
    using inv by (auto simp: builder_inv_def)
  note finish = insert_bits_finish [OF t(1,2) d len]
  consider (plain) "\<not> below_v4 b bits len" | (cached) "below_v4 b bits len" "ipv4_root b \<noteq> 0"
    | (fresh) "below_v4 b bits len" "ipv4_root b = 0" by blast
  then show ?thesis
  proof cases
    case plain
    obtain i ns where i: "descend (nodes b) 0 0 bits len = (i, ns)" by fastforce
    obtain ns' p' where m: "merge_subtree ns ?p i d = (ns', p')" by fastforce
    have b3: "b' = b\<lparr>nodes := ns', ipv4_root := ipv4_root b, bpool := p'\<rparr>"
      using b' insert_bits_simps(1) [OF plain] i m by simp
    have dd: "descend_bits (nodes b) (idx (sub_at t [])) (path bits 0 len) = (i, ns)"
      using i t(2) by (simp add: descend_path)
    have ne: "sub_at t [] \<noteq> Absent" using t(1) by (simp add: tree_ok_def)
    show ?thesis by (rule finish [OF t(1) keeps_paths_refl refl ne append_Nil dd m b3 t(3)])
  next
    case cached
    obtain i ns where i: "descend (nodes b) (ipv4_root b) 96 bits len = (i, ns)" by fastforce
    obtain ns' p' where m: "merge_subtree ns ?p i d = (ns', p')" by fastforce
    have "b' = b\<lparr>nodes := ns', ipv4_root := ipv4_root b, bpool := p'\<rparr>"
      using b' insert_bits_simps(2) [OF cached] i m by simp
    moreover have "descend_bits (nodes b) (idx (sub_at t ?z)) (path bits 96 len) = (i, ns)"
      using i t(3) cached by (simp add: descend_path)
    moreover have "?z @ path bits 96 len = path bits 0 len"
      using path_zero [of bits] path_append [of 0 96 len bits] cached(1) by (simp add: below_v4_def)
    ultimately show ?thesis
      using finish [OF t(1) keeps_paths_refl refl _ _ _ m, where z = ?z and ys = "path bits 96 len" and ?root4.0 = "ipv4_root b"]
        t(3) cached by blast
  next
    case fresh
    obtain root4 ns where r: "descend (nodes b) 0 0 kZeroBits 96 = (root4, ns)" by fastforce
    obtain i ns' where i: "descend ns root4 96 bits len = (i, ns')" by fastforce
    obtain ns3 p3 where m: "merge_subtree ns' ?p i d = (ns3, p3)" by fastforce
    have b3: "b' = b\<lparr>nodes := ns3, ipv4_root := root4, bpool := p3\<rparr>"
      using b' insert_bits_simps(3) [OF fresh] r i m by simp
    have "descend_bits (nodes b) (idx (sub_at t [])) ?z = (root4, ns)"
      using r t(2) by (simp add: descend_path kZeroBits_path)
    moreover have "length ([] :: bool list) + length ?z \<le> ?w"
      using fresh(1) by (simp add: below_v4_def address_bits_def)
    moreover have "sub_at t [] \<noteq> Absent" using t(1) by (simp add: tree_ok_def)
    ultimately obtain t1 where t1: "tree_ok ?w ns ?p t1" "keeps_paths t t1" "sub_at t1 ?z \<noteq> Absent"
      "root4 = idx (sub_at t1 ?z)" "\<And>a. ?w \<le> length a \<Longrightarrow> lookup t1 a = lookup t a"
      using open_below [OF t(1), of "[]" ?z root4 ns] by (metis append_Nil)
    have "?z @ path bits 96 len = path bits 0 len"
      using path_zero [of bits] path_append [of 0 96 len bits] fresh(1) by (simp add: below_v4_def)
    moreover have "descend_bits ns (idx (sub_at t1 ?z)) (path bits 96 len) = (i, ns')"
      using i t1(4) by (simp add: descend_path)
    moreover have "ip_version b = 6" using fresh(1) by (simp add: below_v4_def)
    ultimately show ?thesis
      using finish [OF t1(1,2,5,3) _ _ m b3] t1(3,4) by blast
  qed
qed


section \<open>Sequences of insertions\<close>

definition entry_valid :: "builder \<Rightarrow> network_entry \<Rightarrow> bool" where
  "entry_valid b e \<longleftrightarrow> prefix_len e \<le> address_bits b \<and> valid_id (bpool b) (net_data e)"

text \<open>An address, as its bits from the most significant one, belongs to a network.\<close>

definition matches :: "network_entry \<Rightarrow> bool list \<Rightarrow> bool" where
  "matches e a \<longleftrightarrow> prefix (path (net_bits e) 0 (prefix_len e)) a"

lemma insert_parsed_tree:
  "builder_inv b \<Longrightarrow> \<forall>e \<in> set es. entry_valid b e \<Longrightarrow> b' = insert_parsed b es \<Longrightarrow>
     builder_inv b' \<and> address_bits b' = address_bits b \<and> extends (bpool b) (bpool b') \<and>
     (\<forall>a. length a = address_bits b \<longrightarrow> record_for b' a =
        foldl (merge_values (row_sort_key (bpool b))) (record_for b a)
          (map (\<lambda>e. value_at (bpool b) (net_data e)) (filter (\<lambda>e. matches e a) es)))"
proof (induction es arbitrary: b)
  case (Cons e es)
  let ?b = "insert_bits b (net_bits e) (prefix_len e) (net_data e)"
  have e: "valid_id (bpool b) (net_data e)" "prefix_len e \<le> address_bits b"
    using Cons.prems(2) by (simp_all add: entry_valid_def)
  from insert_bits_tree [OF Cons.prems(1) e refl]
  have one: "builder_inv ?b" "address_bits ?b = address_bits b" "extends (bpool b) (bpool ?b)"
    and rec: "\<And>a. length a = address_bits b \<Longrightarrow> record_for ?b a =
      (if matches e a then merge_values (row_sort_key (bpool b)) (record_for b a) (value_at (bpool b) (net_data e))
       else record_for b a)" by (auto simp: matches_def)
  have ok: "pool_ok (bpool b)" using Cons.prems(1) by (auto simp: builder_inv_def tree_ok_def)
  have valid: "\<forall>e \<in> set es. entry_valid ?b e"
    using Cons.prems(2) extends_valid [OF one(3)] by (simp add: entry_valid_def one(2))
  have b': "b' = insert_parsed ?b es" using Cons.prems(3) by (simp add: insert_parsed_def)
  note IH = Cons.IH [OF one(1) valid b']
  have vals: "map (\<lambda>e. value_at (bpool ?b) (net_data e)) (filter (\<lambda>e. matches e a) es) =
      map (\<lambda>e. value_at (bpool b) (net_data e)) (filter (\<lambda>e. matches e a) es)" for a
    using Cons.prems(2) extends_value_at [OF ok one(3)] by (auto simp: entry_valid_def)
  show ?case
    using IH extends_trans [OF one(3), of "bpool b'"] rec
    by (simp add: one(2) extends_key [OF one(3)] vals del: map_eq_conv)
qed (simp add: insert_parsed_def)

text \<open>A builder into which nothing has been inserted yet.\<close>

definition fresh_builder :: "builder \<Rightarrow> bool" where
  "fresh_builder b \<longleftrightarrow> nodes b = [new_node] \<and> ipv4_root b = 0 \<and> pool_ok (bpool b)"

lemma fresh_builder_inv:
  assumes "fresh_builder b"
  shows "builder_inv b" and "record_for b a = DNull"
proof -
  have "tree_ok (address_bits b) (nodes b) (bpool b) (Leaf 0 0)"
    using assms pool_ok_valid0 by (auto simp: fresh_builder_def tree_ok_def new_node_def)
  then show "builder_inv b"
    unfolding builder_inv_def using assms by (intro exI [of _ "Leaf 0 0"]) (simp add: fresh_builder_def)
  show "record_for b a = DNull"
    using assms by (cases a) (simp_all add: record_for_def fresh_builder_def new_node_def)
qed

lemma fresh_builder_new: "fresh_builder (builder_set_row_sort_key (builder_new version db_type now) key)"
  using pool_ok_new by (simp add: fresh_builder_def builder_set_row_sort_key_def builder_new_def alloc_node_def)

lemma fresh_builder_store:
  assumes "fresh_builder b" and "plain d" and "store_data b d = (i, b')"
  shows "fresh_builder b' \<and> ip_version b' = ip_version b \<and> stored (bpool b) (bpool b') i d"
proof -
  obtain p where s: "store (bpool b) d = (i, p)" "b' = b\<lparr>bpool := p\<rparr>"
    using assms(3) by (auto simp: store_data_def split: prod.splits)
  then show ?thesis using store_spec(1) [OF _ assms(2) s(1)] assms(1) by (simp add: fresh_builder_def)
qed

section \<open>Properties\<close>

text \<open>One insertion keeps the builder's invariant and merges the record into exactly the addresses
  of the network: every other address keeps the record it had. This holds on all three ways through
  \<open>insert_bits\<close>, with and without the cached node of \<open>::/96\<close>.\<close>

theorem insert_bits_merges_network:
  assumes "builder_inv b" and "valid_id (bpool b) d" and "len \<le> address_bits b" and "length a = address_bits b"
  shows "let b' = insert_bits b bits len d in
    builder_inv b' \<and>
    record_for b' a =
      (if prefix (map (bit_at bits) [0..<len]) a
       then merge_values (row_sort_key (bpool b)) (record_for b a) (value_at (bpool b) d)
       else record_for b a)"
  using insert_bits_tree [OF assms(1-3) refl, of bits] assms(4) by (simp add: path_def Let_def)

definition example_builder :: builder where
  "example_builder = (builder_new 6 ''IP-Reputation'' 0)\<lparr>bpool := example_pool\<rparr>"

lemma example_builder_fresh: "fresh_builder example_builder"
  using example_pool_ok by (simp add: fresh_builder_def example_builder_def builder_new_def alloc_node_def)

lemma example_builder_bits: "address_bits example_builder = 128"
  by (simp add: address_bits_def example_builder_def builder_new_def)

lemma example_builder_pool: "bpool example_builder = example_pool"
  by (simp add: example_builder_def)

theorem insert_bits_merges_network_witness:
  "record_for (insert_bits example_builder (replicate 12 0 @ [10, 0, 0, 0]) 104 4)
      (replicate 96 False @ [False, False, False, False, True, False, True, False] @ replicate 24 False) =
    example_row ''b''"
proof -
  let ?bits = "replicate 12 0 @ [10, 0, 0, 0] :: bytes"
  let ?a = "replicate 96 False @ [False, False, False, False, True, False, True, False] @ replicate 24 False"
  have p: "map (bit_at ?bits) [0..<104] = take 104 ?a" by code_simp
  have "prefix (map (bit_at ?bits) [0..<104]) ?a" unfolding p by (rule take_is_prefix)
  then show ?thesis
    using insert_bits_merges_network [of example_builder 4 104 ?a ?bits] fresh_builder_inv [OF example_builder_fresh]
      example_builder_bits example_pool_values
    by (simp add: example_builder_pool Let_def merge_values.simps)
qed

lemma insert_parsed_fresh:
  assumes "fresh_builder b" and "\<forall>e \<in> set es. entry_valid b e" and "length a = address_bits b"
  shows "record_for (insert_parsed b es) a =
    foldl (merge_values (row_sort_key (bpool b))) DNull
      (map (\<lambda>e. value_at (bpool b) (net_data e)) (filter (\<lambda>e. matches e a) es))"
  using insert_parsed_tree [OF fresh_builder_inv(1) [OF assms(1)] assms(2) refl] fresh_builder_inv(2) [OF assms(1)]
    assms(3) by simp

text \<open>C9: After any sequence of insertions into a fresh builder, the record of an address is the merge,
  in the order of insertion, of the records of the networks that contain it, and nothing when there is
  none.\<close>

theorem insert_parsed_record:
  assumes "fresh_builder b" and "\<forall>e \<in> set es. entry_valid b e" and "length a = address_bits b"
  shows "record_for (insert_parsed b es) a =
    foldl (merge_values (row_sort_key (bpool b))) DNull
      (map (\<lambda>e. value_at (bpool b) (net_data e)) (filter (\<lambda>e. matches e a) es))"
  by (rule insert_parsed_fresh [OF assms])

definition example_entries :: "network_entry list" where
  "example_entries =
     [\<lparr>net_bits = replicate 16 0, prefix_len = 1, net_data = 4\<rparr>, \<lparr>net_bits = replicate 16 0, prefix_len = 96, net_data = 7\<rparr>]"

lemma example_entries_valid: "\<forall>e \<in> set example_entries. entry_valid example_builder e"
  by (simp add: example_entries_def entry_valid_def example_builder_bits example_builder_pool example_pool_values)

theorem insert_parsed_record_witness:
  "record_for (insert_parsed example_builder example_entries) (replicate 128 True) = DNull"
proof -
  have "path (replicate 16 0) 0 1 = [False]" "path (replicate 16 0) 0 96 = False # path (replicate 16 0) 1 96"
    by code_simp+
  then have "filter (\<lambda>e. matches e (replicate 128 True)) example_entries = []"
    by (simp add: example_entries_def matches_def replicate_Suc [of 127 True, simplified])
  then show ?thesis
    using insert_parsed_record [OF example_builder_fresh example_entries_valid, of "replicate 128 True"]
    by (simp add: example_builder_bits)
qed

text \<open>C10: The database does not depend on the order in which networks are inserted: two sequences with
  the same set of networks, whose records are tables with the same columns, leave the same record at
  every address. This is what makes the parallel compilation of the lists deterministic.\<close>

theorem insertion_order_irrelevant:
  assumes "fresh_builder b" and "\<forall>e \<in> set es. entry_valid b e \<and> is_table names (value_at (bpool b) (net_data e))"
    and "set es = set fs" and "length a = address_bits b"
  shows "record_for (insert_parsed b es) a = record_for (insert_parsed b fs) a"
proof -
  let ?vals = "\<lambda>es. map (\<lambda>e. value_at (bpool b) (net_data e)) (filter (\<lambda>e. matches e a) es)"
  have rec: "record_for (insert_parsed b gs) a = foldl (merge_values (row_sort_key (bpool b))) DNull (?vals gs)"
    if "set gs = set es" for gs
    using insert_parsed_fresh [OF assms(1) _ assms(4), of gs] assms(2) that by simp
  have sets: "set (?vals es) = set (?vals fs)" using assms(3) by simp
  have tables: "\<forall>x \<in> set (?vals es). is_table names x" using assms(2) by auto
  show ?thesis
  proof (cases "?vals es = []")
    case True
    then have "?vals fs = []" using sets by (metis set_empty)
    with True show ?thesis using rec [OF refl] rec [OF assms(3) [symmetric]] by (simp del: map_is_Nil_conv)
  next
    case False
    then have "?vals fs \<noteq> []" using sets by (metis set_empty)
    moreover have "\<forall>x \<in> set (?vals fs). is_table names x" using tables sets by blast
    ultimately show ?thesis
      using rec [OF refl] rec [OF assms(3) [symmetric]] foldl_merge_tables [OF False tables]
        foldl_merge_tables [of "?vals fs" names] united_cong [OF tables sets False] by metis
  qed
qed

theorem insertion_order_irrelevant_witness:
  "record_for (insert_parsed example_builder example_entries) (replicate 128 False) =
     record_for (insert_parsed example_builder (rev example_entries)) (replicate 128 False)"
proof (rule insertion_order_irrelevant [OF example_builder_fresh])
  show "\<forall>e \<in> set example_entries.
      entry_valid example_builder e \<and> is_table [''name''] (value_at (bpool example_builder) (net_data e))"
    using example_entries_valid
    by (simp add: example_entries_def example_builder_pool example_pool_values example_row_is_table)
qed (simp_all add: example_builder_bits)

end
