(* ===== verification/Blocklist.thy ===== *)
theory Blocklist
  imports Builder_Insert
begin

text \<open>
  Parsing of one FireHOL blocklist into the builder (\<open>process_file\<close> and its helpers in
  \<open>src/firehol_blocklist_ipsets/compiler.cpp\<close>). The text is consumed line by line; comment lines
  declare metadata, every other line is a network, and the networks reach the builder in batches with
  the record of the metadata in force. \<open>list_text\<close> is what a blocklist means, line by line, and the
  theory shows that the parser implements it, errors included, with its cached record and its batches.
  \<open>strptime\<close>, \<open>strftime\<close> and \<open>inet_pton\<close> are parameters, and reading the file has an outcome given by
  the environment.
\<close>

section \<open>Metadata\<close>

definition kInsertBatchSize :: nat where
  "kInsertBatchSize = 32768"

record list_metadata =
  lm_category :: string
  lm_maintainer_url :: string
  lm_maintainer :: string
  lm_list_source_url :: string
  lm_source_file_date :: string

definition no_metadata :: list_metadata where
  "no_metadata = \<lparr>lm_category = [], lm_maintainer_url = [], lm_maintainer = [], lm_list_source_url = [],
     lm_source_file_date = []\<rparr>"

record 'tm parse_env =
  strptime :: "string \<Rightarrow> 'tm option"
  strftime :: "'tm \<Rightarrow> string"
  inet_pton6 :: "string \<Rightarrow> bytes option"

definition parse_source_file_date :: "'tm parse_env \<Rightarrow> string \<Rightarrow> string + string" where
  "parse_source_file_date env raw =
     (case strptime env (c_string raw) of
        Some tm \<Rightarrow> Inr (strftime env tm)
      | None \<Rightarrow> Inl (''failed to parse datetime '' @ raw))"

datatype file_read = No_Open | No_Size | No_Read | Content string

definition read_file :: "string \<Rightarrow> file_read \<Rightarrow> string + string" where
  "read_file filepath outcome =
     (case outcome of
        No_Open \<Rightarrow> Inl (''Could not open blocklist: '' @ filepath)
      | No_Size \<Rightarrow> Inl (''Could not determine blocklist size: '' @ filepath)
      | No_Read \<Rightarrow> Inl (''Could not read blocklist: '' @ filepath)
      | Content text \<Rightarrow> Inr text)"

definition parse_error :: "string \<Rightarrow> nat \<Rightarrow> string \<Rightarrow> string" where
  "parse_error filepath line_number what = filepath @ '':'' @ to_string line_number @ '': '' @ what"

record parsed_blocklist =
  pb_networks :: nat
  pb_category :: string

section \<open>The parser\<close>

record parser =
  p_rest :: string
  p_line :: nat
  p_metadata :: list_metadata
  p_did :: nat
  p_network_count :: nat
  p_total_networks :: nat
  p_sections :: nat
  p_batch :: "network_entry list"

definition parser_new :: "string \<Rightarrow> parser" where
  "parser_new content = \<lparr>p_rest = content, p_line = 0, p_metadata = no_metadata, p_did = 0, p_network_count = 0,
     p_total_networks = 0, p_sections = 0, p_batch = []\<rparr>"

text \<open>The record of the metadata: a one-element column per field, the keys in the order of the map.\<close>

definition list_record :: "string \<Rightarrow> list_metadata \<Rightarrow> data" where
  "list_record file_name m =
     (let column = (\<lambda>v. DArray [DStr v]) in
      DObject
        [(''category'', column (lm_category m)), (''file_name'', column file_name),
         (''list_source_url'', column (lm_list_source_url m)), (''maintainer'', column (lm_maintainer m)),
         (''maintainer_url'', column (lm_maintainer_url m)),
         (''source_file_date_rfc3339'', column (lm_source_file_date m))])"

definition update_did :: "string \<Rightarrow> parser \<Rightarrow> builder \<Rightarrow> parser \<times> builder" where
  "update_did file_name ps b =
     (let (did, b) = store_data b (list_record file_name (p_metadata ps))
      in (ps\<lparr>p_did := did, p_network_count := 0, p_sections := p_sections ps + 1\<rparr>, b))"

definition flush_batch :: "parser \<Rightarrow> builder \<Rightarrow> parser \<times> builder" where
  "flush_batch ps b = (ps\<lparr>p_batch := []\<rparr>, insert_parsed b (p_batch ps))"

text \<open>Assignment of a declared value to its field, which ends the current record when networks use it.\<close>

definition assign_slot ::
  "(list_metadata \<Rightarrow> string) \<Rightarrow> ((string \<Rightarrow> string) \<Rightarrow> list_metadata \<Rightarrow> list_metadata) \<Rightarrow> string \<Rightarrow> parser \<Rightarrow> parser" where
  "assign_slot slot slot_update slot_val ps =
     (if slot (p_metadata ps) \<noteq> slot_val
      then ps\<lparr>p_did := (if p_network_count ps > 0 then 0 else p_did ps),
              p_metadata := slot_update (\<lambda>_. slot_val) (p_metadata ps)\<rparr>
      else ps)"

definition process_comment :: "'tm parse_env \<Rightarrow> string \<Rightarrow> string \<Rightarrow> parser \<Rightarrow> string + parser" where
  "process_comment env filepath comment ps =
     (case find_char comment CHR '':'' of
        None \<Rightarrow> Inr ps
      | Some colon \<Rightarrow>
          (let key = trim (take colon comment); val = trim (drop (colon + 1) comment) in
           if key = ''Category'' then Inr (assign_slot lm_category lm_category_update val ps)
           else if key = ''Maintainer URL'' then Inr (assign_slot lm_maintainer_url lm_maintainer_url_update val ps)
           else if key = ''Maintainer'' then Inr (assign_slot lm_maintainer lm_maintainer_update val ps)
           else if key = ''List source URL'' then Inr (assign_slot lm_list_source_url lm_list_source_url_update val ps)
           else if key = ''Source File Date'' then
             (case parse_source_file_date env val of
                Inl _ \<Rightarrow> Inl (parse_error filepath (p_line ps) ''invalid Source File Date'')
              | Inr date \<Rightarrow> Inr (assign_slot lm_source_file_date lm_source_file_date_update date ps))
           else Inr ps))"

definition strip_cr :: "string \<Rightarrow> string" where
  "strip_cr line = (if line \<noteq> [] \<and> last line = CHR 0x0D then butlast line else line)"

definition process_entry ::
  "'tm parse_env \<Rightarrow> string \<Rightarrow> string \<Rightarrow> string \<Rightarrow> parser \<Rightarrow> builder \<Rightarrow> string + parser \<times> builder" where
  "process_entry env filepath file_name entry ps b =
     (let (ps, b) = (if p_did ps = 0 then update_did file_name ps b else (ps, b)) in
      case parse_network (inet_pton6 env) b entry (p_did ps) of
        None \<Rightarrow> Inl (parse_error filepath (p_line ps) (''invalid entry '' @ entry))
      | Some parsed \<Rightarrow>
          Inr (ps\<lparr>p_batch := p_batch ps @ [parsed], p_network_count := p_network_count ps + 1,
                  p_total_networks := p_total_networks ps + 1\<rparr>, b))"

text \<open>One round of the loop over the lines, up to the test whether the batch is full.\<close>

definition next_line ::
  "'tm parse_env \<Rightarrow> string \<Rightarrow> string \<Rightarrow> parser \<Rightarrow> builder \<Rightarrow> string + parser \<times> builder" where
  "next_line env filepath file_name ps b =
     (let raw = takeWhile (\<lambda>c. c \<noteq> CHR 0x0A) (p_rest ps);
          ps = ps\<lparr>p_rest := drop (length raw + 1) (p_rest ps), p_line := p_line ps + 1\<rparr>;
          line = strip_cr raw
      in if line = [] then Inr (ps, b)
         else if hd line = CHR ''#'' then rbind (process_comment env filepath (tl line) ps) (\<lambda>ps. Inr (ps, b))
         else if trim line = [] then Inr (ps, b)
         else process_entry env filepath file_name (trim line) ps b)"

lemma rest_assign_slot [simp]: "p_rest (assign_slot g u v ps) = p_rest ps"
  by (simp add: assign_slot_def)

lemma rest_process_comment: "process_comment env fp c ps = Inr ps' \<Longrightarrow> p_rest ps' = p_rest ps"
  by (auto simp: process_comment_def Let_def split: option.splits if_splits sum.splits)

lemma rest_process_entry: "process_entry env fp fn e ps b = Inr (ps', b') \<Longrightarrow> p_rest ps' = p_rest ps"
  by (auto simp: process_entry_def update_did_def Let_def split: prod.splits option.splits if_splits)

lemma next_line_rest:
  "next_line env fp fn ps b = Inr (ps', b') \<Longrightarrow>
     p_rest ps' = drop (length (takeWhile (\<lambda>c. c \<noteq> CHR 0x0A) (p_rest ps)) + 1) (p_rest ps)"
  by (auto simp: next_line_def Let_def dest!: rest_process_comment rest_process_entry split: if_splits)

function process_lines ::
  "'tm parse_env \<Rightarrow> string \<Rightarrow> string \<Rightarrow> parser \<Rightarrow> builder \<Rightarrow> string + parser \<times> builder" where
  "process_lines env filepath file_name ps b =
     (if p_rest ps = [] then Inr (ps, b)
      else
        rbind (next_line env filepath file_name ps b) (\<lambda>r.
          let (ps, b) = (if length (p_batch (fst r)) = kInsertBatchSize then flush_batch (fst r) (snd r) else r)
          in process_lines env filepath file_name ps b))"
  by pat_completeness auto
termination
  by (relation "measure (\<lambda>(env, fp, fn, ps, b). length (p_rest ps))")
    (auto simp: flush_batch_def dest!: next_line_rest split: if_splits)

declare process_lines.simps [simp del]

definition process_file ::
  "'tm parse_env \<Rightarrow> string \<Rightarrow> string \<Rightarrow> file_read \<Rightarrow> builder \<Rightarrow> string + parsed_blocklist \<times> builder" where
  "process_file env filepath file_name outcome b =
     rbind (read_file filepath outcome) (\<lambda>content.
       if content = [] then Inr (\<lparr>pb_networks = 0, pb_category = []\<rparr>, b)
       else
         rbind (process_lines env filepath file_name (parser_new content) b) (\<lambda>(ps, b).
           let (ps, b) = flush_batch ps b
           in Inr (\<lparr>pb_networks = p_total_networks ps, pb_category = lm_category (p_metadata ps)\<rparr>, b)))"

section \<open>What a blocklist says\<close>

text \<open>A network with the record its list gives to it.\<close>

type_synonym net = "bytes \<times> nat \<times> data"

function lines_of :: "string \<Rightarrow> string list" where
  "lines_of s =
     (if s = [] then []
      else takeWhile (\<lambda>c. c \<noteq> CHR 0x0A) s # lines_of (drop (length (takeWhile (\<lambda>c. c \<noteq> CHR 0x0A) s) + 1) s))"
  by pat_completeness auto
termination
  by (relation "measure length") auto

declare lines_of.simps [simp del]

text \<open>The metadata after a comment, and the networks of a line.\<close>

definition declared :: "'tm parse_env \<Rightarrow> string \<Rightarrow> nat \<Rightarrow> string \<Rightarrow> list_metadata \<Rightarrow> string + list_metadata" where
  "declared env filepath n comment m =
     (case find_char comment CHR '':'' of
        None \<Rightarrow> Inr m
      | Some colon \<Rightarrow>
          (let key = trim (take colon comment); val = trim (drop (colon + 1) comment) in
           if key = ''Category'' then Inr (m\<lparr>lm_category := val\<rparr>)
           else if key = ''Maintainer URL'' then Inr (m\<lparr>lm_maintainer_url := val\<rparr>)
           else if key = ''Maintainer'' then Inr (m\<lparr>lm_maintainer := val\<rparr>)
           else if key = ''List source URL'' then Inr (m\<lparr>lm_list_source_url := val\<rparr>)
           else if key = ''Source File Date'' then
             (case strptime env (c_string val) of
                None \<Rightarrow> Inl (parse_error filepath n ''invalid Source File Date'')
              | Some tm \<Rightarrow> Inr (m\<lparr>lm_source_file_date := strftime env tm\<rparr>))
           else Inr m))"

definition list_line ::
  "'tm parse_env \<Rightarrow> builder \<Rightarrow> string \<Rightarrow> string \<Rightarrow> nat \<Rightarrow> list_metadata \<Rightarrow> string \<Rightarrow> string + net list \<times> list_metadata" where
  "list_line env b filepath file_name n m raw =
     (let line = strip_cr raw in
      if line = [] then Inr ([], m)
      else if hd line = CHR ''#'' then rbind (declared env filepath n (tl line) m) (\<lambda>m. Inr ([], m))
      else if trim line = [] then Inr ([], m)
      else case parse_network (inet_pton6 env) b (trim line) 0 of
        None \<Rightarrow> Inl (parse_error filepath n (''invalid entry '' @ trim line))
      | Some e \<Rightarrow> Inr ([(net_bits e, prefix_len e, list_record file_name m)], m))"

fun list_lines ::
  "'tm parse_env \<Rightarrow> builder \<Rightarrow> string \<Rightarrow> string \<Rightarrow> nat \<Rightarrow> list_metadata \<Rightarrow> string list \<Rightarrow> string + net list \<times> list_metadata" where
  "list_lines env b filepath file_name n m [] = Inr ([], m)"
| "list_lines env b filepath file_name n m (l # ls) =
     rbind (list_line env b filepath file_name (n + 1) m l) (\<lambda>(xs, m).
       rbind (list_lines env b filepath file_name (n + 1) m ls) (\<lambda>(ys, m). Inr (xs @ ys, m)))"

definition list_text ::
  "'tm parse_env \<Rightarrow> builder \<Rightarrow> string \<Rightarrow> string \<Rightarrow> string \<Rightarrow> string + net list \<times> list_metadata" where
  "list_text env b filepath file_name content = list_lines env b filepath file_name 0 no_metadata (lines_of content)"

text \<open>An address belongs to a network.\<close>

definition net_contains :: "net \<Rightarrow> bool list \<Rightarrow> bool" where
  "net_contains n a \<longleftrightarrow> prefix (path (fst n) 0 (fst (snd n))) a"

definition net_of :: "pool \<Rightarrow> network_entry \<Rightarrow> net" where
  "net_of p e = (net_bits e, prefix_len e, value_at p (net_data e))"

text \<open>The records of the networks that contain an address, in their order.\<close>

definition net_records :: "net list \<Rightarrow> bool list \<Rightarrow> data list" where
  "net_records ns a = map (\<lambda>n. snd (snd n)) (filter (\<lambda>n. net_contains n a) ns)"

section \<open>One line\<close>

lemma parse_network_data:
  "ip_version b = ip_version b' \<Longrightarrow>
     parse_network pton b cidr d = map_option (\<lambda>e. e\<lparr>net_data := d\<rparr>) (parse_network pton b' cidr 0)"
  by (auto simp: parse_network_def Let_def split: prod.splits option.splits)

lemma parse_network_len: "parse_network pton b cidr d = Some e \<Longrightarrow> prefix_len e \<le> address_bits b \<and> net_data e = d"
  by (auto simp: parse_network_def Let_def address_bits_def split: prod.splits option.splits if_splits)

lemma process_comment_declared:
  "process_comment env fp c ps = rbind (declared env fp (p_line ps) c (p_metadata ps)) (\<lambda>m.
     Inr (if m = p_metadata ps then ps
          else ps\<lparr>p_did := (if p_network_count ps > 0 then 0 else p_did ps), p_metadata := m\<rparr>))"
proof -
  have diff: "m\<lparr>lm_category := v\<rparr> = m \<longleftrightarrow> lm_category m = v" "m\<lparr>lm_maintainer_url := v\<rparr> = m \<longleftrightarrow> lm_maintainer_url m = v"
    "m\<lparr>lm_maintainer := v\<rparr> = m \<longleftrightarrow> lm_maintainer m = v" "m\<lparr>lm_list_source_url := v\<rparr> = m \<longleftrightarrow> lm_list_source_url m = v"
    "m\<lparr>lm_source_file_date := v\<rparr> = m \<longleftrightarrow> lm_source_file_date m = v" for m :: list_metadata and v
    by (cases m; auto)+
  show ?thesis
    by (simp add: process_comment_def declared_def parse_source_file_date_def Let_def assign_slot_def diff split: option.split)
qed

text \<open>What the parser knows of its state: its record, once stored, is that of the metadata in force and
  some network uses it, and its batch holds the networks not yet inserted.\<close>

definition parser_ok :: "string \<Rightarrow> builder \<Rightarrow> parser \<Rightarrow> net list \<Rightarrow> bool" where
  "parser_ok file_name b ps pending \<longleftrightarrow>
     (p_did ps \<noteq> 0 \<longrightarrow> 0 < p_network_count ps \<and> valid_id (bpool b) (p_did ps) \<and>
        value_at (bpool b) (p_did ps) = list_record file_name (p_metadata ps)) \<and>
     (\<forall>e \<in> set (p_batch ps). entry_valid b e) \<and> map (net_of (bpool b)) (p_batch ps) = pending"

lemma list_record_plain: "plain (list_record fn m)"
  by (simp add: list_record_def less_list_code Let_def)

text \<open>What every operation on the shared builder keeps.\<close>

definition evolves :: "builder \<Rightarrow> builder \<Rightarrow> bool" where
  "evolves b b' \<longleftrightarrow> builder_inv b' \<and> ip_version b' = ip_version b \<and> extends (bpool b) (bpool b')"

definition same_records :: "builder \<Rightarrow> builder \<Rightarrow> bool" where
  "same_records b b' \<longleftrightarrow> (\<forall>a. length a = address_bits b \<longrightarrow> record_for b' a = record_for b a)"

lemma evolves_refl: "builder_inv b \<Longrightarrow> evolves b b"
  by (simp add: evolves_def)

lemma evolves_trans: "evolves b b' \<Longrightarrow> evolves b' b'' \<Longrightarrow> evolves b b''"
  using extends_trans by (auto simp: evolves_def)

lemma evolves_bits: "evolves b b' \<Longrightarrow> address_bits b' = address_bits b"
  by (simp add: evolves_def address_bits_def)

lemma builder_inv_pool: "builder_inv b \<Longrightarrow> pool_ok (bpool b)"
  by (auto simp: builder_inv_def tree_ok_def)

lemma ip_version_insert_parsed [simp]: "ip_version (insert_parsed b es) = ip_version b"
proof -
  have "ip_version (insert_bits b bits len d) = ip_version b" for b bits len d
    by (simp add: insert_bits_def Let_def split: prod.split)
  then show ?thesis by (induction es arbitrary: b) (simp_all add: insert_parsed_def)
qed

lemma entry_valid_evolves: "evolves b b' \<Longrightarrow> entry_valid b e \<Longrightarrow> entry_valid b' e"
  using extends_valid [of "bpool b" "bpool b'" "net_data e"] evolves_bits [of b b'] by (simp add: entry_valid_def evolves_def)

lemma net_of_evolves:
  "builder_inv b \<Longrightarrow> evolves b b' \<Longrightarrow> entry_valid b e \<Longrightarrow> net_of (bpool b') e = net_of (bpool b) e"
  using extends_value_at [OF builder_inv_pool, of b "bpool b'" "net_data e"]
  by (simp add: net_of_def evolves_def entry_valid_def)

text \<open>Another worker's operations do not disturb the parser.\<close>

lemma parser_ok_evolves:
  assumes "builder_inv b" and "evolves b b'" and "parser_ok fn b ps pending"
  shows "parser_ok fn b' ps pending"
proof -
  have "map (net_of (bpool b')) (p_batch ps) = map (net_of (bpool b)) (p_batch ps)"
    by (rule map_cong [OF refl net_of_evolves [OF assms(1,2)]]) (use assms(3) in \<open>simp add: parser_ok_def\<close>)
  moreover have "\<forall>e \<in> set (p_batch ps). entry_valid b' e"
    using assms(3) entry_valid_evolves [OF assms(2)] by (simp add: parser_ok_def)
  moreover have "extends (bpool b) (bpool b')" using assms(2) by (simp add: evolves_def)
  ultimately show ?thesis
    using assms(3) extends_valid [of "bpool b" "bpool b'" "p_did ps"]
      extends_value_at [OF builder_inv_pool [OF assms(1)], of "bpool b'" "p_did ps"]
    unfolding parser_ok_def by metis
qed

lemma store_data_evolves:
  assumes "builder_inv b" and "plain d" and "store_data b d = (i, b')"
  shows "evolves b b' \<and> same_records b b' \<and> valid_id (bpool b') i \<and> value_at (bpool b') i = d"
proof -
  obtain p where s: "store (bpool b) d = (i, p)" "b' = b\<lparr>bpool := p\<rparr>"
    using assms(3) by (auto simp: store_data_def split: prod.splits)
  note st = store_spec(1) [OF builder_inv_pool [OF assms(1)] assms(2) s(1)]
  obtain t where t: "tree_ok (address_bits b) (nodes b) (bpool b) t" "idx t = 0"
     "ipv4_root b \<noteq> 0 \<longrightarrow> ip_version b = 6 \<and> sub_at t (replicate 96 False) \<noteq> Absent \<and>
        idx (sub_at t (replicate 96 False)) = ipv4_root b"
    using assms(1) by (auto simp: builder_inv_def)
  have t': "tree_ok (address_bits b) (nodes b) p t" using t(1) st extends_valid [of "bpool b" p] by (auto simp: tree_ok_def)
  have bits: "address_bits b' = address_bits b" by (simp add: s(2) address_bits_def)
  have "builder_inv b'" using t' t(2,3) unfolding builder_inv_def bits by (auto simp: s(2))
  moreover have "record_for b' a = record_for b a" for a
    using tree_ok_record [OF t(1,2), of a] tree_ok_record [of "address_bits b" b' t a] t' t(2)
      extends_value_at [OF builder_inv_pool [OF assms(1)], of p "lookup t a"] tree_ok_lookup_valid [OF t(1)] st
    by (simp add: s(2))
  ultimately show ?thesis using st by (simp add: evolves_def same_records_def s(2))
qed

lemma update_did_ok:
  assumes "builder_inv b" and "parser_ok fn b ps pending" and "update_did fn ps b = (ps', b')"
  shows "evolves b b' \<and> same_records b b' \<and> p_did ps' \<noteq> 0 \<and> valid_id (bpool b') (p_did ps') \<and>
    value_at (bpool b') (p_did ps') = list_record fn (p_metadata ps) \<and> p_metadata ps' = p_metadata ps \<and>
    (\<forall>e \<in> set (p_batch ps'). entry_valid b' e) \<and> map (net_of (bpool b')) (p_batch ps') = pending \<and>
    p_line ps' = p_line ps \<and> p_total_networks ps' = p_total_networks ps"
proof -
  obtain i where s: "store_data b (list_record fn (p_metadata ps)) = (i, b')"
    "ps' = ps\<lparr>p_did := i, p_network_count := 0, p_sections := p_sections ps + 1\<rparr>"
    using assms(3) by (auto simp: update_did_def split: prod.splits)
  note st = store_data_evolves [OF assms(1) list_record_plain s(1)]
  have "i \<noteq> 0" using st builder_inv_pool [of b'] by (auto intro!: gr0I simp: evolves_def list_record_def Let_def)
  then show ?thesis
    using st parser_ok_evolves [OF assms(1) _ assms(2)] by (auto simp: s(2) parser_ok_def)
qed

lemma parse_network_version:
  assumes "ip_version b = ip_version b'"
  shows "parse_network pton b cidr d = parse_network pton b' cidr d"
  by (simp only: parse_network_def assms)

lemma list_line_cong:
  assumes "ip_version b = ip_version b'"
  shows "list_line env b fp fn n m l = list_line env b' fp fn n m l"
  by (simp only: list_line_def parse_network_version [OF assms])

lemma list_lines_cong:
  assumes "ip_version b = ip_version b'"
  shows "list_lines env b fp fn n m ls = list_lines env b' fp fn n m ls"
  by (induction ls arbitrary: n m) (simp_all only: list_lines.simps list_line_cong [OF assms])

lemma process_entry_ok:
  assumes inv: "builder_inv b" and ok: "parser_ok fn b ps pending"
    and e: "parse_network (inet_pton6 env) b entry 0 = Some e"
  obtains ps' b' where "process_entry env fp fn entry ps b = Inr (ps', b')" and "evolves b b'" and "same_records b b'"
    and "parser_ok fn b' ps' (pending @ [(net_bits e, prefix_len e, list_record fn (p_metadata ps))])"
    and "p_metadata ps' = p_metadata ps" and "p_line ps' = p_line ps"
    and "p_total_networks ps' = p_total_networks ps + 1"
proof -
  obtain ps1 b1 where s: "(if p_did ps = 0 then update_did fn ps b else (ps, b)) = (ps1, b1)" by fastforce
  have one: "evolves b b1" "same_records b b1" "p_did ps1 \<noteq> 0" "valid_id (bpool b1) (p_did ps1)"
    "value_at (bpool b1) (p_did ps1) = list_record fn (p_metadata ps)" "p_metadata ps1 = p_metadata ps"
    "\<forall>e \<in> set (p_batch ps1). entry_valid b1 e" "map (net_of (bpool b1)) (p_batch ps1) = pending"
    "p_line ps1 = p_line ps" "p_total_networks ps1 = p_total_networks ps"
    using s update_did_ok [OF inv ok, of ps1 b1] ok evolves_refl [OF inv]
    by (auto simp: parser_ok_def same_records_def split: if_splits)
  let ?e = "e\<lparr>net_data := p_did ps1\<rparr>"
  let ?ps = "ps1\<lparr>p_batch := p_batch ps1 @ [?e], p_network_count := p_network_count ps1 + 1,
      p_total_networks := p_total_networks ps1 + 1\<rparr>"
  have parsed: "parse_network (inet_pton6 env) b1 entry (p_did ps1) = Some ?e"
    using parse_network_data [of b1 b "inet_pton6 env" entry "p_did ps1"] e one(1) by (simp add: evolves_def)
  have "entry_valid b1 ?e" using parse_network_len [OF parsed] one(4) by (simp add: entry_valid_def)
  then have "parser_ok fn b1 ?ps (pending @ [(net_bits e, prefix_len e, list_record fn (p_metadata ps))])"
    using one by (simp add: parser_ok_def net_of_def)
  moreover have "process_entry env fp fn entry ps b = Inr (?ps, b1)"
    by (simp add: process_entry_def s parsed)
  ultimately show ?thesis using that one by simp
qed

lemma list_line_network:
  assumes "list_line env b fp fn n m raw = Inr (xs, m')" and "strip_cr raw \<noteq> []" and "hd (strip_cr raw) \<noteq> CHR ''#''"
    and "trim (strip_cr raw) \<noteq> []"
  shows "\<exists>e. parse_network (inet_pton6 env) b (trim (strip_cr raw)) 0 = Some e \<and>
    xs = [(net_bits e, prefix_len e, list_record fn m)] \<and> m' = m"
  using assms by (cases "parse_network (inet_pton6 env) b (trim (strip_cr raw)) 0") (auto simp: list_line_def Let_def)

text \<open>One line of the parser against one line of the list.\<close>

lemma next_line_ok:
  assumes inv: "builder_inv b" and ok: "parser_ok fn b ps pending"
    and spec: "list_line env b fp fn (p_line ps + 1) (p_metadata ps) (takeWhile (\<lambda>c. c \<noteq> CHR 0x0A) (p_rest ps)) = Inr (xs, m)"
  obtains ps' b' where "next_line env fp fn ps b = Inr (ps', b')" and "evolves b b'" and "same_records b b'"
    and "parser_ok fn b' ps' (pending @ xs)" and "p_metadata ps' = m" and "p_line ps' = p_line ps + 1"
    and "p_total_networks ps' = p_total_networks ps + length xs"
proof -
  define line where "line = strip_cr (takeWhile (\<lambda>c. c \<noteq> CHR 0x0A) (p_rest ps))"
  define ps0 where "ps0 = ps\<lparr>p_rest := drop (length (takeWhile (\<lambda>c. c \<noteq> CHR 0x0A) (p_rest ps)) + 1) (p_rest ps),
    p_line := p_line ps + 1\<rparr>"
  have ok0: "parser_ok fn b ps0 pending" using ok by (simp add: parser_ok_def ps0_def)
  have same: "same_records b b" by (simp add: same_records_def)
  have nl: "next_line env fp fn ps b = (if line = [] then Inr (ps0, b)
      else if hd line = CHR ''#'' then rbind (process_comment env fp (tl line) ps0) (\<lambda>ps. Inr (ps, b))
      else if trim line = [] then Inr (ps0, b) else process_entry env fp fn (trim line) ps0 b)"
    by (simp add: next_line_def line_def ps0_def Let_def)
  show ?thesis
  proof (cases "line = [] \<or> hd line \<noteq> CHR ''#'' \<and> trim line = []")
    case True
    then have "xs = []" "m = p_metadata ps" using spec by (auto simp: list_line_def Let_def line_def [symmetric] split: if_splits)
    then show ?thesis using that [of ps0 b] True ok0 nl evolves_refl [OF inv] same by (auto simp: ps0_def)
  next
    case False
    show ?thesis
    proof (cases "hd line = CHR ''#''")
      case True
      then have d: "declared env fp (p_line ps0) (tl line) (p_metadata ps0) = Inr m" "xs = []"
        using spec False by (auto simp: list_line_def Let_def line_def [symmetric] ps0_def)
      let ?ps = "if m = p_metadata ps0 then ps0 else ps0\<lparr>p_did := (if p_network_count ps0 > 0 then 0 else p_did ps0), p_metadata := m\<rparr>"
      have "next_line env fp fn ps b = Inr (?ps, b)"
        using True False nl by (auto simp: process_comment_declared d(1))
      moreover have "parser_ok fn b ?ps (pending @ xs)" using ok0 d(2) by (auto simp: parser_ok_def)
      ultimately show ?thesis using that [of ?ps b] evolves_refl [OF inv] same d by (auto simp: ps0_def)
    next
      case other: False
      obtain e where e: "parse_network (inet_pton6 env) b (trim line) 0 = Some e"
        "xs = [(net_bits e, prefix_len e, list_record fn (p_metadata ps))]" "m = p_metadata ps"
        using list_line_network [OF spec] False other unfolding line_def [symmetric] by blast
      have nl': "next_line env fp fn ps b = process_entry env fp fn (trim line) ps0 b" using False other nl by simp
      have ps0: "p_metadata ps0 = p_metadata ps" "p_line ps0 = p_line ps + 1" "p_total_networks ps0 = p_total_networks ps"
        by (simp_all add: ps0_def)
      obtain ps' b' where r: "process_entry env fp fn (trim line) ps0 b = Inr (ps', b')" "evolves b b'" "same_records b b'"
        "parser_ok fn b' ps' (pending @ xs)" "p_metadata ps' = m" "p_line ps' = p_line ps + 1"
        "p_total_networks ps' = p_total_networks ps + 1"
        using process_entry_ok [OF inv ok0 e(1), of fp] unfolding e(2,3) ps0 by blast
      have len: "length xs = 1" by (simp add: e(2))
      show ?thesis by (rule that [OF _ r(2-6)]) (simp_all only: nl' r(1,7) len)
    qed
  qed
qed

lemma ip_version_update_did: "update_did fn ps b = (ps', b') \<Longrightarrow> ip_version b' = ip_version b \<and> p_line ps' = p_line ps"
  by (auto simp: update_did_def store_data_def split: prod.splits)

lemma process_entry_error:
  assumes "parse_network (inet_pton6 env) b entry 0 = None"
  shows "process_entry env fp fn entry ps b = Inl (parse_error fp (p_line ps) (''invalid entry '' @ entry))"
proof -
  obtain ps1 b1 where s: "(if p_did ps = 0 then update_did fn ps b else (ps, b)) = (ps1, b1)" by fastforce
  have "ip_version b1 = ip_version b" "p_line ps1 = p_line ps"
    using s ip_version_update_did [of fn ps b ps1 b1] by (auto split: if_splits)
  then have "parse_network (inet_pton6 env) b1 entry (p_did ps1) = None" "p_line ps1 = p_line ps"
    using parse_network_data [of b1 b "inet_pton6 env" entry "p_did ps1"] assms by simp_all
  then show ?thesis by (simp add: process_entry_def s)
qed

lemma next_line_error:
  assumes "list_line env b fp fn (p_line ps + 1) (p_metadata ps) (takeWhile (\<lambda>c. c \<noteq> CHR 0x0A) (p_rest ps)) = Inl e"
  shows "next_line env fp fn ps b = Inl e"
proof -
  let ?line = "strip_cr (takeWhile (\<lambda>c. c \<noteq> CHR 0x0A) (p_rest ps))"
  have l: "?line \<noteq> []" "hd ?line \<noteq> CHR ''#'' \<longrightarrow> trim ?line \<noteq> []"
    using assms by (auto simp: list_line_def Let_def split: if_splits)
  show ?thesis
  proof (cases "hd ?line = CHR ''#''")
    case True
    then have "declared env fp (p_line ps + 1) (tl ?line) (p_metadata ps) = Inl e"
      using assms l(1) by (auto simp: list_line_def Let_def rbind_eq_Inl_iff)
    then show ?thesis using True l(1) by (simp add: next_line_def Let_def process_comment_declared)
  next
    case False
    then have "parse_network (inet_pton6 env) b (trim ?line) 0 = None \<and> e = parse_error fp (p_line ps + 1) (''invalid entry '' @ trim ?line)"
      using assms l by (cases "parse_network (inet_pton6 env) b (trim ?line) 0") (simp_all add: list_line_def Let_def)
    then show ?thesis using False l by (simp add: next_line_def Let_def process_entry_error)
  qed
qed

section \<open>Batches\<close>

definition merged :: "builder \<Rightarrow> builder \<Rightarrow> net list \<Rightarrow> bool" where
  "merged b b' ns \<longleftrightarrow> (\<forall>a. length a = address_bits b \<longrightarrow>
     record_for b' a = foldl (merge_values (row_sort_key (bpool b))) (record_for b a) (net_records ns a))"

lemma merged_Nil [simp]: "merged b b' [] \<longleftrightarrow> same_records b b'"
  by (simp add: merged_def same_records_def net_records_def)

lemma net_records_append [simp]: "net_records (xs @ ys) a = net_records xs a @ net_records ys a"
  by (simp add: net_records_def)

lemma merged_trans:
  assumes "evolves b b'" and "merged b b' xs" and "merged b' b'' ys"
  shows "merged b b'' (xs @ ys)"
proof -
  have "row_sort_key (bpool b') = row_sort_key (bpool b)" using assms(1) extends_key by (simp add: evolves_def)
  then show ?thesis using assms evolves_bits [OF assms(1)] by (simp add: merged_def)
qed

lemma flush_batch_ok:
  assumes inv: "builder_inv b" and ok: "parser_ok fn b ps pending" and f: "flush_batch ps b = (ps', b')"
  shows "evolves b b' \<and> merged b b' pending \<and> parser_ok fn b' ps' [] \<and> p_metadata ps' = p_metadata ps \<and>
    p_line ps' = p_line ps \<and> p_total_networks ps' = p_total_networks ps \<and> p_rest ps' = p_rest ps"
proof -
  have v: "\<forall>e \<in> set (p_batch ps). entry_valid b e" and pend: "pending = map (net_of (bpool b)) (p_batch ps)"
    using ok by (simp_all add: parser_ok_def)
  have b': "b' = insert_parsed b (p_batch ps)" "ps' = ps\<lparr>p_batch := []\<rparr>" using f by (simp_all add: flush_batch_def)
  note i = insert_parsed_tree [OF inv v b'(1)]
  have ev: "evolves b b'" using i by (simp add: evolves_def b'(1))
  have "net_records pending a = map (\<lambda>e. value_at (bpool b) (net_data e)) (filter (\<lambda>e. matches e a) (p_batch ps))" for a
    by (simp add: pend net_records_def net_of_def net_contains_def matches_def filter_map comp_def)
  then have "merged b b' pending" using i by (simp add: merged_def)
  moreover have "parser_ok fn b' (ps\<lparr>p_batch := []\<rparr>) []"
    using parser_ok_evolves [OF inv ev ok] by (simp add: parser_ok_def)
  ultimately show ?thesis using ev by (simp add: b'(2))
qed

section \<open>The whole file\<close>

lemma lines_of_Cons:
  "s \<noteq> [] \<Longrightarrow> lines_of s = takeWhile (\<lambda>c. c \<noteq> CHR 0x0A) s # lines_of (drop (length (takeWhile (\<lambda>c. c \<noteq> CHR 0x0A) s) + 1) s)"
  by (subst lines_of.simps) simp

lemma lines_of_Nil [simp]: "lines_of [] = []"
  by (subst lines_of.simps) simp

text \<open>One round of the loop, with the batch inserted when it is full.\<close>

lemma process_round:
  assumes inv: "builder_inv b" and ok: "parser_ok fn b ps pending" and ne: "p_rest ps \<noteq> []"
    and spec: "list_line env b fp fn (p_line ps + 1) (p_metadata ps) (takeWhile (\<lambda>c. c \<noteq> CHR 0x0A) (p_rest ps)) = Inr (xs, m)"
  obtains ps' b' ins rest where "process_lines env fp fn ps b = process_lines env fp fn ps' b'" and "evolves b b'"
    and "merged b b' ins" and "parser_ok fn b' ps' rest" and "pending @ xs = ins @ rest" and "p_metadata ps' = m"
    and "p_line ps' = p_line ps + 1" and "p_total_networks ps' = p_total_networks ps + length xs"
    and "lines_of (p_rest ps) = takeWhile (\<lambda>c. c \<noteq> CHR 0x0A) (p_rest ps) # lines_of (p_rest ps')"
proof -
  from next_line_ok [OF inv ok spec] obtain ps1 b1 where n: "next_line env fp fn ps b = Inr (ps1, b1)"
    "evolves b b1" "same_records b b1" "parser_ok fn b1 ps1 (pending @ xs)" "p_metadata ps1 = m" "p_line ps1 = p_line ps + 1"
    "p_total_networks ps1 = p_total_networks ps + length xs" by blast
  have l: "lines_of (p_rest ps) = takeWhile (\<lambda>c. c \<noteq> CHR 0x0A) (p_rest ps) # lines_of (p_rest ps1)"
    using lines_of_Cons [OF ne] next_line_rest [OF n(1)] by simp
  show ?thesis
  proof (cases "length (p_batch ps1) = kInsertBatchSize")
    case True
    obtain ps2 b2 where f: "flush_batch ps1 b1 = (ps2, b2)" by fastforce
    have inv1: "builder_inv b1" using n(2) by (simp add: evolves_def)
    note fb = flush_batch_ok [OF inv1 n(4) f]
    have "merged b b2 ([] @ (pending @ xs))" using merged_trans [OF n(2)] n(3) fb by (metis merged_Nil)
    then show ?thesis
      using that [of ps2 b2 "pending @ xs" "[]"] n l fb f evolves_trans [OF n(2)] ne True
      by (simp add: process_lines.simps [of env fp fn ps b])
  next
    case False
    then show ?thesis
      using that [of ps1 b1 "[]" "pending @ xs"] n l ne by (simp add: process_lines.simps [of env fp fn ps b])
  qed
qed

lemma process_lines_error:
  "list_lines env b fp fn (p_line ps) (p_metadata ps) (lines_of (p_rest ps)) = Inl e \<Longrightarrow> builder_inv b \<Longrightarrow>
     parser_ok fn b ps pending \<Longrightarrow> process_lines env fp fn ps b = Inl e"
proof (induction "lines_of (p_rest ps)" arbitrary: ps b pending)
  case Nil
  then show ?case by (metis list_lines.simps(1) sum.distinct(1))
next
  case (Cons raw ls)
  have ne: "p_rest ps \<noteq> []" using Cons.hyps(2) by auto
  have raw: "raw = takeWhile (\<lambda>c. c \<noteq> CHR 0x0A) (p_rest ps)" using Cons.hyps(2) lines_of_Cons [OF ne] by simp
  let ?spec = "list_line env b fp fn (p_line ps + 1) (p_metadata ps) raw"
  show ?case
  proof (cases ?spec)
    case (Inl e')
    then have "e' = e" using Cons.prems(1) by (simp add: Cons.hyps(2) [symmetric])
    then show ?thesis using next_line_error [OF Inl [unfolded raw]] ne by (simp add: process_lines.simps)
  next
    case (Inr r)
    obtain xs m where r: "?spec = Inr (xs, m)" using Inr by (cases r) simp
    obtain ps' b' ins rest where p: "process_lines env fp fn ps b = process_lines env fp fn ps' b'" "evolves b b'"
      "parser_ok fn b' ps' rest" "p_metadata ps' = m" "p_line ps' = p_line ps + 1" "ls = lines_of (p_rest ps')"
      using process_round [OF Cons.prems(2,3) ne r [unfolded raw]] Cons.hyps(2) by (metis list.inject)
    have v: "ip_version b' = ip_version b" "builder_inv b'" using p(2) by (simp_all add: evolves_def)
    have "list_lines env b' fp fn (p_line ps') (p_metadata ps') (lines_of (p_rest ps')) = Inl e"
      using Cons.prems(1) r p(4,5,6) list_lines_cong [OF v(1), of env fp fn "p_line ps'" m ls]
      by (auto simp: Cons.hyps(2) [symmetric] rbind_eq_Inl_iff)
    from Cons.hyps(1) [OF p(6) this v(2) p(3)] show ?thesis using p(1) by simp
  qed
qed

lemma process_lines_ok:
  "list_lines env b fp fn (p_line ps) (p_metadata ps) (lines_of (p_rest ps)) = Inr (xs, m) \<Longrightarrow> builder_inv b \<Longrightarrow>
     parser_ok fn b ps pending \<Longrightarrow>
   \<exists>ps' b' ins rest. process_lines env fp fn ps b = Inr (ps', b') \<and> evolves b b' \<and> merged b b' ins \<and>
     parser_ok fn b' ps' rest \<and> pending @ xs = ins @ rest \<and> p_metadata ps' = m \<and>
     p_total_networks ps' = p_total_networks ps + length xs"
proof (induction "lines_of (p_rest ps)" arbitrary: ps b pending xs)
  case Nil
  then have "p_rest ps = []" using lines_of_Cons by (metis list.distinct(1))
  moreover have "same_records b b" by (simp add: same_records_def)
  ultimately show ?case
    using Nil evolves_refl [OF Nil.prems(2)] by (intro exI [of _ ps] exI [of _ b] exI [of _ "[]"] exI [of _ pending])
      (simp add: process_lines.simps)
next
  case (Cons raw ls)
  have ne: "p_rest ps \<noteq> []" using Cons.hyps(2) by auto
  have raw: "raw = takeWhile (\<lambda>c. c \<noteq> CHR 0x0A) (p_rest ps)" using Cons.hyps(2) lines_of_Cons [OF ne] by simp
  obtain ys m1 zs where r: "list_line env b fp fn (p_line ps + 1) (p_metadata ps) raw = Inr (ys, m1)"
    "list_lines env b fp fn (p_line ps + 1) m1 ls = Inr (zs, m)" "xs = ys @ zs"
    using Cons.prems(1) by (auto simp: Cons.hyps(2) [symmetric])
  from process_round [OF Cons.prems(2,3) ne r(1) [unfolded raw]] obtain ps' b' ins rest where
    p: "process_lines env fp fn ps b = process_lines env fp fn ps' b'" "evolves b b'" "merged b b' ins"
      "parser_ok fn b' ps' rest" "pending @ ys = ins @ rest" "p_metadata ps' = m1" "p_line ps' = p_line ps + 1"
      "p_total_networks ps' = p_total_networks ps + length ys"
    and l: "lines_of (p_rest ps) = takeWhile (\<lambda>c. c \<noteq> CHR 0x0A) (p_rest ps) # lines_of (p_rest ps')" by blast
  have ls: "ls = lines_of (p_rest ps')" using Cons.hyps(2) l by simp
  have v: "ip_version b' = ip_version b" "builder_inv b'" using p(2) by (simp_all add: evolves_def)
  have "list_lines env b' fp fn (p_line ps') (p_metadata ps') (lines_of (p_rest ps')) = Inr (zs, m)"
    using r(2) p(6,7) ls list_lines_cong [OF v(1), of env fp fn "p_line ps'" m1 ls] by simp
  from Cons.hyps(1) [OF ls this v(2) p(4)] obtain ps2 b2 ins2 rest2 where
    q: "process_lines env fp fn ps' b' = Inr (ps2, b2)" "evolves b' b2" "merged b' b2 ins2" "parser_ok fn b2 ps2 rest2"
      "rest @ zs = ins2 @ rest2" "p_metadata ps2 = m" "p_total_networks ps2 = p_total_networks ps' + length zs" by blast
  have "pending @ xs = (ins @ ins2) @ rest2" using p(5) q(5) r(3) by (metis append.assoc)
  then show ?case
    using p(1,8) q evolves_trans [OF p(2) q(2)] merged_trans [OF p(2,3) q(3)] r(3)
    by (intro exI [of _ ps2] exI [of _ b2] exI [of _ "ins @ ins2"] exI [of _ rest2]) simp
qed

lemma process_file_error:
  assumes "builder_inv b" and "list_text env b fp fn text = Inl e"
  shows "process_file env fp fn (Content text) b = Inl e"
proof -
  have "parser_ok fn b (parser_new text) []" by (simp add: parser_ok_def parser_new_def)
  then have "process_lines env fp fn (parser_new text) b = Inl e"
    using process_lines_error [OF _ assms(1), of env fp fn "parser_new text" e "[]"] assms(2)
    by (simp add: list_text_def parser_new_def)
  moreover have "text \<noteq> []" using assms(2) by (auto simp: list_text_def)
  ultimately show ?thesis by (simp add: process_file_def read_file_def)
qed

lemma process_file_ok:
  assumes "builder_inv b" and "list_text env b fp fn text = Inr (ns, m)"
  shows "\<exists>b'. process_file env fp fn (Content text) b = Inr (\<lparr>pb_networks = length ns, pb_category = lm_category m\<rparr>, b') \<and>
    evolves b b' \<and> merged b b' ns"
proof (cases "text = []")
  case True
  then show ?thesis
    using assms evolves_refl [OF assms(1)]
    by (auto simp: process_file_def read_file_def list_text_def no_metadata_def same_records_def)
next
  case False
  have ok: "parser_ok fn b (parser_new text) []" by (simp add: parser_ok_def parser_new_def)
  have spec: "list_lines env b fp fn (p_line (parser_new text)) (p_metadata (parser_new text)) (lines_of (p_rest (parser_new text))) = Inr (ns, m)"
    using assms(2) by (simp add: list_text_def parser_new_def)
  obtain ps b1 ins rest where p: "process_lines env fp fn (parser_new text) b = Inr (ps, b1)" "evolves b b1" "merged b b1 ins"
    "parser_ok fn b1 ps rest" "ns = ins @ rest" "p_metadata ps = m" "p_total_networks ps = length ns"
    using process_lines_ok [OF spec assms(1) ok] by (auto simp: parser_new_def)
  obtain ps2 b2 where f: "flush_batch ps b1 = (ps2, b2)" by fastforce
  have inv1: "builder_inv b1" using p(2) by (simp add: evolves_def)
  note fb = flush_batch_ok [OF inv1 p(4) f]
  have "process_file env fp fn (Content text) b = Inr (\<lparr>pb_networks = length ns, pb_category = lm_category m\<rparr>, b2)"
    using False p fb by (simp add: process_file_def read_file_def f)
  then show ?thesis using evolves_trans [OF p(2)] merged_trans [OF p(2,3)] fb p(5) by auto
qed

section \<open>Properties\<close>

text \<open>C11: Parsing a blocklist implements what the list says line by line: it fails with the error of the
  first bad line and its number; otherwise it counts the networks, returns the category in force at
  the end and merges into every address exactly the records, in order, of the list's networks that
  contain it, each with the metadata in force at its line. The cached record and the batches of 32768
  networks do not show.\<close>

theorem process_file_refines_list:
  assumes "builder_inv b"
  shows "case list_text env b filepath file_name text of
      Inl e \<Rightarrow> process_file env filepath file_name (Content text) b = Inl e
    | Inr (ns, m) \<Rightarrow>
        \<exists>b'. process_file env filepath file_name (Content text) b =
             Inr (\<lparr>pb_networks = length ns, pb_category = lm_category m\<rparr>, b') \<and>
           builder_inv b' \<and>
           (\<forall>a. length a = address_bits b \<longrightarrow>
              record_for b' a = foldl (merge_values (row_sort_key (bpool b))) (record_for b a) (net_records ns a))"
proof (cases "list_text env b filepath file_name text")
  case (Inl e)
  then show ?thesis using process_file_error [OF assms Inl] by simp
next
  case (Inr r)
  obtain ns m where r: "r = (ns, m)" by fastforce
  show ?thesis using process_file_ok [OF assms Inr [unfolded r]] by (simp add: Inr r evolves_def merged_def) blast
qed

definition example_env :: "unit parse_env" where
  "example_env = \<lparr>strptime = (\<lambda>_. None), strftime = (\<lambda>_. ''''), inet_pton6 = (\<lambda>_. None)\<rparr>"

definition example_list :: string where
  "example_list = ''# Category: abuse'' @ [CHR 0x0A] @ ''10.0.0.0/8'' @ [CHR 0x0A] @ ''# Category: spam'' @ [CHR 0x0A] @ ''10.1.0.0/16''"

lemma example_list_text:
  "list_text example_env example_builder ''dir/x.netset'' ''x.netset'' example_list =
     Inr ([(replicate 12 0 @ [10, 0, 0, 0], 104, list_record ''x.netset'' (no_metadata\<lparr>lm_category := ''abuse''\<rparr>)),
           (replicate 12 0 @ [10, 1, 0, 0], 112, list_record ''x.netset'' (no_metadata\<lparr>lm_category := ''spam''\<rparr>))],
          no_metadata\<lparr>lm_category := ''spam''\<rparr>)"
  by code_simp

theorem process_file_refines_list_witness:
  "\<exists>b'. process_file example_env ''dir/x.netset'' ''x.netset'' (Content example_list) example_builder =
     Inr (\<lparr>pb_networks = 2, pb_category = ''spam''\<rparr>, b') \<and> builder_inv b'"
  using process_file_refines_list [OF fresh_builder_inv(1) [OF example_builder_fresh], of example_env "''dir/x.netset''" "''x.netset''" example_list]
  by (auto simp: example_list_text)

end
