(* ===== verification/Builder_Final.thy ===== *)
theory Builder_Final
  imports Builder_Insert
begin

text \<open>
  Finalisation of the tree: pruning merges equal sibling leaves without changing any lookup, whatever
  the schedule of its parallel tasks; the inner nodes are numbered in preorder; and the records in use
  are exactly those of the leaves.
\<close>

section \<open>Pruning\<close>

fun leaf_value :: "tree \<Rightarrow> nat" where
  "leaf_value (Leaf i d) = d"
| "leaf_value t = 0"

fun pruned :: "tree \<Rightarrow> tree" where
  "pruned (Node i l r) =
     (let l = pruned l; r = pruned r in
      if leaf_value l \<noteq> 0 \<and> leaf_value r \<noteq> 0 \<and> leaf_value l = leaf_value r then Leaf i (leaf_value l)
      else Node i l r)"
| "pruned t = t"

lemma pruned_Absent [simp]: "pruned t = Absent \<longleftrightarrow> t = Absent"
  by (cases t) (auto simp: Let_def)

lemma idx_pruned [simp]: "idx (pruned t) = idx t"
  by (cases t) (auto simp: Let_def)

lemma addrs_pruned: "set (addrs (pruned t)) \<subseteq> set (addrs t)"
  by (induction t) (auto simp: Let_def)

lemma distinct_addrs_pruned: "distinct (addrs t) \<Longrightarrow> distinct (addrs (pruned t))"
proof (induction t)
  case (Node i l r)
  then show ?case using addrs_pruned [of l] addrs_pruned [of r] by (auto simp: Let_def)
qed simp_all

lemma proper_pruned: "proper t \<Longrightarrow> proper (pruned t)"
proof (induction t)
  case (Node i l r)
  then show ?case
    using addrs_pruned [of l] addrs_pruned [of r] distinct_addrs_pruned [of l] distinct_addrs_pruned [of r]
    by (auto simp: Let_def)
qed simp_all

lemma height_pruned: "height (pruned t) \<le> height t"
  by (induction t) (auto simp: Let_def)

lemma leaf_data_pruned: "leaf_data (pruned t) \<subseteq> leaf_data t"
proof (induction t)
  case (Node i l r)
  have "leaf_value s \<noteq> 0 \<Longrightarrow> leaf_value s \<in> leaf_data s" for s by (cases s) auto
  from this [of "pruned l"] show ?case using Node by (auto simp: Let_def)
qed simp_all

lemma leaf_value_lookup: "leaf_value t \<noteq> 0 \<Longrightarrow> lookup t a = leaf_value t"
  by (cases t) auto

lemma lookup_pruned: "height t \<le> length a \<Longrightarrow> lookup (pruned t) a = lookup t a"
proof (induction t arbitrary: a)
  case (Node i l r)
  obtain b bs where a: "a = b # bs" "height l \<le> length bs" "height r \<le> length bs"
    using Node.prems by (cases a) auto
  note IH = Node.IH(1) [OF a(2)] Node.IH(2) [OF a(3)]
  show ?case
  proof (cases "leaf_value (pruned l) \<noteq> 0 \<and> leaf_value (pruned r) \<noteq> 0 \<and> leaf_value (pruned l) = leaf_value (pruned r)")
    case True
    then have "lookup l bs = leaf_value (pruned l)" "lookup r bs = leaf_value (pruned l)"
      using IH leaf_value_lookup [of "pruned l" bs] leaf_value_lookup [of "pruned r" bs] by simp_all
    then show ?thesis using True by (simp add: a(1) Let_def)
  next
    case False
    then have "pruned (Node i l r) = Node i (pruned l) (pruned r)" by (auto simp: Let_def)
    then show ?thesis using IH by (simp add: a(1))
  qed
qed simp_all

text \<open>The writes that pruning makes, and their effect on a vector.\<close>

fun prune_writes :: "tree \<Rightarrow> (nat \<times> trie_node) list" where
  "prune_writes (Node i l r) =
     prune_writes l @ prune_writes r @
       (case pruned (Node i l r) of Leaf j d \<Rightarrow> [(i, \<lparr>child0 = 0, child1 = 0, node_data = d\<rparr>)] | _ \<Rightarrow> [])"
| "prune_writes t = []"

definition apply_writes :: "'a list \<Rightarrow> (nat \<times> 'a) list \<Rightarrow> 'a list" where
  "apply_writes ns ws = foldl (\<lambda>ns (i, v). ns[i := v]) ns ws"

lemma apply_writes_simps [simp]:
  "apply_writes ns [] = ns" "apply_writes ns ((i, v) # ws) = apply_writes (ns[i := v]) ws"
  "apply_writes ns (ws @ vs) = apply_writes (apply_writes ns ws) vs"
  by (simp_all add: apply_writes_def)

lemma apply_writes_update: "i \<notin> fst ` set ws \<Longrightarrow> apply_writes (ns[i := v]) ws = (apply_writes ns ws)[i := v]"
  by (induction ws arbitrary: ns) (auto simp: list_update_swap)

lemma apply_writes_commute:
  "fst ` set ws \<inter> fst ` set vs = {} \<Longrightarrow> apply_writes (apply_writes ns ws) vs = apply_writes (apply_writes ns vs) ws"
proof (induction ws arbitrary: ns)
  case (Cons w ws)
  obtain i v where w: "w = (i, v)" by fastforce
  show ?case using Cons.IH [of "ns[i := v]"] Cons.prems by (simp add: w apply_writes_update)
qed simp

lemma prune_writes_addrs: "fst ` set (prune_writes t) \<subseteq> set (addrs t)"
  by (induction t) (auto split: tree.splits)

text \<open>Pruning a child, possibly a missing one, in a vector.\<close>

definition prunes :: "trie_node list \<Rightarrow> tree \<Rightarrow> nat \<times> trie_node list \<Rightarrow> bool" where
  "prunes ns t r \<longleftrightarrow> fst r = leaf_value (pruned t) \<and> rep (snd r) (pruned t) \<and>
     length (snd r) = length ns \<and> agree ns (snd r) (set (addrs t)) \<and> snd r = apply_writes ns (prune_writes t)"

lemma prunesD:
  assumes "prunes ns t r"
  shows "fst r = leaf_value (pruned t)" and "rep (snd r) (pruned t)" and "length (snd r) = length ns"
    and "agree ns (snd r) (set (addrs t))" and "snd r = apply_writes ns (prune_writes t)"
  using assms unfolding prunes_def by blast+

lemma prunes_two:
  assumes t: "rep ns l" "rep ns r" "set (addrs l) \<inter> set (addrs r) = {}"
    and v: "\<And>ns. rep ns l \<Longrightarrow> prunes ns l (visit (idx l) ns)" "\<And>ns. rep ns r \<Longrightarrow> prunes ns r (visit (idx r) ns)"
    and "(d0, d1, ns') = (if sw then (let (d1, ns) = visit (idx r) ns; (d0, ns) = visit (idx l) ns in (d0, d1, ns))
       else (let (d0, ns) = visit (idx l) ns; (d1, ns) = visit (idx r) ns in (d0, d1, ns)))"
  shows "d0 = leaf_value (pruned l) \<and> d1 = leaf_value (pruned r) \<and> rep ns' (pruned l) \<and> rep ns' (pruned r) \<and>
    length ns' = length ns \<and> agree ns ns' (set (addrs l) \<union> set (addrs r)) \<and>
    ns' = apply_writes ns (prune_writes l @ prune_writes r)"
proof -
  have two: "snd (visit (idx y) (snd (visit (idx x) ns))) = ns' \<Longrightarrow>
      fst (visit (idx x) ns) = leaf_value (pruned x) \<and> fst (visit (idx y) (snd (visit (idx x) ns))) = leaf_value (pruned y) \<and>
      rep ns' (pruned x) \<and> rep ns' (pruned y) \<and> length ns' = length ns \<and> agree ns ns' (set (addrs x) \<union> set (addrs y)) \<and>
      ns' = apply_writes (apply_writes ns (prune_writes x)) (prune_writes y)"
    if "rep ns x" "rep ns y" "set (addrs x) \<inter> set (addrs y) = {}"
      "\<And>ns. rep ns x \<Longrightarrow> prunes ns x (visit (idx x) ns)" "\<And>ns. rep ns y \<Longrightarrow> prunes ns y (visit (idx y) ns)" for x y
  proof -
    note a = that
    let ?r = "visit (idx x) ns"
    assume ns': "snd (visit (idx y) (snd ?r)) = ns'"
    have px: "prunes ns x ?r" using a(4) [OF a(1)] .
    note ag = prunesD(4) [OF px]
    have y: "rep (snd ?r) y" using rep_agree [OF a(2) ag] a(3) by blast
    have py: "prunes (snd ?r) y (visit (idx y) (snd ?r))" using a(5) [OF y] .
    note ag2 = prunesD(4) [OF py, unfolded ns']
    have "rep ns' (pruned x)" using rep_agree [OF prunesD(2) [OF px] ag2] addrs_pruned [of x] a(3) by blast
    moreover have "agree ns ns' (set (addrs x) \<union> set (addrs y))" using ag ag2 by (auto simp: agree_def)
    ultimately show ?thesis
      using prunesD(1,3) [OF px] prunesD [OF py, unfolded ns'] prunesD(5) [OF px] by simp
  qed
  show ?thesis
  proof (cases sw)
    case True
    have "set (addrs r) \<inter> set (addrs l) = {}" using t(3) by blast
    moreover have "d1 = fst (visit (idx r) ns)" "d0 = fst (visit (idx l) (snd (visit (idx r) ns)))"
      "snd (visit (idx l) (snd (visit (idx r) ns))) = ns'"
      using assms(6) True by (simp_all add: split_beta prod_eq_iff)
    moreover have "fst ` set (prune_writes r) \<inter> fst ` set (prune_writes l) = {}"
      using prune_writes_addrs [of l] prune_writes_addrs [of r] t(3) by blast
    ultimately show ?thesis
      using two [OF t(2,1) _ v(2,1)] apply_writes_commute [of "prune_writes r" "prune_writes l" ns]
      unfolding apply_writes_simps(3) Un_commute [of "set (addrs l)"] by metis
  next
    case False
    then have "d0 = fst (visit (idx l) ns)" "d1 = fst (visit (idx r) (snd (visit (idx l) ns)))"
      "snd (visit (idx r) (snd (visit (idx l) ns))) = ns'"
      using assms(6) by (simp_all add: split_beta prod_eq_iff)
    then show ?thesis using two [OF t v] unfolding apply_writes_simps(3) by metis
  qed
qed

lemma prune_tree_rep:
  "rep ns t \<Longrightarrow> proper t \<Longrightarrow> t \<noteq> Absent \<Longrightarrow> height t < fuel \<Longrightarrow> prunes ns t (prune_tree_fuel fuel sched lim ns (idx t))"
proof (induction fuel arbitrary: ns t lim)
  case (Suc n)
  show ?case
  proof (cases t)
    case (Node i l r)
    have i: "i < length ns" "ns ! i = \<lparr>child0 = idx l, child1 = idx r, node_data = 0\<rparr>" "rep ns l" "rep ns r" "l \<noteq> Absent \<or> r \<noteq> Absent"
      and p: "proper l" "proper r" "i \<notin> set (addrs l)" "i \<notin> set (addrs r)" "set (addrs l) \<inter> set (addrs r) = {}"
      and z: "idx l = 0 \<longleftrightarrow> l = Absent" "idx r = 0 \<longleftrightarrow> r = Absent" and h: "height l < n" "height r < n"
      using Suc.prems idx_zero_iff [of l] idx_zero_iff [of r] by (auto simp: Node)
    define visit where "visit = (\<lambda>c ns. if c \<noteq> 0 then prune_tree_fuel n sched (lim - 1) ns c else (0, ns))"
    have v: "prunes ns c (visit (idx c) ns)" if "c \<in> {l, r}" "rep ns c" for c ns
      using that Suc.IH [of ns c "lim - 1"] p h z by (auto simp: visit_def prunes_def)
    obtain d0 d1 ns' where two: "(d0, d1, ns') =
       (if lim > 0 \<and> sched i then (let (d1, ns) = visit (idx r) ns; (d0, ns) = visit (idx l) ns in (d0, d1, ns))
        else (let (d0, ns) = visit (idx l) ns; (d1, ns) = visit (idx r) ns in (d0, d1, ns)))"
      by (metis prod_cases3)
    have s: "d0 = leaf_value (pruned l)" "d1 = leaf_value (pruned r)" "rep ns' (pruned l)" "rep ns' (pruned r)"
      "length ns' = length ns" "agree ns ns' (set (addrs l) \<union> set (addrs r))"
      "ns' = apply_writes ns (prune_writes l @ prune_writes r)"
      using prunes_two [OF i(3,4) p(5) v [OF insertI1] v [OF insertI2 [OF insertI1]] two] by blast+
    have ni: "ns' ! i = ns ! i" using s(6) i(1) p by (simp add: agree_def)
    have nz: "\<not> (child0 (ns ! i) = 0 \<and> child1 (ns ! i) = 0)" using i(2,5) z by auto
    have res: "prune_tree_fuel (Suc n) sched lim ns (idx t) =
        (if d0 \<noteq> 0 \<and> d1 \<noteq> 0 \<and> d0 = d1 then (d0, ns'[i := \<lparr>child0 = 0, child1 = 0, node_data = d0\<rparr>]) else (0, ns'))"
    proof -
      have "prune_tree_fuel (Suc n) sched lim ns i = (let (d0, d1, ns) =
         (if lim > 0 \<and> sched i then (let (d1, ns) = visit (idx r) ns; (d0, ns) = visit (idx l) ns in (d0, d1, ns))
          else (let (d0, ns) = visit (idx l) ns; (d1, ns) = visit (idx r) ns in (d0, d1, ns)))
         in if d0 \<noteq> 0 \<and> d1 \<noteq> 0 \<and> d0 = d1 then (d0, ns[i := \<lparr>child0 = 0, child1 = 0, node_data = d0\<rparr>]) else (0, ns))"
        unfolding prune_tree_fuel.simps(2) if_not_P [OF nz]
        unfolding Let_def visit_def i(2) trie_node.simps ..
      then show ?thesis unfolding two [symmetric] Node idx.simps by (simp only: Let_def prod.case)
    qed
    show ?thesis
    proof (cases "d0 \<noteq> 0 \<and> d1 \<noteq> 0 \<and> d0 = d1")
      case True
      then have pr: "pruned t = Leaf i d0" using s(1,2) by (simp add: Node)
      have "prune_tree_fuel (Suc n) sched lim ns (idx t) = (d0, ns'[i := \<lparr>child0 = 0, child1 = 0, node_data = d0\<rparr>])"
        unfolding res using True by simp
      moreover have "prune_writes t = (prune_writes l @ prune_writes r) @ [(i, \<lparr>child0 = 0, child1 = 0, node_data = d0\<rparr>)]"
        using pr by (simp add: Node del: pruned.simps)
      moreover have "agree ns (ns'[i := \<lparr>child0 = 0, child1 = 0, node_data = d0\<rparr>]) (set (addrs t))"
        using s(6) by (auto simp: agree_def Node)
      ultimately show ?thesis
        unfolding prunes_def pr using s(5,7) i(1) by simp
    next
      case False
      then have pr: "pruned t = Node i (pruned l) (pruned r)" using s(1,2) by (auto simp: Node Let_def)
      have r: "prune_tree_fuel (Suc n) sched lim ns (idx t) = (0, ns')" unfolding res using False by auto
      have "prune_writes t = prune_writes l @ prune_writes r" using pr by (simp add: Node del: pruned.simps)
      moreover have "agree ns ns' (set (addrs t))" using s(6) by (auto simp: agree_def Node)
      ultimately show ?thesis
        unfolding prunes_def pr r using s(3,4,5,7) ni i by simp
    qed
  qed (use Suc.prems in \<open>auto simp: prunes_def\<close>)
qed simp

section \<open>Numbering\<close>

fun inner :: "tree \<Rightarrow> nat list" where
  "inner (Node i l r) = i # inner l @ inner r"
| "inner t = []"

fun number :: "nat list \<Rightarrow> nat \<Rightarrow> nat list \<Rightarrow> nat list" where
  "number mapping k [] = mapping"
| "number mapping k (x # xs) = number (mapping[x := k]) (Suc k) xs"

lemma number_append: "number mapping k (xs @ ys) = number (number mapping k xs) (k + length xs) ys"
  by (induction xs arbitrary: mapping k) simp_all

lemma length_number [simp]: "length (number mapping k xs) = length mapping"
  by (induction xs arbitrary: mapping k) simp_all

lemma nth_number_other: "x \<notin> set xs \<Longrightarrow> number mapping k xs ! x = mapping ! x"
  by (induction xs arbitrary: mapping k) auto

lemma nth_number:
  "distinct xs \<Longrightarrow> \<forall>x \<in> set xs. x < length mapping \<Longrightarrow> j < length xs \<Longrightarrow> number mapping k xs ! (xs ! j) = k + j"
proof (induction xs arbitrary: mapping k j)
  case (Cons x xs)
  then show ?case by (cases j) (auto simp: nth_number_other)
qed simp

lemma inner_addrs: "set (inner t) \<subseteq> set (addrs t)"
  by (induction t) auto

lemma distinct_inner: "distinct (addrs t) \<Longrightarrow> distinct (inner t)"
proof (induction t)
  case (Node i l r)
  then show ?case using inner_addrs [of l] inner_addrs [of r] by auto
qed simp_all

lemma assign_node_ids_rep:
  "rep ns t \<Longrightarrow> proper t \<Longrightarrow> t \<noteq> Absent \<Longrightarrow> height t < fuel \<Longrightarrow>
     assign_node_ids_fuel fuel ns (idx t) (k, mapping, ordered) =
       (k + length (inner t), number mapping k (inner t), ordered @ inner t)"
proof (induction fuel arbitrary: t k mapping ordered)
  case (Suc n)
  show ?case
  proof (cases t)
    case (Node i l r)
    have i: "ns ! i = \<lparr>child0 = idx l, child1 = idx r, node_data = 0\<rparr>" "rep ns l" "rep ns r" "l \<noteq> Absent \<or> r \<noteq> Absent"
      "proper l" "proper r" and z: "idx l = 0 \<longleftrightarrow> l = Absent" "idx r = 0 \<longleftrightarrow> r = Absent" and h: "height l < n" "height r < n"
      using Suc.prems idx_zero_iff [of l] idx_zero_iff [of r] by (auto simp: Node)
    have visit: "(if idx c \<noteq> 0 then assign_node_ids_fuel n ns (idx c) (k, mapping, ordered) else (k, mapping, ordered)) =
        (k + length (inner c), number mapping k (inner c), ordered @ inner c)"
      if "c \<in> {l, r}" for c k mapping ordered
      using that Suc.IH [of c k mapping ordered] i h z by auto
    have nz: "\<not> (child0 (ns ! i) = 0 \<and> child1 (ns ! i) = 0)" using i(1,4) z by auto
    show ?thesis
      using nz visit [of l "Suc k" "mapping[i := k]" "ordered @ [i]"]
        visit [of r "Suc k + length (inner l)" "number (mapping[i := k]) (Suc k) (inner l)" "ordered @ [i] @ inner l"]
      by (cases "idx l = 0"; cases "idx r = 0") (simp_all add: Node i(1) number_append Let_def)
  qed (use Suc.prems in auto)
qed simp

section \<open>Records in use\<close>

lemma collect_used_data_rep:
  "rep ns t \<Longrightarrow> proper t \<Longrightarrow> t \<noteq> Absent \<Longrightarrow> height t < fuel \<Longrightarrow> distinct used \<Longrightarrow>
     set (collect_used_data_fuel fuel lim ns (idx t) used) = set used \<union> (leaf_data t - {0}) \<and>
     distinct (collect_used_data_fuel fuel lim ns (idx t) used)"
proof (induction fuel arbitrary: t used lim)
  case (Suc n)
  show ?case
  proof (cases t)
    case (Node i l r)
    have i: "ns ! i = \<lparr>child0 = idx l, child1 = idx r, node_data = 0\<rparr>" "rep ns l" "rep ns r" "l \<noteq> Absent \<or> r \<noteq> Absent"
      "proper l" "proper r" and z: "idx l = 0 \<longleftrightarrow> l = Absent" "idx r = 0 \<longleftrightarrow> r = Absent" and h: "height l < n" "height r < n"
      using Suc.prems idx_zero_iff [of l] idx_zero_iff [of r] by (auto simp: Node)
    define visit where "visit = (\<lambda>c used. if c = 0 then used
      else if lim > 0 then List.union (collect_used_data_fuel n (lim - 1) ns c []) used
      else collect_used_data_fuel n 0 ns c used)"
    have v: "set (visit (idx c) used) = set used \<union> (leaf_data c - {0}) \<and> distinct (visit (idx c) used)"
      if "c \<in> {l, r}" "distinct used" for c used
      using that Suc.IH [of c "[]" "lim - 1"] Suc.IH [of c used 0] i h z by (auto simp: visit_def)
    have nz: "\<not> (child0 (ns ! i) = 0 \<and> child1 (ns ! i) = 0)" using i(1,4) z by auto
    have "collect_used_data_fuel (Suc n) lim ns (idx t) used = visit (idx r) (visit (idx l) used)"
      using nz by (simp add: Node i(1) visit_def Let_def)
    then show ?thesis using v [of l used] v [of r "visit (idx l) used"] Suc.prems(5) by (auto simp: Node)
  qed (use Suc.prems in auto)
qed simp

section \<open>Properties\<close>

text \<open>C19: Pruning never changes the record of an address, and its result does not depend on how its
  parallel tasks are scheduled.\<close>

theorem prune_preserves_records:
  assumes "builder_inv b" and "length a = address_bits b"
  shows "let ns = snd (prune_tree_parallel sched depth_limit (nodes b) 0) in
    record_for (b\<lparr>nodes := ns\<rparr>) a = record_for b a \<and>
    prune_tree_parallel sched depth_limit (nodes b) 0 = prune_tree_parallel (\<lambda>_. False) 0 (nodes b) 0"
proof -
  obtain t where t: "tree_ok (address_bits b) (nodes b) (bpool b) t" "idx t = 0"
    using assms(1) by (auto simp: builder_inv_def)
  have r: "rep (nodes b) t" "proper t" "t \<noteq> Absent" "height t \<le> address_bits b" using t(1) by (simp_all add: tree_ok_def)
  have p: "prunes (nodes b) t (prune_tree_parallel sched lim (nodes b) 0)" for sched lim
    using prune_tree_rep [OF r(1-3) height_fuel [OF r(1-3)], of sched lim] t(2) by (simp add: prune_tree_parallel_def)
  let ?r = "prune_tree_parallel sched depth_limit (nodes b) 0"
  have "walk (snd ?r) 0 a = lookup (pruned t) a"
    using walk_rep [OF prunesD(2) [OF p] proper_pruned [OF r(2)], of sched depth_limit a] r(3) t(2) by simp
  also have "\<dots> = walk (nodes b) 0 a"
    using lookup_pruned [of t a] walk_rep [OF r(1-3), of a] r(4) assms(2) t(2) by simp
  finally have "record_for (b\<lparr>nodes := snd ?r\<rparr>) a = record_for b a" by (simp add: record_for_def)
  moreover have "?r = prune_tree_parallel (\<lambda>_. False) 0 (nodes b) 0"
    using prunesD(1,5) [OF p, of sched depth_limit] prunesD(1,5) [OF p, of "\<lambda>_. False" 0] by (simp add: prod_eq_iff)
  ultimately show ?thesis by (simp add: Let_def)
qed

theorem prune_preserves_records_witness:
  "let ns = snd (prune_tree_parallel (\<lambda>i. even i) 4 (nodes (insert_parsed example_builder example_entries)) 0) in
    record_for ((insert_parsed example_builder example_entries)\<lparr>nodes := ns\<rparr>) (replicate 128 False) =
      record_for (insert_parsed example_builder example_entries) (replicate 128 False)"
proof -
  note i = insert_parsed_tree [OF fresh_builder_inv(1) [OF example_builder_fresh] example_entries_valid refl]
  then have inv: "builder_inv (insert_parsed example_builder example_entries)"
    and len: "length (replicate 128 False) = address_bits (insert_parsed example_builder example_entries)"
    by (simp_all add: example_builder_bits)
  show ?thesis using prune_preserves_records [OF inv len, of even 4] unfolding Let_def by blast
qed

end
