(* ===== verification/Mmdb_Encode.thy ===== *)
theory Mmdb_Encode
  imports Builder_Final "HOL-Library.Monad_Syntax"
begin

text \<open>
  The encoder of the database file (\<open>Builder::encode_ctrl_and_size\<close>, \<open>encode_pointer\<close>, \<open>encode_uint\<close>,
  \<open>encode_int\<close>, \<open>serialize_data\<close>, \<open>write_metadata\<close> and \<open>build\<close> in \<open>src/mmdb_builder/builder.cpp\<close>), and a
  reader that follows the MaxMind DB file format specification, against which the encoder is checked.
  32-bit sizes and offsets are natural numbers reduced modulo \<open>2 ^ 32\<close> where the code converts to
  \<open>uint32_t\<close>; a conversion to \<open>uint8_t\<close> is \<open>of_nat\<close> into 8-bit words.
\<close>

unbundle bit_operations_syntax

section \<open>Encoding\<close>


definition u32_of :: "nat \<Rightarrow> nat" where
  "u32_of n = n mod 2 ^ 32"

definition encode_ctrl_and_size :: "bytes \<Rightarrow> nat \<Rightarrow> nat \<Rightarrow> bytes" where
  "encode_ctrl_and_size out type size_arg =
     (let n = u32_of size_arg;
          ctrl_type = (if type < 8 then of_nat (type * 32) else 0) :: u8;
          out = (if n < 29 then out @ [ctrl_type OR of_nat n]
                 else if n < 285 then out @ [ctrl_type OR 29, of_nat (n - 29)]
                 else if n < 65821 then out @ [ctrl_type OR 30, of_nat ((n - 285) div 256), of_nat (n - 285)]
                 else
                   (let rem = n - 65821 in
                    out @ [ctrl_type OR 31, of_nat (rem div 65536), of_nat (rem div 256), of_nat rem]))
      in if type \<ge> 8 then out @ [of_nat (type - 7)] else out)"

definition encode_pointer :: "bytes \<Rightarrow> nat \<Rightarrow> bytes" where
  "encode_pointer out offset =
     (if offset < 2048 then
        out @ [0x20 OR (of_nat (offset div 256) AND 0x07), of_nat offset]
      else if offset < 526336 then
        (let offset = offset - 2048 in
         out @ [0x28 OR (of_nat (offset div 65536) AND 0x07), of_nat (offset div 256), of_nat offset])
      else if offset < 134744064 then
        (let offset = offset - 526336 in
         out @ [0x30 OR (of_nat (offset div 16777216) AND 0x07), of_nat (offset div 65536), of_nat (offset div 256),
                of_nat offset])
      else
        out @ [0x38, of_nat (offset div 16777216), of_nat (offset div 65536), of_nat (offset div 256), of_nat offset])"

text \<open>The loop that collects the bytes of a number, least significant first.\<close>

fun uint_bytes :: "nat \<Rightarrow> bytes" where
  "uint_bytes val = (if val > 0 then of_nat val # uint_bytes (val div 256) else [])"

declare uint_bytes.simps [simp del]

definition encode_uint :: "bytes \<Rightarrow> nat \<Rightarrow> nat \<Rightarrow> bytes" where
  "encode_uint out type val =
     (if val = 0 then encode_ctrl_and_size out type 0
      else encode_ctrl_and_size out type (length (uint_bytes val)) @ rev (uint_bytes val))"

definition encode_int :: "bytes \<Rightarrow> u32 \<Rightarrow> bytes" where
  "encode_int out val =
     encode_ctrl_and_size out 8 4 @
       [of_nat (unat val div 16777216), of_nat (unat val div 65536), of_nat (unat val div 256), of_nat (unat val)]"

text \<open>The bytes of a floating-point member, most significant first.\<close>

definition big_endian :: "nat \<Rightarrow> nat \<Rightarrow> bytes" where
  "big_endian n v = map (\<lambda>i. of_nat (v div 256 ^ i)) (rev [0..<n])"

fun should_mem :: "internal_data \<Rightarrow> bool" where
  "should_mem (IStr _) \<longleftrightarrow> True"
| "should_mem (IMap _) \<longleftrightarrow> True"
| "should_mem (IArray _) \<longleftrightarrow> True"
| "should_mem _ \<longleftrightarrow> False"

type_synonym encoder = "bytes \<times> (nat \<rightharpoonup> nat)"

fun serialize_data_fuel :: "nat \<Rightarrow> pool \<Rightarrow> nat \<Rightarrow> encoder \<Rightarrow> encoder" where
  "serialize_data_fuel 0 p i (out, emitted) = (out, emitted)"
| "serialize_data_fuel (Suc n) p i (out, emitted) =
     (if i = 0 then (out, emitted)
      else case emitted i of
        Some off \<Rightarrow> (encode_pointer out off, emitted)
      | None \<Rightarrow>
          (let d = id_to_data p ! i;
               emitted = (if should_mem d then emitted(i \<mapsto> u32_of (length out)) else emitted)
           in case d of
                IMonostate \<Rightarrow> (out, emitted)
              | IStr s \<Rightarrow> (encode_ctrl_and_size out 2 (length s) @ as_bytes s, emitted)
              | IBytes b \<Rightarrow> (encode_ctrl_and_size out 4 (length b) @ b, emitted)
              | IU16 v \<Rightarrow> (encode_uint out 5 (unat v), emitted)
              | IU32 v \<Rightarrow> (encode_uint out 6 (unat v), emitted)
              | IU64 v \<Rightarrow> (encode_uint out 9 (unat v), emitted)
              | II32 v \<Rightarrow> (encode_int out v, emitted)
              | IBool b \<Rightarrow> (encode_ctrl_and_size out 14 (if b then 1 else 0), emitted)
              | IDouble v \<Rightarrow> (encode_ctrl_and_size out 3 8 @ big_endian 8 (unat v), emitted)
              | IFloat v \<Rightarrow> (encode_ctrl_and_size out 15 4 @ big_endian 4 (unat v), emitted)
              | IMap fs \<Rightarrow>
                  fold (\<lambda>kv st. serialize_data_fuel n p (snd kv) (serialize_data_fuel n p (fst kv) st)) fs
                    (encode_ctrl_and_size out 7 (length fs), emitted)
              | IArray es \<Rightarrow>
                  fold (serialize_data_fuel n p) es (encode_ctrl_and_size out 11 (length es), emitted)))"

text \<open>Every member of a record has a smaller identifier, so the identifier plus one is enough fuel.\<close>

definition serialize_data :: "pool \<Rightarrow> nat \<Rightarrow> encoder \<Rightarrow> encoder" where
  "serialize_data p i st = serialize_data_fuel (Suc i) p i st"

section \<open>Writing the file\<close>

text \<open>The records in use are placed in the data section one after the other; one that was emitted as
  part of an earlier record is found there.\<close>

fun place_records :: "pool \<Rightarrow> nat list \<Rightarrow> encoder \<times> nat list \<Rightarrow> encoder \<times> nat list" where
  "place_records p [] st = st"
| "place_records p (i # is) ((out, emitted), offsets) =
     (if i = 0 then place_records p is ((out, emitted), offsets)
      else case emitted i of
        Some off \<Rightarrow> place_records p is ((out, emitted), offsets[i := off])
      | None \<Rightarrow> place_records p is (serialize_data p i (out, emitted), offsets[i := u32_of (length out)]))"

definition resolve :: "trie_node list \<Rightarrow> nat list \<Rightarrow> nat \<Rightarrow> nat list \<Rightarrow> nat \<Rightarrow> nat" where
  "resolve ns old_to_new node_count offsets child_idx =
     (if child_idx = 0 then node_count
      else if old_to_new ! child_idx \<noteq> unassigned then old_to_new ! child_idx
      else if node_data (ns ! child_idx) = 0 then node_count
      else u32_of (node_count + 16 + offsets ! node_data (ns ! child_idx)))"

text \<open>A node of the search tree: two records of 28 bits in 7 bytes.\<close>

definition node_bytes :: "nat \<Rightarrow> nat \<Rightarrow> bytes" where
  "node_bytes rec_left rec_right =
     [of_nat (rec_left div 65536), of_nat (rec_left div 256), of_nat rec_left,
      push_bit 4 (of_nat (rec_left div 16777216) AND 0x0F) OR (of_nat (rec_right div 16777216) AND 0x0F),
      of_nat (rec_right div 65536), of_nat (rec_right div 256), of_nat rec_right]"

definition kMarker :: bytes where
  "kMarker = [0xAB, 0xCD, 0xEF] @ as_bytes ''MaxMind.com''"

definition metadata_value :: "builder \<Rightarrow> nat \<Rightarrow> data" where
  "metadata_value b node_count =
     DObject
       [(''binary_format_major_version'', DU16 2), (''binary_format_minor_version'', DU16 0),
        (''build_epoch'', DU64 (build_epoch b)), (''database_type'', DStr (database_type b)),
        (''description'', DObject [(''en'', DStr ''Generated Database'')]),
        (''ip_version'', DU16 (of_nat (ip_version b))), (''languages'', DArray [DStr ''en'']),
        (''node_count'', DU32 (of_nat node_count)), (''record_size'', DU16 28)]"

definition write_metadata :: "builder \<Rightarrow> nat \<Rightarrow> bytes \<times> pool" where
  "write_metadata b node_count =
     (let (meta_id, p) = store (bpool b) (metadata_value b node_count);
          (out, emitted) = serialize_data p meta_id (kMarker, Map.empty)
      in (out, p))"

record build_stats =
  stat_node_count :: nat
  data_records :: nat
  data_section_bytes :: nat
  total_bytes :: nat

text \<open>How the output file behaves: it cannot be opened, a write, flush or close on it fails (the stream
  throws then), or everything is written. \<open>sched\<close> schedules the parallel pruning.\<close>

datatype output_file = Not_Opened | Write_Fails | Writable

definition build :: "(nat \<Rightarrow> bool) \<Rightarrow> output_file \<Rightarrow> builder \<Rightarrow> string + bytes \<times> build_stats \<times> builder" where
  "build sched os b =
     (let ns = snd (prune_tree_parallel sched 4 (nodes b) 0);
          (node_count, old_to_new, ordered_nodes) = assign_node_ids ns;
          used = collect_used_data_parallel 4 ns;
          ordered_ids = sort_less (less_data (bpool b)) used;
          ((data_section, emitted), offsets) =
            place_records (bpool b) ordered_ids (([0], Map.empty), replicate (length (id_to_data (bpool b))) 0);
          res = resolve ns old_to_new node_count offsets;
          tree = concat (map (\<lambda>current. node_bytes (res (child0 (ns ! current))) (res (child1 (ns ! current)))) ordered_nodes);
          (meta_section, p) = write_metadata b node_count
      in if os = Not_Opened then Inl ''Could not open file for writing''
         else if os = Write_Fails then Inl ''basic_ios::clear''
         else Inr (tree @ replicate 16 0 @ data_section @ meta_section,
                \<lparr>stat_node_count = node_count, data_records = length ordered_ids,
                 data_section_bytes = length data_section,
                 total_bytes = node_count * 7 + 16 + length data_section + length meta_section\<rparr>,
                b\<lparr>nodes := ns, bpool := p\<rparr>))"

section \<open>The file format\<close>

text \<open>A reader of the data section, after the MaxMind DB file format specification 2.0: a control byte
  with the type in its upper three bits and the size in its lower five; an extended type, when the
  upper bits are zero, in the byte that follows; then the bytes of a longer size; then the payload.
  A pointer is resolved within the section.\<close>

definition byte_at :: "bytes \<Rightarrow> nat \<Rightarrow> nat option" where
  "byte_at sec off = (if off < length sec then Some (unat (sec ! off)) else None)"

definition slice :: "bytes \<Rightarrow> nat \<Rightarrow> nat \<Rightarrow> bytes option" where
  "slice sec off n = (if off + n \<le> length sec then Some (take n (drop off sec)) else None)"

definition be_value :: "bytes \<Rightarrow> nat" where
  "be_value bs = foldl (\<lambda>acc b. acc * 256 + unat b) 0 bs"

definition read_type :: "bytes \<Rightarrow> nat \<Rightarrow> (nat \<times> nat \<times> nat) option" where
  "read_type sec off =
     do { c \<leftarrow> byte_at sec off;
          if c div 32 = 0 then do { t \<leftarrow> byte_at sec (off + 1); Some (t + 7, c mod 32, off + 2) }
          else Some (c div 32, c mod 32, off + 1) }"

definition read_size :: "bytes \<Rightarrow> nat \<Rightarrow> nat \<Rightarrow> (nat \<times> nat) option" where
  "read_size sec code off =
     (if code < 29 then Some (code, off)
      else
        do { bs \<leftarrow> slice sec off (code - 28);
             Some ((if code = 29 then 29 else if code = 30 then 285 else 65821) + be_value bs, off + (code - 28)) })"

text \<open>The size code of a pointer holds the length of the rest of the pointer and its upper bits.\<close>

definition read_pointer :: "bytes \<Rightarrow> nat \<Rightarrow> nat \<Rightarrow> (nat \<times> nat) option" where
  "read_pointer sec code off =
     (let ss = code div 8; vvv = code mod 8 in
      do { bs \<leftarrow> slice sec off (ss + 1);
           Some ((if ss = 3 then be_value bs
                  else vvv * 256 ^ (ss + 1) + be_value bs + (if ss = 0 then 0 else if ss = 1 then 2048 else 526336)),
                 off + ss + 1) })"

fun pairs :: "data list \<Rightarrow> (string \<times> data) list" where
  "pairs (DStr k # v # vs) = (k, v) # pairs vs"
| "pairs _ = []"

definition read_scalar :: "bytes \<Rightarrow> nat \<Rightarrow> nat \<Rightarrow> nat \<Rightarrow> (data \<times> nat) option" where
  "read_scalar sec type n off =
     (if type = 14 then Some (DBool (n \<noteq> 0), off)
      else
        do { bs \<leftarrow> slice sec off n;
             v \<leftarrow> (if type = 2 then Some (DStr (as_chars bs))
                   else if type = 4 then Some (DBytes bs)
                   else if type = 5 then Some (DU16 (of_nat (be_value bs)))
                   else if type = 6 then Some (DU32 (of_nat (be_value bs)))
                   else if type = 8 then Some (DI32 (of_nat (be_value bs)))
                   else if type = 9 then Some (DU64 (of_nat (be_value bs)))
                   else if type = 3 then Some (DDouble (of_nat (be_value bs)))
                   else if type = 15 then Some (DFloat (of_nat (be_value bs)))
                   else None);
             Some (v, off + n) })"

partial_function (option) read_values :: "bytes \<Rightarrow> nat \<Rightarrow> nat \<Rightarrow> (data list \<times> nat) option" where
  "read_values sec off count =
     (if count = 0 then Some ([], off)
      else
        do { (type, code, off1) \<leftarrow> read_type sec off;
             (v, off2) \<leftarrow>
               (if type = 1 then
                  do { (target, off2) \<leftarrow> read_pointer sec code off1;
                       (vs, _) \<leftarrow> read_values sec target 1;
                       Some (hd vs, off2) }
                else
                  do { (n, off2) \<leftarrow> read_size sec code off1;
                       if type = 7 then do { (vs, off3) \<leftarrow> read_values sec off2 (2 * n); Some (DObject (pairs vs), off3) }
                       else if type = 11 then do { (vs, off3) \<leftarrow> read_values sec off2 n; Some (DArray vs, off3) }
                       else read_scalar sec type n off2 });
             (vs, off3) \<leftarrow> read_values sec off2 (count - 1);
             Some (v # vs, off3) })"

declare read_values.simps [code]

lemma u32_of_code [code]: "u32_of n = unat (of_nat n :: u32)"
  by (simp add: u32_of_def unat_of_nat)

section \<open>Bytes of numbers\<close>

lemma be_value_simps [simp]: "be_value [] = 0" "be_value (bs @ [b]) = be_value bs * 256 + unat b"
  by (simp_all add: be_value_def)

lemma unat_u8 [simp]: "unat (of_nat n :: u8) = n mod 256"
  by (simp add: unat_of_nat)

lemma length_big_endian [simp]: "length (big_endian k v) = k"
  by (simp add: big_endian_def)

lemma big_endian_Suc: "big_endian (Suc k) v = big_endian k (v div 256) @ [of_nat v]"
proof -
  have "[0..<Suc k] = 0 # map Suc [0..<k]" by (simp add: map_Suc_upt upt_conv_Cons)
  then have "rev [0..<Suc k] = map Suc (rev [0..<k]) @ [0]" by (simp add: rev_map)
  then show ?thesis by (simp add: big_endian_def div_mult2_eq comp_def del: upt_Suc)
qed

lemma be_value_big_endian: "be_value (big_endian k v) = v mod 256 ^ k"
proof (induction k arbitrary: v)
  case (Suc k)
  have "v mod 256 ^ Suc k = 256 * (v div 256 mod 256 ^ k) + v mod 256" by (simp add: mod_mult2_eq)
  then show ?case using Suc by (simp add: big_endian_Suc)
qed (simp add: big_endian_def)

lemma big_endian_lists:
  "big_endian (Suc 0) v = [of_nat v]"
  "big_endian 2 v = [of_nat (v div 256), of_nat v]"
  "big_endian 3 v = [of_nat (v div 65536), of_nat (v div 256), of_nat v]"
  "big_endian 4 v = [of_nat (v div 16777216), of_nat (v div 65536), of_nat (v div 256), of_nat v]"
proof -
  have zero: "big_endian 0 v = []" for v by (simp add: big_endian_def)
  have four: "(4::nat) = Suc (Suc (Suc (Suc 0)))" by simp
  show "big_endian (Suc 0) v = [of_nat v]"
    "big_endian 2 v = [of_nat (v div 256), of_nat v]"
    "big_endian 3 v = [of_nat (v div 65536), of_nat (v div 256), of_nat v]"
    "big_endian 4 v = [of_nat (v div 16777216), of_nat (v div 65536), of_nat (v div 256), of_nat v]"
    unfolding One_nat_def numeral_2_eq_2 numeral_3_eq_3 four
    by (simp_all add: big_endian_Suc zero flip: div_mult2_eq)
qed

lemma uint_bytes_be: "be_value (rev (uint_bytes v)) = v"
proof (induction v rule: uint_bytes.induct)
  case (1 v)
  then show ?case by (subst uint_bytes.simps) auto
qed

lemma length_uint_bytes: "v < 256 ^ k \<Longrightarrow> length (uint_bytes v) \<le> k"
proof (induction k arbitrary: v)
  case (Suc k)
  show ?case using Suc.IH [of "v div 256"] Suc.prems
    by (subst uint_bytes.simps) (auto simp: less_mult_imp_div_less mult.commute)
qed (subst uint_bytes.simps, simp)

section \<open>Appending\<close>

lemma encode_ctrl_append: "encode_ctrl_and_size out t n = out @ encode_ctrl_and_size [] t n"
  by (simp add: encode_ctrl_and_size_def Let_def)

lemma encode_pointer_append: "encode_pointer out off = out @ encode_pointer [] off"
  by (simp add: encode_pointer_def Let_def)

lemma encode_uint_append: "encode_uint out t v = out @ encode_uint [] t v"
  by (simp add: encode_uint_def encode_ctrl_append [of out])

lemma encode_int_append: "encode_int out v = out @ encode_int [] v"
  by (simp add: encode_int_def encode_ctrl_append [of out])

lemma byte_at_append: "byte_at sec off = Some v \<Longrightarrow> byte_at (sec @ e) off = Some v"
  by (simp add: byte_at_def nth_append split: if_splits)

lemma slice_append: "slice sec off n = Some v \<Longrightarrow> slice (sec @ e) off n = Some v"
  by (auto simp: slice_def split: if_splits)

lemma read_type_append: "read_type sec off = Some r \<Longrightarrow> read_type (sec @ e) off = Some r"
  by (auto simp: read_type_def bind_eq_Some_conv byte_at_append split: if_splits)

lemma read_size_append: "read_size sec code off = Some r \<Longrightarrow> read_size (sec @ e) code off = Some r"
  by (auto simp: read_size_def bind_eq_Some_conv slice_append split: if_splits)

lemma read_pointer_append: "read_pointer sec code off = Some r \<Longrightarrow> read_pointer (sec @ e) code off = Some r"
  by (auto simp: read_pointer_def Let_def bind_eq_Some_conv slice_append)

lemma read_scalar_append: "read_scalar sec t n off = Some r \<Longrightarrow> read_scalar (sec @ e) t n off = Some r"
  unfolding read_scalar_def by (auto simp: bind_eq_Some_conv slice_append split: if_splits)

lemma read_values_append:
  assumes "read_values sec off count = Some r"
  shows "read_values (sec @ e) off count = Some r"
proof (rule read_values.raw_induct [where P = "\<lambda>sec off count r. read_values (sec @ e) off count = Some r", OF _ assms], goal_cases)
  case (1 rec sec off count r)
  note IH = 1(1)
  show ?case
  proof (cases "count = 0")
    case True
    then show ?thesis using 1(2) by (subst read_values.simps) simp
  next
    case False
    then obtain t code off1 v off2 vs off3 where t: "read_type sec off = Some (t, code, off1)"
      and v: "(if t = 1 then
                  do { (target, off2) \<leftarrow> read_pointer sec code off1;
                       (vs, _) \<leftarrow> rec sec target 1;
                       Some (hd vs, off2) }
                else
                  do { (n, off2) \<leftarrow> read_size sec code off1;
                       if t = 7 then do { (vs, off3) \<leftarrow> rec sec off2 (2 * n); Some (DObject (pairs vs), off3) }
                       else if t = 11 then do { (vs, off3) \<leftarrow> rec sec off2 n; Some (DArray vs, off3) }
                       else read_scalar sec t n off2 }) = Some (v, off2)"
      and vs: "rec sec off2 (count - 1) = Some (vs, off3)" and r: "r = (v # vs, off3)"
      using 1(2) by (auto simp: bind_eq_Some_conv)
    have v': "(if t = 1 then
                  do { (target, off2) \<leftarrow> read_pointer (sec @ e) code off1;
                       (vs, _) \<leftarrow> read_values (sec @ e) target 1;
                       Some (hd vs, off2) }
                else
                  do { (n, off2) \<leftarrow> read_size (sec @ e) code off1;
                       if t = 7 then do { (vs, off3) \<leftarrow> read_values (sec @ e) off2 (2 * n); Some (DObject (pairs vs), off3) }
                       else if t = 11 then do { (vs, off3) \<leftarrow> read_values (sec @ e) off2 n; Some (DArray vs, off3) }
                       else read_scalar (sec @ e) t n off2 }) = Some (v, off2)"
    proof (cases "t = 1")
      case True
      then obtain target ws o4 where "read_pointer sec code off1 = Some (target, off2)" "rec sec target 1 = Some (ws, o4)" "v = hd ws"
        using v by (auto simp: bind_eq_Some_conv)
      then show ?thesis using True read_pointer_append [of sec code off1 _ e] IH [of sec target 1 "(ws, o4)"] by simp
    next
      case ptr: False
      then obtain n o4 where n: "read_size sec code off1 = Some (n, o4)" and body:
        "(if t = 7 then do { (vs, off3) \<leftarrow> rec sec o4 (2 * n); Some (DObject (pairs vs), off3) }
          else if t = 11 then do { (vs, off3) \<leftarrow> rec sec o4 n; Some (DArray vs, off3) }
          else read_scalar sec t n o4) = Some (v, off2)"
        using v by (auto simp: bind_eq_Some_conv)
      have "(if t = 7 then do { (vs, off3) \<leftarrow> read_values (sec @ e) o4 (2 * n); Some (DObject (pairs vs), off3) }
          else if t = 11 then do { (vs, off3) \<leftarrow> read_values (sec @ e) o4 n; Some (DArray vs, off3) }
          else read_scalar (sec @ e) t n o4) = Some (v, off2)"
        using body IH [of sec o4 "2 * n"] IH [of sec o4 n] read_scalar_append [of sec t n o4 _ e]
        by (auto simp: bind_eq_Some_conv split: if_splits)
      then show ?thesis using ptr read_size_append [OF n, of e] by simp
    qed
    show ?thesis
      using False read_type_append [OF t, of e] v' IH [OF vs] by (subst read_values.simps) (simp add: r)
  qed
qed

section \<open>Control bytes\<close>

lemma ctrl_byte: "t < 8 \<Longrightarrow> n < 32 \<Longrightarrow> unat (of_nat (t * 32) OR of_nat n :: u8) = t * 32 + n"
proof -
  have "\<forall>t \<in> set [0..<8]. \<forall>n \<in> set [0..<32]. unat (of_nat (t * 32) OR of_nat n :: u8) = t * 32 + n" by code_simp
  then show "t < 8 \<Longrightarrow> n < 32 \<Longrightarrow> ?thesis" by simp
qed

lemma unat_or_u8:
  "t < 8 \<Longrightarrow> n < 32 \<Longrightarrow> unat (of_nat (t * 32) OR of_nat n :: u8) div 32 = t"
  "t < 8 \<Longrightarrow> n < 32 \<Longrightarrow> unat (of_nat (t * 32) OR of_nat n :: u8) mod 32 = n"
  by (subst ctrl_byte; simp)+

lemma slice_last: "slice (out @ bs) (length out) (length bs) = Some bs"
  by (simp add: slice_def)

lemma byte_at_last: "byte_at (out @ b # bs) (length out) = Some (unat b)"
  by (simp add: byte_at_def)

text \<open>The code of a size, and the bytes that follow for a longer one.\<close>

definition size_code :: "nat \<Rightarrow> nat" where
  "size_code n = (if n < 29 then n else if n < 285 then 29 else if n < 65821 then 30 else 31)"

definition size_bytes :: "nat \<Rightarrow> bytes" where
  "size_bytes n =
     (if n < 29 then [] else if n < 285 then big_endian 1 (n - 29)
      else if n < 65821 then big_endian 2 (n - 285) else big_endian 3 (n - 65821))"

lemma size_code_less: "size_code n < 32"
  by (simp add: size_code_def)

lemma encode_ctrl_layout:
  assumes "n < 2 ^ 32"
  shows "encode_ctrl_and_size [] t n =
    (of_nat ((if t < 8 then t else 0) * 32) OR of_nat (size_code n)) # size_bytes n @ (if t < 8 then [] else [of_nat (t - 7)])"
  using assms
  by (simp add: encode_ctrl_and_size_def u32_of_def Let_def size_code_def size_bytes_def big_endian_lists)

lemma read_size_bytes:
  assumes "n < 16843037"
  shows "read_size (out @ size_bytes n) (size_code n) (length out) = Some (n, length (out @ size_bytes n))"
proof -
  have big: "be_value (big_endian 1 (n - 29)) = n - 29" if "n < 285"
    using that by (simp add: be_value_big_endian)
  have big2: "be_value (big_endian 2 (n - 285)) = n - 285" if "n < 65821"
    using that by (simp add: be_value_big_endian)
  have big3: "be_value (big_endian 3 (n - 65821)) = n - 65821"
    using assms by (simp add: be_value_big_endian)
  consider "n < 29" | "29 \<le> n" "n < 285" | "285 \<le> n" "n < 65821" | "65821 \<le> n" by linarith
  then show ?thesis
  proof cases
    case 2
    then show ?thesis using slice_last [of out "big_endian 1 (n - 29)"] big
      by (simp add: read_size_def size_code_def size_bytes_def)
  next
    case 3
    then show ?thesis using slice_last [of out "big_endian 2 (n - 285)"] big2
      by (simp add: read_size_def size_code_def size_bytes_def)
  next
    case 4
    then show ?thesis using slice_last [of out "big_endian 3 (n - 65821)"] big3
      by (simp add: read_size_def size_code_def size_bytes_def)
  qed (simp add: read_size_def size_code_def size_bytes_def)
qed

lemma read_ctrl:
  assumes "0 < t" and "t < 16" and "n < 16843037" and "t < 8 \<or> n < 29"
  shows "\<exists>code off. read_type (out @ encode_ctrl_and_size [] t n) (length out) = Some (t, code, off) \<and>
    read_size (out @ encode_ctrl_and_size [] t n) code off = Some (n, length (out @ encode_ctrl_and_size [] t n))"
proof (cases "t < 8")
  case True
  let ?c = "of_nat (t * 32) OR of_nat (size_code n) :: u8"
  have e: "encode_ctrl_and_size [] t n = ?c # size_bytes n" using encode_ctrl_layout [of n t] assms(3) True by simp
  have "read_type (out @ ?c # size_bytes n) (length out) = Some (t, size_code n, length (out @ [?c]))"
    using assms(1) unat_or_u8 [OF True size_code_less] by (simp add: read_type_def byte_at_last)
  then show ?thesis using read_size_bytes [OF assms(3), of "out @ [?c]"] by (simp add: e)
next
  case False
  then have n: "n < 29" using assms(4) by blast
  let ?c = "of_nat n :: u8"
  have e: "encode_ctrl_and_size [] t n = [?c, of_nat (t - 7)]"
    using encode_ctrl_layout [of n t] False n by (simp add: size_code_def size_bytes_def)
  have b: "byte_at (out @ [?c, of_nat (t - 7)]) (length out + 1) = Some (t - 7)"
    using assms(2) by (simp add: byte_at_def nth_append)
  have "read_type (out @ [?c, of_nat (t - 7)]) (length out) = Some (t, n, length out + 2)"
    using n False b by (simp add: read_type_def byte_at_last)
  then show ?thesis using n by (simp add: e read_size_def)
qed

lemma pointer_byte:
  assumes "x < 8"
  shows "unat (0x20 OR (of_nat x AND 0x07) :: u8) = 32 + x" "unat (0x28 OR (of_nat x AND 0x07) :: u8) = 40 + x"
    "unat (0x30 OR (of_nat x AND 0x07) :: u8) = 48 + x"
proof -
  have "\<forall>x \<in> set [0..<8]. unat (0x20 OR (of_nat x AND 0x07) :: u8) = 32 + x \<and> unat (0x28 OR (of_nat x AND 0x07) :: u8) = 40 + x \<and>
      unat (0x30 OR (of_nat x AND 0x07) :: u8) = 48 + x" by code_simp
  then show "unat (0x20 OR (of_nat x AND 0x07) :: u8) = 32 + x" "unat (0x28 OR (of_nat x AND 0x07) :: u8) = 40 + x"
    "unat (0x30 OR (of_nat x AND 0x07) :: u8) = 48 + x" using assms by auto
qed

lemma read_pointer_layout:
  assumes "unat c = 32 + 8 * ss + x" and "ss < 4" and "x < 8" and "length bs = Suc ss"
  shows "read_type (out @ c # bs) (length out) = Some (1, 8 * ss + x, length out + 1)"
    and "read_pointer (out @ c # bs) (8 * ss + x) (length out + 1) =
      Some ((if ss = 3 then be_value bs
             else x * 256 ^ (ss + 1) + be_value bs + (if ss = 0 then 0 else if ss = 1 then 2048 else 526336)),
        length (out @ c # bs))"
proof -
  have "slice ((out @ [c]) @ bs) (length (out @ [c])) (length bs) = Some bs" by (rule slice_last)
  then have s: "slice (out @ c # bs) (length out + 1) (Suc ss) = Some bs" by (simp add: assms(4))
  have d: "(8 * ss + x) div 8 = ss" "(8 * ss + x) mod 8 = x" "(32 + 8 * ss + x) div 32 = 1" "(32 + 8 * ss + x) mod 32 = 8 * ss + x"
    using assms(2,3) by (simp_all add: add.assoc)
  show "read_type (out @ c # bs) (length out) = Some (1, 8 * ss + x, length out + 1)"
    using d(3,4) by (simp add: read_type_def byte_at_last assms(1))
  show "read_pointer (out @ c # bs) (8 * ss + x) (length out + 1) =
      Some ((if ss = 3 then be_value bs
             else x * 256 ^ (ss + 1) + be_value bs + (if ss = 0 then 0 else if ss = 1 then 2048 else 526336)),
        length (out @ c # bs))"
    using s assms(3) by (simp add: read_pointer_def d(1,2) Let_def assms(4))
qed

lemma read_encoded_pointer:
  assumes "off < 2 ^ 32"
  shows "\<exists>code off1. read_type (out @ encode_pointer [] off) (length out) = Some (1, code, off1) \<and>
    read_pointer (out @ encode_pointer [] off) code off1 = Some (off, length (out @ encode_pointer [] off))"
proof -
  consider "off < 2048" | "2048 \<le> off" "off < 526336" | "526336 \<le> off" "off < 134744064" | "134744064 \<le> off" by linarith
  then show ?thesis
  proof cases
    case 1
    let ?x = "off div 256" and ?bs = "big_endian 1 off"
    have e: "encode_pointer [] off = (0x20 OR (of_nat ?x AND 0x07)) # ?bs" using 1 by (simp add: encode_pointer_def big_endian_lists)
    have x: "?x < 8" using 1 by simp
    have v: "?x * 256 + be_value ?bs = off" by (simp add: be_value_big_endian)
    show ?thesis using read_pointer_layout [of _ 0 ?x ?bs out] pointer_byte(1) [OF x] x v unfolding e by fastforce
  next
    case 2
    let ?o = "off - 2048"
    let ?x = "?o div 65536" and ?bs = "big_endian 2 (off - 2048)"
    have e: "encode_pointer [] off = (0x28 OR (of_nat ?x AND 0x07)) # ?bs" using 2 by (simp add: encode_pointer_def big_endian_lists Let_def)
    have x: "?x < 8" using 2 by simp
    have "?x * 65536 + be_value ?bs = ?o" by (simp add: be_value_big_endian)
    then have v: "?x * 65536 + be_value ?bs + 2048 = off" using 2(1) by linarith
    show ?thesis using read_pointer_layout [of _ 1 ?x ?bs out] pointer_byte(2) [OF x] x v unfolding e by (fastforce simp: power2_eq_square)
  next
    case 3
    let ?o = "off - 526336"
    let ?x = "?o div 16777216" and ?bs = "big_endian 3 (off - 526336)"
    have e: "encode_pointer [] off = (0x30 OR (of_nat ?x AND 0x07)) # ?bs" using 3 by (simp add: encode_pointer_def big_endian_lists Let_def)
    have x: "?x < 8" using 3 by simp
    have "?x * 16777216 + be_value ?bs = ?o" by (simp add: be_value_big_endian)
    then have v: "?x * 16777216 + be_value ?bs + 526336 = off" using 3(1) by linarith
    show ?thesis using read_pointer_layout [of _ 2 ?x ?bs out] pointer_byte(3) [OF x] x v unfolding e by (fastforce simp: power3_eq_cube)
  next
    case 4
    let ?bs = "big_endian 4 off"
    have e: "encode_pointer [] off = 0x38 # ?bs" using 4 by (simp add: encode_pointer_def big_endian_lists Let_def)
    have v: "be_value ?bs = off" using assms by (simp add: be_value_big_endian)
    show ?thesis using read_pointer_layout [of "0x38" 3 0 ?bs out] v unfolding e by simp
  qed
qed

section \<open>Reading one value\<close>

text \<open>A value of the data section, with the offset after it.\<close>

definition reads :: "bytes \<Rightarrow> nat \<Rightarrow> data \<Rightarrow> nat \<Rightarrow> bool" where
  "reads sec off v off' \<longleftrightarrow> read_values sec off 1 = Some ([v], off')"

lemma read_values_zero [simp]: "read_values sec off 0 = Some ([], off)"
  by (subst read_values.simps) simp

lemma reads_append: "reads sec off v off' \<Longrightarrow> reads (sec @ e) off v off'"
  by (simp add: reads_def read_values_append)

definition read_one :: "bytes \<Rightarrow> nat \<Rightarrow> (data \<times> nat) option" where
  "read_one sec off =
     do { (type, code, off1) \<leftarrow> read_type sec off;
          if type = 1 then
            do { (target, off2) \<leftarrow> read_pointer sec code off1;
                 (vs, _) \<leftarrow> read_values sec target 1;
                 Some (hd vs, off2) }
          else
            do { (n, off2) \<leftarrow> read_size sec code off1;
                 if type = 7 then do { (vs, off3) \<leftarrow> read_values sec off2 (2 * n); Some (DObject (pairs vs), off3) }
                 else if type = 11 then do { (vs, off3) \<leftarrow> read_values sec off2 n; Some (DArray vs, off3) }
                 else read_scalar sec type n off2 } }"

lemma read_values_Suc:
  "read_values sec off (Suc n) =
     do { (v, off2) \<leftarrow> read_one sec off; (vs, off3) \<leftarrow> read_values sec off2 n; Some (v # vs, off3) }"
  by (subst read_values.simps, cases "read_type sec off") (auto simp: read_one_def)

lemma reads_one: "reads sec off v off' \<longleftrightarrow> read_one sec off = Some (v, off')"
  unfolding reads_def One_nat_def read_values_Suc by (auto simp: bind_eq_Some_conv)

lemma reads_then:
  "reads sec off v off1 \<Longrightarrow> read_values sec off1 n = Some (vs, off2) \<Longrightarrow> read_values sec off (Suc n) = Some (v # vs, off2)"
  by (simp add: read_values_Suc reads_one)

lemma reads_pointer:
  assumes "read_type sec off = Some (1, code, off1)" and "read_pointer sec code off1 = Some (target, off2)"
    and "reads sec target v e"
  shows "reads sec off v off2"
  using assms(1,2) assms(3) [unfolded reads_def] by (simp add: reads_one read_one_def)

lemma reads_value:
  assumes "read_type sec off = Some (t, code, off1)" and "read_size sec code off1 = Some (n, off2)"
  shows "t = 7 \<Longrightarrow> read_values sec off2 (2 * n) = Some (vs, off3) \<Longrightarrow> reads sec off (DObject (pairs vs)) off3"
    and "t = 11 \<Longrightarrow> read_values sec off2 n = Some (vs, off3) \<Longrightarrow> reads sec off (DArray vs) off3"
    and "t \<notin> {1, 7, 11} \<Longrightarrow> read_scalar sec t n off2 = Some (v, off3) \<Longrightarrow> reads sec off v off3"
  using assms by (simp_all add: reads_one read_one_def)

text \<open>A scalar: control bytes and payload.\<close>

lemma reads_scalar:
  assumes "0 < t" and "t < 16" and "t \<notin> {1, 7, 11, 14}" and "t < 8 \<or> length bs < 29" and "length bs < 16843037"
    and "read_scalar bs t (length bs) 0 = Some (v, length bs)"
  shows "reads (out @ encode_ctrl_and_size [] t (length bs) @ bs) (length out) v
    (length (out @ encode_ctrl_and_size [] t (length bs) @ bs))"
proof -
  let ?o = "out @ encode_ctrl_and_size [] t (length bs)"
  obtain code off where r: "read_type ?o (length out) = Some (t, code, off)"
    "read_size ?o code off = Some (length bs, length ?o)"
    using read_ctrl [OF assms(1,2,5,4)] by blast
  have "read_scalar (?o @ bs) t (length bs) (length ?o) = Some (v, length (?o @ bs))"
    using assms(3,6) slice_last [of ?o bs] slice_last [of "[]" bs] by (auto simp: read_scalar_def bind_eq_Some_conv)
  then show ?thesis
    using reads_value(3) [OF read_type_append [OF r(1)] read_size_append [OF r(2)], of bs v] assms(3) by simp
qed

lemma reads_uint:
  assumes "t \<in> {5, 6, 9}" and "val < 256 ^ 8" and "v = (if t = 5 then DU16 (of_nat val) else if t = 6 then DU32 (of_nat val) else DU64 (of_nat val))"
  shows "reads (out @ encode_uint [] t val) (length out) v (length (out @ encode_uint [] t val))"
proof -
  let ?bs = "rev (uint_bytes val)"
  have e: "encode_uint [] t val = encode_ctrl_and_size [] t (length ?bs) @ ?bs"
    by (cases "val = 0") (simp_all add: encode_uint_def uint_bytes.simps [of 0])
  have len: "length ?bs \<le> 8" using length_uint_bytes [OF assms(2)] by simp
  have "read_scalar ?bs t (length ?bs) 0 = Some (v, length ?bs)"
    using assms(1,3) uint_bytes_be [of val] slice_last [of "[]" ?bs] by (auto simp: read_scalar_def)
  then show ?thesis unfolding e using assms(1) len by (intro reads_scalar) auto
qed

lemma reads_bool:
  "reads (out @ encode_ctrl_and_size [] 14 (if b then 1 else 0)) (length out) (DBool b)
    (length (out @ encode_ctrl_and_size [] 14 (if b then 1 else 0)))"
proof -
  let ?o = "out @ encode_ctrl_and_size [] 14 (if b then 1 else 0)"
  obtain code off where r: "read_type ?o (length out) = Some (14, code, off)"
    "read_size ?o code off = Some (if b then 1 else 0, length ?o)"
    using read_ctrl [of 14 "if b then 1 else 0" out] by (cases b) auto
  show ?thesis by (rule reads_value(3) [OF r]) (simp_all add: read_scalar_def)
qed

lemma reads_int: "reads (out @ encode_int [] w) (length out) (DI32 w) (length (out @ encode_int [] w))"
proof -
  let ?bs = "big_endian 4 (unat w)"
  have e: "encode_int [] w = encode_ctrl_and_size [] 8 (length ?bs) @ ?bs"
    unfolding encode_int_def length_big_endian by (simp only: big_endian_lists(4))
  have "unat w < 4294967296" by (rule unat_bounds)
  then have "be_value ?bs = unat w" by (simp add: be_value_big_endian)
  then have "read_scalar ?bs 8 (length ?bs) 0 = Some (DI32 w, length ?bs)"
    using slice_last [of "[]" ?bs] by (simp add: read_scalar_def)
  then show ?thesis unfolding e by (intro reads_scalar) simp_all
qed

section \<open>The data section reads back\<close>

text \<open>Values that the format can hold as the encoder writes them: no null, sizes below the limit of
  the format, and arrays of fewer than 29 elements (see \<open>long_array_misread\<close> for the others).\<close>

fun encodable :: "data \<Rightarrow> bool" where
  "encodable DNull \<longleftrightarrow> False"
| "encodable (DStr s) \<longleftrightarrow> length s < 16843037"
| "encodable (DBytes b) \<longleftrightarrow> length b < 16843037"
| "encodable (DObject fs) \<longleftrightarrow> length fs < 16843037 \<and> (\<forall>(k, v) \<in> set fs. length k < 16843037 \<and> encodable v)"
| "encodable (DArray vs) \<longleftrightarrow> length vs < 29 \<and> (\<forall>v \<in> set vs. encodable v)"
| "encodable _ \<longleftrightarrow> True"

text \<open>What the table of emitted records says of identifiers below \<open>k\<close>.\<close>

definition emitted_ok :: "pool \<Rightarrow> nat \<Rightarrow> bytes \<Rightarrow> (nat \<rightharpoonup> nat) \<Rightarrow> bool" where
  "emitted_ok p k out em \<longleftrightarrow>
     (\<forall>j off. j < k \<longrightarrow> em j = Some off \<longrightarrow> off < 2 ^ 32 \<and> (\<exists>e. reads out off (value_at p j) e))"

lemma emitted_okD:
  "emitted_ok p k out em \<Longrightarrow> j < k \<Longrightarrow> em j = Some off \<Longrightarrow> off < 2 ^ 32 \<and> (\<exists>e. reads out off (value_at p j) e)"
  unfolding emitted_ok_def by blast

lemma emitted_ok_mono:
  assumes "emitted_ok p k out em" and "i \<le> k" and "\<And>j. j < i \<Longrightarrow> em' j = em j"
  shows "emitted_ok p i out em'"
  unfolding emitted_ok_def
proof (intro allI impI)
  fix j off assume "j < i" "em' j = Some off"
  then show "off < 2 ^ 32 \<and> (\<exists>e. reads out off (value_at p j) e)"
    using assms(2,3) by (intro emitted_okD [OF assms(1)]) simp_all
qed

lemma emitted_ok_append: "emitted_ok p k out em \<Longrightarrow> emitted_ok p k (out @ e) em"
  unfolding emitted_ok_def using reads_append by blast

text \<open>One record is written: the output grows, reads back, and the table stays right.\<close>

definition written :: "pool \<Rightarrow> nat \<Rightarrow> nat \<Rightarrow> encoder \<Rightarrow> encoder \<Rightarrow> bool" where
  "written p k i st st' \<longleftrightarrow>
     (\<exists>e. fst st' = fst st @ e) \<and> (\<forall>j > i. snd st' j = snd st j) \<and>
     (emitted_ok p k (fst st) (snd st) \<and> length (fst st') < 2 ^ 32 \<longrightarrow>
        emitted_ok p k (fst st') (snd st') \<and> reads (fst st') (length (fst st)) (value_at p i) (length (fst st')))"

lemma written_items:
  assumes "\<And>i st. i \<in> set is \<Longrightarrow> written p k i st (ser i st)" and "\<forall>i \<in> set is. i < k"
  shows "(\<exists>e. fst (fold ser is st) = fst st @ e) \<and> (\<forall>j \<ge> k. snd (fold ser is st) j = snd st j) \<and>
    (emitted_ok p k (fst st) (snd st) \<and> length (fst (fold ser is st)) < 2 ^ 32 \<longrightarrow>
       emitted_ok p k (fst (fold ser is st)) (snd (fold ser is st)) \<and>
       read_values (fst (fold ser is st)) (length (fst st)) (length is) =
         Some (map (value_at p) is, length (fst (fold ser is st))))"
  using assms
proof (induction "is" arbitrary: st)
  case (Cons i "is")
  let ?st = "ser i st"
  let ?r = "fold ser is ?st"
  have w: "written p k i st ?st" using Cons.prems(1) by simp
  then obtain e where e: "fst ?st = fst st @ e" and frame: "\<forall>j > i. snd ?st j = snd st j" by (auto simp: written_def)
  have IH: "(\<exists>e. fst ?r = fst ?st @ e) \<and> (\<forall>j \<ge> k. snd ?r j = snd ?st j) \<and>
    (emitted_ok p k (fst ?st) (snd ?st) \<and> length (fst ?r) < 2 ^ 32 \<longrightarrow>
       emitted_ok p k (fst ?r) (snd ?r) \<and>
       read_values (fst ?r) (length (fst ?st)) (length is) = Some (map (value_at p) is, length (fst ?r)))"
    using Cons.IH [of ?st] Cons.prems by simp
  then obtain e' where e': "fst ?r = fst ?st @ e'" by blast
  have "emitted_ok p k (fst ?r) (snd ?r) \<and>
      read_values (fst ?r) (length (fst st)) (Suc (length is)) = Some (value_at p i # map (value_at p) is, length (fst ?r))"
    if "emitted_ok p k (fst st) (snd st)" "length (fst ?r) < 2 ^ 32"
  proof -
    have "length (fst ?st) < 2 ^ 32" using that(2) e' by simp
    then have s: "emitted_ok p k (fst ?st) (snd ?st)" "reads (fst ?st) (length (fst st)) (value_at p i) (length (fst ?st))"
      using w that(1) by (auto simp: written_def)
    then show ?thesis
      using IH that(2) reads_then [OF reads_append [OF s(2), of e'], folded e'] by simp
  qed
  then show ?case using e e' IH frame Cons.prems(2) by auto
qed (simp add: emitted_ok_def)

lemma fold_fields:
  "fold (\<lambda>kv st. ser (snd kv) (ser (fst kv) st)) fs st = fold ser (concat (map (\<lambda>kv. [fst kv, snd kv]) fs)) st"
  by (induction fs arbitrary: st) simp_all

lemma pairs_fields:
  "\<forall>(k, v) \<in> set fs. \<exists>s. id_to_data p ! k = IStr s \<Longrightarrow>
     pairs (map (value_at p) (concat (map (\<lambda>kv. [fst kv, snd kv]) fs))) = fields_value p fs"
  by (induction fs) (auto simp: value_at_scalar(2) str_at_def)

lemma length_concat_pairs: "length (concat (map (\<lambda>kv. [fst kv, snd kv]) fs)) = 2 * length fs"
  by (induction fs) simp_all

text \<open>A container: control bytes, then its members.\<close>

lemma written_container:
  assumes i: "\<forall>j \<in> set is. j < i" "i < k"
    and members: "\<And>j st. j \<in> set is \<Longrightarrow> written p i j st (ser j st)"
    and ctrl: "t \<in> {7, 11}" "n < 16843037" "t = 11 \<longrightarrow> n < 29"
    and content: "\<And>sec off code off1 off2 off3. read_values sec off2 (length is) = Some (map (value_at p) is, off3) \<Longrightarrow>
      read_type sec off = Some (t, code, off1) \<Longrightarrow> read_size sec code off1 = Some (n, off2) \<Longrightarrow> reads sec off (value_at p i) off3"
  shows "written p k i (out, em) (fold ser is (encode_ctrl_and_size out t n, em(i \<mapsto> u32_of (length out))))"
proof -
  let ?o = "out @ encode_ctrl_and_size [] t n" and ?em = "em(i \<mapsto> u32_of (length out))"
  let ?st = "fold ser is (?o, ?em)"
  have items: "(\<exists>e. fst ?st = ?o @ e) \<and> (\<forall>j \<ge> i. snd ?st j = ?em j) \<and>
    (emitted_ok p i ?o ?em \<and> length (fst ?st) < 2 ^ 32 \<longrightarrow> emitted_ok p i (fst ?st) (snd ?st) \<and>
       read_values (fst ?st) (length ?o) (length is) = Some (map (value_at p) is, length (fst ?st)))"
    using written_items [of "is" p i ser "(?o, ?em)"] members i(1) by simp
  then obtain e where e: "fst ?st = ?o @ e" by blast
  have frame: "snd ?st j = ?em j" if "j \<ge> i" for j using items that by blast
  have "emitted_ok p k (fst ?st) (snd ?st) \<and> reads (fst ?st) (length out) (value_at p i) (length (fst ?st))"
    if ok: "emitted_ok p k out em" and len: "length (fst ?st) < 2 ^ 32"
  proof -
    have app: "\<exists>e. reads (fst ?st) off v e" if "reads out off v e'" for off v e'
      using reads_append [OF that, of "encode_ctrl_and_size [] t n @ e"] e by auto
    have "emitted_ok p k ?o em" using emitted_ok_append [OF ok] .
    then have "emitted_ok p i ?o ?em" using i(2) by (rule emitted_ok_mono [OF _ less_imp_le]) simp
    then have s: "emitted_ok p i (fst ?st) (snd ?st)"
      "read_values (fst ?st) (length ?o) (length is) = Some (map (value_at p) is, length (fst ?st))"
      using items len by blast+
    obtain code off1 where c: "read_type ?o (length out) = Some (t, code, off1)"
      "read_size ?o code off1 = Some (n, length ?o)"
      using read_ctrl [of t n out] ctrl by auto
    have r: "reads (fst ?st) (length out) (value_at p i) (length (fst ?st))"
      using content [OF s(2)] read_type_append [OF c(1), of e] read_size_append [OF c(2), of e] e by simp
    have "off < 2 ^ 32 \<and> (\<exists>e. reads (fst ?st) off (value_at p j) e)" if "j < k" "snd ?st j = Some off" for j off
    proof (cases j i rule: linorder_cases)
      case less
      then show ?thesis using s(1) that(2) by (simp add: emitted_ok_def)
    next
      case equal
      have "length out < 2 ^ 32" using len e by simp
      then have "off = length out" using that(2) frame [of i] equal by (simp add: u32_of_def)
      then show ?thesis using r equal \<open>length out < 2 ^ 32\<close> by blast
    next
      case greater
      then have "em j = Some off" using that(2) frame [of j] by simp
      then show ?thesis using emitted_okD [OF ok that(1)] app by blast
    qed
    then show ?thesis using r by (simp add: emitted_ok_def)
  qed
  then show ?thesis
    unfolding written_def encode_ctrl_append [of out] using e frame by auto
qed

text \<open>A record without members.\<close>

lemma written_scalar:
  assumes "i < k" and "em' = em \<or> em' = em(i \<mapsto> u32_of (length out))"
    and "reads (out @ bs) (length out) (value_at p i) (length (out @ bs))"
  shows "written p k i (out, em) (out @ bs, em')"
proof -
  have "off < 2 ^ 32 \<and> (\<exists>e. reads (out @ bs) off (value_at p j) e)"
    if "emitted_ok p k out em" "length (out @ bs) < 2 ^ 32" "j < k" "em' j = Some off" for j off
  proof (cases "em j = Some off")
    case True
    then show ?thesis using emitted_okD [OF that(1,3)] reads_append by blast
  next
    case False
    then have "j = i" "off = u32_of (length out)" using assms(2) that(4) by (auto split: if_splits)
    moreover have "u32_of (length out) = length out" "length out < 2 ^ 32" using that(2) by (simp_all add: u32_of_def)
    ultimately show ?thesis using assms(3) by auto
  qed
  then show ?thesis using assms(2,3) by (auto simp: written_def emitted_ok_def)
qed

text \<open>The cases of \<open>serialize_data\<close>: a record written before, a map, an array, and a scalar.\<close>

lemma written_pointer:
  assumes "i \<noteq> 0" "i < k" "em i = Some off"
  shows "written p k i (out, em) (serialize_data_fuel (Suc n) p i (out, em))"
proof -
  have e: "serialize_data_fuel (Suc n) p i (out, em) = (out @ encode_pointer [] off, em)"
    using assms(1,3) by (simp add: encode_pointer_append [of out])
  have "reads (out @ encode_pointer [] off) (length out) (value_at p i) (length (out @ encode_pointer [] off))"
    if "emitted_ok p k out em"
  proof -
    note o = emitted_okD [OF that assms(2,3)]
    then obtain code off1 e where "read_type (out @ encode_pointer [] off) (length out) = Some (1, code, off1)"
      "read_pointer (out @ encode_pointer [] off) code off1 = Some (off, length (out @ encode_pointer [] off))"
      "reads out off (value_at p i) e" using read_encoded_pointer [of off out] by blast
    then show ?thesis using reads_pointer reads_append by blast
  qed
  then show ?thesis unfolding e using emitted_ok_append by (auto simp: written_def)
qed

lemma written_map:
  assumes ok: "pool_ok p" "valid_id p i" and enc0: "encodable (value_at p i)" and i0: "i \<noteq> 0" and bound: "i < k"
    and None: "em i = None" and IMap: "id_to_data p ! i = IMap fs"
    and member: "\<And>j st. j \<in> refs (id_to_data p ! i) \<Longrightarrow> encodable (value_at p j) \<Longrightarrow>
      written p i j st (serialize_data_fuel n p j st)"
  shows "written p k i (out, em) (serialize_data_fuel (Suc n) p i (out, em))"
proof -
  let ?em = "em(i \<mapsto> u32_of (length out))"
  have v: "value_at p i = DObject (fields_value p fs)" by (rule value_at_map [OF ok IMap])
  have enc: "length fs < 16843037" "\<And>k v. (k, v) \<in> set fs \<Longrightarrow> length (str_at p k) < 16843037 \<and> encodable (value_at p v)"
    using enc0 by (auto simp: v)
  let ?is = "concat (map (\<lambda>kv. [fst kv, snd kv]) fs)"
  have key: "encodable (value_at p k)" if "(k, v) \<in> set fs" for k v
    using fields_at(5) [OF ok IMap that] enc(2) [OF that] by (auto simp: value_at_scalar(2) str_at_def)
  have mem: "j \<in> refs (id_to_data p ! i) \<and> encodable (value_at p j)" if "j \<in> set ?is" for j
    using that key enc(2) by (fastforce simp: IMap)
  have "written p k i (out, em) (fold (serialize_data_fuel n p) ?is (encode_ctrl_and_size out 7 (length fs), ?em))"
  proof (rule written_container)
    show "\<forall>j \<in> set ?is. j < i" using mem pool_ok_refs [OF ok] by blast
    show "written p i j st (serialize_data_fuel n p j st)" if "j \<in> set ?is" for j st
      using member mem [OF that] by blast
    fix sec off code off1 off2 off3
    assume r: "read_values sec off2 (length ?is) = Some (map (value_at p) ?is, off3)"
      "read_type sec off = Some (7, code, off1)" "read_size sec code off1 = Some (length fs, off2)"
    have "\<forall>(k, v) \<in> set fs. \<exists>s. id_to_data p ! k = IStr s" using fields_at(5) [OF ok IMap] by blast
    from reads_value(1) [OF r(2,3) refl r(1) [unfolded length_concat_pairs]] pairs_fields [OF this]
    show "reads sec off (value_at p i) off3" by (simp only: v)
  qed (use bound enc(1) in simp_all)
  then show ?thesis using i0 None by (simp add: IMap fold_fields)
qed

lemma written_array:
  assumes ok: "pool_ok p" "valid_id p i" and enc0: "encodable (value_at p i)" and i0: "i \<noteq> 0" and bound: "i < k"
    and None: "em i = None" and IArray: "id_to_data p ! i = IArray es"
    and member: "\<And>j st. j \<in> refs (id_to_data p ! i) \<Longrightarrow> encodable (value_at p j) \<Longrightarrow>
      written p i j st (serialize_data_fuel n p j st)"
  shows "written p k i (out, em) (serialize_data_fuel (Suc n) p i (out, em))"
proof -
  let ?em = "em(i \<mapsto> u32_of (length out))"
  have v: "value_at p i = DArray (map (value_at p) es)" by (rule value_at_array [OF ok IArray])
  have enc: "length es < 29" "\<And>j. j \<in> set es \<Longrightarrow> encodable (value_at p j)"
    using enc0 by (auto simp: v)
  have "written p k i (out, em) (fold (serialize_data_fuel n p) es (encode_ctrl_and_size out 11 (length es), ?em))"
  proof (rule written_container)
    show "\<forall>j \<in> set es. j < i" using pool_ok_refs [OF ok] by (simp add: IArray)
    show "written p i j st (serialize_data_fuel n p j st)" if "j \<in> set es" for j st
      using member enc(2) [OF that] that by (simp add: IArray)
    fix sec off code off1 off2 off3
    assume r: "read_values sec off2 (length es) = Some (map (value_at p) es, off3)"
      "read_type sec off = Some (11, code, off1)" "read_size sec code off1 = Some (length es, off2)"
    from reads_value(2) [OF r(2,3) refl r(1)] show "reads sec off (value_at p i) off3" by (simp only: v)
  qed (use bound enc(1) in simp_all)
  then show ?thesis using i0 None by (simp add: IArray)
qed

lemma written_plain:
  assumes ok: "pool_ok p" "valid_id p i" and enc0: "encodable (value_at p i)" and i0: "i \<noteq> 0" and bound: "i < k"
    and None: "em i = None" and plain: "\<And>fs. id_to_data p ! i \<noteq> IMap fs" "\<And>es. id_to_data p ! i \<noteq> IArray es"
  shows "written p k i (out, em) (serialize_data_fuel (Suc n) p i (out, em))"
proof (cases "id_to_data p ! i")
    case (IStr s)
    have v: "value_at p i = DStr s" by (rule value_at_scalar(2) [OF IStr])
    have "read_scalar (as_bytes s) 2 (length (as_bytes s)) 0 = Some (DStr s, length (as_bytes s))"
      using slice_last [of "[]" "as_bytes s"] by (simp add: read_scalar_def)
    then have "reads (out @ encode_ctrl_and_size [] 2 (length s) @ as_bytes s) (length out) (DStr s)
        (length (out @ encode_ctrl_and_size [] 2 (length s) @ as_bytes s))"
      using reads_scalar [of 2 "as_bytes s" "DStr s" out] enc0 by (simp add: v)
    from written_scalar [OF bound disjI2 [OF refl], of out _ p em] this
    show ?thesis using i0 None by (simp add: IStr v encode_ctrl_append [of out])
  next
    case (IBytes b)
    have v: "value_at p i = DBytes b" by (rule value_at_scalar(3) [OF IBytes])
    have "read_scalar b 4 (length b) 0 = Some (DBytes b, length b)"
      using slice_last [of "[]" b] by (simp add: read_scalar_def)
    then have "reads (out @ encode_ctrl_and_size [] 4 (length b) @ b) (length out) (DBytes b)
        (length (out @ encode_ctrl_and_size [] 4 (length b) @ b))"
      using reads_scalar [of 4 b "DBytes b" out] enc0 by (simp add: v)
    from written_scalar [OF bound disjI1 [OF refl], of out _ p em] this
    show ?thesis using i0 None by (simp add: IBytes v encode_ctrl_append [of out])
  next
    case (IU16 w)
    have v: "value_at p i = DU16 w" by (rule value_at_scalar(4) [OF IU16])
    have "unat w < 256 ^ 8" using unat_bounds(2) [of w] by simp
    from written_scalar [OF bound disjI1 [OF refl], of out "encode_uint [] 5 (unat w)" p em] reads_uint [OF _ this, of 5 "DU16 w" out]
    show ?thesis using i0 None by (simp add: IU16 v encode_uint_append [of out])
  next
    case (IU32 w)
    have v: "value_at p i = DU32 w" by (rule value_at_scalar(5) [OF IU32])
    have "unat w < 256 ^ 8" using unat_bounds(3) [of w] by simp
    from written_scalar [OF bound disjI1 [OF refl], of out "encode_uint [] 6 (unat w)" p em] reads_uint [OF _ this, of 6 "DU32 w" out]
    show ?thesis using i0 None by (simp add: IU32 v encode_uint_append [of out])
  next
    case (IU64 w)
    have v: "value_at p i = DU64 w" by (rule value_at_scalar(7) [OF IU64])
    have "unat w < 256 ^ 8" using unat_bounds(4) [of w] by simp
    from written_scalar [OF bound disjI1 [OF refl], of out "encode_uint [] 9 (unat w)" p em] reads_uint [OF _ this, of 9 "DU64 w" out]
    show ?thesis using i0 None by (simp add: IU64 v encode_uint_append [of out])
  next
    case (II32 w)
    have v: "value_at p i = DI32 w" by (rule value_at_scalar(6) [OF II32])
    from written_scalar [OF bound disjI1 [OF refl], of out "encode_int [] w" p em] reads_int [of out w]
    show ?thesis using i0 None by (simp add: II32 v encode_int_append [of out])
  next
    case (IBool b)
    have v: "value_at p i = DBool b" by (rule value_at_scalar(8) [OF IBool])
    from written_scalar [OF bound disjI1 [OF refl], of out "encode_ctrl_and_size [] 14 (if b then 1 else 0)" p em] reads_bool [of out b]
    show ?thesis using i0 None by (simp only: IBool v serialize_data_fuel.simps encode_ctrl_append [of out] if_False Let_def should_mem.simps internal_data.case option.case)
  next
    case IMonostate
    then show ?thesis using enc0 value_at_scalar(1) [OF IMonostate] by simp
qed (use no_float_at [OF ok] plain in simp_all)

lemma serialize_written:
  "pool_ok p \<Longrightarrow> valid_id p i \<Longrightarrow> encodable (value_at p i) \<Longrightarrow> i < n \<Longrightarrow> i < k \<Longrightarrow>
     written p k i st (serialize_data_fuel n p i st)"
proof (induction n arbitrary: i k st)
  case (Suc n)
  obtain out em where st: "st = (out, em)" by fastforce
  note ok = Suc.prems(1,2)
  have i0: "i \<noteq> 0" using Suc.prems(3) ok by (auto intro!: gr0I)
  show ?case
  proof (cases "em i")
    case (Some off)
    then show ?thesis unfolding st by (rule written_pointer [OF i0 Suc.prems(5), where em = em])
  next
    case None
    note case_args = ok Suc.prems(3) i0 Suc.prems(5) None
    have member: "written p i j st (serialize_data_fuel n p j st)"
      if "j \<in> refs (id_to_data p ! i)" "encodable (value_at p j)" for j st
      using Suc.IH [OF ok(1) _ that(2), of i st] pool_ok_refs [OF ok that(1)] member_valid [OF ok that(1)] Suc.prems(4)
      by simp
    consider fs where "id_to_data p ! i = IMap fs" | es where "id_to_data p ! i = IArray es"
      | "\<And>fs. id_to_data p ! i \<noteq> IMap fs" "\<And>es. id_to_data p ! i \<noteq> IArray es" by blast
    then show ?thesis unfolding st
    proof cases
      case 1
      show "written p k i (out, em) (serialize_data_fuel (Suc n) p i (out, em))"
        by (rule written_map [where em = em and i = i, OF case_args 1]) (rule member)
    next
      case 2
      show "written p k i (out, em) (serialize_data_fuel (Suc n) p i (out, em))"
        by (rule written_array [where em = em and i = i, OF case_args 2]) (rule member)
    next
      case 3
      then show "written p k i (out, em) (serialize_data_fuel (Suc n) p i (out, em))"
        by (rule written_plain [where em = em and i = i, OF case_args])
    qed
  qed
qed simp

end
