(* ===== verification/Mmdb_File.thy ===== *)
theory Mmdb_File
  imports Mmdb_Encode
begin

text \<open>
  The whole file that \<open>Builder::build\<close> writes, seen through a reader of the search tree and the data
  section that follows the MaxMind DB format: every address leads to the record the builder holds for
  it. The theory ends with the two places where the encoder departs from the format.
\<close>

unbundle bit_operations_syntax

section \<open>Placing the records\<close>

definition placed :: "pool \<Rightarrow> bytes \<Rightarrow> nat list \<Rightarrow> nat \<Rightarrow> bool" where
  "placed p sec offsets i \<longleftrightarrow> offsets ! i < length sec \<and> (\<exists>e. reads sec (offsets ! i) (value_at p i) e)"

lemma read_one_less: "read_one sec off = Some r \<Longrightarrow> off < length sec"
  by (auto simp: read_one_def read_type_def byte_at_def bind_eq_Some_conv split: if_splits)

lemma reads_less: "reads sec off v e \<Longrightarrow> off < length sec"
  using read_one_less by (auto simp: reads_one)

lemma placed_append: "placed p sec offsets i \<Longrightarrow> placed p (sec @ e) offsets i"
  using reads_append by (fastforce simp: placed_def)

lemma place_records_grow:
  assumes "pool_ok p" and "\<forall>i \<in> set is. valid_id p i \<and> 0 < i \<and> encodable (value_at p i)"
    and "place_records p is ((out, em), offsets) = ((out', em'), offsets')"
  shows "\<exists>e. out' = out @ e"
  using assms
proof (induction "is" arbitrary: out em offsets)
  case (Cons i "is")
  have i: "valid_id p i" "0 < i" "encodable (value_at p i)" using Cons.prems(2) by auto
  show ?case
  proof (cases "em i")
    case None
    obtain o1 em1 where s: "serialize_data p i (out, em) = (o1, em1)" by fastforce
    have "written p (Suc i) i (out, em) (o1, em1)"
      using serialize_written [OF Cons.prems(1) i(1,3), of "Suc i" "Suc i" "(out, em)"] s by (simp add: serialize_data_def)
    then obtain e1 where "o1 = out @ e1" by (auto simp: written_def)
    moreover have "\<exists>e. out' = o1 @ e"
      using Cons.IH [of o1 em1] Cons.prems i(2) None s by simp
    ultimately show ?thesis by auto
  qed (use Cons i(2) in simp)
qed simp

lemma place_records_spec:
  assumes "pool_ok p" and "\<forall>i \<in> set is. valid_id p i \<and> 0 < i \<and> encodable (value_at p i)" and "distinct is"
    and "length offsets = length (id_to_data p)"
    and "place_records p is ((out, em), offsets) = ((out', em'), offsets')"
    and "emitted_ok p (length (id_to_data p)) out em" and "length out' < 2 ^ 32"
  shows "(\<exists>e. out' = out @ e) \<and> (\<forall>i \<in> set is. placed p out' offsets' i) \<and> (\<forall>i. i \<notin> set is \<longrightarrow> offsets' ! i = offsets ! i) \<and>
    length offsets' = length offsets"
  using assms
proof (induction "is" arbitrary: out em offsets)
  case (Cons i "is")
  let ?k = "length (id_to_data p)"
  have i: "valid_id p i" "0 < i" "encodable (value_at p i)" "i \<notin> set is" using Cons.prems(2,3) by auto
  have rest: "\<forall>i \<in> set is. valid_id p i \<and> 0 < i \<and> encodable (value_at p i)" "distinct is" using Cons.prems(2,3) by auto
  show ?case
  proof (cases "em i")
    case (Some off)
    have step: "place_records p is ((out, em), offsets[i := off]) = ((out', em'), offsets')"
      using Cons.prems(5) i(2) Some by simp
    from Cons.IH [OF Cons.prems(1) rest _ step Cons.prems(6,7)] Cons.prems(4)
    have IH: "(\<exists>e. out' = out @ e) \<and> (\<forall>i \<in> set is. placed p out' offsets' i) \<and>
        (\<forall>j. j \<notin> set is \<longrightarrow> offsets' ! j = offsets[i := off] ! j) \<and> length offsets' = length offsets" by simp
    obtain e where e: "reads out off (value_at p i) e" using emitted_okD [OF Cons.prems(6) i(1) Some] by blast
    have "offsets' ! i = off" using IH i(1,4) Cons.prems(4) by simp
    then have "placed p out' offsets' i"
      using IH e reads_append [OF e] reads_less reads_append by (fastforce simp: placed_def)
    then show ?thesis using IH by auto
  next
    case None
    obtain o1 em1 where s: "serialize_data p i (out, em) = (o1, em1)" by fastforce
    have step: "place_records p is ((o1, em1), offsets[i := u32_of (length out)]) = ((out', em'), offsets')"
      using Cons.prems(5) i(2) None s by simp
    have w: "written p ?k i (out, em) (o1, em1)"
      using serialize_written [OF Cons.prems(1) i(1,3), of "Suc i" ?k "(out, em)"] i(1) s by (simp add: serialize_data_def)
    then obtain e1 where e1: "o1 = out @ e1" by (auto simp: written_def)
    obtain e2 where e2: "out' = o1 @ e2" using place_records_grow [OF Cons.prems(1) rest(1) step] by blast
    then have len: "length o1 < 2 ^ 32" "u32_of (length out) = length out"
      using Cons.prems(7) e1 by (simp_all add: u32_of_def)
    have ok: "emitted_ok p ?k o1 em1" "reads o1 (length out) (value_at p i) (length o1)"
      using w Cons.prems(6) len(1) by (auto simp: written_def)
    from Cons.IH [OF Cons.prems(1) rest _ step ok(1) Cons.prems(7)] Cons.prems(4)
    have IH: "(\<forall>i \<in> set is. placed p out' offsets' i) \<and>
        (\<forall>j. j \<notin> set is \<longrightarrow> offsets' ! j = offsets[i := length out] ! j) \<and> length offsets' = length offsets"
      by (simp add: len(2))
    have "offsets' ! i = length out" using IH i(1,4) Cons.prems(4) by simp
    then have "placed p o1 offsets' i" using ok(2) reads_less by (auto simp: placed_def)
    then have "placed p out' offsets' i" unfolding e2 by (rule placed_append)
    then show ?thesis using IH e1 e2 by auto
  qed
qed simp

section \<open>The search tree\<close>

text \<open>Reading a record of the search tree and following an address, after the specification.\<close>

definition read_record :: "bytes \<Rightarrow> nat \<Rightarrow> bool \<Rightarrow> nat" where
  "read_record file node b =
     (let at = (\<lambda>i. unat (file ! (node * 7 + i))) in
      if b then (at 3 mod 16) * 16777216 + at 4 * 65536 + at 5 * 256 + at 6
      else (at 3 div 16) * 16777216 + at 0 * 65536 + at 1 * 256 + at 2)"

text \<open>\<open>None\<close> when the address leads nowhere, otherwise the offset of its record in the data section.\<close>

fun find_offset :: "bytes \<Rightarrow> nat \<Rightarrow> nat \<Rightarrow> bool list \<Rightarrow> nat option" where
  "find_offset file node_count node [] = None"
| "find_offset file node_count node (b # bs) =
     (let v = read_record file node b in
      if v < node_count then find_offset file node_count v bs
      else if v = node_count then None else Some (v - node_count - 16))"

definition file_record :: "bytes \<Rightarrow> nat \<Rightarrow> bool list \<Rightarrow> data option" where
  "file_record file node_count a =
     (case find_offset file node_count 0 a of
        None \<Rightarrow> Some DNull
      | Some off \<Rightarrow> map_option (\<lambda>(vs, _). hd vs) (read_values (drop (node_count * 7 + 16) file) off 1))"

lemma middle_byte:
  assumes "x < 16" and "y < 16"
  shows "unat (push_bit 4 (of_nat x AND 0x0F) OR (of_nat y AND 0x0F) :: u8) = 16 * x + y"
proof -
  have "\<forall>x \<in> set [0..<16]. \<forall>y \<in> set [0..<16]. unat (push_bit 4 (of_nat x AND 0x0F) OR (of_nat y AND 0x0F) :: u8) = 16 * x + y"
    by code_simp
  then show ?thesis using assms by auto
qed

lemma nth_concat_const:
  "\<forall>x \<in> set xs. length x = c \<Longrightarrow> k < length xs \<Longrightarrow> i < c \<Longrightarrow> (concat xs @ rest) ! (k * c + i) = xs ! k ! i"
proof (induction xs arbitrary: k)
  case (Cons x xs)
  then show ?case
    by (cases k) (simp_all add: nth_append add.assoc)
qed simp

lemma length_node_bytes [simp]: "length (node_bytes l r) = 7"
  by (simp add: node_bytes_def)

lemma digits_sum:
  "q1 * 256 + r0 = v \<Longrightarrow> q2 * 256 + r1 = q1 \<Longrightarrow> q3 * 256 + r2 = q2 \<Longrightarrow> q3 * 16777216 + r2 * 65536 + r1 * 256 + r0 = (v :: nat)"
  by simp

lemma be_parts: "v div 16777216 * 16777216 + v div 65536 mod 256 * 65536 + v div 256 mod 256 * 256 + v mod 256 = v" for v :: nat
proof -
  have q: "v div 65536 = v div 256 div 256" "v div 16777216 = v div 256 div 256 div 256"
    using div_mult2_eq [of v 256 256] div_mult2_eq [of v 65536 256] by simp_all
  show ?thesis unfolding q by (rule digits_sum [OF div_mult_mod_eq div_mult_mod_eq div_mult_mod_eq])
qed

lemma read_record_node:
  assumes "k < length rs" and "fst (rs ! k) < 2 ^ 28" and "snd (rs ! k) < 2 ^ 28"
  shows "read_record (concat (map (\<lambda>lr. node_bytes (fst lr) (snd lr)) rs) @ rest) k b = (if b then snd (rs ! k) else fst (rs ! k))"
proof -
  let ?f = "concat (map (\<lambda>lr. node_bytes (fst lr) (snd lr)) rs) @ rest"
  let ?l = "fst (rs ! k)" and ?r = "snd (rs ! k)"
  have at: "?f ! (k * 7 + i) = node_bytes ?l ?r ! i" if "i < 7" for i
    using nth_concat_const [of "map (\<lambda>lr. node_bytes (fst lr) (snd lr)) rs" 7 k i rest] that assms(1) by simp
  have bytes: "unat (?f ! (k * 7 + 0)) = ?l div 65536 mod 256" "unat (?f ! (k * 7 + 1)) = ?l div 256 mod 256"
    "unat (?f ! (k * 7 + 2)) = ?l mod 256" "unat (?f ! (k * 7 + 4)) = ?r div 65536 mod 256"
    "unat (?f ! (k * 7 + 5)) = ?r div 256 mod 256" "unat (?f ! (k * 7 + 6)) = ?r mod 256"
    by (simp_all only: at) (simp_all add: node_bytes_def)
  have x: "?l div 16777216 < 16" "?r div 16777216 < 16" using assms(2,3) by simp_all
  have mid: "unat (?f ! (k * 7 + 3)) = 16 * (?l div 16777216) + ?r div 16777216"
    using middle_byte [OF x] by (simp only: at) (simp add: node_bytes_def)
  have "unat (?f ! (k * 7 + 3)) div 16 = ?l div 16777216" "unat (?f ! (k * 7 + 3)) mod 16 = ?r div 16777216"
    using x by (simp_all only: mid) simp_all
  then show ?thesis
    unfolding read_record_def Let_def bytes
    using be_parts [of ?l] be_parts [of ?r] by simp
qed

section \<open>From subtrees to records of the search tree\<close>

lemma nth_number_in:
  "distinct xs \<Longrightarrow> \<forall>x \<in> set xs. x < length mapping \<Longrightarrow> x \<in> set xs \<Longrightarrow>
     \<exists>j < length xs. xs ! j = x \<and> number mapping 0 xs ! x = j"
  using nth_number [of xs mapping _ 0] by (metis add_0 in_set_conv_nth)

text \<open>A subtree of \<open>t\<close>, other than its root: the inner nodes of one are inner nodes of the other.\<close>

definition part :: "trie_node list \<Rightarrow> tree \<Rightarrow> tree \<Rightarrow> bool" where
  "part ns t s \<longleftrightarrow> rep ns s \<and> proper s \<and> set (inner s) \<subseteq> set (inner t) \<and>
     (set (addrs s) - set (inner s)) \<inter> set (inner t) = {} \<and> leaf_data s \<subseteq> leaf_data t"

lemma part_self: "rep ns t \<Longrightarrow> proper t \<Longrightarrow> part ns t t"
  by (auto simp: part_def)

lemma part_child:
  assumes "part ns t (Node i l r)"
  shows "part ns t (if b then r else l)" and "idx (if b then r else l) = 0 \<longleftrightarrow> (if b then r else l) = Absent"
proof -
  have p: "proper (Node i l r)" "(set (addrs (Node i l r)) - set (inner (Node i l r))) \<inter> set (inner t) = {}"
    using assms by (auto simp: part_def)
  have "set (addrs c) - set (inner c) \<subseteq> set (addrs (Node i l r)) - set (inner (Node i l r))" if "c \<in> {l, r}" for c
    using that p(1) inner_addrs [of l] inner_addrs [of r] by auto
  then show "part ns t (if b then r else l)" using assms p(2) by (auto simp: part_def)
  show "idx (if b then r else l) = 0 \<longleftrightarrow> (if b then r else l) = Absent"
    using idx_zero_iff [of l] idx_zero_iff [of r] p(1) by simp
qed

text \<open>The value that \<open>resolve\<close> writes for a child.\<close>

lemma resolve_part:
  assumes s: "part ns t s" "idx s = 0 \<longleftrightarrow> s = Absent" and t: "rep ns t" "proper t" "length (inner t) < unassigned"
    and "m = number (replicate (length ns) unassigned) 0 (inner t)"
  shows "case s of
      Node i l r \<Rightarrow> resolve ns m nc offs (idx s) < length (inner t) \<and> inner t ! resolve ns m nc offs (idx s) = i
    | Leaf i d \<Rightarrow> resolve ns m nc offs (idx s) = (if d = 0 then nc else u32_of (nc + 16 + offs ! d))
    | Absent \<Rightarrow> resolve ns m nc offs (idx s) = nc"
proof -
  have d: "distinct (inner t)" using distinct_inner [OF proper_distinct [OF t(2)]] .
  have len: "\<forall>x \<in> set (inner t). x < length (replicate (length ns) unassigned)"
    using rep_addrs [OF t(1)] inner_addrs by fastforce
  show ?thesis
  proof (cases s)
    case (Node i l r)
    then obtain j where "j < length (inner t)" "inner t ! j = i" "m ! i = j"
      using nth_number_in [OF d len, of i] s(1) assms(6) by (auto simp: part_def)
    then show ?thesis using s(2) t(3) Node by (auto simp: resolve_def)
  next
    case (Leaf i d)
    then have "i \<notin> set (inner t)" "i < length ns" using s(1) by (auto simp: part_def)
    then have "m ! i = unassigned" by (simp add: assms(6) nth_number_other)
    then show ?thesis using s Leaf by (auto simp: resolve_def part_def)
  qed (simp add: resolve_def)
qed

text \<open>The records written for the inner nodes in preorder.\<close>

definition records :: "trie_node list \<Rightarrow> (nat \<Rightarrow> nat) \<Rightarrow> nat list \<Rightarrow> (nat \<times> nat) list" where
  "records ns res is = map (\<lambda>i. (res (child0 (ns ! i)), res (child1 (ns ! i)))) is"

lemma length_records [simp]: "length (records ns res is) = length is"
  by (simp add: records_def)

lemma find_offset_part:
  assumes t: "rep ns t" "proper t" "length (inner t) < unassigned"
    and m: "m = number (replicate (length ns) unassigned) 0 (inner t)"
    and res: "res = resolve ns m (length (inner t)) offs"
    and whole: "file = concat (map (\<lambda>lr. node_bytes (fst lr) (snd lr)) (records ns res (inner t))) @ rest"
    and small: "\<forall>d \<in> leaf_data t. d \<noteq> 0 \<longrightarrow> length (inner t) + 16 + offs ! d < 2 ^ 28" "length (inner t) < 2 ^ 28"
  shows "part ns t (Node i l r) \<Longrightarrow> k < length (inner t) \<Longrightarrow> inner t ! k = i \<Longrightarrow> height (Node i l r) \<le> length a \<Longrightarrow>
     find_offset file (length (inner t)) k a =
       (if lookup (Node i l r) a = 0 then None else Some (offs ! lookup (Node i l r) a))"
proof (induction a arbitrary: i l r k)
  case (Cons b a)
  let ?nc = "length (inner t)" and ?c = "if b then r else l"
  note c = part_child [OF Cons.prems(1), of b]
  note rs = resolve_part [OF c t m, of ?nc offs, folded res]
  have node: "ns ! i = \<lparr>child0 = idx l, child1 = idx r, node_data = 0\<rparr>" using Cons.prems(1) by (simp add: part_def)
  have bound: "res (idx x) < 2 ^ 28" if "x \<in> {l, r}" for x
  proof -
    have p: "part ns t x" "idx x = 0 \<longleftrightarrow> x = Absent" using that part_child [OF Cons.prems(1), of True] part_child [OF Cons.prems(1), of False] by auto
    then have "leaf_data x \<subseteq> leaf_data t" by (simp add: part_def)
    then show ?thesis using resolve_part [OF p t m, of ?nc offs, folded res] small by (cases x) (auto simp: u32_of_def)
  qed
  have nth: "records ns res (inner t) ! k = (res (idx l), res (idx r))"
    using Cons.prems(2,3) by (simp add: records_def node)
  have v: "read_record file k b = res (idx ?c)"
    using read_record_node [of k "records ns res (inner t)" rest b] Cons.prems(2) bound [of l] bound [of r]
    unfolding whole nth by (simp add: records_def)
  show ?case
  proof (cases ?c)
    case (Node j l' r')
    then have "res (idx ?c) < ?nc" "inner t ! res (idx ?c) = j" using rs by (simp_all del: idx.simps)
    moreover have "height (Node j l' r') \<le> length a" using Cons.prems(4) Node by (cases b) auto
    ultimately show ?thesis
      using Cons.IH [of j l' r' "res (idx ?c)"] c(1) unfolding find_offset.simps Let_def v lookup.simps Node by simp
  next
    case (Leaf j d)
    then have "d \<in> leaf_data t" using c(1) by (auto simp: part_def)
    then have "d \<noteq> 0 \<Longrightarrow> res (idx ?c) = ?nc + 16 + offs ! d" using rs small(1) Leaf by (auto simp: u32_of_def simp del: idx.simps)
    then show ?thesis
      using rs Leaf unfolding find_offset.simps Let_def v lookup.simps by (cases "d = 0") (simp_all del: idx.simps)
  next
    case Absent
    then show ?thesis using rs unfolding find_offset.simps Let_def v lookup.simps by simp
  qed
qed simp

section \<open>The whole file\<close>

lemma leaf_data_lookup: "d \<in> leaf_data t \<Longrightarrow> height t \<le> w \<Longrightarrow> \<exists>a. length a = w \<and> lookup t a = d"
proof (induction t arbitrary: w)
  case (Leaf i d')
  then show ?case by (auto intro!: exI [of _ "replicate w False"])
next
  case (Node i l r)
  obtain w' where w: "w = Suc w'" "height l \<le> w'" "height r \<le> w'" using Node.prems(2) by (cases w) auto
  consider "d \<in> leaf_data l" | "d \<in> leaf_data r" using Node.prems(1) by auto
  then show ?case
  proof cases
    case 1
    then obtain a where "length a = w'" "lookup l a = d" using Node.IH(1) w by blast
    then show ?thesis using w by (intro exI [of _ "False # a"]) simp
  next
    case 2
    then obtain a where "length a = w'" "lookup r a = d" using Node.IH(2) w by blast
    then show ?thesis using w by (intro exI [of _ "True # a"]) simp
  qed
qed simp

lemma distinct_sort_less: "distinct xs \<Longrightarrow> distinct (sort_less lt xs)"
  using card_distinct [of "sort_less lt xs"] by (simp add: distinct_card)

lemma concat_length_const: "\<forall>x \<in> set xs. length x = c \<Longrightarrow> length (concat xs) = length xs * c"
  by (induction xs) auto

lemma length_tree [simp]: "length (concat (map (\<lambda>lr. node_bytes (fst lr) (snd lr)) rs)) = length rs * 7"
  using concat_length_const [of "map (\<lambda>lr. node_bytes (fst lr) (snd lr)) rs" 7] by simp

text \<open>The parts of the file for a builder whose pruned tree is \<open>t\<close>.\<close>

lemma build_parts:
  assumes "builder_inv b" and "build sched Writable b = Inr (file, stats, b')"
  obtains t ns data_section meta emitted offsets where "tree_ok (address_bits b) ns (bpool b) t"
    and "\<And>a. length a = address_bits b \<Longrightarrow> record_for b a = value_at (bpool b) (lookup t a)"
    and "stat_node_count stats = length (inner t)" and "data_section_bytes stats = length data_section"
    and "place_records (bpool b) (sort_less (less_data (bpool b)) (collect_used_data_parallel 4 ns))
          (([0], Map.empty), replicate (length (id_to_data (bpool b))) 0) = ((data_section, emitted), offsets)"
    and "set (collect_used_data_parallel 4 ns) = leaf_data t - {0}" and "distinct (collect_used_data_parallel 4 ns)"
    and "file = concat (map (\<lambda>lr. node_bytes (fst lr) (snd lr)) (records ns (resolve ns
          (number (replicate (length ns) unassigned) 0 (inner t)) (length (inner t)) offsets) (inner t))) @
          replicate 16 0 @ data_section @ meta"
    and "total_bytes stats = length file" and "idx t = 0"
proof -
  obtain t0 where t0: "tree_ok (address_bits b) (nodes b) (bpool b) t0" "idx t0 = 0"
    using assms(1) by (auto simp: builder_inv_def)
  have r0: "rep (nodes b) t0" "proper t0" "t0 \<noteq> Absent" "height t0 \<le> address_bits b" using t0(1) by (simp_all add: tree_ok_def)
  define ns where "ns = snd (prune_tree_parallel sched 4 (nodes b) 0)"
  let ?t = "pruned t0"
  have r: "rep ns ?t" "proper ?t" "?t \<noteq> Absent" "idx ?t = 0"
    using prunesD(2) [OF prune_tree_rep [OF r0(1-3) height_fuel [OF r0(1-3)], of sched 4]] t0(2) proper_pruned [OF r0(2)] r0(3)
    by (simp_all add: ns_def prune_tree_parallel_def)
  have ok: "tree_ok (address_bits b) ns (bpool b) ?t"
    using r t0(1) leaf_data_pruned [of t0] height_pruned [of t0] r0(4) by (auto simp: tree_ok_def)
  have rec: "record_for b a = value_at (bpool b) (lookup ?t a)" if "length a = address_bits b" for a
    using tree_ok_record [OF t0] lookup_pruned [of t0 a] r0(4) that by simp
  note fuel = height_fuel [OF r(1-3)]
  have ids: "assign_node_ids ns = (length (inner ?t), number (replicate (length ns) unassigned) 0 (inner ?t), inner ?t)"
    using assign_node_ids_rep [OF r(1-3) fuel, of 0 "replicate (length ns) unassigned" "[]"] r(4) by (simp add: assign_node_ids_def)
  have used: "set (collect_used_data_parallel 4 ns) = leaf_data ?t - {0}" "distinct (collect_used_data_parallel 4 ns)"
    using collect_used_data_rep [OF r(1-3) fuel distinct.simps(1) [THEN iffD2, OF TrueI], of 4] r(4) by (simp_all add: collect_used_data_parallel_def)
  obtain data_section emitted offsets where pl: "place_records (bpool b) (sort_less (less_data (bpool b)) (collect_used_data_parallel 4 ns))
          (([0], Map.empty), replicate (length (id_to_data (bpool b))) 0) = ((data_section, emitted), offsets)"
    by (metis prod.collapse)
  obtain meta p where meta: "write_metadata b (length (inner ?t)) = (meta, p)" by fastforce
  have f: "file = concat (map (\<lambda>lr. node_bytes (fst lr) (snd lr)) (records ns (resolve ns
          (number (replicate (length ns) unassigned) 0 (inner ?t)) (length (inner ?t)) offsets) (inner ?t))) @
          replicate 16 0 @ data_section @ meta"
    and st: "stat_node_count stats = length (inner ?t)" "data_section_bytes stats = length data_section"
      "total_bytes stats = length (inner ?t) * 7 + 16 + length data_section + length meta"
    using assms(2) by (auto simp: build_def Let_def ns_def [symmetric] ids pl meta records_def comp_def)
  show ?thesis
    by (rule that [OF ok rec st(1,2) pl used f _ r(4)]) (simp_all add: st(3) f)
qed

lemma build_total:
  assumes "builder_inv b" and "build sched Writable b = Inr (file, stats, b')"
  shows "total_bytes stats = length file" and "stat_node_count stats * 7 + 16 + data_section_bytes stats \<le> length file"
  by (rule build_parts [OF assms]; simp)+

lemma built_file:
  assumes "builder_inv b" and "build sched Writable b = Inr (file, stats, b')" and "length a = address_bits b"
    and "0 < stat_node_count stats" and "stat_node_count stats + 16 + data_section_bytes stats \<le> 2 ^ 28"
    and "\<And>a. length a = address_bits b \<Longrightarrow> record_for b a = DNull \<or> encodable (record_for b a)"
  shows "file_record file (stat_node_count stats) a = Some (record_for b a) \<and> total_bytes stats = length file"
proof -
  obtain t ns sec meta em offs where ok: "tree_ok (address_bits b) ns (bpool b) t"
    and rec: "\<And>a. length a = address_bits b \<Longrightarrow> record_for b a = value_at (bpool b) (lookup t a)"
    and st: "stat_node_count stats = length (inner t)" "data_section_bytes stats = length sec"
    and pl: "place_records (bpool b) (sort_less (less_data (bpool b)) (collect_used_data_parallel 4 ns))
          (([0], Map.empty), replicate (length (id_to_data (bpool b))) 0) = ((sec, em), offs)"
    and used: "set (collect_used_data_parallel 4 ns) = leaf_data t - {0}" "distinct (collect_used_data_parallel 4 ns)"
    and f: "file = concat (map (\<lambda>lr. node_bytes (fst lr) (snd lr)) (records ns (resolve ns
          (number (replicate (length ns) unassigned) 0 (inner t)) (length (inner t)) offs) (inner t))) @
          replicate 16 0 @ sec @ meta"
    and tot: "total_bytes stats = length file" "idx t = 0"
    by (rule build_parts [OF assms(1,2)]) (rule that)
  let ?p = "bpool b"
  have r: "rep ns t" "proper t" "height t \<le> address_bits b" "pool_ok ?p" "\<forall>x \<in> leaf_data t. valid_id ?p x"
    using ok by (simp_all add: tree_ok_def)
  obtain l rt where t: "t = Node 0 l rt" using assms(4) tot(2) st(1) by (cases t) auto
  have enc: "encodable (value_at ?p d)" if d: "d \<in> leaf_data t" "d \<noteq> 0" for d
  proof -
    obtain a where a: "length a = address_bits b" "lookup t a = d" using leaf_data_lookup [OF d(1) r(3)] by blast
    have "value_at ?p d \<noteq> DNull"
      using value_at_inject [OF r(4), of d 0] r(4,5) d pool_ok_valid0 [OF r(4)] by auto
    then show ?thesis using assms(6) [OF a(1)] rec [OF a(1)] a(2) by simp
  qed
  have placed: "placed ?p sec offs d" if "d \<in> leaf_data t" "d \<noteq> 0" for d
    using place_records_spec [OF r(4) _ distinct_sort_less [OF used(2)] _ pl] used(1) enc r(5) that assms(5) st(2)
    by (simp add: emitted_ok_def)
  have small: "\<forall>d \<in> leaf_data t. d \<noteq> 0 \<longrightarrow> length (inner t) + 16 + offs ! d < 2 ^ 28" "length (inner t) < 2 ^ 28"
    "length (inner t) < unassigned"
    using placed assms(5) st by (fastforce simp: placed_def, simp_all add: unassigned_def)
  have find: "find_offset file (length (inner t)) 0 a = (if lookup t a = 0 then None else Some (offs ! lookup t a))"
    using find_offset_part [OF r(1,2) small(3) refl refl f small(1,2), of 0 l rt 0 a]
      part_self [OF r(1,2)] r(3) assms(3) unfolding t by simp
  have sec: "drop (length (inner t) * 7 + 16) file = sec @ meta" by (simp add: f)
  have "file_record file (length (inner t)) a = Some (value_at ?p (lookup t a))"
  proof (cases "lookup t a = 0")
    case False
    then have "lookup t a \<in> leaf_data t" using lookup_leaf_data [of t a] by auto
    from placed [OF this False] obtain e where "reads sec (offs ! lookup t a) (value_at ?p (lookup t a)) e" by (auto simp: placed_def)
    then show ?thesis using reads_append [of sec] False by (fastforce simp: file_record_def find sec reads_def)
  qed (simp add: file_record_def find r(4))
  then show ?thesis using rec [OF assms(3)] st(1) tot(1) by simp
qed

section \<open>Properties\<close>

text \<open>C2: the file that \<open>build\<close> writes, read as the MaxMind DB format prescribes, gives every address the
  record that the builder holds for it, whatever the schedule of the parallel tasks, and the reported
  size is the file's; provided the search tree has a node, the nodes and the data section fit into the
  28 bits of a record, and the record of every address is one the encoder writes in the format (arrays
  with fewer than 29 members, no null member).\<close>

theorem built_file_records:
  assumes "builder_inv b" and "build sched Writable b = Inr (file, stats, b')" and "length a = address_bits b"
    and "0 < stat_node_count stats" and "stat_node_count stats + 16 + data_section_bytes stats \<le> 2 ^ 28"
    and "\<And>a. length a = address_bits b \<Longrightarrow> record_for b a = DNull \<or> encodable (record_for b a)"
  shows "file_record file (stat_node_count stats) a = Some (record_for b a) \<and> total_bytes stats = length file"
  by (rule built_file [OF assms])

text \<open>One network in the example database: the lower half of the addresses.\<close>

definition example_single :: builder where
  "example_single = insert_parsed example_builder [\<lparr>net_bits = replicate 16 0, prefix_len = 1, net_data = 4\<rparr>]"

definition example_nodes :: "trie_node list" where
  "example_nodes = [\<lparr>child0 = 1, child1 = 0, node_data = 0\<rparr>, \<lparr>child0 = 0, child1 = 0, node_data = 4\<rparr>]"

lemma example_single_tree: "snd (prune_tree_parallel (\<lambda>_. False) 4 (nodes example_single) 0) = example_nodes"
  by code_simp

lemma example_single_ids: "assign_node_ids example_nodes = (1, [0, unassigned], [0])"
  by (simp add: example_nodes_def assign_node_ids_def eval_nat_numeral)

lemma example_single_used: "sort_less lt (collect_used_data_parallel 4 example_nodes) = [4]"
  by (simp add: example_nodes_def collect_used_data_parallel_def eval_nat_numeral sort_less_def List.union_def List.insert_def)

lemma example_single_data:
  "fst (fst (place_records (bpool example_single) [4]
     (([0], Map.empty), replicate (length (id_to_data (bpool example_single))) 0))) =
   [0, 225, 68, 110, 97, 109, 101, 1, 4, 65, 98]"
  by code_simp

lemma example_single_build:
  obtains f stats b' where "build (\<lambda>_. False) Writable example_single = Inr (f, stats, b')"
    and "stat_node_count stats = 1" and "data_section_bytes stats = 11"
proof -
  obtain em offsets where pl: "place_records (bpool example_single) [4]
      (([0], Map.empty), replicate (length (id_to_data (bpool example_single))) 0) =
      (([0, 225, 68, 110, 97, 109, 101, 1, 4, 65, 98], em), offsets)"
    using example_single_data by (metis prod.collapse)
  obtain f stats b' where b: "build (\<lambda>_. False) Writable example_single = Inr (f, stats, b')"
    by (simp add: build_def Let_def split_beta)
  then have "stat_node_count stats = 1 \<and> data_section_bytes stats = 11"
    by (auto simp: build_def example_single_tree example_single_ids example_single_used pl Let_def split_beta simp del: place_records.simps)
  then show ?thesis using that b by blast
qed

theorem built_file_records_witness:
  "\<exists>file stats b'. build (\<lambda>_. False) Writable example_single = Inr (file, stats, b') \<and>
     file_record file (stat_node_count stats) (replicate 128 True) = Some (record_for example_single (replicate 128 True)) \<and>
     file_record file (stat_node_count stats) (replicate 128 False) = Some (record_for example_single (replicate 128 False))"
proof -
  let ?e = "\<lparr>net_bits = replicate 16 0, prefix_len = 1, net_data = 4\<rparr>"
  obtain f stats b' where b: "build (\<lambda>_. False) Writable example_single = Inr (f, stats, b')"
    "stat_node_count stats = 1" "data_section_bytes stats = 11" by (rule example_single_build)
  have valid: "\<forall>e \<in> set [?e]. entry_valid example_builder e" using example_entries_valid by (simp add: example_entries_def)
  note i = insert_parsed_tree [OF fresh_builder_inv(1) [OF example_builder_fresh] valid refl, folded example_single_def]
  have inv: "builder_inv example_single" "address_bits example_single = 128" using i by (simp_all add: example_builder_bits)
  have rec: "record_for example_single a = DNull \<or> encodable (record_for example_single a)" if "length a = 128" for a
    using insert_parsed_fresh [OF example_builder_fresh valid, of a] that
    by (auto simp: example_single_def example_builder_bits example_builder_pool example_pool_values merge_values.simps example_row_def)
  note all = built_file_records [OF inv(1) b(1) _ _ _ rec, unfolded inv(2)]
  show ?thesis
    using b all [of "replicate 128 True"] all [of "replicate 128 False"] by auto
qed

section \<open>Departures from the format\<close>

text \<open>C32: the control bytes of an array with 29 to 284 members: the size byte precedes the byte of the
  extended type, where the format has it after. A reader takes the size byte for the type, and always
  33 for the size, so it finds an array with the right number of members exactly when there are 33 of
  them, the one number for which the bytes happen to be those of the format.\<close>

theorem long_array_misread:
  assumes "29 \<le> n" and "n < 285"
  shows "encode_ctrl_and_size [] 11 n = [29, of_nat (n - 29), 4] \<and>
    (encode_ctrl_and_size [] 11 n = [29, 4, of_nat (n - 29)] \<longleftrightarrow> n = 33) \<and>
    read_type (encode_ctrl_and_size [] 11 n) 0 = Some (n - 22, 29, 2) \<and>
    read_size (encode_ctrl_and_size [] 11 n) 29 2 = Some (33, 3) \<and>
    (read_type (encode_ctrl_and_size [] 11 n) 0 = Some (11, 29, 2) \<and>
     read_size (encode_ctrl_and_size [] 11 n) 29 2 = Some (n, 3) \<longleftrightarrow> n = 33)"
proof -
  have bytes: "encode_ctrl_and_size [] 11 n = [29, of_nat (n - 29), 4]"
    using assms by (simp add: encode_ctrl_and_size_def u32_of_def Let_def)
  have u: "unat (of_nat (n - 29) :: u8) = n - 29" using assms by (simp only: unat_u8) simp
  have "(of_nat (n - 29) :: u8) = 4 \<longleftrightarrow> n - 29 = 4"
  proof
    assume "(of_nat (n - 29) :: u8) = 4"
    then have "unat (of_nat (n - 29) :: u8) = unat (4 :: u8)" by simp
    then show "n - 29 = 4" unfolding u by simp
  qed simp
  then have "[29, of_nat (n - 29), 4] = [29, 4, of_nat (n - 29) :: u8] \<longleftrightarrow> n = 33" using assms by auto
  moreover have t: "read_type [29, of_nat (n - 29), 4] 0 = Some (n - 22, 29, 2)"
    using assms u by (simp add: read_type_def byte_at_def)
  moreover have "read_size [29, of_nat (n - 29), 4] 29 2 = Some (33, 3)"
    by (simp add: read_size_def slice_def be_value_def)
  ultimately show ?thesis unfolding bytes using assms by auto
qed

theorem long_array_misread_witness:
  "read_type (encode_ctrl_and_size [] 11 40) 0 = Some (18, 29, 2) \<and>
   encode_ctrl_and_size [] 11 40 = [29, of_nat (40 - 29), 4]"
proof -
  have "29 \<le> (40 :: nat)" "(40 :: nat) < 285" by simp_all
  note misread = long_array_misread [OF this]
  have "(40 :: nat) - 22 = 18" by simp
  with misread show ?thesis by metis
qed

text \<open>C33: the metadata that \<open>write_metadata\<close> appends is complete: for every builder, whatever its pool
  holds, and every node count, the bytes after the marker, read with their pointers resolved from the
  start of the marker, are exactly the nine fields of the metadata. (The format resolves pointers from
  the end of the marker; \<open>metadata_languages_misread\<close> below shows what its reader makes of the one
  pointer there is.) The type string has fewer than 16843037 bytes and the section fewer than
  \<open>2 ^ 32\<close>.\<close>

theorem metadata_read_from_marker:
  assumes "pool_ok (bpool b)" "length (database_type b) < 16843037"
    and "length (fst (write_metadata b node_count)) < 2 ^ 32"
  shows "(\<exists>body. fst (write_metadata b node_count) = kMarker @ body) \<and>
    read_values (fst (write_metadata b node_count)) (length kMarker) 1 =
      Some ([metadata_value b node_count], length (fst (write_metadata b node_count)))"
proof -
  obtain i p where s: "store (bpool b) (metadata_value b node_count) = (i, p)" by fastforce
  have "plain (metadata_value b node_count)" by (simp add: metadata_value_def)
  from store_spec(1) [OF assms(1) this s] have st: "stored (bpool b) p i (metadata_value b node_count)" .
  have "encodable (metadata_value b node_count)" using assms(2) by (simp add: metadata_value_def)
  then have "written p (Suc i) i (kMarker, Map.empty) (serialize_data p i (kMarker, Map.empty))"
    unfolding serialize_data_def using st by (intro serialize_written) auto
  moreover have "emitted_ok p (Suc i) kMarker Map.empty" by (simp add: emitted_ok_def)
  moreover have "fst (write_metadata b node_count) = fst (serialize_data p i (kMarker, Map.empty))"
    by (simp add: write_metadata_def s split_beta)
  ultimately show ?thesis using assms(3) st by (auto simp: written_def reads_def)
qed

text \<open>The builder as the compiler creates it.\<close>

definition example_empty :: builder where
  "example_empty = builder_set_row_sort_key (builder_new 6 ''FireHOL-IP-Reputation'' 0) ''file_name''"

definition example_metadata :: bytes where
  "example_metadata =
     [233, 91, 98, 105, 110, 97, 114, 121, 95, 102, 111, 114, 109, 97, 116, 95, 109, 97, 106, 111, 114, 95,
      118, 101, 114, 115, 105, 111, 110, 161, 2, 91, 98, 105, 110, 97, 114, 121, 95, 102, 111, 114, 109, 97,
      116, 95, 109, 105, 110, 111, 114, 95, 118, 101, 114, 115, 105, 111, 110, 160, 75, 98, 117, 105, 108,
      100, 95, 101, 112, 111, 99, 104, 0, 2, 77, 100, 97, 116, 97, 98, 97, 115, 101, 95, 116, 121, 112, 101,
      85, 70, 105, 114, 101, 72, 79, 76, 45, 73, 80, 45, 82, 101, 112, 117, 116, 97, 116, 105, 111, 110, 75,
      100, 101, 115, 99, 114, 105, 112, 116, 105, 111, 110, 225, 66, 101, 110, 82, 71, 101, 110, 101, 114, 97,
      116, 101, 100, 32, 68, 97, 116, 97, 98, 97, 115, 101, 74, 105, 112, 95, 118, 101, 114, 115, 105, 111,
      110, 161, 6, 73, 108, 97, 110, 103, 117, 97, 103, 101, 115, 1, 4, 32, 137, 74, 110, 111, 100, 101, 95,
      99, 111, 117, 110, 116, 193, 1, 75, 114, 101, 99, 111, 114, 100, 95, 115, 105, 122, 101, 161, 28]"

lemma example_metadata_written:
  "fst (write_metadata example_empty 1) = kMarker @ example_metadata"
  by code_simp

theorem metadata_read_from_marker_witness:
  "read_values (kMarker @ example_metadata) 14 1 =
     Some ([metadata_value example_empty 1], 14 + length example_metadata)"
proof -
  have m: "length kMarker = 14" by (simp add: kMarker_def)
  have "pool_ok (bpool example_empty)" "database_type example_empty = ''FireHOL-IP-Reputation''"
    by (simp_all add: example_empty_def builder_set_row_sort_key_def builder_new_def pool_ok_new alloc_node_def)
  moreover have "length (kMarker @ example_metadata) < 2 ^ 32" by (simp add: m example_metadata_def)
  ultimately show ?thesis
    using metadata_read_from_marker [of example_empty 1, unfolded example_metadata_written] by (simp add: m)
qed

text \<open>What a reader of the format makes of the metadata of an empty database of the program: the language
  list holds a pointer to 137 = 123 + 14, past the text \<open>en\<close> at 123.\<close>

lemma metadata_languages_misread:
  "map_option fst (read_values (drop (length kMarker) (fst (write_metadata example_empty 1))) 158 2) =
     Some [DStr ''languages'', DArray [DStr ''atab'']]"
proof -
  have "map_option fst (read_values example_metadata 158 2) = Some [DStr ''languages'', DArray [DStr ''atab'']]"
    by code_simp
  then show ?thesis unfolding example_metadata_written by simp
qed

end
