(* ===== verification/Firehol_Metrics.thy ===== *)
theory Firehol_Metrics
  imports Prelude
begin

text \<open>
  The counters of the compilation pipeline (\<open>FireholMetrics\<close> in \<open>src/metrics/firehol_metrics.hpp\<close>,
  \<open>firehol_metrics.cpp\<close>) and the publication of the per-list series, which is queued on the reactor
  that registered them. The gauges of durations hold floating-point values and are not modelled.
\<close>

record blocklist_stat =
  bs_file_name :: string
  bs_category :: string
  bs_networks :: nat

text \<open>\<open>fm_alien\<close> says whether \<open>register_metrics\<close> has stored the reactor, \<open>fm_queued\<close> counts the rebuilds
  queued there, and \<open>fm_series\<close> are the gauges of the last rebuild.\<close>

record firehol_metrics =
  compile_runs_total :: u64
  compile_failures_total :: u64
  compile_in_progress :: u64
  compile_networks :: u64
  compile_blocklists :: u64
  compile_mmdb_bytes :: u64
  compile_trie_nodes :: u64
  compile_data_records :: u64
  compile_last_success_unix :: u64
  git_clones_total :: u64
  git_fetches_total :: u64
  git_failures_total :: u64
  git_last_success_unix :: u64
  fm_blocklists :: "blocklist_stat list"
  fm_alien :: bool
  fm_queued :: nat
  fm_series :: "(string \<times> string \<times> nat) list"

definition firehol_metrics_new :: firehol_metrics where
  "firehol_metrics_new = \<lparr>compile_runs_total = 0, compile_failures_total = 0, compile_in_progress = 0,
     compile_networks = 0, compile_blocklists = 0, compile_mmdb_bytes = 0, compile_trie_nodes = 0,
     compile_data_records = 0, compile_last_success_unix = 0, git_clones_total = 0, git_fetches_total = 0,
     git_failures_total = 0, git_last_success_unix = 0, fm_blocklists = [], fm_alien = False, fm_queued = 0,
     fm_series = []\<rparr>"

definition blocklists :: "firehol_metrics \<Rightarrow> blocklist_stat list" where
  "blocklists m = fm_blocklists m"

definition publish_blocklists :: "firehol_metrics \<Rightarrow> firehol_metrics" where
  "publish_blocklists m = (if \<not> fm_alien m then m else m\<lparr>fm_queued := fm_queued m + 1\<rparr>)"

text \<open>The task that the reactor runs: it reads the statistics when it runs, not when it was queued.\<close>

definition rebuild_series :: "firehol_metrics \<Rightarrow> firehol_metrics" where
  "rebuild_series m =
     (if fm_queued m = 0 then m
      else m\<lparr>fm_queued := fm_queued m - 1,
             fm_series := map (\<lambda>s. (bs_file_name s, bs_category s, bs_networks s)) (blocklists m)\<rparr>)"

definition set_blocklists :: "firehol_metrics \<Rightarrow> blocklist_stat list \<Rightarrow> firehol_metrics" where
  "set_blocklists m stats = publish_blocklists (m\<lparr>fm_blocklists := stats\<rparr>)"

definition register_metrics :: "firehol_metrics \<Rightarrow> firehol_metrics" where
  "register_metrics m = publish_blocklists (m\<lparr>fm_alien := True\<rparr>)"

text \<open>Once registered, the series follow the statistics: with nothing queued they are those of the last
  compilation.\<close>

definition series_inv :: "firehol_metrics \<Rightarrow> bool" where
  "series_inv m \<longleftrightarrow> (if fm_alien m then fm_queued m = 0 \<longrightarrow>
     fm_series m = map (\<lambda>s. (bs_file_name s, bs_category s, bs_networks s)) (fm_blocklists m)
     else fm_queued m = 0 \<and> fm_series m = [])"

lemma series_inv_operations:
  "series_inv firehol_metrics_new"
  "series_inv m \<Longrightarrow> series_inv (set_blocklists m stats)"
  "series_inv m \<Longrightarrow> series_inv (register_metrics m)"
  "series_inv m \<Longrightarrow> series_inv (rebuild_series m)"
  by (auto simp: series_inv_def set_blocklists_def register_metrics_def rebuild_series_def publish_blocklists_def
      blocklists_def firehol_metrics_new_def)

end
