(* ===== verification/Compiler.thy ===== *)
theory Compiler
  imports Blocklist Mmdb_File Firehol_Metrics
begin

text \<open>
  The compilation of the FireHOL lists into a database (\<open>compile_to_mmdb\<close> in
  \<open>src/firehol_blocklist_ipsets/compiler.cpp\<close>): the lists of a directory, the worker threads that pull
  them from a shared counter, and the publication of the file through a temporary one. The threads are
  a step function with a schedule: one step of a worker is a fetch of the next list, one line, or one
  insertion of a batch, each of which takes the locks of the builder at most once. A store that another
  thread makes while a batch is inserted counts as made before or after it: it only adds a record to the
  pool. The directory, the contents of the files, the schedule and the outcome of every system call are
  inputs.
\<close>

section \<open>The lists\<close>

record dir_entry =
  de_name :: string
  de_regular :: bool
  de_size :: "nat option"

record blocklist_file =
  bf_name :: string
  bf_size :: nat

definition extension :: "string \<Rightarrow> string" where
  "extension name =
     (let ending = takeWhile (\<lambda>c. c \<noteq> CHR ''.'') (rev name) in
      if name = ''..'' \<or> length ending + 1 \<ge> length name then [] else CHR ''.'' # rev ending)"

definition path_join :: "string \<Rightarrow> string \<Rightarrow> string" where
  "path_join dir name = (if dir = [] \<or> last dir = CHR ''/'' then dir @ name else dir @ ''/'' @ name)"

definition blocklist_less :: "blocklist_file \<Rightarrow> blocklist_file \<Rightarrow> bool" where
  "blocklist_less a b = (if bf_size a \<noteq> bf_size b then bf_size a > bf_size b else bf_name a < bf_name b)"

fun collect_blocklists ::
  "dir_entry list \<Rightarrow> blocklist_file list \<times> nat \<times> nat \<Rightarrow> string + blocklist_file list \<times> nat \<times> nat" where
  "collect_blocklists [] st = Inr st"
| "collect_blocklists (entry # entries) (files, ipset_count, netset_count) =
     (let ext = extension (de_name entry) in
      if \<not> de_regular entry then collect_blocklists entries (files, ipset_count, netset_count)
      else if ext \<noteq> ''.ipset'' \<and> ext \<noteq> ''.netset'' then collect_blocklists entries (files, ipset_count, netset_count)
      else case de_size entry of
        None \<Rightarrow> Inl ''cannot get file size''
      | Some n \<Rightarrow>
          collect_blocklists entries
            (files @ [\<lparr>bf_name = de_name entry, bf_size = n\<rparr>],
             if ext = ''.ipset'' then ipset_count + 1 else ipset_count,
             if ext = ''.ipset'' then netset_count else netset_count + 1))"

definition list_blocklists :: "dir_entry list option \<Rightarrow> string + blocklist_file list \<times> nat \<times> nat" where
  "list_blocklists listing =
     (case listing of
        None \<Rightarrow> Inl ''directory iterator cannot open directory''
      | Some entries \<Rightarrow>
          rbind (collect_blocklists entries ([], 0, 0)) (\<lambda>(files, i, n). Inr (sort_less blocklist_less files, i, n)))"

section \<open>The workers\<close>

datatype worker_phase = Fetching | Parsing nat parser | Exited "string option"

record worker =
  w_phase :: worker_phase
  w_parsed :: nat

record shared =
  sh_next_file :: nat
  sh_total_networks :: nat
  sh_builder :: builder
  sh_stats :: "blocklist_stat list"
  sh_workers :: "worker list"

definition empty_stat :: blocklist_stat where
  "empty_stat = \<lparr>bs_file_name = [], bs_category = [], bs_networks = 0\<rparr>"

definition shared_new :: "builder \<Rightarrow> nat \<Rightarrow> nat \<Rightarrow> shared" where
  "shared_new b file_count num_threads =
     \<lparr>sh_next_file = 0, sh_total_networks = 0, sh_builder = b, sh_stats = replicate file_count empty_stat,
      sh_workers = replicate num_threads \<lparr>w_phase = Fetching, w_parsed = 0\<rparr>\<rparr>"

definition set_worker :: "nat \<Rightarrow> worker \<Rightarrow> shared \<Rightarrow> shared" where
  "set_worker t w sh = sh\<lparr>sh_workers := (sh_workers sh)[t := w]\<rparr>"

definition exit_worker :: "nat \<Rightarrow> string option \<Rightarrow> shared \<Rightarrow> shared" where
  "exit_worker t err sh =
     (let w = sh_workers sh ! t in
      (set_worker t (w\<lparr>w_phase := Exited err\<rparr>) sh)\<lparr>sh_total_networks := sh_total_networks sh + w_parsed w\<rparr>)"

definition finish_file :: "nat \<Rightarrow> nat \<Rightarrow> string \<Rightarrow> parsed_blocklist \<Rightarrow> shared \<Rightarrow> shared" where
  "finish_file t i file_name result sh =
     (let w = sh_workers sh ! t in
      (set_worker t \<lparr>w_phase = Fetching, w_parsed = w_parsed w + pb_networks result\<rparr> sh)
        \<lparr>sh_stats := (sh_stats sh)[i := \<lparr>bs_file_name = file_name, bs_category = pb_category result,
                                         bs_networks = pb_networks result\<rparr>]\<rparr>)"

definition fetch_step ::
  "string \<Rightarrow> (string \<Rightarrow> file_read) \<Rightarrow> blocklist_file list \<Rightarrow> nat \<Rightarrow> shared \<Rightarrow> shared" where
  "fetch_step repo contents files t sh =
     (let i = sh_next_file sh; sh = sh\<lparr>sh_next_file := i + 1\<rparr> in
      if i < length files then
        (let name = bf_name (files ! i) in
         case read_file (path_join repo name) (contents name) of
           Inl e \<Rightarrow> exit_worker t (Some e) sh
         | Inr content \<Rightarrow>
             if content = [] then finish_file t i name \<lparr>pb_networks = 0, pb_category = []\<rparr> sh
             else set_worker t ((sh_workers sh ! t)\<lparr>w_phase := Parsing i (parser_new content)\<rparr>) sh)
      else exit_worker t None sh)"

definition parse_step ::
  "'tm parse_env \<Rightarrow> string \<Rightarrow> blocklist_file list \<Rightarrow> nat \<Rightarrow> nat \<Rightarrow> parser \<Rightarrow> shared \<Rightarrow> shared" where
  "parse_step env repo files t i ps sh =
     (let w = sh_workers sh ! t; name = bf_name (files ! i) in
      if length (p_batch ps) = kInsertBatchSize then
        (let (ps, b) = flush_batch ps (sh_builder sh)
         in set_worker t (w\<lparr>w_phase := Parsing i ps\<rparr>) (sh\<lparr>sh_builder := b\<rparr>))
      else if p_rest ps \<noteq> [] then
        (case next_line env (path_join repo name) name ps (sh_builder sh) of
           Inl e \<Rightarrow> exit_worker t (Some e) sh
         | Inr (ps, b) \<Rightarrow> set_worker t (w\<lparr>w_phase := Parsing i ps\<rparr>) (sh\<lparr>sh_builder := b\<rparr>))
      else
        (let (ps, b) = flush_batch ps (sh_builder sh)
         in finish_file t i name \<lparr>pb_networks = p_total_networks ps, pb_category = lm_category (p_metadata ps)\<rparr>
              (sh\<lparr>sh_builder := b\<rparr>)))"

definition worker_step ::
  "'tm parse_env \<Rightarrow> string \<Rightarrow> (string \<Rightarrow> file_read) \<Rightarrow> blocklist_file list \<Rightarrow> nat \<Rightarrow> shared \<Rightarrow> shared" where
  "worker_step env repo contents files t sh =
     (if t < length (sh_workers sh) then
        (case w_phase (sh_workers sh ! t) of
           Fetching \<Rightarrow> fetch_step repo contents files t sh
         | Parsing i ps \<Rightarrow> parse_step env repo files t i ps sh
         | Exited _ \<Rightarrow> sh)
      else sh)"

definition run_workers ::
  "'tm parse_env \<Rightarrow> string \<Rightarrow> (string \<Rightarrow> file_read) \<Rightarrow> blocklist_file list \<Rightarrow> nat list \<Rightarrow> shared \<Rightarrow> shared" where
  "run_workers env repo contents files turns sh = foldl (\<lambda>sh t. worker_step env repo contents files t sh) sh turns"

definition exited :: "worker \<Rightarrow> bool" where
  "exited w \<longleftrightarrow> (case w_phase w of Exited _ \<Rightarrow> True | _ \<Rightarrow> False)"

definition worker_error :: "worker \<Rightarrow> string option" where
  "worker_error w = (case w_phase w of Exited e \<Rightarrow> e | _ \<Rightarrow> None)"

section \<open>Compilation\<close>

record 'tm compile_env =
  ce_parse :: "'tm parse_env"
  ce_listing :: "dir_entry list option"
  ce_contents :: "string \<Rightarrow> file_read"
  ce_hardware_concurrency :: nat
  ce_turns :: "nat list"
  ce_prune_order :: "nat \<Rightarrow> bool"
  ce_epoch :: u64
  ce_mkstemp :: "string option"
  ce_close_ok :: bool
  ce_output :: output_file
  ce_partial :: bytes
  ce_rename_ok :: bool
  ce_remove_ok :: bool
  ce_unix_now :: u64

type_synonym file_system = "string \<rightharpoonup> bytes"

definition compile_started :: "firehol_metrics \<Rightarrow> firehol_metrics" where
  "compile_started m = m\<lparr>compile_runs_total := compile_runs_total m + 1, compile_in_progress := 1\<rparr>"

definition compile_ended :: "bool \<Rightarrow> firehol_metrics \<Rightarrow> firehol_metrics" where
  "compile_ended succeeded m =
     (let m = (if succeeded then m else m\<lparr>compile_failures_total := compile_failures_total m + 1\<rparr>)
      in m\<lparr>compile_in_progress := 0\<rparr>)"

definition publish_stats ::
  "u64 \<Rightarrow> nat \<Rightarrow> nat \<Rightarrow> build_stats \<Rightarrow> blocklist_stat list \<Rightarrow> firehol_metrics \<Rightarrow> firehol_metrics" where
  "publish_stats now networks file_count stats per_list m =
     set_blocklists
       (m\<lparr>compile_networks := of_nat networks, compile_blocklists := of_nat file_count,
          compile_mmdb_bytes := of_nat (total_bytes stats), compile_trie_nodes := of_nat (stat_node_count stats),
          compile_data_records := of_nat (data_records stats), compile_last_success_unix := now\<rparr>)
       per_list"

text \<open>Building through the temporary file. On every way out its name is passed to \<open>std::remove\<close>, whose
  failure nobody notices; \<open>ce_partial\<close> is what a failed build has written by then.\<close>

definition remove_temporary :: "'tm compile_env \<Rightarrow> string \<Rightarrow> file_system \<Rightarrow> file_system" where
  "remove_temporary env tmp fs = (if ce_remove_ok env then fs(tmp := None) else fs)"

definition build_and_publish ::
  "'tm compile_env \<Rightarrow> string \<Rightarrow> builder \<Rightarrow> file_system \<Rightarrow> (string + build_stats) \<times> file_system" where
  "build_and_publish env target b fs =
     (case ce_mkstemp env of
        None \<Rightarrow> (Inl ''Could not create temporary MMDB'', fs)
      | Some ending \<Rightarrow>
          (let tmp = target @ ''.tmp.'' @ ending; fs = fs(tmp \<mapsto> []) in
           if \<not> ce_close_ok env then (Inl ''Could not close temporary MMDB'', remove_temporary env tmp fs)
           else case build (ce_prune_order env) (ce_output env) b of
             Inl e \<Rightarrow> (Inl e, remove_temporary env tmp (fs(tmp \<mapsto> ce_partial env)))
           | Inr (data, stats, _) \<Rightarrow>
               (let fs = fs(tmp \<mapsto> data) in
                if \<not> ce_rename_ok env then (Inl ''cannot rename'', remove_temporary env tmp fs)
                else (let fs = fs(target \<mapsto> data, tmp := None) in (Inr stats, remove_temporary env tmp fs)))))"

definition initial_builder :: "'tm compile_env \<Rightarrow> builder" where
  "initial_builder env = builder_set_row_sort_key (builder_new 6 ''FireHOL-IP-Reputation'' (ce_epoch env)) ''file_name''"

definition num_threads :: "'tm compile_env \<Rightarrow> blocklist_file list \<Rightarrow> nat" where
  "num_threads env files = min (if ce_hardware_concurrency env = 0 then 4 else ce_hardware_concurrency env) (length files)"

definition parse_blocklists :: "'tm compile_env \<Rightarrow> string \<Rightarrow> blocklist_file list \<Rightarrow> shared" where
  "parse_blocklists env repo files =
     run_workers (ce_parse env) repo (ce_contents env) files (ce_turns env)
       (shared_new (initial_builder env) (length files) (num_threads env files))"

text \<open>\<open>None\<close> when the schedule ends before the threads do.\<close>

definition compile_to_mmdb ::
  "'tm compile_env \<Rightarrow> string \<Rightarrow> string \<Rightarrow> file_system \<Rightarrow> firehol_metrics \<Rightarrow>
     ((string + unit) \<times> file_system \<times> firehol_metrics) option" where
  "compile_to_mmdb env target repo fs m =
     (let m = compile_started m in
      case list_blocklists (ce_listing env) of
        Inl e \<Rightarrow> Some (Inl e, fs, compile_ended False m)
      | Inr (files, _, _) \<Rightarrow>
          (let sh = parse_blocklists env repo files in
           if \<not> list_all exited (sh_workers sh) then None
           else case List.map_filter worker_error (sh_workers sh) of
             e # _ \<Rightarrow> Some (Inl e, fs, compile_ended False m)
           | [] \<Rightarrow>
               (case build_and_publish env target (sh_builder sh) fs of
                  (Inl e, fs) \<Rightarrow> Some (Inl e, fs, compile_ended False m)
                | (Inr stats, fs) \<Rightarrow>
                    Some (Inr (), fs,
                      compile_ended True
                        (publish_stats (ce_unix_now env) (sh_total_networks sh) (length files) stats (sh_stats sh) m)))))"

end
