(* ===== verification/Compile_Correct.thy ===== *)
theory Compile_Correct
  imports Compiler
begin

text \<open>
  Correctness of the compilation: an invariant of the worker threads under every interleaving, what the
  published database holds, which failures leave the previous database alone, and that a fair schedule
  ends.
\<close>

section \<open>The invariant of the workers\<close>

text \<open>What the list with a given name says, or the error that reading or parsing it gives.\<close>

definition list_of :: "'tm parse_env \<Rightarrow> string \<Rightarrow> (string \<Rightarrow> file_read) \<Rightarrow> builder \<Rightarrow> string \<Rightarrow> string + net list \<times> list_metadata" where
  "list_of env repo contents b name =
     rbind (read_file (path_join repo name) (contents name)) (list_text env b (path_join repo name) name)"

definition nets_of :: "string + net list \<times> list_metadata \<Rightarrow> net list" where
  "nets_of r = (case r of Inl _ \<Rightarrow> [] | Inr (ns, _) \<Rightarrow> ns)"

record 'tm job =
  j_env :: "'tm parse_env"
  j_repo :: string
  j_contents :: "string \<Rightarrow> file_read"
  j_files :: "blocklist_file list"
  j_start :: builder

definition job_list :: "'tm job \<Rightarrow> nat \<Rightarrow> string + net list \<times> list_metadata" where
  "job_list j i = list_of (j_env j) (j_repo j) (j_contents j) (j_start j) (bf_name (j_files j ! i))"

definition all_nets :: "'tm job \<Rightarrow> net set" where
  "all_nets j = (\<Union>i < length (j_files j). set (nets_of (job_list j i)))"

definition good_job :: "'tm job \<Rightarrow> bool" where
  "good_job j \<longleftrightarrow> (\<forall>i < length (j_files j). \<exists>r. job_list j i = Inr r)"

definition parsing_ok :: "'tm job \<Rightarrow> builder \<Rightarrow> net list \<Rightarrow> nat \<Rightarrow> parser \<Rightarrow> bool" where
  "parsing_ok j b ns i ps \<longleftrightarrow>
     (let name = bf_name (j_files j ! i) in
      i < length (j_files j) \<and>
      (\<exists>ins pend. set ins \<subseteq> set ns \<and> parser_ok name b ps pend \<and> p_total_networks ps = length (ins @ pend) \<and>
         job_list j i = rbind (list_lines (j_env j) (j_start j) (path_join (j_repo j) name) name (p_line ps) (p_metadata ps)
           (lines_of (p_rest ps))) (\<lambda>(ys, m). Inr (ins @ pend @ ys, m))))"

definition phase_ok :: "'tm job \<Rightarrow> builder \<Rightarrow> net list \<Rightarrow> nat \<Rightarrow> worker_phase \<Rightarrow> bool" where
  "phase_ok j b ns next_file ph \<longleftrightarrow>
     (case ph of
        Fetching \<Rightarrow> True
      | Parsing i ps \<Rightarrow> i < next_file \<and> parsing_ok j b ns i ps
      | Exited None \<Rightarrow> length (j_files j) \<le> next_file
      | Exited (Some e) \<Rightarrow> \<exists>i < length (j_files j). job_list j i = Inl e)"

text \<open>A list that is finished: its networks are inserted and its statistics recorded.\<close>

definition finished :: "'tm job \<Rightarrow> net list \<Rightarrow> blocklist_stat list \<Rightarrow> nat \<Rightarrow> bool" where
  "finished j ns stats i \<longleftrightarrow> (\<exists>N m. job_list j i = Inr (N, m) \<and> set N \<subseteq> set ns \<and>
     stats ! i = \<lparr>bs_file_name = bf_name (j_files j ! i), bs_category = lm_category m, bs_networks = length N\<rparr>)"

definition busy_or_failed :: "worker_phase list \<Rightarrow> nat \<Rightarrow> bool" where
  "busy_or_failed phs i \<longleftrightarrow> (\<exists>ps. Parsing i ps \<in> set phs) \<or> (\<exists>e. Exited (Some e) \<in> set phs)"

abbreviation phases :: "shared \<Rightarrow> worker_phase list" where
  "phases sh \<equiv> map w_phase (sh_workers sh)"

definition shared_inv :: "'tm job \<Rightarrow> net list \<Rightarrow> shared \<Rightarrow> bool" where
  "shared_inv j ns sh \<longleftrightarrow>
     evolves (j_start j) (sh_builder sh) \<and> merged (j_start j) (sh_builder sh) ns \<and>
     (good_job j \<longrightarrow> set ns \<subseteq> all_nets j) \<and> length (sh_stats sh) = length (j_files j) \<and>
     (\<forall>ph \<in> set (phases sh). phase_ok j (sh_builder sh) ns (sh_next_file sh) ph) \<and>
     (\<forall>i < min (sh_next_file sh) (length (j_files j)). busy_or_failed (phases sh) i \<or> finished j ns (sh_stats sh) i)"

lemma parsing_ok_mono:
  assumes "builder_inv b" and "evolves b b'" and "set ns \<subseteq> set ns'" and "parsing_ok j b ns i ps"
  shows "parsing_ok j b' ns' i ps"
  using assms(3,4) parser_ok_evolves [OF assms(1,2)] unfolding parsing_ok_def Let_def by (meson subset_trans)

lemma phase_ok_mono:
  assumes "builder_inv b" and "evolves b b'" and "set ns \<subseteq> set ns'" and "n \<le> n'" and "phase_ok j b ns n ph"
  shows "phase_ok j b' ns' n' ph"
proof (cases ph)
  case (Parsing i ps)
  then show ?thesis using assms(4,5) parsing_ok_mono [OF assms(1-3), of j i ps] by (simp add: phase_ok_def)
next
  case (Exited e)
  then show ?thesis using assms(4,5) by (cases e) (simp_all add: phase_ok_def)
qed (simp add: phase_ok_def)

text \<open>A step of one worker keeps the invariant when its own part does.\<close>

lemma shared_inv_step:
  assumes inv: "shared_inv j ns sh" and t: "t < length (sh_workers sh)" and ph: "w_phase (sh_workers sh ! t) = ph" "\<forall>e. ph \<noteq> Exited e"
    and b: "evolves (sh_builder sh) (sh_builder sh')" "merged (sh_builder sh) (sh_builder sh') xs"
    and xs: "good_job j \<Longrightarrow> set xs \<subseteq> all_nets j"
    and sh': "phases sh' = (phases sh)[t := ph']" "sh_next_file sh \<le> sh_next_file sh'" "length (sh_stats sh') = length (sh_stats sh)"
    and ok: "phase_ok j (sh_builder sh') (ns @ xs) (sh_next_file sh') ph'"
    and fin: "\<And>i. i < length (j_files j) \<Longrightarrow> finished j ns (sh_stats sh) i \<Longrightarrow> finished j (ns @ xs) (sh_stats sh') i"
    and own: "\<And>i ps. ph = Parsing i ps \<Longrightarrow> busy_or_failed [ph'] i \<or> finished j (ns @ xs) (sh_stats sh') i"
    and new: "\<And>i. sh_next_file sh \<le> i \<Longrightarrow> i < sh_next_file sh' \<Longrightarrow> i < length (j_files j) \<Longrightarrow>
      busy_or_failed [ph'] i \<or> finished j (ns @ xs) (sh_stats sh') i"
  shows "shared_inv j (ns @ xs) sh'"
proof -
  let ?b = "sh_builder sh" and ?b' = "sh_builder sh'"
  have i: "evolves (j_start j) ?b" "merged (j_start j) ?b ns" "good_job j \<longrightarrow> set ns \<subseteq> all_nets j"
    "length (sh_stats sh) = length (j_files j)" "\<forall>ph \<in> set (phases sh). phase_ok j ?b ns (sh_next_file sh) ph"
    "\<forall>i < min (sh_next_file sh) (length (j_files j)). busy_or_failed (phases sh) i \<or> finished j ns (sh_stats sh) i"
    using inv unfolding shared_inv_def by blast+
  have bi: "builder_inv ?b" using i(1) by (simp add: evolves_def)
  have mem: "set (phases sh') \<subseteq> insert ph' (set (phases sh))" "ph' \<in> set (phases sh')"
    unfolding sh'(1) using t set_update_subset_insert [of "phases sh" t ph'] set_update_memI [of t "phases sh" ph'] by simp_all
  have keep: "x \<in> set (phases sh')" if "x \<in> set (phases sh)" "x \<noteq> ph" for x
  proof -
    note x = that
    obtain k where k: "k < length (phases sh)" "phases sh ! k = x" using x(1) unfolding in_set_conv_nth by blast
    moreover have "k \<noteq> t" using k x(2) ph(1) t by auto
    ultimately show ?thesis unfolding sh'(1) by (metis length_list_update nth_list_update_neq nth_mem)
  qed
  have mono: "phase_ok j ?b' (ns @ xs) (sh_next_file sh') x" if "x \<in> set (phases sh)" for x
    using phase_ok_mono [OF bi b(1) _ sh'(2) bspec [OF i(5) that], of "ns @ xs"] by simp
  have "phase_ok j ?b' (ns @ xs) (sh_next_file sh') x" if "x \<in> set (phases sh')" for x
    using subsetD [OF mem(1) that] ok mono by blast
  moreover have "busy_or_failed (phases sh') i \<or> finished j (ns @ xs) (sh_stats sh') i"
    if n: "i < min (sh_next_file sh') (length (j_files j))" for i
  proof -
    have own': "busy_or_failed [ph'] i \<Longrightarrow> busy_or_failed (phases sh') i" using mem(2) by (auto simp: busy_or_failed_def)
    show ?thesis
    proof (cases "i < sh_next_file sh")
      case True
      then consider "busy_or_failed (phases sh) i" | "finished j ns (sh_stats sh) i" using i(6) n by auto
      then show ?thesis
      proof cases
        case 1
        show ?thesis
        proof (cases "\<exists>ps. ph = Parsing i ps")
          case True
          then show ?thesis using own own' by blast
        next
          case False
          then show ?thesis using 1 keep ph(2) unfolding busy_or_failed_def by metis
        qed
      qed (use fin n in simp)
    next
      case False
      then show ?thesis using new [of i] own' n by auto
    qed
  qed
  ultimately show ?thesis
    unfolding shared_inv_def using evolves_trans [OF i(1) b(1)] merged_trans [OF i(1,2) b(2)] i(3,4) xs sh'(3) by simp
qed

section \<open>Every step keeps the invariant\<close>

lemma phases_set_worker [simp]: "phases (set_worker t w sh) = (phases sh)[t := w_phase w]"
  by (simp add: set_worker_def map_update)

lemma set_worker_simps [simp]:
  "sh_builder (set_worker t w sh) = sh_builder sh" "sh_next_file (set_worker t w sh) = sh_next_file sh"
  "sh_stats (set_worker t w sh) = sh_stats sh" "sh_total_networks (set_worker t w sh) = sh_total_networks sh"
  by (simp_all add: set_worker_def)

lemma exit_worker_simps [simp]:
  "phases (exit_worker t e sh) = (phases sh)[t := Exited e]" "sh_builder (exit_worker t e sh) = sh_builder sh"
  "sh_next_file (exit_worker t e sh) = sh_next_file sh" "sh_stats (exit_worker t e sh) = sh_stats sh"
  by (simp_all add: exit_worker_def Let_def set_worker_def map_update)

lemma finish_file_simps [simp]:
  "phases (finish_file t i name r sh) = (phases sh)[t := Fetching]" "sh_builder (finish_file t i name r sh) = sh_builder sh"
  "sh_next_file (finish_file t i name r sh) = sh_next_file sh"
  "sh_stats (finish_file t i name r sh) =
     (sh_stats sh)[i := \<lparr>bs_file_name = name, bs_category = pb_category r, bs_networks = pb_networks r\<rparr>]"
  by (simp_all add: finish_file_def Let_def set_worker_def map_update)

lemma shared_invD:
  assumes "shared_inv j ns sh"
  shows "builder_inv (sh_builder sh)" and "evolves (j_start j) (sh_builder sh)"
    and "ip_version (sh_builder sh) = ip_version (j_start j)" and "length (sh_stats sh) = length (j_files j)"
    and "\<And>t. t < length (sh_workers sh) \<Longrightarrow> phase_ok j (sh_builder sh) ns (sh_next_file sh) (w_phase (sh_workers sh ! t))"
  using assms by (auto simp: shared_inv_def evolves_def)

text \<open>A step that leaves the builder alone.\<close>

lemma shared_inv_local:
  assumes inv: "shared_inv j ns sh" and t: "t < length (sh_workers sh)" and ph: "w_phase (sh_workers sh ! t) = ph" "\<forall>e. ph \<noteq> Exited e"
    and sh': "sh_builder sh' = sh_builder sh" "phases sh' = (phases sh)[t := ph']" "sh_next_file sh \<le> sh_next_file sh'"
      "length (sh_stats sh') = length (sh_stats sh)"
    and ok: "phase_ok j (sh_builder sh) ns (sh_next_file sh') ph'"
    and fin: "\<And>i. i < length (j_files j) \<Longrightarrow> finished j ns (sh_stats sh) i \<Longrightarrow> finished j ns (sh_stats sh') i"
    and own: "\<And>i ps. ph = Parsing i ps \<Longrightarrow> busy_or_failed [ph'] i \<or> finished j ns (sh_stats sh') i"
    and new: "\<And>i. sh_next_file sh \<le> i \<Longrightarrow> i < sh_next_file sh' \<Longrightarrow> i < length (j_files j) \<Longrightarrow>
      busy_or_failed [ph'] i \<or> finished j ns (sh_stats sh') i"
  shows "shared_inv j (ns @ []) sh'"
proof (rule shared_inv_step [OF inv t ph])
  show "evolves (sh_builder sh) (sh_builder sh')" using evolves_refl shared_invD(1) [OF inv] by (simp add: sh'(1))
  show "merged (sh_builder sh) (sh_builder sh') []" by (simp add: sh'(1) same_records_def)
qed (use sh' ok fin own new in simp_all)

text \<open>Recording a result that is the list's own keeps what is finished.\<close>

lemma finished_update:
  assumes "finished j ns stats i" and "set ns \<subseteq> set ns'" and "k < length stats"
    and "job_list j k = Inr (N, m)" and "set N \<subseteq> set ns'"
    and "st = \<lparr>bs_file_name = bf_name (j_files j ! k), bs_category = lm_category m, bs_networks = length N\<rparr>"
  shows "finished j ns' (stats[k := st]) i"
proof (cases "i = k")
  case True
  then show ?thesis using assms by (simp add: finished_def)
next
  case False
  then show ?thesis using assms(1,2) unfolding finished_def by (auto intro: subset_trans)
qed

lemma fetch_step_inv:
  assumes inv: "shared_inv j ns sh" and t: "t < length (sh_workers sh)" and ph: "w_phase (sh_workers sh ! t) = Fetching"
  shows "shared_inv j (ns @ []) (fetch_step (j_repo j) (j_contents j) (j_files j) t sh)"
proof -
  let ?i = "sh_next_file sh" and ?sh = "sh\<lparr>sh_next_file := sh_next_file sh + 1\<rparr>"
  let ?name = "bf_name (j_files j ! ?i)"
  let ?r = "read_file (path_join (j_repo j) ?name) (j_contents j ?name)"
  have last: "i = ?i" if "?i \<le> i" "i < ?i + 1" for i using that by simp
  have nx: "\<forall>e. Fetching \<noteq> Exited e" by simp
  show ?thesis
  proof (cases "?i < length (j_files j)")
    case True
    show ?thesis
    proof (cases ?r)
      case (Inl e)
      then have "job_list j ?i = Inl e" by (simp add: job_list_def list_of_def)
      then have "phase_ok j (sh_builder sh) ns (?i + 1) (Exited (Some e))" using True by (auto simp: phase_ok_def)
      then show ?thesis using True Inl
        by (intro shared_inv_local [OF inv t ph nx, where ph' = "Exited (Some e)"])
          (auto simp: fetch_step_def Let_def busy_or_failed_def)
    next
      case (Inr content)
      have jl: "job_list j ?i = list_text (j_env j) (j_start j) (path_join (j_repo j) ?name) ?name content"
        using Inr by (simp add: job_list_def list_of_def)
      show ?thesis
      proof (cases "content = []")
        case empty: True
        have jl': "job_list j ?i = Inr ([], no_metadata)" by (simp add: jl empty list_text_def)
        have len: "?i < length (sh_stats sh)" using True shared_invD(4) [OF inv] by simp
        have fin: "finished j ns ((sh_stats sh)[?i := \<lparr>bs_file_name = ?name, bs_category = [], bs_networks = 0\<rparr>]) i"
          if "finished j ns (sh_stats sh) i \<or> i = ?i" for i
          using that finished_update [of j ns "sh_stats sh" i ns ?i "[]" no_metadata] len jl'
          by (auto simp: no_metadata_def finished_def)
        show ?thesis
          by (rule shared_inv_local [OF inv t ph nx, where ph' = Fetching])
            (use True Inr empty fin last in \<open>auto simp: fetch_step_def Let_def phase_ok_def\<close>)
      next
        case False
        have "parser_ok ?name (sh_builder sh) (parser_new content) []" by (simp add: parser_ok_def parser_new_def)
        moreover have "job_list j ?i = rbind (list_lines (j_env j) (j_start j) (path_join (j_repo j) ?name) ?name
            (p_line (parser_new content)) (p_metadata (parser_new content)) (lines_of (p_rest (parser_new content))))
            (\<lambda>(ys, m). Inr ([] @ [] @ ys, m))"
          by (simp add: jl list_text_def parser_new_def rbind_def split: sum.split)
        ultimately have "parsing_ok j (sh_builder sh) ns ?i (parser_new content)"
          using True unfolding parsing_ok_def Let_def by (intro conjI exI [of _ "[]"]) (simp_all add: parser_new_def)
        then have "phase_ok j (sh_builder sh) ns (?i + 1) (Parsing ?i (parser_new content))" by (simp add: phase_ok_def)
        then show ?thesis
          by (intro shared_inv_local [OF inv t ph nx, where ph' = "Parsing ?i (parser_new content)"])
            (use True Inr False last in \<open>auto simp: fetch_step_def Let_def busy_or_failed_def\<close>)
      qed
    qed
  next
    case False
    then show ?thesis
      by (intro shared_inv_local [OF inv t ph nx, where ph' = "Exited None"])
        (auto simp: fetch_step_def Let_def phase_ok_def)
  qed
qed

lemma parsing_ok_nets:
  assumes "parsing_ok j b ns i ps"
  obtains ins pend where "i < length (j_files j)" and "set ins \<subseteq> set ns" and "parser_ok (bf_name (j_files j ! i)) b ps pend"
    and "p_total_networks ps = length (ins @ pend)"
    and "job_list j i = rbind (list_lines (j_env j) (j_start j) (path_join (j_repo j) (bf_name (j_files j ! i)))
        (bf_name (j_files j ! i)) (p_line ps) (p_metadata ps) (lines_of (p_rest ps))) (\<lambda>(ys, m). Inr (ins @ pend @ ys, m))"
    and "good_job j \<longrightarrow> set pend \<subseteq> all_nets j"
proof -
  let ?name = "bf_name (j_files j ! i)"
  obtain ins pend where p: "i < length (j_files j)" "set ins \<subseteq> set ns" "parser_ok ?name b ps pend"
    "p_total_networks ps = length (ins @ pend)"
    "job_list j i = rbind (list_lines (j_env j) (j_start j) (path_join (j_repo j) ?name) ?name (p_line ps) (p_metadata ps)
       (lines_of (p_rest ps))) (\<lambda>(ys, m). Inr (ins @ pend @ ys, m))"
    using assms unfolding parsing_ok_def Let_def by blast
  have "set pend \<subseteq> all_nets j" if "good_job j"
  proof -
    note good = that
    obtain r where r: "job_list j i = Inr r" using good p(1) unfolding good_job_def by blast
    then obtain ys m where "r = (ins @ pend @ ys, m)" using p(5) by auto
    then have "set pend \<subseteq> set (nets_of (job_list j i))" using r by (auto simp: nets_of_def)
    then show ?thesis using p(1) by (auto simp: all_nets_def)
  qed
  then show ?thesis using that p by blast
qed

lemma parse_step_inv:
  assumes inv: "shared_inv j ns sh" and t: "t < length (sh_workers sh)" and ph: "w_phase (sh_workers sh ! t) = Parsing i ps"
  shows "\<exists>xs. shared_inv j (ns @ xs) (parse_step (j_env j) (j_repo j) (j_files j) t i ps sh)"
proof -
  let ?b = "sh_builder sh" and ?name = "bf_name (j_files j ! i)"
  let ?path = "path_join (j_repo j) ?name" and ?raw = "takeWhile (\<lambda>c. c \<noteq> CHR 0x0A) (p_rest ps)"
  let ?line = "list_line (j_env j) ?b ?path ?name (p_line ps + 1) (p_metadata ps) ?raw"
  note bi = shared_invD(1) [OF inv]
  have nx: "\<forall>e. Parsing i ps \<noteq> Exited e" by simp
  have p0: "i < sh_next_file sh" "parsing_ok j ?b ns i ps" using shared_invD(5) [OF inv t] by (simp_all add: ph phase_ok_def)
  obtain ins pend where p: "i < length (j_files j)" "set ins \<subseteq> set ns" "parser_ok ?name ?b ps pend"
    "p_total_networks ps = length (ins @ pend)"
    "job_list j i = rbind (list_lines (j_env j) (j_start j) ?path ?name (p_line ps) (p_metadata ps)
       (lines_of (p_rest ps))) (\<lambda>(ys, m). Inr (ins @ pend @ ys, m))"
    and nets: "good_job j \<longrightarrow> set pend \<subseteq> all_nets j" by (rule parsing_ok_nets [OF p0(2)]) (rule that)
  obtain ps1 b1 where f: "flush_batch ps ?b = (ps1, b1)" by fastforce
  note fb = flush_batch_ok [OF bi p(3) f]
  consider "length (p_batch ps) = kInsertBatchSize" | "length (p_batch ps) \<noteq> kInsertBatchSize" "p_rest ps \<noteq> []"
    | "length (p_batch ps) \<noteq> kInsertBatchSize" "p_rest ps = []" by blast
  then show ?thesis
  proof cases
    case 1
    have "parsing_ok j b1 (ns @ pend) i ps1"
      unfolding parsing_ok_def Let_def using p fb by (intro conjI exI [of _ "ins @ pend"] exI [of _ "[]"]) auto
    then show ?thesis
      by (intro exI [of _ pend] shared_inv_step [OF inv t ph nx, where ph' = "Parsing i ps1"])
        (use 1 f fb p0 nets in \<open>auto simp: parse_step_def Let_def phase_ok_def busy_or_failed_def finished_def intro: subset_trans\<close>)
  next
    case 2
    have cong: "list_line (j_env j) (j_start j) ?path ?name (p_line ps + 1) (p_metadata ps) ?raw = ?line"
      using list_line_cong [OF shared_invD(3) [OF inv]] by metis
    note lines = lines_of_Cons [OF 2(2)]
    show ?thesis
    proof (cases ?line)
      case (Inl e)
      then have "job_list j i = Inl e" using p(5) cong by (simp add: lines)
      then have "phase_ok j ?b ns (sh_next_file sh) (Exited (Some e))" using p(1) by (auto simp: phase_ok_def)
      then show ?thesis using next_line_error [OF Inl] 2
        by (intro exI [of _ "[]"] shared_inv_local [OF inv t ph nx, where ph' = "Exited (Some e)"])
          (auto simp: parse_step_def Let_def busy_or_failed_def)
    next
      case (Inr r)
      obtain xs m where r: "?line = Inr (xs, m)" using Inr by (cases r) simp
      obtain ps2 b2 where n: "next_line (j_env j) ?path ?name ps ?b = Inr (ps2, b2)" "evolves ?b b2" "same_records ?b b2"
        "parser_ok ?name b2 ps2 (pend @ xs)" "p_metadata ps2 = m" "p_line ps2 = p_line ps + 1"
        "p_total_networks ps2 = p_total_networks ps + length xs" by (rule next_line_ok [OF bi p(3) r])
      have "job_list j i = rbind (list_lines (j_env j) (j_start j) ?path ?name (p_line ps2) (p_metadata ps2)
          (lines_of (p_rest ps2))) (\<lambda>(ys, m). Inr (ins @ (pend @ xs) @ ys, m))"
        using p(5) cong r n(5,6) next_line_rest [OF n(1)]
        by (simp add: lines rbind_assoc split_def)
      then have "parsing_ok j b2 ns i ps2"
        unfolding parsing_ok_def Let_def using p(1,2,4) n(4,7)
        by (intro conjI exI [of _ ins] exI [of _ "pend @ xs"]) auto
      then show ?thesis
        by (intro exI [of _ "[]"] shared_inv_step [OF inv t ph nx, where ph' = "Parsing i ps2"])
          (use 2 n p0 in \<open>auto simp: parse_step_def Let_def phase_ok_def busy_or_failed_def finished_def\<close>)
    qed
  next
    case 3
    have jl: "job_list j i = Inr (ins @ pend, p_metadata ps)" using p(5) 3(2) by simp
    let ?st = "\<lparr>bs_file_name = ?name, bs_category = lm_category (p_metadata ps), bs_networks = length (ins @ pend)\<rparr>"
    have len: "i < length (sh_stats sh)" using p(1) shared_invD(4) [OF inv] by simp
    have sub: "set (ins @ pend) \<subseteq> set (ns @ pend)" using p(2) by auto
    have fin: "finished j (ns @ pend) ((sh_stats sh)[i := ?st]) k" if "finished j ns (sh_stats sh) k \<or> k = i" for k
      using that finished_update [OF _ _ len jl sub refl, of ns k] len jl sub by (auto simp: finished_def)
    show ?thesis
      by (intro exI [of _ pend] shared_inv_step [OF inv t ph nx, where ph' = Fetching])
        (use 3 f fb p(4) nets fin in \<open>simp_all add: parse_step_def Let_def phase_ok_def\<close>)
  qed
qed

lemma worker_step_inv:
  "shared_inv j ns sh \<Longrightarrow> \<exists>xs. shared_inv j (ns @ xs) (worker_step (j_env j) (j_repo j) (j_contents j) (j_files j) t sh)"
  using fetch_step_inv [of j ns sh t] parse_step_inv [of j ns sh t]
  by (cases "t < length (sh_workers sh)"; cases "w_phase (sh_workers sh ! t)")
    (auto simp: worker_step_def intro: exI [of _ "[]"])

lemma run_workers_inv:
  "shared_inv j ns sh \<Longrightarrow> \<exists>ns'. shared_inv j ns' (run_workers (j_env j) (j_repo j) (j_contents j) (j_files j) turns sh)"
proof (induction turns arbitrary: ns sh)
  case (Cons t turns)
  then show ?case using worker_step_inv [OF Cons.prems, of t] by (auto simp: run_workers_def)
qed (auto simp: run_workers_def)

section \<open>Progress\<close>

text \<open>The work left: every step of a running worker makes it smaller.\<close>

definition phase_work :: "worker_phase \<Rightarrow> nat" where
  "phase_work ph =
     (case ph of
        Fetching \<Rightarrow> 1
      | Parsing i ps \<Rightarrow> 2 * length (p_rest ps) + (if length (p_batch ps) = kInsertBatchSize then 1 else 0) + 2
      | Exited _ \<Rightarrow> 0)"

definition file_work :: "(string \<Rightarrow> file_read) \<Rightarrow> blocklist_file \<Rightarrow> nat" where
  "file_work contents f = (case contents (bf_name f) of Content text \<Rightarrow> 2 * length text + 2 | _ \<Rightarrow> 1)"

definition phases_work :: "worker_phase list \<Rightarrow> nat" where
  "phases_work phs = sum_list (map phase_work phs)"

definition work :: "(string \<Rightarrow> file_read) \<Rightarrow> blocklist_file list \<Rightarrow> shared \<Rightarrow> nat" where
  "work contents files sh =
     phases_work (phases sh) + sum_list (map (file_work contents) (drop (sh_next_file sh) files))"

lemma phase_work_pos: "phase_work ph = 0 \<longleftrightarrow> (\<exists>e. ph = Exited e)"
  by (auto simp: phase_work_def split: worker_phase.splits)

lemma sum_phases_update:
  assumes "t < length (sh_workers sh)"
  shows "phases_work ((phases sh)[t := ph]) + phase_work (w_phase (sh_workers sh ! t)) = phases_work (phases sh) + phase_work ph"
proof -
  have "phase_work (phases sh ! t) \<le> phases_work (phases sh)"
    using elem_le_sum_list [of t "map phase_work (phases sh)"] assms by (simp add: phases_work_def)
  then show ?thesis using assms by (simp add: phases_work_def map_update sum_list_update)
qed

lemma length_workers_step [simp]: "length (sh_workers (worker_step env repo contents files t sh)) = length (sh_workers sh)"
  by (simp add: worker_step_def fetch_step_def parse_step_def exit_worker_def finish_file_def set_worker_def Let_def
      split: worker_phase.split sum.split prod.split)

lemma fetch_step_work:
  assumes "t < length (sh_workers sh)" and "w_phase (sh_workers sh ! t) = Fetching"
  shows "work contents files (fetch_step repo contents files t sh) < work contents files sh"
proof -
  note upd = sum_phases_update [OF assms(1)]
  let ?i = "sh_next_file sh"
  have one: "phase_work Fetching = 1" "\<And>e. phase_work (Exited e) = 0" by (simp_all add: phase_work_def)
  show ?thesis
  proof (cases "?i < length files")
    case True
    have drop: "drop ?i files = files ! ?i # drop (Suc ?i) files" using Cons_nth_drop_Suc [OF True] by simp
    have err: ?thesis if "read_file (path_join repo (bf_name (files ! ?i))) (contents (bf_name (files ! ?i))) = Inl e"
        "file_work contents (files ! ?i) = 1" for e
      using that True assms(2) upd [of "Exited (Some e)"] one by (simp add: fetch_step_def Let_def work_def drop)
    show ?thesis
    proof (cases "contents (bf_name (files ! ?i))")
      case (Content body)
      then show ?thesis
        using True assms(2) upd [of Fetching] upd [of "Parsing ?i (parser_new body)"]
        by (simp add: fetch_step_def Let_def work_def drop file_work_def read_file_def)
          (simp add: phase_work_def parser_new_def kInsertBatchSize_def)
    qed (rule err; simp add: read_file_def file_work_def)+
  next
    case False
    then show ?thesis using assms(2) upd [of "Exited None"] one by (simp add: fetch_step_def Let_def work_def)
  qed
qed

lemma parse_step_work:
  assumes "t < length (sh_workers sh)" and "w_phase (sh_workers sh ! t) = Parsing i ps"
  shows "work contents files (parse_step env repo files t i ps sh) < work contents files sh"
proof -
  note upd = sum_phases_update [OF assms(1)]
  let ?name = "bf_name (files ! i)"
  have pos: "phase_work (Parsing i ps) > 0" by (simp add: phase_work_def)
  consider "length (p_batch ps) = kInsertBatchSize" | "length (p_batch ps) \<noteq> kInsertBatchSize" "p_rest ps \<noteq> []"
    | "length (p_batch ps) \<noteq> kInsertBatchSize" "p_rest ps = []" by blast
  then show ?thesis
  proof cases
    case 1
    have "phase_work (Parsing i (ps\<lparr>p_batch := []\<rparr>)) < phase_work (Parsing i ps)"
      using 1 by (simp add: phase_work_def kInsertBatchSize_def)
    then show ?thesis
      using 1 assms(2) upd [of "Parsing i (ps\<lparr>p_batch := []\<rparr>)"] by (simp add: parse_step_def Let_def work_def flush_batch_def)
  next
    case 2
    show ?thesis
    proof (cases "next_line env (path_join repo ?name) ?name ps (sh_builder sh)")
      case (Inl e)
      then show ?thesis using 2 assms(2) upd [of "Exited (Some e)"] pos
        by (simp add: parse_step_def Let_def work_def) (simp add: phase_work_def)
    next
      case (Inr r)
      obtain ps' b' where r: "next_line env (path_join repo ?name) ?name ps (sh_builder sh) = Inr (ps', b')" using Inr by (cases r) simp
      have "length (p_rest ps') < length (p_rest ps)" using next_line_rest [OF r] 2(2) by simp
      then have "phase_work (Parsing i ps') < phase_work (Parsing i ps)" using 2(1) by (auto simp: phase_work_def)
      then show ?thesis using 2 r assms(2) upd [of "Parsing i ps'"] by (simp add: parse_step_def Let_def work_def)
    qed
  next
    case 3
    have "phase_work Fetching < phase_work (Parsing i ps)" by (simp add: phase_work_def)
    then show ?thesis
      using 3 assms(2) upd [of Fetching] by (simp add: parse_step_def Let_def work_def flush_batch_def)
  qed
qed

lemma worker_step_exited: "t < length (sh_workers sh) \<Longrightarrow> exited (sh_workers sh ! t) \<Longrightarrow> worker_step env repo contents files t sh = sh"
  by (auto simp: worker_step_def exited_def split: worker_phase.splits)

lemma worker_step_running:
  assumes "t < length (sh_workers sh)" and "\<not> exited (sh_workers sh ! t)"
  shows "work contents files (worker_step env repo contents files t sh) < work contents files sh"
proof (cases "w_phase (sh_workers sh ! t)")
  case Fetching
  then show ?thesis using fetch_step_work [OF assms(1) Fetching] assms(1) by (simp add: worker_step_def)
next
  case (Parsing i ps)
  then show ?thesis using parse_step_work [OF assms(1) Parsing] assms(1) by (simp add: worker_step_def)
qed (use assms(2) in \<open>simp add: exited_def\<close>)

text \<open>Under a fair schedule all workers exit.\<close>

definition fair :: "nat \<Rightarrow> (nat \<Rightarrow> nat) \<Rightarrow> bool" where
  "fair n turn \<longleftrightarrow> (\<forall>t < n. \<forall>k. \<exists>k' \<ge> k. turn k' = t)"

lemma run_workers_snoc:
  "run_workers env repo contents files (map turn [0..<Suc k]) sh =
     worker_step env repo contents files (turn k) (run_workers env repo contents files (map turn [0..<k]) sh)"
  by (simp add: run_workers_def)

lemma run_workers_fair:
  assumes "fair n turn" and "length (sh_workers sh) = n"
  shows "\<exists>k. list_all exited (sh_workers (run_workers env repo contents files (map turn [0..<k]) sh))"
proof -
  let ?run = "\<lambda>k. run_workers env repo contents files (map turn [0..<k]) sh"
  have len: "length (sh_workers (?run k)) = n" for k
    by (induction k) (simp_all only: run_workers_snoc length_workers_step, simp_all add: run_workers_def assms(2))
  have "\<exists>k. list_all exited (sh_workers (?run k))" if "work contents files (?run k) = w" for k w
    using that
  proof (induction w arbitrary: k rule: less_induct)
    case (less w)
    show ?case
    proof (cases "list_all exited (sh_workers (?run k))")
      case False
      then obtain t where t: "t < n" "\<not> exited (sh_workers (?run k) ! t)" using len [of k] by (auto simp: list_all_length)
      define stuck where "stuck = (\<lambda>k'. k \<le> k' \<and> turn k' < n \<and> \<not> exited (sh_workers (?run k) ! turn k'))"
      have "\<exists>k'. stuck k'" using assms(1) t unfolding fair_def stuck_def by metis
      then obtain k' where k': "stuck k'" "\<And>l. l < k' \<Longrightarrow> \<not> stuck l" using exists_least_iff [of stuck] by blast
      have idle: "?run l = ?run k" if "k \<le> l" "l \<le> k'" for l
        using that
      proof (induction l rule: dec_induct)
        case (step l)
        then have same: "?run l = ?run k" by simp
        have "\<not> stuck l" using k'(2) step by simp
        then have "turn l \<ge> n \<or> exited (sh_workers (?run k) ! turn l)" using step by (auto simp: stuck_def)
        then have "worker_step env repo contents files (turn l) (?run k) = ?run k"
          using worker_step_exited [of "turn l" "?run k"] len [of k] by (cases "turn l < n") (simp_all add: worker_step_def)
        then show ?case by (simp only: run_workers_snoc same)
      qed simp
      have "k \<le> k'" using k'(1) by (simp add: stuck_def)
      then have "?run k' = ?run k" using idle [OF _ order_refl] by blast
      then have step: "?run (Suc k') = worker_step env repo contents files (turn k') (?run k)" by (simp only: run_workers_snoc)
      have "work contents files (?run (Suc k')) < w"
        unfolding step less.prems [symmetric]
        by (rule worker_step_running) (use k'(1) len [of k] in \<open>simp_all add: stuck_def\<close>)
      then show ?thesis using less.IH by blast
    qed blast
  qed
  then show ?thesis by blast
qed

section \<open>The compiled database\<close>

definition compile_job :: "'tm compile_env \<Rightarrow> string \<Rightarrow> blocklist_file list \<Rightarrow> 'tm job" where
  "compile_job env repo files =
     \<lparr>j_env = ce_parse env, j_repo = repo, j_contents = ce_contents env, j_files = files, j_start = initial_builder env\<rparr>"

definition kColumns :: "string list" where
  "kColumns = [''category'', ''file_name'', ''list_source_url'', ''maintainer'', ''maintainer_url'', ''source_file_date_rfc3339'']"

text \<open>What the database should hold for an address: nothing when no list contains it, otherwise the table
  of the records of all networks of all lists that contain it, one row each, sorted by the name of the
  list and without duplicates.\<close>

definition compiled_record :: "'tm job \<Rightarrow> bool list \<Rightarrow> data" where
  "compiled_record j a =
     (let rs = net_records (concat (map (\<lambda>i. nets_of (job_list j i)) [0..<length (j_files j)])) a in
      if rs = [] then DNull else united ''file_name'' kColumns rs)"

lemma list_record_is_table: "is_table kColumns (list_record fn m)"
  using list_record_plain [of fn m] by (auto simp: is_table_def list_record_def table_rows_def kColumns_def Let_def)

lemma list_lines_records:
  "list_lines env b fp fn n m ls = Inr (ns, m') \<Longrightarrow> \<forall>x \<in> set ns. \<exists>m. snd (snd x) = list_record fn m"
proof (induction ls arbitrary: n m ns)
  case (Cons l ls)
  obtain xs m1 ys where r: "list_line env b fp fn (n + 1) m l = Inr (xs, m1)"
    "list_lines env b fp fn (n + 1) m1 ls = Inr (ys, m')" "ns = xs @ ys"
    using Cons.prems by auto
  have "\<forall>x \<in> set xs. \<exists>m. snd (snd x) = list_record fn m"
    using r(1) by (auto simp: list_line_def Let_def split: if_splits option.splits)
  then show ?case using Cons.IH [OF r(2)] r(3) by auto
qed simp

lemma job_list_records:
  assumes "x \<in> set (nets_of (job_list j i))"
  shows "is_table kColumns (snd (snd x))"
proof -
  obtain ns m where r: "job_list j i = Inr (ns, m)" "x \<in> set ns"
    using assms by (cases "job_list j i") (auto simp: nets_of_def)
  then obtain content where "list_text (j_env j) (j_start j) (path_join (j_repo j) (bf_name (j_files j ! i)))
      (bf_name (j_files j ! i)) content = Inr (ns, m)" by (auto simp: job_list_def list_of_def)
  then show ?thesis using list_lines_records list_record_is_table r(2) unfolding list_text_def by metis
qed

lemma set_net_records: "set (net_records ns a) = (\<lambda>n. snd (snd n)) ` {n \<in> set ns. net_contains n a}"
  by (auto simp: net_records_def)

lemma initial_builder_facts:
  "fresh_builder (initial_builder env)" "address_bits (initial_builder env) = 128"
  "row_sort_key (bpool (initial_builder env)) = ''file_name''"
  using fresh_builder_new [of 6 _ _ "''file_name''"]
  by (simp_all add: initial_builder_def address_bits_def builder_set_row_sort_key_def builder_new_def set_row_sort_key_def)

lemma merged_compiled:
  assumes m: "merged (initial_builder env) b ns" and ns: "set ns = all_nets (compile_job env repo files)" and a: "length a = 128"
  shows "record_for b a = compiled_record (compile_job env repo files) a"
proof -
  let ?j = "compile_job env repo files"
  let ?all = "concat (map (\<lambda>i. nets_of (job_list ?j i)) [0..<length (j_files ?j)])"
  have sets: "set ns = set ?all" using ns by (auto simp: all_nets_def)
  have rec: "record_for b a = foldl (merge_values ''file_name'') DNull (net_records ns a)"
    using m a initial_builder_facts(2,3) [of env] fresh_builder_inv(2) [OF initial_builder_facts(1), of env a]
    by (simp add: merged_def)
  have recs: "set (net_records ns a) = set (net_records ?all a)" by (simp only: set_net_records sets)
  have tables: "\<forall>x \<in> set (net_records ns a). is_table kColumns x"
    using job_list_records [of _ ?j] unfolding recs by (fastforce simp: net_records_def)
  show ?thesis
  proof (cases "net_records ns a = []")
    case True
    then have "net_records ?all a = []" using recs by simp
    then show ?thesis using rec True by (simp add: compiled_record_def)
  next
    case False
    then have "net_records ?all a \<noteq> []" using recs by fastforce
    then show ?thesis
      using rec foldl_merge_tables [OF False tables, of "''file_name''"] united_cong [OF tables recs False, of "''file_name''"]
      by (simp add: compiled_record_def Let_def)
  qed
qed

lemma shared_new_inv:
  "shared_inv (compile_job env repo files) [] (shared_new (initial_builder env) (length files) n)"
  using fresh_builder_inv(1) [OF initial_builder_facts(1), of env]
  by (simp add: shared_inv_def shared_new_def compile_job_def evolves_def same_records_def phase_ok_def)

lemma length_run_workers [simp]:
  "length (sh_workers (run_workers env repo contents files turns sh)) = length (sh_workers sh)"
  by (induction turns arbitrary: sh) (simp_all add: run_workers_def)

text \<open>When all workers have exited: an error is that of some list, and without error all lists are in.\<close>

lemma parse_blocklists_result:
  fixes env :: "'tm compile_env"
  assumes sh: "sh = parse_blocklists env repo files" and ex: "list_all exited (sh_workers sh)"
  defines "j \<equiv> compile_job env repo files"
  shows "e \<in> set (List.map_filter worker_error (sh_workers sh)) \<Longrightarrow> \<exists>i < length files. job_list j i = Inl e"
    and "List.map_filter worker_error (sh_workers sh) = [] \<Longrightarrow> good_job j \<and> builder_inv (sh_builder sh) \<and>
      address_bits (sh_builder sh) = 128 \<and> (\<forall>a. length a = 128 \<longrightarrow> record_for (sh_builder sh) a = compiled_record j a) \<and>
      sh_stats sh = map (\<lambda>i. \<lparr>bs_file_name = bf_name (files ! i), bs_category = lm_category (snd (projr (job_list j i))),
        bs_networks = length (nets_of (job_list j i))\<rparr>) [0..<length files]"
proof -
  have j: "j_env j = ce_parse env" "j_repo j = repo" "j_contents j = ce_contents env" "j_files j = files" "j_start j = initial_builder env"
    by (simp_all add: j_def compile_job_def)
  obtain ns where inv: "shared_inv j ns sh"
    using run_workers_inv [OF shared_new_inv, of env repo files "ce_turns env" "num_threads env files"]
    unfolding sh parse_blocklists_def j_def [symmetric] j by blast
  have i: "merged (j_start j) (sh_builder sh) ns" "good_job j \<longrightarrow> set ns \<subseteq> all_nets j" "length (sh_stats sh) = length files"
    "\<forall>ph \<in> set (phases sh). phase_ok j (sh_builder sh) ns (sh_next_file sh) ph"
    "\<forall>i < min (sh_next_file sh) (length files). busy_or_failed (phases sh) i \<or> finished j ns (sh_stats sh) i"
    using inv unfolding shared_inv_def j(4) by blast+
  show "\<exists>i < length files. job_list j i = Inl e" if "e \<in> set (List.map_filter worker_error (sh_workers sh))"
  proof -
    have "Exited (Some e) \<in> set (phases sh)"
      using that by (force simp: List.map_filter_def worker_error_def split: worker_phase.splits)
    from bspec [OF i(4) this] show ?thesis by (simp add: phase_ok_def j(4))
  qed
  assume none: "List.map_filter worker_error (sh_workers sh) = []"
  have all: "ph = Exited None" if ph: "ph \<in> set (phases sh)" for ph
  proof -
    obtain w where w: "w \<in> set (sh_workers sh)" "ph = w_phase w" using ph by auto
    have "exited w" using ex w(1) by (simp add: list_all_iff)
    moreover have "worker_error w = None"
      using none w(1) by (fastforce simp: List.map_filter_def filter_empty_conv)
    ultimately show ?thesis by (auto simp: w(2) exited_def worker_error_def split: worker_phase.splits)
  qed
  have next_file: "length files \<le> sh_next_file sh"
  proof (cases files)
    case (Cons f fs)
    have "length (sh_workers sh) = num_threads env files"
      by (simp add: sh parse_blocklists_def shared_new_def)
    then have "sh_workers sh \<noteq> []" using Cons by (auto simp: num_threads_def min_def split: if_splits)
    then have mem: "hd (phases sh) \<in> set (phases sh)" by (intro hd_in_set) simp
    then show ?thesis using bspec [OF i(4) mem] all [OF mem] by (simp add: phase_ok_def j(4))
  qed simp
  have fin: "finished j ns (sh_stats sh) i" if k: "i < length files" for i
  proof -
    have "\<not> busy_or_failed (phases sh) i" using all unfolding busy_or_failed_def by blast
    then show ?thesis using i(5) next_file k by auto
  qed
  have good: "good_job j" using fin unfolding good_job_def finished_def j(4) by blast
  have "all_nets j \<subseteq> set ns" using fin by (fastforce simp: all_nets_def finished_def nets_of_def j(4))
  then have "set ns = all_nets j" using i(2) good by blast
  then have "record_for (sh_builder sh) a = compiled_record j a" if "length a = 128" for a
    using merged_compiled [OF i(1) [unfolded j(5)], of repo files a] that by (simp add: j_def)
  moreover have "sh_stats sh ! k = \<lparr>bs_file_name = bf_name (files ! k), bs_category = lm_category (snd (projr (job_list j k))),
        bs_networks = length (nets_of (job_list j k))\<rparr>" if k: "k < length files" for k
    using fin [OF k] by (auto simp: finished_def nets_of_def j(4))
  moreover have "builder_inv (sh_builder sh)" "address_bits (sh_builder sh) = 128"
    using shared_invD(1,2) [OF inv] evolves_bits [of "j_start j"] initial_builder_facts(2) by (simp_all add: j(5))
  ultimately show "good_job j \<and> builder_inv (sh_builder sh) \<and> address_bits (sh_builder sh) = 128 \<and>
      (\<forall>a. length a = 128 \<longrightarrow> record_for (sh_builder sh) a = compiled_record j a) \<and>
      sh_stats sh = map (\<lambda>i. \<lparr>bs_file_name = bf_name (files ! i), bs_category = lm_category (snd (projr (job_list j i))),
        bs_networks = length (nets_of (job_list j i))\<rparr>) [0..<length files]"
    using good i(3) by (auto intro!: nth_equalityI)
qed

section \<open>Publication\<close>

definition temporary_fresh :: "'tm compile_env \<Rightarrow> string \<Rightarrow> file_system \<Rightarrow> bool" where
  "temporary_fresh env target fs \<longleftrightarrow> (\<forall>ending. ce_mkstemp env = Some ending \<longrightarrow> fs (target @ ''.tmp.'' @ ending) = None)"

definition temporary_name :: "'tm compile_env \<Rightarrow> string \<Rightarrow> string option" where
  "temporary_name env target = map_option (\<lambda>ending. target @ ''.tmp.'' @ ending) (ce_mkstemp env)"

text \<open>Only the temporary file may differ, and only when it could not be removed.\<close>

definition same_files :: "'tm compile_env \<Rightarrow> string \<Rightarrow> file_system \<Rightarrow> file_system \<Rightarrow> bool" where
  "same_files env target fs fs' \<longleftrightarrow> (\<forall>p. temporary_name env target \<noteq> Some p \<longrightarrow> fs' p = fs p) \<and>
     (ce_remove_ok env \<longrightarrow> fs' = fs)"

lemma same_files_refl: "same_files env target fs fs"
  by (simp add: same_files_def)

lemma same_files_target: "same_files env target fs fs' \<Longrightarrow> fs' target = fs target"
  by (auto simp: same_files_def temporary_name_def)

lemma build_and_publish_error:
  assumes "build_and_publish env target b fs = (Inl e, fs')" and "temporary_fresh env target fs"
  shows "same_files env target fs fs'"
proof (cases "ce_mkstemp env")
  case (Some ending)
  have none: "fs(target @ ''.tmp.'' @ ending := None) = fs"
    using assms(2) Some by (simp add: temporary_fresh_def fun_upd_idem)
  have t: "temporary_name env target = Some (target @ ''.tmp.'' @ ending)" by (simp add: temporary_name_def Some)
  have "\<exists>v. fs' = remove_temporary env (target @ ''.tmp.'' @ ending) (fs(target @ ''.tmp.'' @ ending \<mapsto> v))"
    using assms(1) Some by (auto simp: build_and_publish_def Let_def split: if_splits sum.splits)
  then show ?thesis using none by (auto simp: same_files_def t remove_temporary_def)
qed (use assms(1) in \<open>simp add: build_and_publish_def same_files_refl\<close>)

lemma build_and_publish_success:
  assumes "build_and_publish env target b fs = (Inr stats, fs')" and "temporary_fresh env target fs"
  shows "\<exists>contents b'. build (ce_prune_order env) (ce_output env) b = Inr (contents, stats, b') \<and> fs' = fs(target \<mapsto> contents)"
proof -
  obtain ending contents b' where r: "ce_mkstemp env = Some ending"
    "build (ce_prune_order env) (ce_output env) b = Inr (contents, stats, b')"
    "fs' = fs(target @ ''.tmp.'' @ ending \<mapsto> [], target @ ''.tmp.'' @ ending \<mapsto> contents, target \<mapsto> contents,
       target @ ''.tmp.'' @ ending := None)"
    using assms(1)
    by (auto simp: build_and_publish_def remove_temporary_def Let_def split: option.splits if_splits sum.splits)
  moreover have "fs (target @ ''.tmp.'' @ ending) = None" using assms(2) r(1) by (simp add: temporary_fresh_def)
  ultimately show ?thesis by (auto simp: fun_eq_iff)
qed

lemma build_writable: "build sched os b = Inr r \<Longrightarrow> os = Writable"
  by (cases os) (simp_all add: build_def Let_def split_beta)

text \<open>The way through a compilation that succeeds.\<close>

lemma compile_successD:
  assumes "compile_to_mmdb env target repo fs m = Some (Inr u, fs', m')" and "temporary_fresh env target fs"
  obtains files c1 c2 contents stats b' where "list_blocklists (ce_listing env) = Inr (files, c1, c2)"
    and "list_all exited (sh_workers (parse_blocklists env repo files))"
    and "List.map_filter worker_error (sh_workers (parse_blocklists env repo files)) = []"
    and "build (ce_prune_order env) Writable (sh_builder (parse_blocklists env repo files)) = Inr (contents, stats, b')"
    and "fs' = fs(target \<mapsto> contents)"
    and "m' = compile_ended True (publish_stats (ce_unix_now env) (sh_total_networks (parse_blocklists env repo files))
           (length files) stats (sh_stats (parse_blocklists env repo files)) (compile_started m))"
proof -
  obtain files c1 c2 where f: "list_blocklists (ce_listing env) = Inr (files, c1, c2)"
    using assms(1) by (auto simp: compile_to_mmdb_def Let_def split: sum.splits)
  let ?sh = "parse_blocklists env repo files"
  have ex: "list_all exited (sh_workers ?sh)" using assms(1) f by (simp add: compile_to_mmdb_def Let_def split: if_splits)
  have e: "List.map_filter worker_error (sh_workers ?sh) = []"
    using assms(1) f ex by (simp add: compile_to_mmdb_def Let_def split: list.splits)
  obtain stats fs1 where b: "build_and_publish env target (sh_builder ?sh) fs = (Inr stats, fs1)"
    and r: "fs' = fs1" "m' = compile_ended True (publish_stats (ce_unix_now env) (sh_total_networks ?sh) (length files) stats
      (sh_stats ?sh) (compile_started m))"
    using assms(1) f ex e by (auto simp: compile_to_mmdb_def Let_def split: prod.splits sum.splits)
  obtain contents b' where "build (ce_prune_order env) (ce_output env) (sh_builder ?sh) = Inr (contents, stats, b')"
    "fs1 = fs(target \<mapsto> contents)" using build_and_publish_success [OF b assms(2)] by blast
  then show ?thesis using that [OF f ex e] r build_writable by metis
qed

lemma compile_returns:
  assumes "list_blocklists (ce_listing env) = Inr (files, c1, c2)" and "list_all exited (sh_workers (parse_blocklists env repo files))"
  shows "\<exists>res fs' m'. compile_to_mmdb env target repo fs m = Some (res, fs', m')"
  using assms by (simp add: compile_to_mmdb_def Let_def split: list.split prod.split sum.split)

section \<open>Properties\<close>

text \<open>C1: a compilation that succeeds, under any schedule of its threads and of the pruning tasks,
  publishes a database in which every address has exactly the records of the networks of all lists that
  contain it, read back as the format prescribes: one row per record, sorted by list and without
  duplicates; and every list was parsed. This is so when the search tree has a node (not one record for
  all addresses or none), the file has at most \<open>2 ^ 28\<close> bytes, so that its 28-bit records reach all of
  it, and the united record of every address is one the encoder writes in the format: no array with 29
  members or more, that is, no address in 29 or more lists (see \<open>long_array_misread\<close>). The name that
  \<open>mkstemp\<close> chooses is one that does not exist.\<close>

theorem compile_publishes_lists:
  assumes "compile_to_mmdb env target repo fs m = Some (Inr u, fs', m')" and "temporary_fresh env target fs"
    and "list_blocklists (ce_listing env) = Inr (files, c1, c2)" and "fs' target = Some contents"
    and "length contents \<le> 2 ^ 28" and "compile_trie_nodes m' \<noteq> 0" and "length a = 128"
    and "\<And>a. length a = 128 \<Longrightarrow> compiled_record (compile_job env repo files) a = DNull \<or>
      encodable (compiled_record (compile_job env repo files) a)"
  shows "good_job (compile_job env repo files) \<and>
    file_record contents (unat (compile_trie_nodes m')) a = Some (compiled_record (compile_job env repo files) a)"
proof -
  let ?sh = "parse_blocklists env repo files" and ?j = "compile_job env repo files"
  obtain stats b' where s: "list_all exited (sh_workers ?sh)" "List.map_filter worker_error (sh_workers ?sh) = []"
    "build (ce_prune_order env) Writable (sh_builder ?sh) = Inr (contents, stats, b')"
    "m' = compile_ended True (publish_stats (ce_unix_now env) (sh_total_networks ?sh) (length files) stats (sh_stats ?sh) (compile_started m))"
    by (rule compile_successD [OF assms(1,2)]) (use assms(3,4) in auto)
  note p = parse_blocklists_result(2) [OF refl s(1,2)]
  have nodes: "compile_trie_nodes m' = of_nat (stat_node_count stats)"
    by (simp add: s(4) compile_ended_def publish_stats_def set_blocklists_def publish_blocklists_def Let_def)
  have "stat_node_count stats * 7 + 16 + data_section_bytes stats \<le> length contents"
    by (rule build_total(2) [OF _ s(3)]) (use p in simp)
  then have small: "stat_node_count stats + 16 + data_section_bytes stats \<le> 2 ^ 28" using assms(5) by linarith
  then have "unat (compile_trie_nodes m') = stat_node_count stats"
    by (simp add: nodes unat_of_nat)
  moreover have "0 < stat_node_count stats" using assms(6) nodes by (cases "stat_node_count stats") auto
  moreover have "record_for (sh_builder ?sh) a = compiled_record ?j a" if "length a = 128" for a using p that by blast
  ultimately show ?thesis
    using built_file [OF _ s(3), of a] p small assms(7,8) by simp
qed

text \<open>One list with one network, compiled by one thread.\<close>

definition example_compile :: "unit compile_env" where
  "example_compile = \<lparr>ce_parse = \<lparr>strptime = (\<lambda>_. None), strftime = (\<lambda>_. ''''), inet_pton6 = (\<lambda>_. Some (replicate 16 0))\<rparr>,
     ce_listing = Some [\<lparr>de_name = ''a.netset'', de_regular = True, de_size = Some 4\<rparr>],
     ce_contents = (\<lambda>_. Content ''::/1''), ce_hardware_concurrency = 1, ce_turns = [0, 0, 0, 0], ce_prune_order = (\<lambda>_. False),
     ce_epoch = 0, ce_mkstemp = Some ''a1b2c3'', ce_close_ok = True, ce_output = Writable,
     ce_partial = [], ce_rename_ok = True, ce_remove_ok = True, ce_unix_now = 1\<rparr>"

definition example_files :: "blocklist_file list" where
  "example_files = [\<lparr>bf_name = ''a.netset'', bf_size = 4\<rparr>]"

definition example_row_data :: data where
  "example_row_data = list_record ''a.netset'' no_metadata"

definition example_result :: builder where
  "example_result =
     (let (d, b) = store_data (initial_builder example_compile) example_row_data
      in insert_parsed b [\<lparr>net_bits = replicate 16 0, prefix_len = 1, net_data = d\<rparr>])"

lemma example_listing: "list_blocklists (ce_listing example_compile) = Inr (example_files, 0, 1)"
  by code_simp

lemma example_network:
  "parse_network (inet_pton6 (ce_parse example_compile)) b ''::/1'' d =
     (if ip_version b = 4 then None else Some \<lparr>net_bits = replicate 16 0, prefix_len = 1, net_data = d\<rparr>)"
proof -
  have "split_slash ''::/1'' = (''::'', Some ''1'')" "parse_prefix (Some ''1'') = Some (Some 1)" "parse_ipv4 ''::'' = None"
    by code_simp+
  then show ?thesis by (simp add: parse_network_def parse_ipv6_def INET6_ADDRSTRLEN_def example_compile_def)
qed

lemma example_line:
  assumes "ip_version b = 6"
  shows "next_line (ce_parse example_compile) fp ''a.netset'' (parser_new ''::/1'') b =
    (let (d, b') = store_data b example_row_data in
     Inr (\<lparr>p_rest = [], p_line = 1, p_metadata = no_metadata, p_did = d, p_network_count = 1, p_total_networks = 1,
           p_sections = 1, p_batch = [\<lparr>net_bits = replicate 16 0, prefix_len = 1, net_data = d\<rparr>]\<rparr>, b'))"
proof -
  obtain d b' where s: "store_data b example_row_data = (d, b')" by fastforce
  have "ip_version b' = 6" using s assms by (auto simp: store_data_def split: prod.splits)
  moreover have "strip_cr ''::/1'' = ''::/1''" "trim ''::/1'' = ''::/1''" by code_simp+
  ultimately show ?thesis
    using s by (simp add: next_line_def parser_new_def process_entry_def update_did_def example_network Let_def
        example_row_data_def [symmetric])
qed

lemma example_workers:
  "sh_builder (parse_blocklists example_compile repo example_files) = example_result"
  "map w_phase (sh_workers (parse_blocklists example_compile repo example_files)) = [Exited None]"
proof -
  obtain d b where s: "store_data (initial_builder example_compile) example_row_data = (d, b)" by fastforce
  have v: "ip_version (initial_builder example_compile) = 6" by (simp add: initial_builder_def builder_set_row_sort_key_def builder_new_def)
  note steps = parse_blocklists_def run_workers_def worker_step_def fetch_step_def parse_step_def exit_worker_def finish_file_def
    set_worker_def shared_new_def num_threads_def read_file_def kInsertBatchSize_def flush_batch_def Let_def
  have turns: "ce_turns example_compile = [0, 0, 0, 0]" "ce_contents example_compile = (\<lambda>_. Content ''::/1'')"
    "ce_hardware_concurrency example_compile = 1" by (simp_all add: example_compile_def)
  have p: "p_batch (parser_new ''::/1'') = []" "p_rest (parser_new ''::/1'') = ''::/1''" by (simp_all add: parser_new_def)
  note l = example_line [OF v, unfolded s, simplified]
  show "sh_builder (parse_blocklists example_compile repo example_files) = example_result"
    by (simp add: steps turns example_files_def p l example_result_def s)
  show "map w_phase (sh_workers (parse_blocklists example_compile repo example_files)) = [Exited None]"
    by (simp add: steps turns example_files_def p l s)
qed

lemma example_result_nodes:
  "snd (prune_tree_parallel (\<lambda>_. False) 4 (nodes example_result) 0) =
     [\<lparr>child0 = 1, child1 = 0, node_data = 0\<rparr>, \<lparr>child0 = 0, child1 = 0, node_data = 11\<rparr>]"
  by code_simp

lemma example_lists:
  "job_list (compile_job example_compile repo example_files) 0 = Inr ([(replicate 16 0, 1, example_row_data)], no_metadata)"
proof -
  have "lines_of ''::/1'' = [''::/1'']" "strip_cr ''::/1'' = ''::/1''" "trim ''::/1'' = ''::/1''" by code_simp+
  moreover have "ce_contents example_compile n = Content ''::/1''" for n by (simp add: example_compile_def)
  moreover have "ip_version (initial_builder example_compile) = 6"
    by (simp add: initial_builder_def builder_set_row_sort_key_def builder_new_def)
  ultimately show ?thesis
    by (simp add: job_list_def compile_job_def list_of_def read_file_def example_files_def list_text_def list_line_def
        example_network Let_def example_row_data_def)
qed

lemma example_sizes:
  "length (fst (fst (place_records (bpool example_result) [11]
     (([0], Map.empty), replicate (length (id_to_data (bpool example_result))) 0)))) < 1000"
  "length (fst (write_metadata example_result 1)) < 1000"
  by code_simp+

lemma example_build:
  obtains contents stats b' where "build (\<lambda>_. False) Writable example_result = Inr (contents, stats, b')"
    and "stat_node_count stats = 1" and "length contents < 3000"
proof -
  define ns where "ns = [\<lparr>child0 = 1, child1 = 0, node_data = 0\<rparr>, \<lparr>child0 = 0, child1 = 0, node_data = 11\<rparr>]"
  have ids: "assign_node_ids ns = (1, [0, unassigned], [0])"
    by (simp add: ns_def assign_node_ids_def eval_nat_numeral)
  have used: "sort_less lt (collect_used_data_parallel 4 ns) = [11]" for lt
    by (simp add: ns_def collect_used_data_parallel_def eval_nat_numeral sort_less_def List.union_def List.insert_def)
  obtain contents stats b' where b: "build (\<lambda>_. False) Writable example_result = Inr (contents, stats, b')"
    by (simp add: build_def Let_def split_beta)
  moreover have "stat_node_count stats = 1" "length contents < 3000"
    using b example_sizes
    by (auto simp: build_def example_result_nodes [folded ns_def] ids used Let_def split_beta simp del: place_records.simps)
  ultimately show ?thesis using that by blast
qed

lemma example_compiled:
  obtains fs' m' contents where "compile_to_mmdb example_compile ''db'' ''repo'' Map.empty firehol_metrics_new = Some (Inr (), fs', m')"
    and "fs' ''db'' = Some contents" and "length contents < 3000" and "compile_trie_nodes m' = 1"
proof -
  let ?sh = "parse_blocklists example_compile ''repo'' example_files"
  obtain contents stats b' where b: "build (\<lambda>_. False) Writable example_result = Inr (contents, stats, b')"
    "stat_node_count stats = 1" "length contents < 3000" by (rule example_build)
  obtain w where w: "sh_workers ?sh = [w]" "w_phase w = Exited None" using example_workers(2) [of "''repo''"] by auto
  have "list_all exited (sh_workers ?sh)" "List.map_filter worker_error (sh_workers ?sh) = []"
    by (simp_all add: w exited_def worker_error_def List.map_filter_def)
  moreover have "build_and_publish example_compile ''db'' example_result Map.empty = (Inr stats, [''db'' \<mapsto> contents])"
    using b(1) by (auto simp: build_and_publish_def example_compile_def remove_temporary_def Let_def)
  ultimately have c: "compile_to_mmdb example_compile ''db'' ''repo'' Map.empty firehol_metrics_new =
    Some (Inr (), [''db'' \<mapsto> contents], compile_ended True (publish_stats (ce_unix_now example_compile) (sh_total_networks ?sh)
      (length example_files) stats (sh_stats ?sh) (compile_started firehol_metrics_new)))"
    by (simp add: compile_to_mmdb_def example_listing example_workers(1) Let_def)
  show ?thesis
    by (rule that [OF c, of contents])
      (simp_all add: b(2,3) compile_ended_def publish_stats_def set_blocklists_def publish_blocklists_def Let_def)
qed

lemma example_compiled_record:
  "compiled_record (compile_job example_compile repo example_files) a =
     (if net_contains (replicate 16 0, 1, example_row_data) a then example_row_data else DNull)"
proof -
  have "j_files (compile_job example_compile repo example_files) = example_files" by (simp add: compile_job_def)
  then show ?thesis
    using example_lists [of repo]
    by (simp add: compiled_record_def example_files_def nets_of_def net_records_def united_def)
qed

theorem compile_publishes_lists_witness:
  "\<exists>fs' m' contents. compile_to_mmdb example_compile ''db'' ''repo'' Map.empty firehol_metrics_new = Some (Inr (), fs', m') \<and>
     fs' ''db'' = Some contents \<and>
     file_record contents (unat (compile_trie_nodes m')) (replicate 128 True) =
       Some (compiled_record (compile_job example_compile ''repo'' example_files) (replicate 128 True))"
proof -
  obtain fs' m' contents where c: "compile_to_mmdb example_compile ''db'' ''repo'' Map.empty firehol_metrics_new = Some (Inr (), fs', m')"
    "fs' ''db'' = Some contents" "length contents < 3000" "compile_trie_nodes m' = 1" by (rule example_compiled)
  have fresh: "temporary_fresh example_compile ''db'' Map.empty" by (simp add: temporary_fresh_def)
  have enc: "compiled_record (compile_job example_compile ''repo'' example_files) a = DNull \<or>
      encodable (compiled_record (compile_job example_compile ''repo'' example_files) a)" for a
    by (simp add: example_compiled_record example_row_data_def list_record_def no_metadata_def Let_def)
  show ?thesis
    using compile_publishes_lists [OF c(1) fresh example_listing c(2), of "replicate 128 True"] c enc by auto
qed

text \<open>What a failed compilation leaves.\<close>

lemma compile_failure_state:
  assumes "compile_to_mmdb env target repo fs m = Some (Inl e, fs', m')" and "temporary_fresh env target fs"
  shows "same_files env target fs fs' \<and> m' = compile_ended False (compile_started m)"
proof (cases "list_blocklists (ce_listing env)")
  case (Inr r)
  obtain files c1 c2 where r: "r = (files, c1, c2)" by (cases r)
  let ?sh = "parse_blocklists env repo files"
  show ?thesis
  proof (cases "List.map_filter worker_error (sh_workers ?sh)")
    case Nil
    obtain res fs1 where b: "build_and_publish env target (sh_builder ?sh) fs = (res, fs1)" by fastforce
    then have "res = Inl e \<and> fs' = fs1 \<and> m' = compile_ended False (compile_started m)"
      using assms(1) Inr r Nil by (simp add: compile_to_mmdb_def Let_def split: if_splits sum.splits)
    then show ?thesis using build_and_publish_error [of env target "sh_builder ?sh" fs e fs'] b assms(2) by blast
  qed (use assms(1) Inr r in \<open>simp add: compile_to_mmdb_def same_files_refl Let_def split: if_splits\<close>)
qed (use assms(1) in \<open>simp add: compile_to_mmdb_def same_files_refl Let_def\<close>)

text \<open>C12: a compilation that fails, on whichever of its error paths, leaves every file other than its
  temporary one as it was, the previous database included; when \<open>std::remove\<close> can remove the temporary
  file, the whole file system is as before. Of the metrics exactly three change: the run and the
  failure are counted and nothing is marked as running, so every published statistic stays that of
  the previous database. The name that \<open>mkstemp\<close> chooses is one that does not exist.\<close>

theorem compile_failure_keeps_database:
  assumes "compile_to_mmdb env target repo fs m = Some (Inl e, fs', m')" and "temporary_fresh env target fs"
  shows "(\<forall>p. temporary_name env target \<noteq> Some p \<longrightarrow> fs' p = fs p) \<and> fs' target = fs target \<and>
    (ce_remove_ok env \<longrightarrow> fs' = fs) \<and>
    m' = m\<lparr>compile_runs_total := compile_runs_total m + 1,
           compile_failures_total := compile_failures_total m + 1, compile_in_progress := 0\<rparr>"
proof -
  have s: "same_files env target fs fs'" and m: "m' = compile_ended False (compile_started m)"
    using compile_failure_state [OF assms] by simp_all
  have "m' = m\<lparr>compile_runs_total := compile_runs_total m + 1,
      compile_failures_total := compile_failures_total m + 1, compile_in_progress := 0\<rparr>"
    unfolding m by (simp add: compile_ended_def compile_started_def)
  with s same_files_target [OF s] show ?thesis unfolding same_files_def by blast
qed

theorem compile_failure_keeps_database_witness:
  "\<exists>e m'. compile_to_mmdb (example_compile\<lparr>ce_rename_ok := False\<rparr>) ''db'' ''repo'' [''db'' \<mapsto> [1]] firehol_metrics_new =
     Some (Inl e, [''db'' \<mapsto> [1]], m') \<and>
     m' = firehol_metrics_new\<lparr>compile_runs_total := 1, compile_failures_total := 1\<rparr>"
proof -
  let ?env = "example_compile\<lparr>ce_rename_ok := False\<rparr>" and ?fs = "[''db'' \<mapsto> [1]]"
  have sh: "parse_blocklists ?env ''repo'' example_files = parse_blocklists example_compile ''repo'' example_files"
    by (simp add: parse_blocklists_def num_threads_def initial_builder_def)
  obtain w where w: "sh_workers (parse_blocklists example_compile ''repo'' example_files) = [w]" "w_phase w = Exited None"
    using example_workers(2) [of "''repo''"] by auto
  obtain contents stats b' where b: "build (\<lambda>_. False) Writable example_result = Inr (contents, stats, b')" by (rule example_build)
  obtain fs' m' where c: "compile_to_mmdb ?env ''db'' ''repo'' ?fs firehol_metrics_new = Some (Inl ''cannot rename'', fs', m')"
    using b example_listing
    by (simp add: compile_to_mmdb_def sh w exited_def worker_error_def List.map_filter_def example_workers(1) build_and_publish_def Let_def)
      (simp add: example_compile_def Let_def)
  have "temporary_fresh ?env ''db'' ?fs" by (simp add: temporary_fresh_def)
  from compile_failure_keeps_database [OF c this] c show ?thesis
    by (simp add: firehol_metrics_new_def) (simp add: example_compile_def)
qed

text \<open>A list that cannot be read or has a bad line makes the whole compilation fail with the error of
  a bad list, whatever the other lists hold and however the threads are scheduled.\<close>

theorem compile_rejects_bad_list:
  assumes "compile_to_mmdb env target repo fs m = Some (res, fs', m')" and "list_blocklists (ce_listing env) = Inr (files, c1, c2)"
    and "\<not> good_job (compile_job env repo files)"
  shows "\<exists>e i. res = Inl e \<and> i < length files \<and> job_list (compile_job env repo files) i = Inl e"
proof -
  let ?sh = "parse_blocklists env repo files"
  have ex: "list_all exited (sh_workers ?sh)" using assms(1,2) by (simp add: compile_to_mmdb_def Let_def split: if_splits)
  have "List.map_filter worker_error (sh_workers ?sh) \<noteq> []" using parse_blocklists_result(2) [OF refl ex] assms(3) by blast
  then obtain e es where e: "List.map_filter worker_error (sh_workers ?sh) = e # es" by (cases "List.map_filter worker_error (sh_workers ?sh)") auto
  then have "\<exists>i < length files. job_list (compile_job env repo files) i = Inl e"
    by (intro parse_blocklists_result(1) [OF refl ex]) simp
  moreover have "res = Inl e" using assms(1,2) ex e by (simp add: compile_to_mmdb_def Let_def)
  ultimately show ?thesis by blast
qed

theorem compile_rejects_bad_list_witness:
  "\<exists>e fs' m'. compile_to_mmdb (example_compile\<lparr>ce_contents := (\<lambda>_. No_Open)\<rparr>) ''db'' ''repo'' Map.empty firehol_metrics_new =
     Some (Inl e, fs', m')"
proof -
  let ?env = "example_compile\<lparr>ce_contents := (\<lambda>_. No_Open)\<rparr>"
  have bad: "\<not> good_job (compile_job ?env ''repo'' example_files)"
    by (simp add: good_job_def compile_job_def job_list_def list_of_def read_file_def example_files_def)
  have list: "list_blocklists (ce_listing ?env) = Inr (example_files, 0, 1)" using example_listing by simp
  have turns: "ce_turns example_compile = [0, 0, 0, 0]" "ce_hardware_concurrency example_compile = 1" by (simp_all add: example_compile_def)
  have "list_all exited (sh_workers (parse_blocklists ?env ''repo'' example_files))"
    by (simp add: parse_blocklists_def run_workers_def worker_step_def fetch_step_def exit_worker_def set_worker_def shared_new_def
        num_threads_def read_file_def turns example_files_def exited_def Let_def)
  then obtain res fs' m' where c: "compile_to_mmdb ?env ''db'' ''repo'' Map.empty firehol_metrics_new = Some (res, fs', m')"
    using compile_returns [OF list] by blast
  from compile_rejects_bad_list [OF c list bad] c show ?thesis by auto
qed

text \<open>C13: A compilation ends: under every fair schedule of its threads all of them finish after finitely
  many turns, and the compilation returns a result.\<close>

theorem compile_terminates:
  assumes "\<And>files c1 c2. list_blocklists (ce_listing env) = Inr (files, c1, c2) \<Longrightarrow> fair (num_threads env files) turn"
  shows "\<exists>k. \<exists>r. compile_to_mmdb (env\<lparr>ce_turns := map turn [0..<k]\<rparr>) target repo fs m = Some r"
proof (cases "list_blocklists (ce_listing env)")
  case (Inr r)
  obtain files c1 c2 where r: "r = (files, c1, c2)" by (cases r)
  let ?sh0 = "shared_new (initial_builder env) (length files) (num_threads env files)"
  have "length (sh_workers ?sh0) = num_threads env files" by (simp add: shared_new_def)
  then obtain k where k: "list_all exited (sh_workers (run_workers (ce_parse env) repo (ce_contents env) files (map turn [0..<k]) ?sh0))"
    using run_workers_fair [OF assms [OF Inr [unfolded r]]] by blast
  have "parse_blocklists (env\<lparr>ce_turns := map turn [0..<k]\<rparr>) repo files =
      run_workers (ce_parse env) repo (ce_contents env) files (map turn [0..<k]) ?sh0"
    by (simp add: parse_blocklists_def num_threads_def initial_builder_def)
  then show ?thesis
    using k compile_returns [of "env\<lparr>ce_turns := map turn [0..<k]\<rparr>" files c1 c2 repo] Inr r by fastforce
qed (simp add: compile_to_mmdb_def)

theorem compile_terminates_witness:
  "\<exists>k r. compile_to_mmdb (example_compile\<lparr>ce_turns := map (\<lambda>_. 0) [0..<k]\<rparr>) ''db'' ''repo'' Map.empty firehol_metrics_new = Some r"
  by (rule compile_terminates)
    (auto simp: example_listing fair_def num_threads_def example_compile_def example_files_def)

end
