(* ===== verification/Git_Repository.thy ===== *)
theory Git_Repository
  imports Utils Firehol_Metrics
begin

text \<open>
  The synchronisation of the FireHOL repository (\<open>src/firehol_blocklist_ipsets/git_repository.cpp\<close>).
  libgit2 is not part of the sources: the calls the code makes are the members of a record, over an
  abstract state of the repositories on disk and behind the network. What a property needs of them
  is stated as a hypothesis of that property. The gauge of the measured duration is left out.
\<close>

section \<open>libgit2 and the file system\<close>

type_synonym oid = string

record git_commit =
  commit_oid :: oid
  commit_time :: int

text \<open>
  A negative number is an error code. \<open>lg_head\<close> is \<open>git_repository_head\<close> with the target of the
  reference and the time of the commit it peels to; \<open>lg_ls\<close> is \<open>git_remote_connect\<close> followed by
  \<open>git_remote_ls\<close>, with \<open>None\<close> when either fails.
\<close>

record ('g, 'r) libgit2 =
  lg_init :: int
  lg_set_ssl_cert_locations :: "string option \<Rightarrow> string option \<Rightarrow> int"
  lg_error_last :: "'g \<Rightarrow> string option"
  lg_exists :: "'g \<Rightarrow> string \<Rightarrow> bool"
  lg_open :: "'g \<Rightarrow> string \<Rightarrow> int \<times> 'r"
  lg_clone :: "'g \<Rightarrow> string \<Rightarrow> string \<Rightarrow> nat \<Rightarrow> (int \<times> 'r) \<times> 'g"
  lg_remote_lookup :: "'g \<Rightarrow> 'r \<Rightarrow> int"
  lg_remote_url :: "'g \<Rightarrow> 'r \<Rightarrow> string option"
  lg_head :: "'g \<Rightarrow> 'r \<Rightarrow> (oid option \<times> int option) option"
  lg_ls :: "'g \<Rightarrow> 'r \<Rightarrow> (string \<times> oid) list option"
  lg_fetch :: "'g \<Rightarrow> 'r \<Rightarrow> nat \<Rightarrow> int \<times> 'g"
  lg_reference_lookup :: "'g \<Rightarrow> 'r \<Rightarrow> string \<Rightarrow> int"
  lg_reference_peel :: "'g \<Rightarrow> 'r \<Rightarrow> string \<Rightarrow> int \<times> git_commit"
  lg_reset_hard :: "'g \<Rightarrow> 'r \<Rightarrow> git_commit \<Rightarrow> int \<times> 'g"

datatype git_failure = GitError string | runtime_error string

definition int_to_string :: "int \<Rightarrow> string" where
  "int_to_string i = (if i < 0 then CHR ''-'' # to_string (nat (- i)) else to_string (nat i))"

definition git_error_message :: "('g, 'r) libgit2 \<Rightarrow> 'g \<Rightarrow> int \<Rightarrow> string \<Rightarrow> string" where
  "git_error_message lg g error_code msg =
     (case lg_error_last lg g of
        Some m \<Rightarrow> msg @ '': '' @ m
      | None \<Rightarrow> msg @ '' ('' @ int_to_string error_code @ '')'')"

definition git_error :: "('g, 'r) libgit2 \<Rightarrow> 'g \<Rightarrow> int \<Rightarrow> string \<Rightarrow> git_failure" where
  "git_error lg g error_code msg = GitError (git_error_message lg g error_code msg)"

section \<open>Certificates and the global state\<close>

definition cert_files :: "string list" where
  "cert_files = [''/etc/ssl/certs/ca-certificates.crt'', ''/etc/pki/tls/certs/ca-bundle.crt'',
     ''/etc/ssl/ca-bundle.pem'', ''/etc/pki/tls/cacert.pem'', ''/etc/ssl/cert.pem'']"

definition cert_dirs :: "string list" where
  "cert_dirs = [''/etc/ssl/certs'', ''/etc/pki/tls/certs'']"

definition choose_certificates ::
  "(string \<Rightarrow> string option) \<Rightarrow> (string \<Rightarrow> bool) \<Rightarrow> (string \<Rightarrow> bool) \<Rightarrow> string option \<times> string option" where
  "choose_certificates env is_regular_file is_directory =
     (let cert_file = environment_non_empty env ''SSL_CERT_FILE'';
          cert_dir = environment_non_empty env ''SSL_CERT_DIR''
      in if cert_file = None \<and> cert_dir = None
         then (find is_regular_file cert_files, find is_directory cert_dirs)
         else (cert_file, cert_dir))"

definition configure_ssl_certificates ::
  "('g, 'r) libgit2 \<Rightarrow> 'g \<Rightarrow> (string \<Rightarrow> string option) \<Rightarrow> (string \<Rightarrow> bool) \<Rightarrow> (string \<Rightarrow> bool) \<Rightarrow> git_failure + unit" where
  "configure_ssl_certificates lg g env is_regular_file is_directory =
     (case choose_certificates env is_regular_file is_directory of (cert_file, cert_dir) \<Rightarrow>
        if cert_file = None \<and> cert_dir = None then Inr ()
        else
          (let err = lg_set_ssl_cert_locations lg cert_file cert_dir
           in if err < 0 then Inl (git_error lg g err ''Failed to configure SSL certificate locations'')
              else Inr ()))"

text \<open>The constructor and destructor of \<open>GitGlobalInit\<close> on the count of library initialisations.\<close>

definition git_global_init ::
  "('g, 'r) libgit2 \<Rightarrow> 'g \<Rightarrow> (string \<Rightarrow> string option) \<Rightarrow> (string \<Rightarrow> bool) \<Rightarrow> (string \<Rightarrow> bool) \<Rightarrow> nat \<Rightarrow>
   (git_failure + unit) \<times> nat" where
  "git_global_init lg g env is_regular_file is_directory inits =
     (if lg_init lg < 0 then (Inl (git_error lg g (lg_init lg) ''Failed to initialize libgit2''), inits)
      else
        (let inits = inits + 1
         in case configure_ssl_certificates lg g env is_regular_file is_directory of
              Inl e \<Rightarrow> (Inl e, inits - 1)
            | Inr _ \<Rightarrow> (Inr (), inits)))"

definition git_global_shutdown :: "nat \<Rightarrow> nat" where
  "git_global_shutdown inits = inits - 1"

section \<open>The repository\<close>

record 'r git_impl =
  last_commit_time :: int
  git_repo :: "'r option"

definition git_repository_new :: "'r git_impl" where
  "git_repository_new = \<lparr>last_commit_time = 0, git_repo = None\<rparr>"

definition starts_with_http :: "string \<Rightarrow> bool" where
  "starts_with_http url \<longleftrightarrow> take 4 url = ''http''"

definition fetch_depth :: "string \<Rightarrow> nat" where
  "fetch_depth url = (if starts_with_http url then 1 else 0)"

definition open_or_clone ::
  "('g, 'r) libgit2 \<Rightarrow> string \<Rightarrow> string \<Rightarrow> 'g \<Rightarrow> 'r git_impl \<Rightarrow> (git_failure + bool) \<times> 'g \<times> 'r git_impl" where
  "open_or_clone lg url local_path g im =
     (let cloned = \<not> (lg_exists lg g local_path \<and> lg_exists lg g (local_path @ ''/.git''));
          ((err, opened), g) =
            (if \<not> cloned then (lg_open lg g local_path, g)
             else lg_clone lg g url local_path (fetch_depth url))
      in if err < 0 then (Inl (git_error lg g err ''Failed to open or clone repository''), g, im)
         else (Inr cloned, g, im\<lparr>git_repo := Some opened\<rparr>))"

text \<open>The local head: whether it has a target, the target, and the commit time (0 when unknown).\<close>

definition local_head :: "('g, 'r) libgit2 \<Rightarrow> 'g \<Rightarrow> 'r \<Rightarrow> oid option \<times> int" where
  "local_head lg g r =
     (case lg_head lg g r of
        None \<Rightarrow> (None, 0)
      | Some (target, time) \<Rightarrow> (target, case time of Some t \<Rightarrow> t | None \<Rightarrow> 0))"

definition needs_fetch :: "('g, 'r) libgit2 \<Rightarrow> 'g \<Rightarrow> 'r \<Rightarrow> string \<Rightarrow> oid option \<Rightarrow> bool" where
  "needs_fetch lg g r default_branch local_oid =
     (case local_oid of
        None \<Rightarrow> True
      | Some oid \<Rightarrow>
          (case lg_ls lg g r of
             None \<Rightarrow> True
           | Some refs \<Rightarrow>
               (case find (\<lambda>(name, _). name = ''refs/heads/'' @ default_branch) refs of
                  None \<Rightarrow> True
                | Some (_, remote_oid) \<Rightarrow> remote_oid \<noteq> oid)))"

definition origin_mismatch :: git_failure where
  "origin_mismatch = runtime_error
     (''Repository origin URL does not match FIREHOL_GIT_REPO_URL; '' @
      ''use FIREHOL_GIT_PATH to select the intended FireHOL repository'')"

definition fetch_and_reset ::
  "('g, 'r) libgit2 \<Rightarrow> string \<Rightarrow> string \<Rightarrow> 'r \<Rightarrow> 'g \<Rightarrow> 'r git_impl \<Rightarrow> (git_failure + unit) \<times> 'g \<times> 'r git_impl" where
  "fetch_and_reset lg repo_url default_branch r g im =
     (let err = lg_remote_lookup lg g r in
      if err < 0 then (Inl (git_error lg g err (''Failed to lookup remote '' @ [CHR 0x27] @ ''origin'' @ [CHR 0x27])), g, im)
      else if lg_remote_url lg g r \<noteq> Some repo_url then (Inl origin_mismatch, g, im)
      else
        (let (local_oid, local_time) = local_head lg g r in
         if \<not> needs_fetch lg g r default_branch local_oid then (Inr (), g, im\<lparr>last_commit_time := local_time\<rparr>)
         else
           (let (err, g) = lg_fetch lg g r (fetch_depth repo_url) in
            if err < 0 then (Inl (git_error lg g err ''Failed to fetch from remote''), g, im)
            else
              (let branch_ref_name = ''refs/remotes/origin/'' @ default_branch;
                   err = lg_reference_lookup lg g r branch_ref_name in
               if err < 0
               then (Inl (git_error lg g err (''Failed to lookup remote branch '' @ branch_ref_name)), g, im)
               else
                 (let (err, commit) = lg_reference_peel lg g r branch_ref_name in
                  if err < 0 then (Inl (git_error lg g err ''Failed to peel reference to commit''), g, im)
                  else if local_oid \<noteq> None \<and> commit_time commit \<le> local_time
                  then (Inr (), g, im\<lparr>last_commit_time := local_time\<rparr>)
                  else
                    (let (err, g) = lg_reset_hard lg g r commit in
                     if err < 0 then (Inl (git_error lg g err ''Failed to hard reset repository''), g, im)
                     else (Inr (), g, im\<lparr>last_commit_time := commit_time commit\<rparr>)))))))"

definition git_failed :: "firehol_metrics \<Rightarrow> firehol_metrics" where
  "git_failed m = m\<lparr>git_failures_total := git_failures_total m + 1\<rparr>"

definition git_succeeded :: "bool \<Rightarrow> u64 \<Rightarrow> firehol_metrics \<Rightarrow> firehol_metrics" where
  "git_succeeded cloned now m =
     (let m = (if cloned then m\<lparr>git_clones_total := git_clones_total m + 1\<rparr>
               else m\<lparr>git_fetches_total := git_fetches_total m + 1\<rparr>)
      in m\<lparr>git_last_success_unix := now\<rparr>)"

text \<open>A successful \<open>open_or_clone\<close> has set the repository, so the first inner case never arises.\<close>

definition prepare_repository ::
  "('g, 'r) libgit2 \<Rightarrow> string \<Rightarrow> string \<Rightarrow> string \<Rightarrow> u64 \<Rightarrow> 'g \<Rightarrow> 'r git_impl \<Rightarrow> firehol_metrics \<Rightarrow>
   (git_failure + string) \<times> 'g \<times> 'r git_impl \<times> firehol_metrics" where
  "prepare_repository lg repo_url local_path default_branch now g im m =
     (case open_or_clone lg repo_url local_path g im of
        (Inl e, g, im) \<Rightarrow> (Inl e, g, im, git_failed m)
      | (Inr cloned, g, im) \<Rightarrow>
          (case git_repo im of
             None \<Rightarrow> (Inl (runtime_error []), g, im, git_failed m)
           | Some r \<Rightarrow>
               (case fetch_and_reset lg repo_url default_branch r g im of
                  (Inl e, g, im) \<Rightarrow> (Inl e, g, im, git_failed m)
                | (Inr _, g, im) \<Rightarrow> (Inr local_path, g, im, git_succeeded cloned now m))))"

definition last_commit_unix :: "'r git_impl \<Rightarrow> int" where
  "last_commit_unix im = last_commit_time im"

section \<open>What synchronising guarantees\<close>

lemma git_global_init_balanced:
  "git_global_init lg g env f d n = (Inl e, n') \<Longrightarrow> n' = n"
  "git_global_init lg g env f d n = (Inr x, n') \<Longrightarrow> git_global_shutdown n' = n"
  by (auto simp: git_global_init_def git_global_shutdown_def Let_def split: if_splits sum.splits)

lemma environment_certificates_win:
  "env ''SSL_CERT_FILE'' = Some f \<Longrightarrow> f \<noteq> [] \<Longrightarrow> fst (choose_certificates env isf isd) = Some f"
  by (simp add: choose_certificates_def environment_non_empty_def Let_def)

text \<open>Every call counts as exactly one clone, one fetch or one failure.\<close>

lemma prepare_counts_once:
  assumes "prepare_repository lg url path branch now g im m = (r, g', im', m')"
  shows "(git_clones_total m', git_fetches_total m', git_failures_total m') \<in>
    {(git_clones_total m + 1, git_fetches_total m, git_failures_total m),
     (git_clones_total m, git_fetches_total m + 1, git_failures_total m),
     (git_clones_total m, git_fetches_total m, git_failures_total m + 1)} \<and>
    (git_failures_total m' = git_failures_total m + 1 \<longleftrightarrow> isl r)"
  using assms
  by (auto simp: prepare_repository_def git_failed_def git_succeeded_def Let_def
      split: prod.splits sum.splits option.splits if_splits)

lemma open_or_clone_existing:
  assumes "lg_exists lg g path" "lg_exists lg g (path @ ''/.git'')" "lg_open lg g path = (e, r)" "0 \<le> e"
  shows "open_or_clone lg url path g im = (Inr False, g, im\<lparr>git_repo := Some r\<rparr>)"
  using assms by (simp add: open_or_clone_def)

lemma open_or_clone_repo:
  "open_or_clone lg url path g im = (Inr cloned, g', im') \<Longrightarrow> \<exists>r. git_repo im' = Some r"
  by (auto simp: open_or_clone_def Let_def split: prod.splits if_splits)

text \<open>C18: an existing checkout of another repository is never touched. When a checkout exists at the
  path and its origin is not the configured URL, preparing it fails with the message that names the
  two settings, the repositories are exactly as before, no commit time is recorded, and one failure
  is counted.
\<close>

theorem foreign_checkout_untouched:
  assumes "lg_exists lg g path" "lg_exists lg g (path @ ''/.git'')" "lg_open lg g path = (e, r)" "0 \<le> e"
    and "0 \<le> lg_remote_lookup lg g r" "lg_remote_url lg g r \<noteq> Some url"
  shows "prepare_repository lg url path branch now g im m =
    (Inl origin_mismatch, g, im\<lparr>git_repo := Some r\<rparr>, m\<lparr>git_failures_total := git_failures_total m + 1\<rparr>)"
  using open_or_clone_existing [OF assms(1-4), of url im] assms(5,6)
  by (simp add: prepare_repository_def fetch_and_reset_def git_failed_def)

text \<open>the recorded commit time is the one of the checked-out commit. If resetting moves the head to
  the given commit, fetching leaves the head alone and every head with a target has a commit, then
  after every successful preparation the head of the repository is a commit whose time is what
  \<open>last_commit_unix\<close> answers.
\<close>

theorem prepared_commit_time:
  assumes reset: "\<And>g r c e g'. lg_reset_hard lg g r c = (e, g') \<Longrightarrow> 0 \<le> e \<Longrightarrow>
      lg_head lg g' r = Some (Some (commit_oid c), Some (commit_time c))"
    and fetch: "\<And>g r d. lg_head lg (snd (lg_fetch lg g r d)) r = lg_head lg g r"
    and head: "\<And>g r target time. lg_head lg g r = Some (Some target, time) \<Longrightarrow> time \<noteq> None"
    and prep: "prepare_repository lg url path branch now g im m = (Inr p, g', im', m')"
  shows "\<exists>r target. git_repo im' = Some r \<and> lg_head lg g' r = Some (Some target, Some (last_commit_unix im'))"
proof -
  obtain o1 g1 im1 where o: "open_or_clone lg url path g im = (o1, g1, im1)" by (cases "open_or_clone lg url path g im")
  with prep obtain cloned where "o1 = Inr cloned" by (cases o1) (auto simp: prepare_repository_def)
  then obtain r where r: "git_repo im1 = Some r"
    using open_or_clone_repo [of lg url path g im cloned g1 im1] o by auto
  have f: "fetch_and_reset lg url branch r g1 im1 = (Inr (), g', im')"
    using prep o \<open>o1 = Inr cloned\<close> r by (auto simp: prepare_repository_def split: prod.splits sum.splits)
  have known: "\<exists>target. lg_head lg g1 r = Some (Some target, Some (snd (local_head lg g1 r)))"
    if "fst (local_head lg g1 r) = Some oid" for oid
    using that head [of g1 r] by (auto simp: local_head_def split: option.splits prod.splits)
  have "git_repo im' = Some r" using f r
    by (auto simp: fetch_and_reset_def Let_def split: prod.splits if_splits)
  moreover have "\<exists>target. lg_head lg g' r = Some (Some target, Some (last_commit_unix im'))"
  proof -
    obtain loc lt where l: "local_head lg g1 r = (loc, lt)" by fastforce
    obtain e2 g2 where g2: "lg_fetch lg g1 r (fetch_depth url) = (e2, g2)" by fastforce
    have h2: "lg_head lg g2 r = lg_head lg g1 r" using fetch [of g1 r "fetch_depth url"] g2 by simp
    show ?thesis
    proof (cases "needs_fetch lg g1 r branch loc")
      case False
      then obtain oid where "loc = Some oid" by (auto simp: needs_fetch_def split: option.splits)
      then show ?thesis using f l False known by (auto simp: fetch_and_reset_def last_commit_unix_def Let_def split: if_splits)
    next
      case True
      obtain e3 c where c: "lg_reference_peel lg g2 r (''refs/remotes/origin/'' @ branch) = (e3, c)" by fastforce
      obtain e4 g4 where g4: "lg_reset_hard lg g2 r c = (e4, g4)" by fastforce
      show ?thesis
      proof (cases "loc \<noteq> None \<and> commit_time c \<le> lt")
        case kept: True
        then have "g' = g2" "last_commit_time im' = lt"
          using f l True g2 c by (auto simp: fetch_and_reset_def Let_def split: if_splits)
        then show ?thesis using kept known l h2 by (auto simp: last_commit_unix_def)
      next
        case reset': False
        then have "g' = g4" "0 \<le> e4" "last_commit_time im' = commit_time c"
          using f l True g2 c g4 by (auto simp: fetch_and_reset_def Let_def split: if_splits)
        then show ?thesis using reset [OF g4] by (simp add: last_commit_unix_def)
      qed
    qed
  qed
  ultimately show ?thesis by blast
qed

text \<open>a remote branch that was moved to an older commit is not followed. When the local head is a
  commit at least as recent as the commit the remote branch now points to, the fetch is done but the
  worktree is not reset: the call succeeds with the old checkout and its time, although the branch
  names another commit.
\<close>

theorem older_remote_not_followed:
  assumes "lg_exists lg g path" "lg_exists lg g (path @ ''/.git'')" "lg_open lg g path = (e, r)" "0 \<le> e"
    and "0 \<le> lg_remote_lookup lg g r" "lg_remote_url lg g r = Some url"
    and "lg_head lg g r = Some (Some oid, Some lt)" "lg_ls lg g r = Some [(''refs/heads/'' @ branch, commit_oid c)]"
    and "commit_oid c \<noteq> oid" "commit_time c \<le> lt"
    and "lg_fetch lg g r (fetch_depth url) = (e2, g2)" "0 \<le> e2"
    and "0 \<le> lg_reference_lookup lg g2 r (''refs/remotes/origin/'' @ branch)"
    and "lg_reference_peel lg g2 r (''refs/remotes/origin/'' @ branch) = (e3, c)" "0 \<le> e3"
  shows "prepare_repository lg url path branch now g im m =
    (Inr path, g2, im\<lparr>git_repo := Some r, last_commit_time := lt\<rparr>, git_succeeded False now m)"
proof -
  have l: "local_head lg g r = (Some oid, lt)" using assms(7) by (simp add: local_head_def)
  have n: "needs_fetch lg g r branch (Some oid)" using assms(8,9) by (simp add: needs_fetch_def)
  have "fetch_and_reset lg url branch r g (im\<lparr>git_repo := Some r\<rparr>) =
      (Inr (), g2, im\<lparr>git_repo := Some r, last_commit_time := lt\<rparr>)"
    using assms(5,6,10-15) l n by (simp add: fetch_and_reset_def)
  then show ?thesis using open_or_clone_existing [OF assms(1-4), of url im] by (simp add: prepare_repository_def)
qed

text \<open>
  A libgit2 over one remote branch: the state is the commit that is checked out, if any, the remote
  has one branch with the given commit, and every call succeeds.
\<close>

definition one_branch_git :: "string \<Rightarrow> string \<Rightarrow> git_commit \<Rightarrow> (git_commit option, unit) libgit2" where
  "one_branch_git url branch c = \<lparr>
     lg_init = 1, lg_set_ssl_cert_locations = (\<lambda>_ _. 0), lg_error_last = (\<lambda>_. None),
     lg_exists = (\<lambda>g _. g \<noteq> None), lg_open = (\<lambda>_ _. (0, ())),
     lg_clone = (\<lambda>_ _ _ _. ((0, ()), Some c)),
     lg_remote_lookup = (\<lambda>_ _. 0), lg_remote_url = (\<lambda>_ _. Some url),
     lg_head = (\<lambda>g _. map_option (\<lambda>h. (Some (commit_oid h), Some (commit_time h))) g),
     lg_ls = (\<lambda>_ _. Some [(''refs/heads/'' @ branch, commit_oid c)]),
     lg_fetch = (\<lambda>g _ _. (0, g)), lg_reference_lookup = (\<lambda>_ _ _. 0),
     lg_reference_peel = (\<lambda>_ _ _. (0, c)), lg_reset_hard = (\<lambda>_ _ h. (0, Some h))\<rparr>"

lemmas one_branch_simps = one_branch_git_def prepare_repository_def open_or_clone_def fetch_and_reset_def
  needs_fetch_def local_head_def git_repository_new_def last_commit_unix_def Let_def

theorem foreign_checkout_untouched_witness:
  "prepare_repository (one_branch_git ''https://a'' ''master'' \<lparr>commit_oid = ''1'', commit_time = 5\<rparr>)
     ''https://b'' ''/data'' ''master'' 9 (Some \<lparr>commit_oid = ''2'', commit_time = 4\<rparr>) git_repository_new firehol_metrics_new =
   (Inl origin_mismatch, Some \<lparr>commit_oid = ''2'', commit_time = 4\<rparr>, git_repository_new\<lparr>git_repo := Some ()\<rparr>,
    firehol_metrics_new\<lparr>git_failures_total := git_failures_total firehol_metrics_new + 1\<rparr>)"
  by (rule foreign_checkout_untouched [where e = 0]) (simp_all add: one_branch_git_def)

theorem prepared_commit_time_witness:
  "\<exists>r target. git_repo (git_repository_new\<lparr>git_repo := Some (), last_commit_time := 5\<rparr>) = Some r \<and>
     lg_head (one_branch_git ''https://a'' ''master'' \<lparr>commit_oid = ''1'', commit_time = 5\<rparr>)
       (Some \<lparr>commit_oid = ''1'', commit_time = 5\<rparr>) r =
     Some (Some target, Some (last_commit_unix (git_repository_new\<lparr>git_repo := Some (), last_commit_time := 5\<rparr>)))"
  by (rule prepared_commit_time [where url = "''https://a''" and path = "''/data''" and branch = "''master''"
        and g = "Some \<lparr>commit_oid = ''2'', commit_time = 4\<rparr>" and im = git_repository_new and now = 9
        and m = firehol_metrics_new and p = "''/data''" and m' = "git_succeeded False 9 firehol_metrics_new"])
     (auto simp: one_branch_simps)

theorem older_remote_not_followed_witness:
  "prepare_repository (one_branch_git ''https://a'' ''master'' \<lparr>commit_oid = ''1'', commit_time = 5\<rparr>)
     ''https://a'' ''/data'' ''master'' 9 (Some \<lparr>commit_oid = ''2'', commit_time = 6\<rparr>) git_repository_new firehol_metrics_new =
   (Inr ''/data'', Some \<lparr>commit_oid = ''2'', commit_time = 6\<rparr>,
    git_repository_new\<lparr>git_repo := Some (), last_commit_time := 6\<rparr>, git_succeeded False 9 firehol_metrics_new)"
  by (rule older_remote_not_followed [where oid = "''2''" and c = "\<lparr>commit_oid = ''1'', commit_time = 5\<rparr>"
        and e = 0 and ?e2.0 = 0 and ?e3.0 = 0])
     (simp_all add: one_branch_git_def)

end
