(* ===== verification/Mmdb.thy ===== *)
theory Mmdb
  imports Utils
begin

text \<open>
  Lookups in a MaxMind database (\<open>src/mmdb/mmdb.h\<close>, \<open>mmdb.cpp\<close>). libmaxminddb is not part of the
  sources: its functions are the fields of \<open>maxminddb\<close>, a parameter of every operation that calls
  it. A handle is any type \<open>'db\<close>; the file system and the open mappings are any type \<open>'w\<close> that
  opening and closing transform. The union of \<open>MMDB_entry_data_s\<close> is one datatype.
\<close>

section \<open>The library's interface\<close>

datatype entry_value =
  EMap | EArray | EString string | EDouble u64 | EFloat u32 | EBoolean bool
| EUint16 u16 | EUint32 u32 | EInt32 u32 | EUint64 u64 | EBytes bytes | EUint128 "128 word"
| EOther nat

record entry_data =
  ed_value :: entry_value
  ed_size :: u32
  ed_offset :: u32

record 'db entry =
  entry_mmdb :: 'db
  entry_offset :: u32

record 'db lookup_result =
  found_entry :: bool
  result_entry :: "'db entry"

datatype sockaddr = Sockaddr_in bytes | Sockaddr_in6 bytes

record metadata =
  md_database_type :: "string option"
  md_ip_version :: u16
  md_record_size :: u16
  md_node_count :: u32
  md_major :: u16
  md_minor :: u16
  md_build_epoch :: u64
  md_languages :: "string option list"
  md_descriptions :: "string option option list"

record ('db, 'w) maxminddb =
  MMDB_open :: "string \<Rightarrow> 'w \<Rightarrow> (int \<times> 'db) \<times> 'w"
  MMDB_close :: "'db \<Rightarrow> 'w \<Rightarrow> 'w"
  MMDB_strerror :: "int \<Rightarrow> string"
  MMDB_metadata :: "'db \<Rightarrow> metadata"
  MMDB_lookup_sockaddr :: "'db \<Rightarrow> sockaddr \<Rightarrow> 'db lookup_result \<times> int"
  MMDB_lookup_string :: "'db \<Rightarrow> string \<Rightarrow> 'db lookup_result \<times> int \<times> int"
  MMDB_aget_value :: "'db entry \<Rightarrow> string list \<Rightarrow> int \<times> entry_data"
  MMDB_get_entry_data_list :: "'db entry \<Rightarrow> int \<times> entry_data list option"
  inet_pton6 :: "string \<Rightarrow> bytes option"

text \<open>The values documented in \<open>maxminddb.h\<close>.\<close>

definition MMDB_SUCCESS :: int where
  "MMDB_SUCCESS = 0"

definition MMDB_INVALID_DATA_ERROR :: int where
  "MMDB_INVALID_DATA_ERROR = 7"

section \<open>Lookups\<close>

definition lookup_sockaddr ::
  "('db, 'w) maxminddb \<Rightarrow> 'db \<Rightarrow> sockaddr \<Rightarrow> 'db lookup_result \<times> int" where
  "lookup_sockaddr lib db address = MMDB_lookup_sockaddr lib db address"

definition lookup_ipv4 :: "('db, 'w) maxminddb \<Rightarrow> 'db \<Rightarrow> bytes \<Rightarrow> 'db lookup_result \<times> int" where
  "lookup_ipv4 lib db octets = lookup_sockaddr lib db (Sockaddr_in octets)"

definition lookup_ipv6 :: "('db, 'w) maxminddb \<Rightarrow> 'db \<Rightarrow> bytes \<Rightarrow> 'db lookup_result \<times> int" where
  "lookup_ipv6 lib db octets = lookup_sockaddr lib db (Sockaddr_in6 octets)"

text \<open>The text reaches the library as a C string, from a stack or a heap copy alike.\<close>

definition lookup_string :: "('db, 'w) maxminddb \<Rightarrow> 'db \<Rightarrow> string \<Rightarrow> 'db lookup_result \<times> int" where
  "lookup_string lib db ipstr =
     (case parse_ipv4 ipstr of
        Some v4 \<Rightarrow> lookup_ipv4 lib db v4
      | None \<Rightarrow>
          (case parse_ipv6 (inet_pton6 lib) ipstr of
             Some v6 \<Rightarrow> lookup_ipv6 lib db v6
           | None \<Rightarrow>
               (let (result, gai_error, error) = MMDB_lookup_string lib db (c_string ipstr);
                    error = (if gai_error \<noteq> 0 then MMDB_INVALID_DATA_ERROR - 1000 + gai_error else error)
                in (result, error))))"

section \<open>Categories of an entry\<close>

record 'db category_array =
  ca_entry :: "'db entry option"
  ca_size :: nat

definition category_array ::
  "('db, 'w) maxminddb \<Rightarrow> 'db lookup_result \<Rightarrow> 'db category_array" where
  "category_array lib result =
     (if \<not> found_entry result then \<lparr>ca_entry = None, ca_size = 0\<rparr>
      else
        (let (status, arr) = MMDB_aget_value lib (result_entry result) [''category''] in
         if status \<noteq> MMDB_SUCCESS \<or> ed_value arr \<noteq> EArray then \<lparr>ca_entry = None, ca_size = 0\<rparr>
         else \<lparr>ca_entry = Some \<lparr>entry_mmdb = entry_mmdb (result_entry result), entry_offset = ed_offset arr\<rparr>,
               ca_size = unat (ed_size arr)\<rparr>))"

definition category_at :: "('db, 'w) maxminddb \<Rightarrow> 'db category_array \<Rightarrow> nat \<Rightarrow> string option" where
  "category_at lib arr index =
     (case ca_entry arr of
        None \<Rightarrow> None
      | Some entry \<Rightarrow>
          (let (status, element) = MMDB_aget_value lib entry [to_string index] in
           if status \<noteq> MMDB_SUCCESS then None
           else case ed_value element of EString s \<Rightarrow> Some s | _ \<Rightarrow> None))"

text \<open>The visitor is a state transformer that says whether to go on.\<close>

function visit_categories ::
  "('db, 'w) maxminddb \<Rightarrow> 'db category_array \<Rightarrow> nat \<Rightarrow> (string \<Rightarrow> 's \<Rightarrow> bool \<times> 's) \<Rightarrow> 's \<Rightarrow> 's" where
  "visit_categories lib arr index visit st =
     (if index < ca_size arr then
        (case category_at lib arr index of
           None \<Rightarrow> visit_categories lib arr (index + 1) visit st
         | Some category \<Rightarrow>
             (let (more, st) = visit category st in
              if more then visit_categories lib arr (index + 1) visit st else st))
      else st)"
  by pat_completeness auto
termination
  by (relation "measure (\<lambda>(lib, arr, index, visit, st). ca_size arr - index)") auto

declare visit_categories.simps [simp del]

definition for_each_category ::
  "('db, 'w) maxminddb \<Rightarrow> 'db lookup_result \<Rightarrow> (string \<Rightarrow> 's \<Rightarrow> bool \<times> 's) \<Rightarrow> 's \<Rightarrow> 's" where
  "for_each_category lib result visit st = visit_categories lib (category_array lib result) 0 visit st"

function collect_categories ::
  "('db, 'w) maxminddb \<Rightarrow> 'db category_array \<Rightarrow> nat \<Rightarrow> string list \<Rightarrow> string list" where
  "collect_categories lib arr index out =
     (if index < ca_size arr then
        collect_categories lib arr (index + 1)
          (case category_at lib arr index of None \<Rightarrow> out | Some category \<Rightarrow> out @ [category])
      else out)"
  by pat_completeness auto
termination
  by (relation "measure (\<lambda>(lib, arr, index, out). ca_size arr - index)") auto

declare collect_categories.simps [simp del]

definition get_categories :: "('db, 'w) maxminddb \<Rightarrow> 'db lookup_result \<Rightarrow> string list" where
  "get_categories lib result = collect_categories lib (category_array lib result) 0 []"

section \<open>Printing an entry\<close>

definition hex_digits :: string where
  "hex_digits = ''0123456789abcdef''"

definition append_hex :: "string \<Rightarrow> bytes \<Rightarrow> string" where
  "append_hex out bs =
     fold (\<lambda>b out. out @ [hex_digits ! unat (drop_bit 4 b)] @ [hex_digits ! unat (b AND 0x0f)]) bs out"

lemma shift_four_less:
  fixes v :: "'a :: len word"
  assumes "drop_bit 4 v \<noteq> 0"
  shows "unat (drop_bit 4 v) < unat v"
proof -
  have "unat (drop_bit 4 v) = unat v div 16"
    by (simp add: unat_drop_bit)
  moreover have "unat (drop_bit 4 v) \<noteq> 0"
    using assms by (simp add: unat_eq_zero)
  ultimately show ?thesis by (metis div_less_dividend gr0I div_0 numeral_One numeral_less_iff
        semiring_norm(76))
qed

text \<open>The \<open>do\<close> loop fills its buffer from the end; 32 digits are enough for 128 bits.\<close>

function uint128_digits :: "128 word \<Rightarrow> string \<Rightarrow> string" where
  "uint128_digits v buf =
     (let buf = hex_digits ! unat (v AND 0x0f) # buf; v = drop_bit 4 v in
      if v \<noteq> 0 then uint128_digits v buf else buf)"
  by pat_completeness auto
termination
  by (relation "measure (\<lambda>(v, buf). unat v)") (auto intro: shift_four_less)

declare uint128_digits.simps [simp del]

definition append_uint128 :: "bool \<Rightarrow> string \<Rightarrow> 128 word \<Rightarrow> string" where
  "append_uint128 is_byte_array out v =
     (if is_byte_array then append_hex out (map (\<lambda>i. ucast (drop_bit (8 * i) v)) (rev [0..<16]))
      else out @ uint128_digits v [])"

definition append_integer :: "string \<Rightarrow> int \<Rightarrow> string" where
  "append_integer out v = out @ (if v < 0 then ''-'' @ to_string (nat (- v)) else to_string (nat v))"

text \<open>\<open>std::to_string\<close> on floating-point values (the \<open>printf\<close> format \<open>%f\<close>) and the build option of
  the library are the parameter \<open>fmt\<close>.\<close>

record dump_format =
  double_text :: "u64 \<Rightarrow> string"
  float_text :: "u32 \<Rightarrow> string"
  uint128_is_byte_array :: bool

text \<open>One scalar, without the bookkeeping of the cursor.\<close>

fun dump_scalar :: "dump_format \<Rightarrow> entry_value \<Rightarrow> string \<Rightarrow> string" where
  "dump_scalar fmt (EString s) out = out @ ''\"'' @ s @ ''\"''"
| "dump_scalar fmt (EDouble d) out = out @ double_text fmt d"
| "dump_scalar fmt (EFloat f) out = out @ float_text fmt f"
| "dump_scalar fmt (EBoolean b) out = out @ (if b then ''true'' else ''false'')"
| "dump_scalar fmt (EUint16 n) out = append_integer out (uint n)"
| "dump_scalar fmt (EUint32 n) out = append_integer out (uint n)"
| "dump_scalar fmt (EInt32 n) out = append_integer out (sint n)"
| "dump_scalar fmt (EUint64 n) out = append_integer out (uint n)"
| "dump_scalar fmt (EBytes bs) out = append_hex (out @ ''0x'') bs"
| "dump_scalar fmt (EUint128 n) out = append_uint128 (uint128_is_byte_array fmt) out n"
| "dump_scalar fmt _ out = out @ ''null''"

function dump_node :: "dump_format \<Rightarrow> string \<Rightarrow> entry_data list \<Rightarrow> string \<times> entry_data list"
  and dump_map :: "dump_format \<Rightarrow> nat \<Rightarrow> bool \<Rightarrow> string \<Rightarrow> entry_data list \<Rightarrow> string \<times> entry_data list"
  and dump_array :: "dump_format \<Rightarrow> nat \<Rightarrow> bool \<Rightarrow> string \<Rightarrow> entry_data list \<Rightarrow> string \<times> entry_data list"
where
  "dump_node fmt out cursor =
     (case cursor of
        [] \<Rightarrow> (out @ ''null'', [])
      | data # cursor \<Rightarrow>
          (case ed_value data of
             EMap \<Rightarrow> (let (out, cursor) = dump_map fmt (unat (ed_size data)) True (out @ ''{'') cursor
                     in (out @ ''}'', cursor))
           | EArray \<Rightarrow> (let (out, cursor) = dump_array fmt (unat (ed_size data)) True (out @ ''['') cursor
                       in (out @ '']'', cursor))
           | v \<Rightarrow> (dump_scalar fmt v out, cursor)))"
| "dump_map fmt n first out cursor =
     (if n = 0 then (out, cursor)
      else
        (let out = (if first then out else out @ '','');
             (out, cursor) =
               (case cursor of
                  key # rest \<Rightarrow>
                    (case ed_value key of
                       EString s \<Rightarrow> (out @ ''\"'' @ s @ ''\":'', rest)
                     | _ \<Rightarrow> (out, cursor))
                | [] \<Rightarrow> (out, cursor));
             (out, cursor) = dump_node fmt out cursor
         in dump_map fmt (n - 1) False out cursor))"
| "dump_array fmt n first out cursor =
     (if n = 0 then (out, cursor)
      else
        (let out = (if first then out else out @ '','');
             (out, cursor) = dump_node fmt out cursor
         in dump_array fmt (n - 1) False out cursor))"
  by pat_completeness auto
termination
proof -
  have dump_cursor_length:
    "dump_node_dump_map_dump_array_dom (Inl (fmt, out, cursor)) \<Longrightarrow>
       length (snd (dump_node fmt out cursor)) \<le> length cursor"
    "dump_node_dump_map_dump_array_dom (Inr (Inl (fmt, n, first, out, cursor))) \<Longrightarrow>
       length (snd (dump_map fmt n first out cursor)) \<le> length cursor"
    "dump_node_dump_map_dump_array_dom (Inr (Inr (fmt, n, first, out, cursor))) \<Longrightarrow>
       length (snd (dump_array fmt n first out cursor)) \<le> length cursor"
    for fmt n first out cursor
  proof (induction rule: dump_node_dump_map_dump_array.pinduct)
    case (1 fmt out cursor)
    then show ?case
      by (fastforce simp: dump_node.psimps Let_def split: list.splits entry_value.splits prod.splits)
  next
    case (2 fmt n first out cursor)
    then show ?case
      by (fastforce simp: dump_map.psimps Let_def split: list.splits entry_value.splits prod.splits)
  next
    case (3 fmt n first out cursor)
    then show ?case
      by (fastforce simp: dump_array.psimps Let_def split: prod.splits)
  qed
  show ?thesis
  proof (relation "inv_image (less_than <*lex*> less_than)
      (\<lambda>x. case x of
         Inl (fmt, out, cursor) \<Rightarrow> (length cursor, 0)
       | Inr (Inl (fmt, n, first, out, cursor)) \<Rightarrow> (length cursor, n + 1)
       | Inr (Inr (fmt, n, first, out, cursor)) \<Rightarrow> (length cursor, n + 1))", goal_cases)
    case 1
    show ?case by auto
  next
    case 2
    then show ?case by simp
  next
    case 3
    then show ?case by simp
  next
    case (4 fmt n first out cursor out' p out'' cursor')
    then show ?case by (auto split: list.splits entry_value.splits)
  next
    case (5 fmt n first out cursor out' p out'' cursor' q out3 cursor3)
    then have "length cursor3 \<le> length cursor'" and "length cursor' \<le> length cursor"
      using dump_cursor_length(1) [of fmt out'' cursor']
      by (auto split: list.splits entry_value.splits dest: arg_cong [of _ _ snd])
    with 5(1) show ?case by auto
  next
    case (6 fmt n first out cursor out')
    then show ?case by simp
  next
    case (7 fmt n first out cursor out' q out3 cursor3)
    then have "length cursor3 \<le> length cursor"
      using dump_cursor_length(1) [of fmt out' cursor] by (auto dest: arg_cong [of _ _ snd])
    with 7(1) show ?case by auto
  qed
qed

declare dump_node.simps [simp del] dump_map.simps [simp del] dump_array.simps [simp del]

definition format_entry ::
  "dump_format \<Rightarrow> ('db, 'w) maxminddb \<Rightarrow> 'db lookup_result \<Rightarrow> string" where
  "format_entry fmt lib result =
     (if \<not> found_entry result then []
      else
        (let (status, list) = MMDB_get_entry_data_list lib (result_entry result) in
         if status \<noteq> MMDB_SUCCESS \<or> list = None then ''(failed to read entry data)''
         else fst (dump_node fmt [] (the list))))"

section \<open>Ownership of the mapping\<close>

record 'db mmdb =
  mmdb_handle :: "'db option"
  mmdb_open_flag :: bool
  mmdb_path :: string

definition mmdb_new :: "'db mmdb" where
  "mmdb_new = \<lparr>mmdb_handle = None, mmdb_open_flag = False, mmdb_path = []\<rparr>"

definition mmdb_close ::
  "('db, 'w) maxminddb \<Rightarrow> 'db mmdb \<Rightarrow> 'w \<Rightarrow> 'db mmdb \<times> 'w" where
  "mmdb_close lib m w =
     (if mmdb_open_flag m
      then (\<lparr>mmdb_handle = None, mmdb_open_flag = False, mmdb_path = []\<rparr>,
            case mmdb_handle m of None \<Rightarrow> w | Some h \<Rightarrow> MMDB_close lib h w)
      else (m, w))"

definition mmdb_open ::
  "('db, 'w) maxminddb \<Rightarrow> 'db mmdb \<Rightarrow> string \<Rightarrow> 'w \<Rightarrow> 'db mmdb \<times> 'w \<times> unit res" where
  "mmdb_open lib m path w =
     (let opened_path = path;
          (m, w) = mmdb_close lib m w;
          ((status, handle), w) = MMDB_open lib (c_string opened_path) w
      in if status \<noteq> MMDB_SUCCESS
         then (m, w, Inl (Error (''MMDB_open failed for '' @ [CHR 0x27] @ opened_path @ [CHR 0x27] @ '': '' @ MMDB_strerror lib status)))
         else (m\<lparr>mmdb_handle := Some handle, mmdb_open_flag := True, mmdb_path := opened_path\<rparr>, w, Inr ()))"

text \<open>The constructor from a path; when it throws there is no object.\<close>

definition mmdb_construct ::
  "('db, 'w) maxminddb \<Rightarrow> string \<Rightarrow> 'w \<Rightarrow> 'w \<times> 'db mmdb res" where
  "mmdb_construct lib path w =
     (let (m, w, r) = mmdb_open lib mmdb_new path w in (w, rbind r (\<lambda>_. Inr m)))"

text \<open>Moving from another object; assigning an object to itself does nothing and is left out. The
  library leaves a moved-from string empty.\<close>

definition mmdb_move_construct :: "'db mmdb \<Rightarrow> 'db mmdb \<times> 'db mmdb" where
  "mmdb_move_construct other =
     (\<lparr>mmdb_handle = mmdb_handle other, mmdb_open_flag = mmdb_open_flag other, mmdb_path = mmdb_path other\<rparr>,
      \<lparr>mmdb_handle = None, mmdb_open_flag = False, mmdb_path = []\<rparr>)"

definition mmdb_move_assign ::
  "('db, 'w) maxminddb \<Rightarrow> 'db mmdb \<Rightarrow> 'db mmdb \<Rightarrow> 'w \<Rightarrow> ('db mmdb \<times> 'db mmdb) \<times> 'w" where
  "mmdb_move_assign lib m other w =
     (let (m, w) = mmdb_close lib m w in (mmdb_move_construct other, w))"

fun join_languages :: "string option list \<Rightarrow> bool \<Rightarrow> string \<Rightarrow> string" where
  "join_languages [] first out = out"
| "join_languages (l # ls) first out =
     join_languages ls False
       ((if first then out else out @ '','') @ (case l of Some n \<Rightarrow> n | None \<Rightarrow> ''?''))"

text \<open>\<open>format_epoch\<close> prints with the C library's \<open>gmtime_r\<close> and \<open>strftime\<close>, here a parameter.\<close>

definition metadata_string ::
  "('db, 'w) maxminddb \<Rightarrow> (u64 \<Rightarrow> string) \<Rightarrow> 'db mmdb \<Rightarrow> string" where
  "metadata_string lib format_epoch m =
     (case (if mmdb_open_flag m then mmdb_handle m else None) of
        None \<Rightarrow> ''(database not open)''
      | Some h \<Rightarrow>
          (let md = MMDB_metadata lib h;
               languages = join_languages (md_languages md) True [];
               description = (case md_descriptions md of Some (Some d) # _ \<Rightarrow> d | _ \<Rightarrow> '''')
           in ''type='' @ (case md_database_type md of Some t \<Rightarrow> t | None \<Rightarrow> ''?'')
              @ '' ip_version='' @ to_string (unat (md_ip_version md))
              @ '' record_size='' @ to_string (unat (md_record_size md))
              @ '' node_count='' @ group_thousands (unat (md_node_count md))
              @ '' format='' @ to_string (unat (md_major md)) @ ''.'' @ to_string (unat (md_minor md))
              @ '' built_at='' @ format_epoch (md_build_epoch md)
              @ '' languages='' @ languages @ '' description='' @ description))"

definition build_epoch :: "('db, 'w) maxminddb \<Rightarrow> 'db mmdb \<Rightarrow> u64" where
  "build_epoch lib m = (case mmdb_handle m of Some h \<Rightarrow> md_build_epoch (MMDB_metadata lib h) | None \<Rightarrow> 0)"

section \<open>Categories in database order\<close>

lemma collect_categories_eq:
  "collect_categories lib arr i out = out @ List.map_filter (category_at lib arr) [i..<ca_size arr]"
proof (induction lib arr i out rule: collect_categories.induct)
  case (1 lib arr i out)
  show ?case
  proof (cases "i < ca_size arr")
    case True
    then have "[i..<ca_size arr] = i # [i + 1..<ca_size arr]"
      by (simp add: upt_conv_Cons)
    with 1 True show ?thesis
      by (subst collect_categories.simps) (simp add: List.map_filter_simps split: option.splits)
  qed (subst collect_categories.simps, simp add: List.map_filter_simps)
qed

lemma get_categories_eq:
  "get_categories lib result =
     List.map_filter (category_at lib (category_array lib result)) [0..<ca_size (category_array lib result)]"
  by (simp add: get_categories_def collect_categories_eq)

fun visit_list :: "('a \<Rightarrow> 's \<Rightarrow> bool \<times> 's) \<Rightarrow> 'a list \<Rightarrow> 's \<Rightarrow> 's" where
  "visit_list visit [] st = st"
| "visit_list visit (x # xs) st = (let (more, st) = visit x st in if more then visit_list visit xs st else st)"

lemma visit_categories_eq:
  "visit_categories lib arr i visit st =
     visit_list visit (List.map_filter (category_at lib arr) [i..<ca_size arr]) st"
proof (induction lib arr i visit st rule: visit_categories.induct)
  case (1 lib arr i visit st)
  show ?case
  proof (cases "i < ca_size arr")
    case True
    then have upt: "[i..<ca_size arr] = i # [i + 1..<ca_size arr]"
      by (simp add: upt_conv_Cons)
    show ?thesis
    proof (cases "category_at lib arr i")
      case None
      then show ?thesis
        using 1(1) [OF True None] True
        by (subst visit_categories.simps) (simp add: upt List.map_filter_simps)
    next
      case (Some c)
      obtain more st' where v: "visit c st = (more, st')" by fastforce
      show ?thesis
        using 1(2) [OF True Some v [symmetric] refl] True Some v
        by (subst visit_categories.simps) (auto simp: upt List.map_filter_simps)
    qed
  qed (subst visit_categories.simps, simp add: List.map_filter_simps)
qed

lemma for_each_category_eq:
  "for_each_category lib result visit st = visit_list visit (get_categories lib result) st"
  by (simp add: for_each_category_def visit_categories_eq get_categories_eq)

section \<open>The printer on well-formed entries\<close>

text \<open>A value as a tree, the list of entry data the library returns for it, and its text.\<close>

datatype mmdb_value =
  VMap "(string \<times> mmdb_value) list" | VArray "mmdb_value list" | VScalar entry_value

definition node :: "entry_value \<Rightarrow> nat \<Rightarrow> entry_data" where
  "node v n = \<lparr>ed_value = v, ed_size = of_nat n, ed_offset = 0\<rparr>"

lemma node_simps [simp]: "ed_value (node v n) = v" "ed_size (node v n) = of_nat n"
  by (simp_all add: node_def)

fun flatten :: "mmdb_value \<Rightarrow> entry_data list" where
  "flatten (VMap kvs) =
     node EMap (length kvs) # concat (map (\<lambda>(k, v). node (EString k) (length k) # flatten v) kvs)"
| "flatten (VArray vs) = node EArray (length vs) # concat (map flatten vs)"
| "flatten (VScalar e) = [node e 0]"

fun sep :: "string list \<Rightarrow> string" where
  "sep [] = []"
| "sep [x] = x"
| "sep (x # y # xs) = x @ '','' @ sep (y # xs)"

fun value_text :: "dump_format \<Rightarrow> mmdb_value \<Rightarrow> string" where
  "value_text fmt (VMap kvs) =
     ''{'' @ sep (map (\<lambda>(k, v). ''\"'' @ k @ ''\":'' @ value_text fmt v) kvs) @ ''}''"
| "value_text fmt (VArray vs) = ''['' @ sep (map (value_text fmt) vs) @ '']''"
| "value_text fmt (VScalar e) = dump_scalar fmt e []"

fun value_ok :: "mmdb_value \<Rightarrow> bool" where
  "value_ok (VMap kvs) \<longleftrightarrow> length kvs < 2 ^ 32 \<and> (\<forall>(k, v) \<in> set kvs. value_ok v)"
| "value_ok (VArray vs) \<longleftrightarrow> length vs < 2 ^ 32 \<and> (\<forall>v \<in> set vs. value_ok v)"
| "value_ok (VScalar e) \<longleftrightarrow> e \<noteq> EMap \<and> e \<noteq> EArray"

lemma append_hex_out: "append_hex (xs @ ys) bs = xs @ append_hex ys bs"
  by (induction bs arbitrary: ys) (simp_all add: append_hex_def)

lemma dump_scalar_out: "dump_scalar fmt e out = out @ dump_scalar fmt e []"
  by (cases e) (simp_all add: append_integer_def append_uint128_def
      append_hex_out [of out "[]", simplified] append_hex_out [of out "''0x''", simplified])

definition lead :: "bool \<Rightarrow> string list \<Rightarrow> string" where
  "lead first xs = (if first \<or> xs = [] then sep xs else '','' @ sep xs)"

lemma lead_Cons: "lead first (x # xs) = (if first then '''' else '','') @ x @ lead False xs"
  by (cases xs) (simp_all add: lead_def)

lemma dump_array_flatten:
  assumes "\<And>v out rest. v \<in> set vs \<Longrightarrow> dump_node fmt out (flatten v @ rest) = (out @ value_text fmt v, rest)"
  shows "dump_array fmt (length vs) first out (concat (map flatten vs) @ rest) =
    (out @ lead first (map (value_text fmt) vs), rest)"
  using assms
proof (induction vs arbitrary: first out)
  case Nil
  then show ?case by (subst dump_array.simps) (simp add: lead_def)
next
  case (Cons v vs)
  then show ?case by (subst dump_array.simps) (simp add: lead_Cons)
qed

lemma dump_map_flatten:
  assumes "\<And>k v out rest. (k, v) \<in> set kvs \<Longrightarrow>
    dump_node fmt out (flatten v @ rest) = (out @ value_text fmt v, rest)"
  shows "dump_map fmt (length kvs) first out
      (concat (map (\<lambda>(k, v). node (EString k) (length k) # flatten v) kvs) @ rest) =
    (out @ lead first (map (\<lambda>(k, v). ''\"'' @ k @ ''\":'' @ value_text fmt v) kvs), rest)"
  using assms
proof (induction kvs arbitrary: first out)
  case Nil
  then show ?case by (subst dump_map.simps) (simp add: lead_def)
next
  case (Cons kv kvs)
  obtain k v where kv: "kv = (k, v)" by fastforce
  have v: "dump_node fmt out (flatten v @ rest) = (out @ value_text fmt v, rest)" for out rest
    by (rule Cons.prems [of k]) (simp add: kv)
  note IH = Cons.IH [OF Cons.prems [OF list.set_intros(2)]]
  show ?case
    by (subst dump_map.simps) (simp add: kv v IH lead_Cons)
qed

lemma dump_node_flatten:
  "value_ok v \<Longrightarrow> dump_node fmt out (flatten v @ rest) = (out @ value_text fmt v, rest)"
proof (induction v arbitrary: out rest)
  case (VMap kvs)
  then have "dump_map fmt (length kvs) True (out @ ''{'')
      (concat (map (\<lambda>(k, v). node (EString k) (length k) # flatten v) kvs) @ rest) =
    (out @ ''{'' @ sep (map (\<lambda>(k, v). ''\"'' @ k @ ''\":'' @ value_text fmt v) kvs), rest)"
    by (subst dump_map_flatten) (fastforce simp: lead_def)+
  moreover have "unat (of_nat (length kvs) :: u32) = length kvs"
    using VMap by (simp add: unsigned_of_nat take_bit_nat_eq_self)
  ultimately show ?case by (subst dump_node.simps) simp
next
  case (VArray vs)
  then have "dump_array fmt (length vs) True (out @ ''['') (concat (map flatten vs) @ rest) =
    (out @ ''['' @ sep (map (value_text fmt) vs), rest)"
    by (subst dump_array_flatten) (simp_all add: lead_def)
  moreover have "unat (of_nat (length vs) :: u32) = length vs"
    using VArray by (simp add: unsigned_of_nat take_bit_nat_eq_self)
  ultimately show ?case by (subst dump_node.simps) simp
next
  case (VScalar e)
  then show ?case
    by (subst dump_node.simps) (simp split: entry_value.splits flip: dump_scalar_out)
qed

section \<open>Properties\<close>

text \<open>the text of an IPv4 address is looked up as that address: the name resolver of the library
  is never asked.\<close>

theorem lookup_string_dotted_quad:
  "lookup_string lib db (to_string (unat a) @ ''.'' @ to_string (unat b) @ ''.'' @
      to_string (unat c) @ ''.'' @ to_string (unat d)) =
    MMDB_lookup_sockaddr lib db (Sockaddr_in [a, b, c, d])"
proof -
  have "parse_ipv4 (dotted [a, b, c, d]) = Some [a, b, c, d]"
    by (simp add: parse_ipv4_iff)
  then show ?thesis
    by (simp add: lookup_string_def lookup_ipv4_def lookup_sockaddr_def)
qed

text \<open>visiting the categories of an entry calls the visitor on the collected categories in
  database order and stops at the first refusal; the collected categories are the string members
  of the array by index, other members skipped.\<close>

theorem for_each_category_visits:
  "for_each_category lib result visit st = visit_list visit (get_categories lib result) st \<and>
   get_categories lib result =
     List.map_filter (category_at lib (category_array lib result)) [0..<ca_size (category_array lib result)]"
  by (simp add: for_each_category_eq get_categories_eq)

text \<open>printing an entry whose data list is the flattening of a value gives the text of that
  value, whatever data follows: every call consumes exactly one complete value.\<close>

theorem format_entry_value:
  assumes "value_ok v" and "found_entry result"
    and "MMDB_get_entry_data_list lib (result_entry result) = (MMDB_SUCCESS, Some (flatten v @ rest))"
  shows "format_entry fmt lib result = value_text fmt v"
  using assms by (simp add: format_entry_def dump_node_flatten)

definition example_lib :: "(unit, unit) maxminddb" where
  "example_lib =
     \<lparr>MMDB_open = \<lambda>_ w. ((0, ()), w), MMDB_close = \<lambda>_ w. w, MMDB_strerror = \<lambda>_. ''error'',
      MMDB_metadata = \<lambda>_. \<lparr>md_database_type = None, md_ip_version = 6, md_record_size = 28,
        md_node_count = 1, md_major = 2, md_minor = 0, md_build_epoch = 0, md_languages = [], md_descriptions = []\<rparr>,
      MMDB_lookup_sockaddr = \<lambda>_ _. (\<lparr>found_entry = True, result_entry = \<lparr>entry_mmdb = (), entry_offset = 0\<rparr>\<rparr>, 0),
      MMDB_lookup_string = \<lambda>_ _. (\<lparr>found_entry = False, result_entry = \<lparr>entry_mmdb = (), entry_offset = 0\<rparr>\<rparr>, 0, 0),
      MMDB_aget_value = \<lambda>_ p. (0, if p = [''category''] then node EArray 1 else node (EString ''abuse'') 5),
      MMDB_get_entry_data_list = \<lambda>_. (0, Some (flatten (VMap [(''category'', VArray [VScalar (EString ''abuse'')])]))),
      inet_pton6 = \<lambda>_. None\<rparr>"

theorem format_entry_value_witness:
  "format_entry \<lparr>double_text = \<lambda>_. [], float_text = \<lambda>_. [], uint128_is_byte_array = False\<rparr> example_lib
     \<lparr>found_entry = True, result_entry = \<lparr>entry_mmdb = (), entry_offset = 0\<rparr>\<rparr> =
   ''{\"category\":[\"abuse\"]}''"
  using format_entry_value [of "VMap [(''category'', VArray [VScalar (EString ''abuse'')])]"
      "\<lparr>found_entry = True, result_entry = \<lparr>entry_mmdb = (), entry_offset = 0\<rparr>\<rparr>" example_lib "[]"
      "\<lparr>double_text = \<lambda>_. [], float_text = \<lambda>_. [], uint128_is_byte_array = False\<rparr>"]
  by (simp add: example_lib_def MMDB_SUCCESS_def)

end
