(* ===== verification/App.thy ===== *)
theory App
  imports Compile_Correct Git_Repository Mmdb
begin

text \<open>
  The application around the agent (\<open>src/main.cpp\<close>, \<open>src/app_config.cpp\<close>): the configuration from
  the environment, the job that synchronises the repository and compiles the database, the decision
  whether the process may serve, and the configuration files of Seastar. The job composes the
  models of the repository, the database reader and the compiler. libgit2, libmaxminddb and
  Boost.Program_options are parameters.
\<close>

section \<open>The configuration\<close>

record app_config =
  listen_address :: string
  metrics_listen_address :: string
  drop_by_category :: string
  cfg_mmdb_path :: string
  firehol_git_path :: string
  firehol_git_repo_url :: string

text \<open>\<open>absolute\<close> is \<open>std::filesystem::absolute\<close>, which depends on the working directory.\<close>

definition read_app_config :: "(string \<Rightarrow> string option) \<Rightarrow> (string \<Rightarrow> string) \<Rightarrow> app_config" where
  "read_app_config getenv absolute =
     (let mmdb_path = environment_or getenv ''MMDB_PATH'' ''firehol.mmdb''
      in \<lparr>listen_address = environment_or getenv ''SERVER_LISTEN_ADDRESS'' ''0.0.0.0:9000'',
          metrics_listen_address = environment_or getenv ''METRICS_LISTEN_ADDRESS'' ''0.0.0.0:9100'',
          drop_by_category = environment_or getenv ''DROP_BY_CATEGORY'' '''',
          cfg_mmdb_path = (if mmdb_path \<noteq> [] then absolute mmdb_path else []),
          firehol_git_path = absolute (environment_or getenv ''FIREHOL_GIT_PATH'' ''firehol-blocklist-ipsets''),
          firehol_git_repo_url = environment_or getenv ''FIREHOL_GIT_REPO_URL''
            ''https://github.com/firehol/blocklist-ipsets''\<rparr>)"

section \<open>The job\<close>

text \<open>
  What the job calls. The lists the compiler finds are those of the checkout, so its environment is a
  function of the state of the repositories. \<open>je_directory\<close> says which paths are directories; the
  other existing paths are the files of the file system, and asking whether a path exists does not fail.
\<close>

record ('g, 'r, 'db, 'tm) job_env =
  je_git :: "('g, 'r) libgit2"
  je_getenv :: "string \<Rightarrow> string option"
  je_directory :: "string \<Rightarrow> bool"
  je_lib :: "('db, file_system) maxminddb"
  je_compile :: "'g \<Rightarrow> 'tm compile_env"
  je_now :: u64

text \<open>The process: the repositories, the files, the counters, and how often libgit2 is initialised.\<close>

record 'g world =
  wd_git :: 'g
  wd_files :: file_system
  wd_metrics :: firehol_metrics
  wd_inits :: nat

datatype job_error = Job_Invalid_Argument string | Job_Git git_failure | Job_Compile string

text \<open>Whether the existing database is at least as recent as the commit; a file that cannot be read is
  not. The object closes the file again when it goes out of scope.\<close>

definition up_to_date ::
  "('db, file_system) maxminddb \<Rightarrow> string \<Rightarrow> u64 \<Rightarrow> file_system \<Rightarrow> bool \<times> file_system" where
  "up_to_date lib target last_commit fs =
     (case mmdb_construct lib target fs of
        (fs, Inl e) \<Rightarrow> (False, fs)
      | (fs, Inr db) \<Rightarrow> (last_commit \<le> build_epoch lib db, snd (mmdb_close lib db fs)))"

text \<open>The second half of the job: the check of the existing database and the compilation. \<open>None\<close> when the
  schedule of the compiler's threads ends before they do.\<close>

definition create_mmdb ::
  "('g, 'r, 'db, 'tm) job_env \<Rightarrow> string \<Rightarrow> string \<Rightarrow> u64 \<Rightarrow> 'g world \<Rightarrow> ((job_error + unit) \<times> 'g world) option" where
  "create_mmdb je target local_path last_commit w =
     (let (skip, fs) =
        (if wd_files w target \<noteq> None \<or> je_directory je target
         then up_to_date (je_lib je) target last_commit (wd_files w)
         else (False, wd_files w))
      in if skip then Some (Inr (), w\<lparr>wd_files := fs\<rparr>)
         else map_option (\<lambda>(r, fs, m). (map_sum Job_Compile id r, w\<lparr>wd_files := fs, wd_metrics := m\<rparr>))
                (compile_to_mmdb (je_compile je (wd_git w)) target local_path fs (wd_metrics w)))"

text \<open>The destructor of \<open>GitGlobalInit\<close> runs on every way out. The conversion of the commit time to
  \<open>uint64_t\<close> wraps around.\<close>

definition job_fetch_and_create_mmdb ::
  "('g, 'r, 'db, 'tm) job_env \<Rightarrow> app_config \<Rightarrow> 'g world \<Rightarrow> ((job_error + unit) \<times> 'g world) option" where
  "job_fetch_and_create_mmdb je config w =
     (if cfg_mmdb_path config = []
      then Some (Inl (Job_Invalid_Argument ''MMDB_PATH must be set to generate the MMDB''), w)
      else case git_global_init (je_git je) (wd_git w) (je_getenv je)
                  (\<lambda>p. wd_files w p \<noteq> None) (je_directory je) (wd_inits w) of
        (Inl e, inits) \<Rightarrow> Some (Inl (Job_Git e), w\<lparr>wd_inits := inits\<rparr>)
      | (Inr _, inits) \<Rightarrow>
          (let (prepared, g, repository, m) =
             prepare_repository (je_git je) (firehol_git_repo_url config) (firehol_git_path config) ''master''
               (je_now je) (wd_git w) git_repository_new (wd_metrics w);
               w = w\<lparr>wd_git := g, wd_metrics := m, wd_inits := inits\<rparr>
           in map_option (\<lambda>(r, w). (r, w\<lparr>wd_inits := git_global_shutdown (wd_inits w)\<rparr>))
                (case prepared of
                   Inl e \<Rightarrow> Some (Inl (Job_Git e), w)
                 | Inr local_path \<Rightarrow>
                     create_mmdb je (cfg_mmdb_path config) local_path (word_of_int (last_commit_unix repository)) w)))"

datatype run_mode = Serve | FetchOnly

definition ensure_mmdb_available ::
  "('g, 'r, 'db, 'tm) job_env \<Rightarrow> app_config \<Rightarrow> run_mode \<Rightarrow> 'g world \<Rightarrow> (bool \<times> 'g world) option" where
  "ensure_mmdb_available je config mode w =
     (if cfg_mmdb_path config = [] \<and> mode = Serve then Some (True, w)
      else map_option (\<lambda>(r, w).
             (case r of
                Inr _ \<Rightarrow> True
              | Inl e \<Rightarrow> \<not> (mode = FetchOnly \<or> wd_files w (cfg_mmdb_path config) = None), w))
             (job_fetch_and_create_mmdb je config w))"

text \<open>How \<open>main\<close> goes on: an exit code, or the agent with its configuration.\<close>

datatype main_outcome = Exit int | Run_Spoa_Agent app_config

definition main_app ::
  "('g, 'r, 'db, 'tm) job_env \<Rightarrow> (string \<Rightarrow> string) \<Rightarrow> bool \<Rightarrow> 'g world \<Rightarrow> (main_outcome \<times> 'g world) option" where
  "main_app je absolute fetch_only w =
     (let mode = (if fetch_only then FetchOnly else Serve);
          settings = read_app_config (je_getenv je) absolute
      in map_option (\<lambda>(available, w).
           (if \<not> available then Exit 1 else if mode = FetchOnly then Exit 0 else Run_Spoa_Agent settings, w))
           (ensure_mmdb_available je settings mode w))"

section \<open>The configuration files of Seastar\<close>

text \<open>
  Boost.Program\_options: parsing a configuration file, and storing what was parsed beside the values
  already there. A value is a text or, for an empty \<open>variable_value\<close>, none.
\<close>

type_synonym variables = "string \<rightharpoonup> string option"

record 'o program_options =
  po_parse :: "string \<Rightarrow> string + 'o"
  po_store :: "'o \<Rightarrow> variables \<Rightarrow> variables"

datatype file_input = Cannot_Open | Reads string bool

text \<open>One of the two files. The flag of \<open>Reads\<close> is the stream's \<open>bad\<close> after parsing.\<close>

definition read_config_file ::
  "'o program_options \<Rightarrow> string option \<Rightarrow> (string \<Rightarrow> file_input) \<Rightarrow> string \<Rightarrow> string \<Rightarrow> variables \<Rightarrow> string + variables" where
  "read_config_file po config_home open_file argument name config =
     (let selected = config argument; explicit_path = selected \<noteq> None in
      if \<not> explicit_path \<and> config_home = None then Inr config
      else if selected = Some None then Inl ''boost::bad_any_cast: failed conversion using boost::any_cast''
      else
        (let path = (case selected of
                       Some p \<Rightarrow> the p
                     | None \<Rightarrow> the config_home @ ''/.config/seastar/'' @ name)
         in case open_file path of
              Cannot_Open \<Rightarrow>
                if explicit_path
                then Inl (''Cannot open configuration file '' @ [CHR 0x27] @ path @ [CHR 0x27] @ '' (--'' @ argument @ '')'')
                else Inr config
            | Reads contents bad \<Rightarrow>
                (case po_parse po contents of
                   Inl e \<Rightarrow> Inl (''Invalid configuration file '' @ [CHR 0x27] @ path @ [CHR 0x27] @ '': '' @ e)
                 | Inr parsed \<Rightarrow>
                     if bad then Inl (''Cannot read configuration file '' @ [CHR 0x27] @ path @ [CHR 0x27])
                     else Inr (po_store po parsed config))))"

definition dpdk_overrides :: "variables \<Rightarrow> string + variables" where
  "dpdk_overrides config =
     (if config ''dpdk-interface'' \<noteq> None then
        (if config ''hugepages'' \<noteq> None
         then Inl ''--dpdk-interface uses ordinary memory; remove --hugepages''
         else Inr (config(''network-stack'' \<mapsto> Some ''native'', ''dpdk-pmd'' \<mapsto> None)))
      else Inr config)"

definition configuration_reader ::
  "'o program_options \<Rightarrow> string option \<Rightarrow> (string \<Rightarrow> file_input) \<Rightarrow> variables \<Rightarrow> string + variables" where
  "configuration_reader po config_home open_file config =
     rbind (read_config_file po config_home open_file ''seastar-conf'' ''seastar.conf'' config) (\<lambda>config.
     rbind (read_config_file po config_home open_file ''io-conf'' ''io.conf'' config) dpdk_overrides)"

definition IFNAMSIZ :: nat where
  "IFNAMSIZ = 16"

definition interface_characters :: string where
  "interface_characters = ''abcdefghijklmnopqrstuvwxyzABCDEFGHIJKLMNOPQRSTUVWXYZ0123456789_.-''"

definition valid_interface :: "string \<Rightarrow> bool" where
  "valid_interface interface \<longleftrightarrow>
     \<not> (interface = [] \<or> IFNAMSIZ \<le> length interface \<or> find_first_not_of interface interface_characters \<noteq> None)"

section \<open>What a refresh guarantees\<close>

text \<open>libmaxminddb only reads: opening and closing a database change no file.\<close>

definition read_only_lib :: "('db, file_system) maxminddb \<Rightarrow> bool" where
  "read_only_lib lib \<longleftrightarrow> (\<forall>p fs. snd (MMDB_open lib p fs) = fs) \<and> (\<forall>h fs. MMDB_close lib h fs = fs)"

lemma mmdb_construct_files: "read_only_lib lib \<Longrightarrow> fst (mmdb_construct lib p fs) = fs"
  by (auto simp: read_only_lib_def mmdb_construct_def mmdb_open_def mmdb_close_def mmdb_new_def Let_def
      split: prod.splits if_splits) (metis snd_conv)+

lemma mmdb_close_files: "read_only_lib lib \<Longrightarrow> snd (mmdb_close lib db fs) = fs"
  by (auto simp: read_only_lib_def mmdb_close_def split: option.splits)

lemma up_to_date_files: "read_only_lib lib \<Longrightarrow> snd (up_to_date lib p t fs) = fs"
  using mmdb_construct_files [of lib p fs]
  by (auto simp: up_to_date_def mmdb_close_files split: prod.splits sum.splits)

lemma create_mmdb_failure:
  assumes "read_only_lib (je_lib je)" "temporary_fresh (je_compile je (wd_git w)) target (wd_files w)"
    and "create_mmdb je target l t w = Some (Inl e, w')"
  shows "same_files (je_compile je (wd_git w)) target (wd_files w) (wd_files w') \<and> wd_git w' = wd_git w \<and>
    wd_inits w' = wd_inits w"
proof -
  define check where "check = (if wd_files w target \<noteq> None \<or> je_directory je target
    then up_to_date (je_lib je) target t (wd_files w) else (False, wd_files w))"
  obtain skip fs where c: "check = (skip, fs)" by fastforce
  have "snd check = wd_files w" unfolding check_def using up_to_date_files [OF assms(1)] by simp
  then have fs: "fs = wd_files w" using c by simp
  obtain r fs2 m2 where "compile_to_mmdb (je_compile je (wd_git w)) target l fs (wd_metrics w) = Some (r, fs2, m2)"
    and w': "map_sum Job_Compile id r = Inl e" "w' = w\<lparr>wd_files := fs2, wd_metrics := m2\<rparr>"
    using assms(3) c unfolding create_mmdb_def check_def [symmetric]
    by (auto split: if_splits)
  moreover obtain x where "r = Inl x" using w'(1) by (cases r) simp_all
  ultimately show ?thesis using compile_failure_state assms(2) fs by force
qed

lemma job_failure_state:
  assumes lib: "read_only_lib (je_lib je)"
    and fresh: "\<And>g. temporary_fresh (je_compile je g) (cfg_mmdb_path config) (wd_files w)"
    and job: "job_fetch_and_create_mmdb je config w = Some (Inl e, w')"
  shows "same_files (je_compile je (wd_git w')) (cfg_mmdb_path config) (wd_files w) (wd_files w') \<and>
    wd_inits w' = wd_inits w"
proof (cases "cfg_mmdb_path config = []")
  case False
  obtain r inits where i: "git_global_init (je_git je) (wd_git w) (je_getenv je) (\<lambda>p. wd_files w p \<noteq> None)
      (je_directory je) (wd_inits w) = (r, inits)" by fastforce
  show ?thesis
  proof (cases r)
    case (Inl x)
    then have "w' = w\<lparr>wd_inits := inits\<rparr>" using job False i by (simp add: job_fetch_and_create_mmdb_def)
    then show ?thesis using git_global_init_balanced(1) [OF i [unfolded Inl]] by (simp add: same_files_refl)
  next
    case r: (Inr x)
    obtain q g im m where p: "prepare_repository (je_git je) (firehol_git_repo_url config) (firehol_git_path config)
        ''master'' (je_now je) (wd_git w) git_repository_new (wd_metrics w) = (q, g, im, m)" by (metis prod_cases4)
    define w1 where "w1 = w\<lparr>wd_git := g, wd_metrics := m, wd_inits := inits\<rparr>"
    obtain w2 where w2: "(case q of Inl e \<Rightarrow> Some (Inl (Job_Git e), w1)
        | Inr l \<Rightarrow> create_mmdb je (cfg_mmdb_path config) l (word_of_int (last_commit_unix im)) w1) = Some (Inl e, w2)"
      "w' = w2\<lparr>wd_inits := git_global_shutdown (wd_inits w2)\<rparr>"
      using job False i r p unfolding w1_def by (auto simp: job_fetch_and_create_mmdb_def Let_def)
    have "same_files (je_compile je (wd_git w2)) (cfg_mmdb_path config) (wd_files w1) (wd_files w2) \<and> wd_inits w2 = wd_inits w1"
      using w2(1) create_mmdb_failure [OF lib, of w1 "cfg_mmdb_path config" _ _ e w2] fresh [of g]
      by (auto simp: w1_def same_files_refl split: sum.splits)
    then show ?thesis using w2(2) git_global_init_balanced(2) [OF i [unfolded r]] by (simp add: w1_def)
  qed
qed (use job in \<open>auto simp: job_fetch_and_create_mmdb_def same_files_refl\<close>)

text \<open>C6: a refresh that fails, for whatever reason, costs nothing of what is served. Apart from the Git
  checkout, which may already have been fetched and reset when the compilation fails, and from the
  compiler's temporary file, which stays when it cannot be removed, every file is as before: the
  existing database stays in place. libgit2 is shut down again, and a process that serves goes on with
  that database; the run that was asked to fetch and exit reports the failure even though a database
  exists, as the README's text says (its start diagram lets that run exit with success).\<close>

theorem failed_refresh_keeps_serving:
  assumes "read_only_lib (je_lib je)"
    and "\<And>g. temporary_fresh (je_compile je g) (cfg_mmdb_path config) (wd_files w)"
    and "wd_files w (cfg_mmdb_path config) \<noteq> None" "cfg_mmdb_path config \<noteq> []"
    and "job_fetch_and_create_mmdb je config w = Some (Inl e, w')"
  shows "(\<forall>p. temporary_name (je_compile je (wd_git w')) (cfg_mmdb_path config) \<noteq> Some p \<longrightarrow> wd_files w' p = wd_files w p) \<and>
    wd_files w' (cfg_mmdb_path config) = wd_files w (cfg_mmdb_path config) \<and>
    (ce_remove_ok (je_compile je (wd_git w')) \<longrightarrow> wd_files w' = wd_files w) \<and> wd_inits w' = wd_inits w \<and>
    ensure_mmdb_available je config Serve w = Some (True, w') \<and>
    ensure_mmdb_available je config FetchOnly w = Some (False, w')"
proof -
  have s: "same_files (je_compile je (wd_git w')) (cfg_mmdb_path config) (wd_files w) (wd_files w')"
    and i: "wd_inits w' = wd_inits w"
    using job_failure_state [OF assms(1,2,5)] by simp_all
  note db = same_files_target [OF s]
  have "ensure_mmdb_available je config Serve w = Some (True, w')"
    "ensure_mmdb_available je config FetchOnly w = Some (False, w')"
    using assms(3-5) db by (simp_all add: ensure_mmdb_available_def)
  with s i db show ?thesis unfolding same_files_def by blast
qed

text \<open>C40: a commit dated before the database was built is not compiled, even when it was fetched only
  now. If the preparation succeeds and the commit it leaves checked out is no younger than the build
  time of the existing database, the job reports success and leaves the database as it is, whatever
  the lists of the checkout are and whatever was checked out before.\<close>

theorem late_commit_not_compiled:
  assumes "cfg_mmdb_path config \<noteq> []" "wd_files w (cfg_mmdb_path config) \<noteq> None" "read_only_lib (je_lib je)"
    and "git_global_init (je_git je) (wd_git w) (je_getenv je) (\<lambda>p. wd_files w p \<noteq> None) (je_directory je)
           (wd_inits w) = (Inr u, inits)"
    and "prepare_repository (je_git je) (firehol_git_repo_url config) (firehol_git_path config) ''master''
           (je_now je) (wd_git w) git_repository_new (wd_metrics w) = (Inr l, g, im, m)"
    and "mmdb_construct (je_lib je) (cfg_mmdb_path config) (wd_files w) = (wd_files w, Inr db)"
    and "word_of_int (last_commit_unix im) \<le> build_epoch (je_lib je) db"
  shows "job_fetch_and_create_mmdb je config w = Some (Inr (), w\<lparr>wd_git := g, wd_metrics := m\<rparr>)"
proof -
  have "wd_inits w = git_global_shutdown inits" using git_global_init_balanced(2) [OF assms(4)] by simp
  moreover have "up_to_date (je_lib je) (cfg_mmdb_path config) (word_of_int (last_commit_unix im)) (wd_files w) =
      (True, wd_files w)"
    using assms(6,7) mmdb_close_files [OF assms(3)] by (simp add: up_to_date_def)
  ultimately show ?thesis using assms by (simp add: job_fetch_and_create_mmdb_def create_mmdb_def)
qed

text \<open>A reader whose databases all have one build time, and a process with a checkout and a database.\<close>

definition epoch_lib :: "u64 \<Rightarrow> (unit, file_system) maxminddb" where
  "epoch_lib epoch =
     \<lparr>MMDB_open = \<lambda>p fs. ((if fs p = None then 1 else 0, ()), fs), MMDB_close = \<lambda>_ fs. fs, MMDB_strerror = \<lambda>_. ''error'',
      MMDB_metadata = \<lambda>_. \<lparr>md_database_type = None, md_ip_version = 6, md_record_size = 28,
        md_node_count = 1, md_major = 2, md_minor = 0, md_build_epoch = epoch, md_languages = [], md_descriptions = []\<rparr>,
      MMDB_lookup_sockaddr = \<lambda>_ _. (\<lparr>found_entry = False, result_entry = \<lparr>entry_mmdb = (), entry_offset = 0\<rparr>\<rparr>, 0),
      MMDB_lookup_string = \<lambda>_ _. (\<lparr>found_entry = False, result_entry = \<lparr>entry_mmdb = (), entry_offset = 0\<rparr>\<rparr>, 0, 0),
      MMDB_aget_value = \<lambda>_ _. (0, node EArray 0), MMDB_get_entry_data_list = \<lambda>_. (0, None), inet_pton6 = \<lambda>_. None\<rparr>"

definition example_job :: "(git_commit option, unit, unit, unit) job_env" where
  "example_job =
     \<lparr>je_git = one_branch_git ''https://a'' ''master'' \<lparr>commit_oid = ''new'', commit_time = 90\<rparr>, je_getenv = \<lambda>_. None,
      je_directory = \<lambda>_. False, je_lib = epoch_lib 100, je_compile = \<lambda>_. example_compile, je_now = 110\<rparr>"

definition example_config :: "string \<Rightarrow> app_config" where
  "example_config url = (read_app_config (\<lambda>_. None) (\<lambda>p. ''/'' @ p))\<lparr>firehol_git_repo_url := url\<rparr>"

definition example_world :: "git_commit option world" where
  "example_world = \<lparr>wd_git = Some \<lparr>commit_oid = ''old'', commit_time = 80\<rparr>, wd_files = [''/firehol.mmdb'' \<mapsto> [1]],
     wd_metrics = firehol_metrics_new, wd_inits = 0\<rparr>"

lemma example_job_facts:
  "read_only_lib (je_lib example_job)"
  "cfg_mmdb_path (example_config url) = ''/firehol.mmdb''" "firehol_git_repo_url (example_config url) = url"
  "wd_files example_world ''/firehol.mmdb'' = Some [1]"
  "git_global_init (je_git example_job) (wd_git example_world) (je_getenv example_job)
     (\<lambda>p. wd_files example_world p \<noteq> None) (je_directory example_job) (wd_inits example_world) = (Inr (), 1)"
  by (simp_all add: read_only_lib_def example_job_def epoch_lib_def example_config_def read_app_config_def
      environment_or_def example_world_def git_global_init_def configure_ssl_certificates_def choose_certificates_def
      environment_non_empty_def cert_files_def cert_dirs_def one_branch_git_def Let_def)

lemma example_fresh: "temporary_fresh (je_compile example_job g) ''/firehol.mmdb'' (wd_files example_world)"
  by (simp add: temporary_fresh_def example_job_def example_world_def)

theorem failed_refresh_keeps_serving_witness:
  "\<exists>w'. wd_files w' ''/firehol.mmdb'' = Some [1] \<and>
     ensure_mmdb_available example_job (example_config ''https://b'') Serve example_world = Some (True, w') \<and>
     ensure_mmdb_available example_job (example_config ''https://b'') FetchOnly example_world = Some (False, w')"
proof -
  have "\<exists>w'. job_fetch_and_create_mmdb example_job (example_config ''https://b'') example_world =
      Some (Inl (Job_Git origin_mismatch), w')"
    unfolding job_fetch_and_create_mmdb_def example_job_facts
    by (simp add: example_job_def example_world_def one_branch_simps)
  then obtain w' where w': "job_fetch_and_create_mmdb example_job (example_config ''https://b'') example_world =
      Some (Inl (Job_Git origin_mismatch), w')" by blast
  have "\<And>g. temporary_fresh (je_compile example_job g) (cfg_mmdb_path (example_config ''https://b'')) (wd_files example_world)"
    by (simp add: example_job_facts example_fresh)
  from failed_refresh_keeps_serving [OF example_job_facts(1) this _ _ w'] show ?thesis
    by (auto simp: example_job_facts)
qed

theorem late_commit_not_compiled_witness:
  "\<exists>m. job_fetch_and_create_mmdb example_job (example_config ''https://a'') example_world =
     Some (Inr (), example_world\<lparr>wd_git := Some \<lparr>commit_oid = ''new'', commit_time = 90\<rparr>, wd_metrics := m\<rparr>)"
proof -
  let ?c = "example_config ''https://a''" and ?im = "git_repository_new\<lparr>git_repo := Some (), last_commit_time := 90\<rparr>"
  have p: "prepare_repository (je_git example_job) (firehol_git_repo_url ?c) (firehol_git_path ?c) ''master''
      (je_now example_job) (wd_git example_world) git_repository_new (wd_metrics example_world) =
      (Inr (firehol_git_path ?c), Some \<lparr>commit_oid = ''new'', commit_time = 90\<rparr>, ?im,
       git_succeeded False 110 (wd_metrics example_world))"
    by (simp add: example_job_facts) (simp add: example_job_def example_world_def one_branch_simps)
  have d: "mmdb_construct (je_lib example_job) (cfg_mmdb_path ?c) (wd_files example_world) =
      (wd_files example_world, Inr \<lparr>mmdb_handle = Some (), mmdb_open_flag = True, mmdb_path = ''/firehol.mmdb''\<rparr>)"
    by (simp add: example_job_facts mmdb_construct_def mmdb_open_def mmdb_close_def mmdb_new_def Let_def)
      (simp add: example_job_def epoch_lib_def example_world_def MMDB_SUCCESS_def c_string_def)
  have e: "word_of_int (last_commit_unix ?im)
      \<le> build_epoch (je_lib example_job) \<lparr>mmdb_handle = Some (), mmdb_open_flag = True, mmdb_path = ''/firehol.mmdb''\<rparr>"
    by (simp add: last_commit_unix_def build_epoch_def example_job_def epoch_lib_def)
  have "cfg_mmdb_path ?c \<noteq> []" "wd_files example_world (cfg_mmdb_path ?c) \<noteq> None" by (simp_all add: example_job_facts)
  from late_commit_not_compiled [OF this example_job_facts(1,5) p d e] show ?thesis by blast
qed

section \<open>The configuration\<close>

text \<open>
  Values given on the command line are never replaced by a configuration file, provided storing keeps
  what is there, as the library documents; only the two options the DPDK mode dictates are set.
\<close>

lemma command_line_values_win:
  assumes keeps: "\<And>opts c k v. c k = Some v \<Longrightarrow> po_store po opts c k = Some v"
    and "configuration_reader po home opn config = Inr config'" "config k = Some v"
    and "k \<notin> {''network-stack'', ''dpdk-pmd''}"
  shows "config' k = Some v"
proof -
  have one: "c' k = Some v" if "read_config_file po home opn a n c = Inr c'" "c k = Some v" for a n c c'
    using that keeps by (auto simp: read_config_file_def Let_def split: if_splits file_input.splits sum.splits)
  have "c' k = Some v" if "dpdk_overrides c = Inr c'" "c k = Some v" for c c'
    using that assms(4) by (auto simp: dpdk_overrides_def split: if_splits)
  then show ?thesis using assms(2,3) one unfolding configuration_reader_def by auto
qed

lemma explicit_file_must_open:
  assumes "config ''seastar-conf'' = Some (Some p)" "opn p = Cannot_Open"
  shows "\<exists>e. configuration_reader po home opn config = Inl e"
  using assms by (simp add: configuration_reader_def read_config_file_def)

lemma valid_interface_length: "valid_interface i \<Longrightarrow> 0 < length i \<and> length i < 16 \<and> set i \<subseteq> set interface_characters"
  using takeWhile_eq_take [of "\<lambda>c. c \<in> set interface_characters" i]
  by (auto simp: valid_interface_def IFNAMSIZ_def find_first_not_of_def Let_def not_less split: if_splits)

end
