(* ===== verification/Varint.thy ===== *)
theory Varint
  imports Prelude
begin

text \<open>
  The variable-length integers of the SPOE protocol (\<open>src/spoa/varint.h\<close>): the size, the
  decoder, the three encoders, and the arithmetic definition of the Peers encoding they are
  proved against. A buffer pointer \<open>uint8_t *buf\<close> is a byte list and an offset into it.
\<close>

section \<open>The operations of varint.h\<close>

definition max_encoded_size :: nat where
  "max_encoded_size = 10"

lemma unat_shift_step:
  fixes n :: u64
  assumes "128 \<le> n"
  shows "unat (drop_bit 7 (n - 128)) = (unat n - 128) div 128"
  using assms unat_sub [of 128 n] by (simp add: drop_bit_eq_div unat_div_distrib)

lemma shift_step_less:
  fixes n :: u64
  assumes "128 \<le> n"
  shows "unat (drop_bit 7 (n - 128)) < unat n"
  using assms unat_shift_step [OF assms] by (simp add: word_le_nat_alt)

function encoded_size_loop :: "u64 \<Rightarrow> nat \<Rightarrow> nat" where
  "encoded_size_loop n sz =
     (if 128 \<le> n then encoded_size_loop (drop_bit 7 (n - 128)) (sz + 1) else sz)"
  by pat_completeness auto
termination
  by (relation "measure (\<lambda>(n, sz). unat n)") (simp_all add: shift_step_less)

declare encoded_size_loop.simps [simp del]

definition encoded_size :: "u64 \<Rightarrow> nat" where
  "encoded_size n =
     (if n < 240 then 1 else encoded_size_loop (drop_bit 4 (n - 240)) 2)"

record decoded =
  dvalue :: u64
  consumed :: nat

text \<open>The decoder's loop. \<open>shift\<close> is tested against the width of \<open>uint64_t\<close> before it grows, so
  it never exceeds 70.\<close>

function decode_loop :: "bytes \<Rightarrow> u64 \<Rightarrow> nat \<Rightarrow> nat \<Rightarrow> decoded option" where
  "decode_loop buf n shift i =
     (if length buf \<le> i then None
      else let b = buf ! i in
        if 64 \<le> shift \<or> ucast b > drop_bit shift (- 1 - n) then None
        else let n' = n + push_bit shift (ucast b) in
          if b < 128 then Some \<lparr>dvalue = n', consumed = i + 1\<rparr>
          else decode_loop buf n' (shift + 7) (i + 1))"
  by pat_completeness auto
termination
  by (relation "measure (\<lambda>(buf, n, shift, i). length buf - i)") auto

declare decode_loop.simps [simp del]

definition decode :: "bytes \<Rightarrow> decoded option" where
  "decode buf =
     (if buf = [] then None
      else let n = ucast (buf ! 0) in
        if n < 240 then Some \<lparr>dvalue = n, consumed = 1\<rparr>
        else decode_loop buf n 4 1)"

function encode_loop :: "bytes \<Rightarrow> nat \<Rightarrow> nat \<Rightarrow> nat \<Rightarrow> u64 \<Rightarrow> bytes \<times> nat option" where
  "encode_loop buf off cap p n =
     (if 128 \<le> n then
        (if cap \<le> p then (buf, None)
         else encode_loop (buf[off + p := ucast n OR 0x80]) off cap (p + 1) (drop_bit 7 (n - 128)))
      else if cap \<le> p then (buf, None)
      else (buf[off + p := ucast n], Some (p + 1)))"
  by pat_completeness auto
termination
  by (relation "measure (\<lambda>(buf, off, cap, p, n). unat n)") (simp_all add: shift_step_less)

declare encode_loop.simps [simp del]

definition encode :: "bytes \<Rightarrow> nat \<Rightarrow> nat \<Rightarrow> u64 \<Rightarrow> bytes \<times> nat option" where
  "encode buf off cap n =
     (if cap = 0 then (buf, None)
      else if n < 240 then (buf[off := ucast n], Some 1)
      else encode_loop (buf[off := ucast n OR 0xF0]) off cap 1 (drop_bit 4 (n - 240)))"

function encode_unsafe_loop :: "bytes \<Rightarrow> nat \<Rightarrow> nat \<Rightarrow> u64 \<Rightarrow> bytes \<times> nat" where
  "encode_unsafe_loop buf off p n =
     (if 128 \<le> n then
        encode_unsafe_loop (buf[off + p := ucast n OR 0x80]) off (p + 1) (drop_bit 7 (n - 128))
      else (buf[off + p := ucast n], p + 1))"
  by pat_completeness auto
termination
  by (relation "measure (\<lambda>(buf, off, p, n). unat n)") (simp_all add: shift_step_less)

declare encode_unsafe_loop.simps [simp del]

definition encode_unsafe :: "bytes \<Rightarrow> nat \<Rightarrow> u64 \<Rightarrow> bytes \<times> nat" where
  "encode_unsafe buf off n =
     (if n < 240 then (buf[off := ucast n], 1)
      else encode_unsafe_loop (buf[off := ucast n OR 0xF0]) off 1 (drop_bit 4 (n - 240)))"

definition encode_to_vec :: "bytes \<Rightarrow> u64 \<Rightarrow> bytes" where
  "encode_to_vec out n =
     (let needed = encoded_size n; old_size = length out;
          out = out @ replicate needed 0
      in fst (encode_unsafe out old_size n))"

section \<open>The Peers encoding, arithmetically\<close>

text \<open>The encoding as a function on the natural numbers, independent of buffers and of machine
  arithmetic. The continuation bytes are a bijective base-128 numeral.\<close>

fun peers_tail :: "nat \<Rightarrow> bytes" where
  "peers_tail m =
     (if m < 128 then [of_nat m]
      else of_nat (128 + m mod 128) # peers_tail ((m - 128) div 128))"

declare peers_tail.simps [simp del]

definition peers_bytes :: "nat \<Rightarrow> bytes" where
  "peers_bytes n =
     (if n < 240 then [of_nat n]
      else of_nat (240 + n mod 16) # peers_tail ((n - 240) div 16))"

text \<open>The bytes of a 64-bit value.\<close>

abbreviation varint_bytes :: "u64 \<Rightarrow> bytes" where
  "varint_bytes n \<equiv> peers_bytes (unat n)"

lemma peers_tail_small: "m < 128 \<Longrightarrow> peers_tail m = [of_nat m]"
  by (simp add: peers_tail.simps [of m])

lemma peers_tail_large:
  "128 \<le> m \<Longrightarrow> peers_tail m = of_nat (128 + m mod 128) # peers_tail ((m - 128) div 128)"
  by (simp add: peers_tail.simps [of m])

lemma peers_tail_nonempty [simp]: "peers_tail m \<noteq> []"
  by (subst peers_tail.simps) simp

lemma peers_bytes_nonempty [simp]: "peers_bytes n \<noteq> []"
  by (simp add: peers_bytes_def)

lemma peers_bytes_pos [simp]: "0 < length (peers_bytes n)"
  by simp

text \<open>The bytes the machine code stores, in terms of the arithmetic definition.\<close>

lemma take_or_push:
  "take_bit k (w :: u8) OR push_bit k v = take_bit k w + push_bit k v"
proof -
  have "take_bit k w AND push_bit k v = 0"
    by (rule bit_word_eqI) (auto simp: bit_simps)
  then show ?thesis by (simp add: disjunctive_add_eq_or)
qed

lemma or_high_bits:
  assumes "h = push_bit k (mask (8 - k))" and "k \<le> 8"
  shows "(w :: u8) OR h = of_nat (unat h + unat w mod 2 ^ k)"
proof -
  have "w OR h = take_bit k w OR h"
    by (rule bit_word_eqI) (use assms in \<open>auto simp: bit_simps\<close>)
  also have "\<dots> = h + take_bit k w"
    using assms by (simp add: take_or_push add.commute)
  also have "\<dots> = of_nat (unat h + unat (take_bit k w))"
    by simp
  finally show ?thesis
    by (simp only: unat_take_bit)
qed

lemma or_high_nibble: "(w :: u8) OR 0xF0 = of_nat (240 + unat w mod 16)"
  using or_high_bits [of "0xF0" 4 w] by (simp add: mask_numeral)

lemma or_high_bit: "(w :: u8) OR 0x80 = of_nat (128 + unat w mod 128)"
  using or_high_bits [of "0x80" 7 w] by (simp add: mask_numeral)

lemma unat_ucast_u8: "unat (ucast (n :: u64) :: u8) = unat n mod 256"
  by (simp add: unsigned_ucast_eq take_bit_eq_mod)

lemma word_of_unat: "unat (w :: 'a :: len word) = m \<Longrightarrow> w = of_nat m"
  by auto

section \<open>Sizes\<close>

lemma encoded_size_loop_eq: "encoded_size_loop n sz + 1 = sz + length (peers_tail (unat n))"
proof (induction n sz rule: encoded_size_loop.induct)
  case (1 n sz)
  show ?case
  proof (cases "128 \<le> n")
    case True
    then have "128 \<le> unat n" by (simp add: word_le_nat_alt)
    with True "1.IH" show ?thesis
      by (simp add: encoded_size_loop.simps [of n] peers_tail_large unat_shift_step)
  next
    case False
    then have "unat n < 128" by (simp add: word_le_nat_alt)
    with False show ?thesis
      by (simp add: encoded_size_loop.simps [of n] peers_tail_small)
  qed
qed

lemma unat_first_shift:
  fixes n :: u64
  assumes "\<not> n < 240"
  shows "unat (drop_bit 4 (n - 240)) = (unat n - 240) div 16"
  using assms unat_sub [of 240 n] by (simp add: drop_bit_eq_div unat_div_distrib not_less)

lemma encoded_size_eq: "encoded_size n = length (varint_bytes n)"
proof (cases "n < 240")
  case True
  then have "unat n < 240" by (simp add: word_less_nat_alt)
  with True show ?thesis by (simp add: encoded_size_def peers_bytes_def)
next
  case False
  then have "\<not> unat n < 240" by (simp add: word_less_nat_alt)
  with False show ?thesis
    using encoded_size_loop_eq [of "drop_bit 4 (n - 240)" 2]
    by (simp add: encoded_size_def peers_bytes_def unat_first_shift)
qed

lemma length_peers_tail: "m < 128 * 2 ^ (7 * k) \<Longrightarrow> length (peers_tail m) \<le> k + 1"
proof (induction k arbitrary: m)
  case 0
  then show ?case by (simp add: peers_tail_small)
next
  case (Suc k)
  show ?case
  proof (cases "m < 128")
    case True
    then show ?thesis by (simp add: peers_tail_small)
  next
    case False
    have "(m - 128) div 128 < 128 * 2 ^ (7 * k)"
      using Suc.prems by (simp add: power_add less_mult_imp_div_less)
    then show ?thesis
      using Suc.IH False by (simp add: peers_tail_large)
  qed
qed

lemma varint_bytes_bound: "length (varint_bytes n) \<le> max_encoded_size"
proof (cases "unat n < 240")
  case True
  then show ?thesis by (simp add: peers_bytes_def max_encoded_size_def)
next
  case False
  have "(unat n - 240) div 16 < 128 * 2 ^ (7 * 8)"
    using unat_bounds(4) [of n] by (simp add: less_mult_imp_div_less)
  then have "length (peers_tail ((unat n - 240) div 16)) \<le> 9"
    using length_peers_tail [of _ 8] by simp
  with False show ?thesis by (simp add: peers_bytes_def max_encoded_size_def)
qed

section \<open>Encoders\<close>

lemma ucast_or_high_bit: "ucast (n :: u64) OR (0x80 :: u8) = of_nat (128 + unat n mod 128)"
proof -
  have "unat n mod 256 mod 128 = unat n mod 128"
    by (simp add: mod_mod_cancel)
  then show ?thesis by (simp only: or_high_bit unat_ucast_u8)
qed

lemma ucast_or_high_nibble: "ucast (n :: u64) OR (0xF0 :: u8) = of_nat (240 + unat n mod 16)"
proof -
  have "unat n mod 256 mod 16 = unat n mod 16"
    by (simp add: mod_mod_cancel)
  then show ?thesis by (simp only: or_high_nibble unat_ucast_u8)
qed

lemma ucast_small: "(ucast (n :: u64) :: u8) = of_nat (unat n)"
  by simp

lemma encode_unsafe_loop_eq:
  assumes "off + p + length (peers_tail (unat n)) \<le> length buf"
  shows "encode_unsafe_loop buf off p n =
    (overwrite buf (off + p) (peers_tail (unat n)), p + length (peers_tail (unat n)))"
  using assms
proof (induction buf off p n rule: encode_unsafe_loop.induct)
  case (1 buf off p n)
  show ?case
  proof (cases "128 \<le> n")
    case True
    then have large: "peers_tail (unat n) =
        of_nat (128 + unat n mod 128) # peers_tail (unat (drop_bit 7 (n - 128)))"
      by (simp add: word_le_nat_alt peers_tail_large unat_shift_step)
    with True 1 show ?thesis
      by (simp add: encode_unsafe_loop.simps [of buf] ucast_or_high_bit overwrite_Cons)
  next
    case False
    then have "peers_tail (unat n) = [of_nat (unat n)]"
      by (simp add: word_le_nat_alt peers_tail_small)
    with False 1 show ?thesis
      by (simp add: encode_unsafe_loop.simps [of buf] overwrite_Cons)
  qed
qed

lemma encode_unsafe_eq:
  assumes "off + length (varint_bytes n) \<le> length buf"
  shows "encode_unsafe buf off n = (overwrite buf off (varint_bytes n), length (varint_bytes n))"
proof (cases "n < 240")
  case True
  then have "peers_bytes (unat n) = [of_nat (unat n)]"
    by (simp add: peers_bytes_def word_less_nat_alt)
  with True assms show ?thesis by (simp add: encode_unsafe_def overwrite_Cons)
next
  case False
  then have "peers_bytes (unat n) =
      of_nat (240 + unat n mod 16) # peers_tail (unat (drop_bit 4 (n - 240)))"
    by (simp add: peers_bytes_def word_less_nat_alt unat_first_shift)
  with False assms show ?thesis
    by (simp add: encode_unsafe_def encode_unsafe_loop_eq ucast_or_high_nibble overwrite_Cons)
qed

lemma encode_to_vec_eq: "encode_to_vec out n = out @ varint_bytes n"
  by (simp add: encode_to_vec_def Let_def encoded_size_eq encode_unsafe_eq overwrite_def)

text \<open>The bounded encoder writes the prefix of the encoding that fits.\<close>

lemma encode_loop_eq:
  assumes "off + cap \<le> length buf"
  shows "encode_loop buf off cap p n =
    (overwrite buf (off + p) (take (cap - p) (peers_tail (unat n))),
     if p + length (peers_tail (unat n)) \<le> cap then Some (p + length (peers_tail (unat n))) else None)"
  using assms
proof (induction buf off cap p n rule: encode_loop.induct)
  case (1 buf off cap p n)
  show ?case
  proof (cases "cap \<le> p")
    case True
    have "0 < length (peers_tail (unat n))" by simp
    with True have "\<not> p + length (peers_tail (unat n)) \<le> cap" by linarith
    with True show ?thesis by (simp add: encode_loop.simps [of buf])
  next
    case fits: False
    then have Suc: "cap - p = Suc (cap - Suc p)" by simp
    show ?thesis
    proof (cases "128 \<le> n")
      case True
      then have "peers_tail (unat n) =
          of_nat (128 + unat n mod 128) # peers_tail (unat (drop_bit 7 (n - 128)))"
        by (simp add: word_le_nat_alt peers_tail_large unat_shift_step)
      moreover have "overwrite buf (off + p) (x # take (cap - Suc p) xs) =
          overwrite (buf[off + p := x]) (Suc (off + p)) (take (cap - Suc p) xs)" for x xs
        by (rule overwrite_Cons) (use fits "1.prems" in \<open>auto simp: min_def\<close>)
      ultimately show ?thesis
        using True fits 1
        by (simp add: encode_loop.simps [of buf] ucast_or_high_bit Suc)
    next
      case False
      then have "peers_tail (unat n) = [of_nat (unat n)]"
        by (simp add: word_le_nat_alt peers_tail_small)
      with False fits "1.prems" show ?thesis
        by (simp add: encode_loop.simps [of buf] overwrite_Cons Suc)
    qed
  qed
qed

lemma encode_eq:
  assumes "off + cap \<le> length buf"
  shows "encode buf off cap n =
    (overwrite buf off (take cap (varint_bytes n)),
     if length (varint_bytes n) \<le> cap then Some (length (varint_bytes n)) else None)"
proof (cases "cap = 0")
  case True
  then show ?thesis by (simp add: encode_def)
next
  case cap: False
  then have Suc: "cap = Suc (cap - 1)" by simp
  show ?thesis
  proof (cases "n < 240")
    case True
    then have "peers_bytes (unat n) = [of_nat (unat n)]"
      by (simp add: peers_bytes_def word_less_nat_alt)
    with True assms cap show ?thesis
      by (cases cap) (simp_all add: encode_def overwrite_Cons)
  next
    case False
    then have "peers_bytes (unat n) =
        of_nat (240 + unat n mod 16) # peers_tail (unat (drop_bit 4 (n - 240)))"
      by (simp add: peers_bytes_def word_less_nat_alt unat_first_shift)
    with False assms cap show ?thesis
      by (cases cap)
        (simp_all add: encode_def encode_loop_eq ucast_or_high_nibble overwrite_Cons min_def)
  qed
qed

section \<open>The decoder inverts the encoding\<close>

text \<open>The overflow test of the loop, on the natural numbers.\<close>

lemma unat_all_ones_minus: "unat (- 1 - n :: u64) = 2 ^ 64 - 1 - unat n"
  using unat_sub [of n "- 1 :: u64"] by (simp add: unsigned_minus_1_eq_mask mask_eq_exp_minus_1)

lemma shift_guard:
  fixes n :: u64 and b :: u8
  assumes "shift < 64"
  shows "(ucast b > drop_bit shift (- 1 - n)) \<longleftrightarrow> 2 ^ 64 \<le> unat n + unat b * 2 ^ shift"
proof -
  have "(ucast b > drop_bit shift (- 1 - n)) \<longleftrightarrow> (2 ^ 64 - 1 - unat n) div 2 ^ shift < unat b"
    by (simp only: word_less_nat_alt unat_drop_bit unat_all_ones_minus unat_ucast_u8_u64)
  also have "\<dots> \<longleftrightarrow> 2 ^ 64 - 1 - unat n < unat b * 2 ^ shift"
    by (simp add: div_less_iff_less_mult)
  also have "\<dots> \<longleftrightarrow> 2 ^ 64 \<le> unat n + unat b * 2 ^ shift"
    using unat_bounds(4) [of n] by auto
  finally show ?thesis .
qed

lemma shift_add:
  fixes n :: u64 and b :: u8
  assumes "unat n + unat b * 2 ^ shift < 2 ^ 64"
  shows "unat (n + push_bit shift (ucast b)) = unat n + unat b * 2 ^ shift"
proof -
  have "unat (push_bit shift (ucast b :: u64)) = unat b * 2 ^ shift"
    using assms by (simp only: unat_push_bit unat_ucast_u8_u64) simp
  with assms show ?thesis by (simp add: unat_word_ariths)
qed

text \<open>Every continuation chain of the encoding decodes to the number it was made from \<dots>\<close>

lemma decode_loop_complete:
  assumes "drop i buf = peers_tail m @ rest" and "unat n + m * 2 ^ shift < 2 ^ 64" and "shift < 64"
  shows "decode_loop buf n shift i =
    Some \<lparr>dvalue = of_nat (unat n + m * 2 ^ shift), consumed = i + length (peers_tail m)\<rparr>"
  using assms
proof (induction m arbitrary: n shift i rule: peers_tail.induct)
  case (1 m)
  have i: "i < length buf"
    using "1.prems"(1) by (cases "i < length buf") auto
  show ?case
  proof (cases "m < 128")
    case True
    then have b: "buf ! i = of_nat m"
      using "1.prems"(1) i by (simp add: peers_tail_small Cons_nth_drop_Suc [symmetric])
    have ub: "unat (buf ! i) = m"
      using True by (simp add: b unsigned_of_nat take_bit_nat_eq_self)
    have fits: "unat n + unat (buf ! i) * 2 ^ shift < 2 ^ 64"
      using "1.prems"(2) by (simp add: ub)
    have "n + push_bit shift (ucast (buf ! i)) = of_nat (unat n + m * 2 ^ shift)"
      using word_of_unat [OF shift_add [OF fits]] by (simp only: ub)
    moreover have "buf ! i < 128"
      using True by (simp add: word_less_nat_alt ub)
    ultimately show ?thesis
      using i True "1.prems"(3) fits shift_guard [OF "1.prems"(3), of n "buf ! i"]
      by (simp add: decode_loop.simps [of buf] peers_tail_small)
  next
    case False
    let ?m = "(m - 128) div 128"
    have tail: "buf ! i = of_nat (128 + m mod 128)" "drop (Suc i) buf = peers_tail ?m @ rest"
      using "1.prems"(1) i False by (simp_all add: peers_tail_large Cons_nth_drop_Suc [symmetric])
    have ub: "unat (buf ! i) = 128 + m mod 128"
      by (simp only: tail(1) unsigned_of_nat) (simp add: take_bit_nat_eq_self)
    have split: "m = 128 + m mod 128 + 128 * ?m"
      using False by (simp add: le_mod_geq minus_mod_eq_mult_div [symmetric])
    have val: "unat n + unat (buf ! i) * 2 ^ shift + ?m * 2 ^ (shift + 7) = unat n + m * 2 ^ shift"
    proof -
      have "m * 2 ^ shift = (128 + m mod 128 + 128 * ?m) * 2 ^ shift"
        using split by (rule arg_cong)
      then show ?thesis by (simp add: ub power_add algebra_simps)
    qed
    have fits: "unat n + unat (buf ! i) * 2 ^ shift < 2 ^ 64"
      using "1.prems"(2) val by linarith
    have "128 * 2 ^ shift < (2 :: nat) ^ 64"
      using fits ub by (simp add: add_mult_distrib)
    then have shift: "shift + 7 < 64"
      using power_less_imp_less_exp [of "2 :: nat" "shift + 7" 64] by (simp add: power_add)
    have big: "\<not> buf ! i < 128"
      by (simp add: word_less_nat_alt ub)
    have "decode_loop buf (n + push_bit shift (ucast (buf ! i))) (shift + 7) (i + 1) =
        Some \<lparr>dvalue = of_nat (unat n + m * 2 ^ shift), consumed = i + 1 + length (peers_tail ?m)\<rparr>"
      using "1.IH" [OF False, of "i + 1" "n + push_bit shift (ucast (buf ! i))" "shift + 7"]
        tail(2) val shift "1.prems"(2) by (simp add: shift_add [OF fits])
    then show ?thesis
      using i False big "1.prems"(3) fits shift_guard [OF "1.prems"(3), of n "buf ! i"]
      by (simp add: decode_loop.simps [of buf] peers_tail_large)
  qed
qed

text \<open>\<dots> and nothing else decodes: an accepted chain is the encoding of its value.\<close>

lemma decode_loop_sound:
  assumes "decode_loop buf n shift i = Some d"
  shows "\<exists>m. unat (dvalue d) = unat n + m * 2 ^ shift \<and>
    take (consumed d - i) (drop i buf) = peers_tail m \<and> i < consumed d \<and> consumed d \<le> length buf"
  using assms
proof (induction buf n shift i rule: decode_loop.induct)
  case (1 buf n shift i)
  let ?b = "buf ! i"
  have i: "i < length buf" and shift: "shift < 64"
    and guard: "\<not> ucast ?b > drop_bit shift (- 1 - n)"
    using "1.prems" by (auto simp: decode_loop.simps [of buf n] Let_def split: if_splits)
  have fits: "unat n + unat ?b * 2 ^ shift < 2 ^ 64"
    using guard shift_guard [OF shift] by simp
  show ?case
  proof (cases "?b < 128")
    case True
    then have "d = \<lparr>dvalue = n + push_bit shift (ucast ?b), consumed = i + 1\<rparr>"
      using "1.prems" i shift guard by (simp add: decode_loop.simps [of buf n] Let_def)
    moreover have "take 1 (drop i buf) = peers_tail (unat ?b)"
      using True i by (simp add: word_less_nat_alt peers_tail_small take_Suc_conv_app_nth
          Cons_nth_drop_Suc [symmetric])
    ultimately show ?thesis
      using i by (intro exI [of _ "unat ?b"]) (simp add: shift_add [OF fits])
  next
    case False
    then have big: "128 \<le> unat ?b" by (simp add: word_less_nat_alt)
    have "decode_loop buf (n + push_bit shift (ucast ?b)) (shift + 7) (i + 1) = Some d"
      using "1.prems" i shift guard False by (simp add: decode_loop.simps [of buf n] Let_def)
    then obtain m where m: "unat (dvalue d) = unat n + unat ?b * 2 ^ shift + m * 2 ^ (shift + 7)"
      "take (consumed d - (i + 1)) (drop (i + 1) buf) = peers_tail m"
      "i + 1 < consumed d" "consumed d \<le> length buf"
      using "1.IH" [of ?b "n + push_bit shift (ucast ?b)"] i shift guard False
      by (auto simp: shift_add [OF fits])
    let ?m = "unat ?b + 128 * m"
    have "?m mod 128 + 128 = unat ?b" "(?m - 128) div 128 = m"
      using big unat_bounds(1) [of ?b] by (simp_all add: le_mod_geq)
    then have "peers_tail ?m = ?b # peers_tail m"
      using big by (simp add: peers_tail_large add.commute)
    moreover have "take (consumed d - i) (drop i buf) = ?b # take (consumed d - (i + 1)) (drop (i + 1) buf)"
      using m(3) i by (simp add: Cons_nth_drop_Suc [symmetric] take_Cons' Suc_diff_Suc)
    ultimately show ?thesis
      using m by (intro exI [of _ ?m]) (simp add: power_add algebra_simps)
  qed
qed

lemma decode_complete:
  "decode (varint_bytes n @ rest) = Some \<lparr>dvalue = n, consumed = length (varint_bytes n)\<rparr>"
proof (cases "unat n < 240")
  case True
  then have "unat (of_nat (unat n) :: u8) = unat n"
    by (simp only: unsigned_of_nat) (simp add: take_bit_nat_eq_self)
  then have "(ucast (of_nat (unat n) :: u8) :: u64) = n"
    by (simp only: word_unat_eq_iff unat_ucast_u8_u64)
  with True show ?thesis
    by (simp add: decode_def peers_bytes_def word_less_nat_alt)
next
  case False
  let ?b = "of_nat (240 + unat n mod 16) :: u8" and ?m = "(unat n - 240) div 16"
  have ub: "unat ?b = 240 + unat n mod 16"
    by (simp only: unsigned_of_nat) (simp add: take_bit_nat_eq_self)
  have "unat n = 240 + (unat n - 240) mod 16 + 16 * ?m"
    using False by simp
  moreover have "(unat n - 240) mod 16 = unat n mod 16"
  proof -
    have "unat n = (unat n - 240) + 15 * 16" using False by simp
    then show ?thesis by (metis mod_mult_self1)
  qed
  ultimately have split: "unat n = unat ?b + ?m * 2 ^ 4"
    by (simp add: ub del: of_nat_add)
  have "decode_loop (varint_bytes n @ rest) (ucast ?b) 4 1 =
      Some \<lparr>dvalue = of_nat (unat (ucast ?b :: u64) + ?m * 2 ^ 4), consumed = 1 + length (peers_tail ?m)\<rparr>"
    by (rule decode_loop_complete)
      (use False unat_bounds(4) [of n] split in \<open>simp_all add: peers_bytes_def\<close>)
  moreover have "of_nat (unat (ucast ?b :: u64) + ?m * 2 ^ 4) = n"
    using word_of_unat [OF split] by (simp only: unat_ucast_u8_u64)
  moreover have "\<not> (ucast ?b :: u64) < 240"
    by (simp add: word_less_nat_alt ub del: of_nat_add)
  moreover have "(varint_bytes n @ rest) ! 0 = ?b"
    using False by (simp add: peers_bytes_def)
  moreover have "length (varint_bytes n) = 1 + length (peers_tail ?m)"
    using False by (simp add: peers_bytes_def)
  ultimately show ?thesis
    by (simp add: decode_def Let_def del: of_nat_add)
qed

lemma decode_sound:
  assumes "decode buf = Some d"
  shows "take (consumed d) buf = varint_bytes (dvalue d)" and "consumed d \<le> length buf"
proof -
  from assms have ne: "buf \<noteq> []" by (auto simp: decode_def)
  have "take (consumed d) buf = varint_bytes (dvalue d) \<and> consumed d \<le> length buf"
  proof (cases "(ucast (buf ! 0) :: u64) < 240")
    case True
    with assms ne have "d = \<lparr>dvalue = ucast (buf ! 0), consumed = 1\<rparr>"
      by (simp add: decode_def)
    with True ne show ?thesis
      by (cases buf) (simp_all add: peers_bytes_def word_less_nat_alt)
  next
    case False
    let ?b = "buf ! 0"
    from False assms ne have "decode_loop buf (ucast ?b) 4 1 = Some d"
      by (simp add: decode_def)
    then obtain m where m: "unat (dvalue d) = unat ?b + m * 2 ^ 4"
      "take (consumed d - 1) (drop 1 buf) = peers_tail m" "1 < consumed d" "consumed d \<le> length buf"
      using decode_loop_sound by fastforce
    have b: "240 \<le> unat ?b" "unat ?b < 256"
      using False unat_bounds(1) [of ?b] by (simp_all add: word_less_nat_alt)
    then obtain r where r: "unat ?b = 240 + r" "r < 16"
      using le_Suc_ex by fastforce
    then have "unat ?b + 16 * m = r + 16 * (15 + m)"
      by simp
    then have "240 + (unat ?b + 16 * m) mod 16 = unat ?b" "(unat ?b + 16 * m - 240) div 16 = m"
      using r by (simp_all only: mod_mult_self2 mod_less)
    then have "varint_bytes (dvalue d) = ?b # peers_tail m"
      using b m(1) by (simp add: peers_bytes_def mult.commute flip: of_nat_add)
    with m ne show ?thesis
      by (cases buf) (simp_all add: take_Cons')
  qed
  then show "take (consumed d) buf = varint_bytes (dvalue d)" "consumed d \<le> length buf"
    by simp_all
qed

lemma decode_iff:
  "decode buf = Some d \<longleftrightarrow>
     consumed d = length (varint_bytes (dvalue d)) \<and> (\<exists>rest. buf = varint_bytes (dvalue d) @ rest)"
proof
  assume "decode buf = Some d"
  note sound = decode_sound [OF this]
  then have "buf = varint_bytes (dvalue d) @ drop (consumed d) buf"
    by (metis append_take_drop_id)
  moreover have "consumed d = length (varint_bytes (dvalue d))"
    using sound by (metis length_take min.absorb2)
  ultimately show "consumed d = length (varint_bytes (dvalue d)) \<and>
      (\<exists>rest. buf = varint_bytes (dvalue d) @ rest)" by blast
next
  assume "consumed d = length (varint_bytes (dvalue d)) \<and>
      (\<exists>rest. buf = varint_bytes (dvalue d) @ rest)"
  then obtain rest where "consumed d = length (varint_bytes (dvalue d))"
    "buf = varint_bytes (dvalue d) @ rest" by blast
  then show "decode buf = Some d"
    using decode_complete [of "dvalue d" rest] by (simp add: decoded.equality)
qed

lemma peers_bytes_prefix_unique:
  assumes "varint_bytes m @ r = varint_bytes n @ s"
  shows "m = n \<and> r = s"
proof -
  have "Some \<lparr>dvalue = m, consumed = length (varint_bytes m)\<rparr> =
      Some \<lparr>dvalue = n, consumed = length (varint_bytes n)\<rparr>"
    using decode_complete [of m r] decode_complete [of n s] assms by simp
  with assms show ?thesis by simp
qed

section \<open>Properties\<close>

text \<open>C21: the decoder accepts exactly the buffers that start with what the encoder writes: it
  returns the value and the size of its encoding, so every value of 64 bits round trips, no other
  byte sequence is accepted for it, and truncated or overflowing input is rejected.\<close>

theorem varint_decode_inverts_encode:
  "decode buf = Some d \<longleftrightarrow>
     consumed d = encoded_size (dvalue d) \<and> (\<exists>rest. buf = encode_to_vec [] (dvalue d) @ rest)"
  by (simp add: decode_iff encoded_size_eq encode_to_vec_eq)

text \<open>the bounded encoder writes the part of the encoding that fits between the offset and the
  capacity and nothing else, reports the size exactly when all of it fits, and ten bytes of
  capacity are enough for every value.\<close>

theorem varint_encode_bounded:
  assumes "off + cap \<le> length buf"
  shows "encode buf off cap n =
      (overwrite buf off (take cap (encode_to_vec [] n)),
       if encoded_size n \<le> cap then Some (encoded_size n) else None)
    \<and> encoded_size n \<le> max_encoded_size"
  using assms by (simp add: encode_eq encoded_size_eq encode_to_vec_eq varint_bytes_bound)

theorem varint_encode_bounded_witness:
  "encode [7, 7, 7] 1 1 300 = (overwrite [7, 7, 7] 1 (take 1 (encode_to_vec [] 300)),
     if encoded_size 300 \<le> 1 then Some (encoded_size 300) else None)"
  using varint_encode_bounded [of 1 1 "[7, 7, 7]" 300] by simp

end
