(* ===== verification/Protocol_IO.thy ===== *)
theory Protocol_IO
  imports Varint
begin

text \<open>
  The bounds-checked byte reader and writer of \<open>src/spoa/protocol_io.h\<close>. A reader or writer is a
  record of the span and the position; every operation returns the advanced record or the
  exception it throws. The locale \<open>prefix_codec\<close> is the contract between an encoding and the
  operation that reads it back, which the typed values and the frames rely on.
\<close>

section \<open>Sizes and length prefixes\<close>

definition length_prefixed_size :: "nat \<Rightarrow> nat" where
  "length_prefixed_size len = encoded_size (of_nat len) + len"

definition append_length_prefixed :: "bytes \<Rightarrow> bytes \<Rightarrow> bytes" where
  "append_length_prefixed out bs =
     (let out = encode_to_vec out (of_nat (length bs)); old_size = length out;
          out = out @ replicate (length bs) 0
      in overwrite out old_size bs)"

section \<open>Reader\<close>

record reader =
  rdata :: bytes
  rpos :: nat

definition make_reader :: "bytes \<Rightarrow> reader" where
  "make_reader data = \<lparr>rdata = data, rpos = 0\<rparr>"

definition reader_remaining :: "reader \<Rightarrow> nat" where
  "reader_remaining r = length (rdata r) - rpos r"

definition reader_empty :: "reader \<Rightarrow> bool" where
  "reader_empty r \<longleftrightarrow> reader_remaining r = 0"

definition reader_rest :: "reader \<Rightarrow> bytes" where
  "reader_rest r = drop (rpos r) (rdata r)"

definition read_bytes :: "reader \<Rightarrow> nat \<Rightarrow> (bytes \<times> reader) res" where
  "read_bytes r count =
     (if count > reader_remaining r then Inl (Error ''buffer too small'')
      else Inr (take count (drop (rpos r) (rdata r)), r\<lparr>rpos := rpos r + count\<rparr>))"

definition read_byte :: "reader \<Rightarrow> (u8 \<times> reader) res" where
  "read_byte r = rbind (read_bytes r 1) (\<lambda>(bs, r). Inr (bs ! 0, r))"

definition read_varint :: "reader \<Rightarrow> (u64 \<times> reader) res" where
  "read_varint r =
     (case decode (reader_rest r) of
        None \<Rightarrow> Inl (Error ''truncated or overflowing varint'')
      | Some d \<Rightarrow> Inr (dvalue d, r\<lparr>rpos := rpos r + consumed d\<rparr>))"

definition read_length_prefixed :: "reader \<Rightarrow> (bytes \<times> reader) res" where
  "read_length_prefixed r =
     rbind (read_varint r) (\<lambda>(len, r).
       if unat len > reader_remaining r then Inl (Error ''buffer too small'')
       else read_bytes r (unat len))"

definition read_string :: "reader \<Rightarrow> (string \<times> reader) res" where
  "read_string r = rbind (read_length_prefixed r) (\<lambda>(bs, r). Inr (as_chars bs, r))"

section \<open>Writer\<close>

record writer =
  wbuf :: bytes
  wpos :: nat

definition make_writer :: "bytes \<Rightarrow> writer" where
  "make_writer buf = \<lparr>wbuf = buf, wpos = 0\<rparr>"

definition writer_remaining :: "writer \<Rightarrow> nat" where
  "writer_remaining w = length (wbuf w) - wpos w"

definition written_span :: "writer \<Rightarrow> bytes" where
  "written_span w = take (wpos w) (wbuf w)"

definition write_byte :: "writer \<Rightarrow> u8 \<Rightarrow> writer res" where
  "write_byte w b =
     (if wpos w \<ge> length (wbuf w) then Inl (Error ''buffer too small'')
      else Inr (w\<lparr>wbuf := (wbuf w)[wpos w := b], wpos := wpos w + 1\<rparr>))"

definition write_bytes :: "writer \<Rightarrow> bytes \<Rightarrow> writer res" where
  "write_bytes w src =
     (if length src > writer_remaining w then Inl (Error ''buffer too small'')
      else Inr (w\<lparr>wbuf := overwrite (wbuf w) (wpos w) src, wpos := wpos w + length src\<rparr>))"

definition write_varint :: "writer \<Rightarrow> u64 \<Rightarrow> writer res" where
  "write_varint w n =
     (let needed = encoded_size n in
      if needed > writer_remaining w then Inl (Error ''buffer too small'')
      else Inr (w\<lparr>wbuf := fst (encode_unsafe (wbuf w) (wpos w) n), wpos := wpos w + needed\<rparr>))"

definition write_length_prefixed :: "writer \<Rightarrow> bytes \<Rightarrow> writer res" where
  "write_length_prefixed w bs =
     rbind (write_varint w (of_nat (length bs))) (\<lambda>w. write_bytes w bs)"

definition write_string :: "writer \<Rightarrow> string \<Rightarrow> writer res" where
  "write_string w str = write_length_prefixed w (as_bytes str)"

text \<open>\<open>memcpy\<close> of a 32-bit integer copies its object representation, which depends on the byte
  order of the machine; the byte swap applied on a little-endian machine makes it big-endian.\<close>

definition bswap32 :: "u32 \<Rightarrow> u32" where
  "bswap32 v = push_bit 24 (v AND 0xFF) OR push_bit 8 (v AND 0xFF00) OR
     (drop_bit 8 v AND 0xFF00) OR drop_bit 24 v"

definition object_bytes32 :: "bool \<Rightarrow> u32 \<Rightarrow> bytes" where
  "object_bytes32 big v =
     (let le = [ucast v, ucast (drop_bit 8 v), ucast (drop_bit 16 v), ucast (drop_bit 24 v)]
      in if big then rev le else le)"

definition u32_be_bytes :: "bool \<Rightarrow> u32 \<Rightarrow> bytes" where
  "u32_be_bytes big v = object_bytes32 big (if big then v else bswap32 v)"

definition write_u32_be :: "bool \<Rightarrow> writer \<Rightarrow> u32 \<Rightarrow> writer res" where
  "write_u32_be big w v =
     (if 4 > writer_remaining w then Inl (Error ''buffer too small'')
      else Inr (w\<lparr>wbuf := overwrite (wbuf w) (wpos w) (u32_be_bytes big v), wpos := wpos w + 4\<rparr>))"

section \<open>Layout of the length-prefixed fields\<close>

definition lp_bytes :: "bytes \<Rightarrow> bytes" where
  "lp_bytes bs = varint_bytes (of_nat (length bs)) @ bs"

lemma length_lp_bytes: "length (lp_bytes bs) = length_prefixed_size (length bs)"
  by (simp add: lp_bytes_def length_prefixed_size_def encoded_size_eq)

lemma append_length_prefixed_eq: "append_length_prefixed out bs = out @ lp_bytes bs"
  by (simp add: append_length_prefixed_def encode_to_vec_eq overwrite_def lp_bytes_def)

section \<open>Writers append\<close>

text \<open>Every write is the same step: append some bytes at the position, or throw when they do
  not fit.\<close>

definition put :: "writer \<Rightarrow> bytes \<Rightarrow> writer res" where
  "put w xs =
     (if length xs > writer_remaining w then Inl (Error ''buffer too small'')
      else Inr (w\<lparr>wbuf := overwrite (wbuf w) (wpos w) xs, wpos := wpos w + length xs\<rparr>))"

named_theorems put_simps "each write operation as an append"

lemma put_put: "rbind (put w xs) (\<lambda>w. put w ys) = put w (xs @ ys)"
proof (cases "length xs + length ys \<le> writer_remaining w \<and> wpos w \<le> length (wbuf w)")
  case True
  then have "wpos w + length xs + length ys \<le> length (wbuf w)"
    by (auto simp: writer_remaining_def)
  then show ?thesis
    by (auto simp: put_def writer_remaining_def overwrite_overwrite add.assoc)
next
  case False
  then show ?thesis
    by (auto simp: put_def writer_remaining_def overwrite_def)
qed

lemma put_put_then [put_simps]:
  "rbind (put w xs) (\<lambda>w. rbind (put w ys) f) = rbind (put w (xs @ ys)) f"
  by (simp add: rbind_assoc [symmetric] put_put)

lemma write_byte_put [put_simps]: "write_byte w b = put w [b]"
  by (auto simp: write_byte_def put_def writer_remaining_def overwrite_Cons)

lemma write_bytes_put [put_simps]: "write_bytes w src = put w src"
  by (simp add: write_bytes_def put_def)

lemma write_varint_put [put_simps]: "write_varint w n = put w (varint_bytes n)"
proof (cases "length (varint_bytes n) \<le> writer_remaining w")
  case True
  then have "wpos w + length (varint_bytes n) \<le> length (wbuf w)"
    using peers_bytes_pos [of "unat n"] unfolding writer_remaining_def by linarith
  with True show ?thesis
    by (simp add: write_varint_def put_def encoded_size_eq encode_unsafe_eq)
next
  case False
  then show ?thesis by (simp add: write_varint_def put_def encoded_size_eq)
qed

lemma write_length_prefixed_put [put_simps]: "write_length_prefixed w bs = put w (lp_bytes bs)"
  by (simp add: write_length_prefixed_def write_varint_put write_bytes_put put_put lp_bytes_def)

lemma write_string_put [put_simps]: "write_string w s = put w (lp_bytes (as_bytes s))"
  by (simp add: write_string_def write_length_prefixed_put)

lemmas put_then [put_simps] = put_put

lemma length_u32_be_bytes [simp]: "length (u32_be_bytes big v) = 4"
  by (simp add: u32_be_bytes_def object_bytes32_def Let_def)

lemma write_u32_be_put [put_simps]: "write_u32_be big w v = put w (u32_be_bytes big v)"
  by (simp add: write_u32_be_def put_def)

lemma u32_be_bytes_eq:
  "u32_be_bytes big v = [ucast (drop_bit 24 v), ucast (drop_bit 16 v), ucast (drop_bit 8 v), ucast v]"
proof (cases big)
  case True
  then show ?thesis by (simp add: u32_be_bytes_def object_bytes32_def Let_def)
next
  case False
  have masks: "(0xFF :: u32) = mask 8" "(0xFF00 :: u32) = push_bit 8 (mask 8)"
    by (simp_all add: mask_numeral)
  have "ucast (bswap32 v) = (ucast (drop_bit 24 v) :: u8)"
    "ucast (drop_bit 8 (bswap32 v)) = (ucast (drop_bit 16 v) :: u8)"
    "ucast (drop_bit 16 (bswap32 v)) = (ucast (drop_bit 8 v) :: u8)"
    "ucast (drop_bit 24 (bswap32 v)) = (ucast v :: u8)"
    unfolding bswap32_def masks
    by (rule bit_word_eqI, auto simp: bit_simps)+
  with False show ?thesis by (simp add: u32_be_bytes_def object_bytes32_def Let_def)
qed

text \<open>A writer that starts on a large enough buffer holds exactly what was appended.\<close>

lemma put_written:
  assumes "put w xs = Inr w'" and "wpos w \<le> length (wbuf w)"
  shows "written_span w' = written_span w @ xs" and "length (wbuf w') = length (wbuf w)"
    and "wpos w' \<le> length (wbuf w')"
  using assms
  by (auto simp: put_def written_span_def writer_remaining_def take_overwrite split: if_splits)

section \<open>Readers advance\<close>

abbreviation advance :: "reader \<Rightarrow> nat \<Rightarrow> reader" where
  "advance r k \<equiv> r\<lparr>rpos := rpos r + k\<rparr>"

lemma length_reader_rest: "length (reader_rest r) = reader_remaining r"
  by (simp add: reader_rest_def reader_remaining_def)

lemma reader_empty_iff: "reader_empty r \<longleftrightarrow> reader_rest r = []"
  by (simp add: reader_empty_def flip: length_reader_rest)

lemma reader_rest_advance: "reader_rest r = xs @ ys \<Longrightarrow> reader_rest (advance r (length xs)) = ys"
  by (simp add: reader_rest_def add.commute flip: drop_drop)

lemma reader_remaining_advance [simp]:
  "reader_remaining (advance r k) = reader_remaining r - k"
  "reader_remaining (r\<lparr>rpos := Suc (rpos r)\<rparr>) = reader_remaining r - 1"
  by (simp_all add: reader_remaining_def)

lemma read_bytes_eq:
  "read_bytes r n = (if n > length (reader_rest r) then Inl (Error ''buffer too small'')
     else Inr (take n (reader_rest r), advance r n))"
  by (simp add: read_bytes_def length_reader_rest) (simp add: reader_rest_def)

text \<open>The contract of an encoding and its reader: what \<open>enc\<close> produces is read back whatever
  follows it, and a successful read consumes at least one byte that was there.\<close>

locale prefix_codec =
  fixes enc :: "'a \<Rightarrow> bytes" and dec :: "reader \<Rightarrow> ('a \<times> reader) res" and valid :: "'a \<Rightarrow> bool"
  assumes dec_enc: "valid x \<Longrightarrow> reader_rest r = enc x @ s \<Longrightarrow> dec r = Inr (x, advance r (length (enc x)))"
    and dec_progress: "dec r = Inr (x, r') \<Longrightarrow> \<exists>k. 0 < k \<and> k \<le> reader_remaining r \<and> r' = advance r k"
begin

lemma enc_nonempty: "valid x \<Longrightarrow> enc x \<noteq> []"
  using dec_enc [of x "make_reader (enc x)" "[]"] dec_progress [of "make_reader (enc x)"]
  by (fastforce simp: make_reader_def reader_rest_def reader_remaining_def)

lemma enc_prefix_free:
  assumes "valid x" and "valid y" and "enc x @ s = enc y @ t"
  shows "x = y \<and> s = t"
proof -
  let ?r = "make_reader (enc x @ s)"
  have "reader_rest ?r = enc x @ s" and "reader_rest ?r = enc y @ t"
    using assms(3) by (simp_all add: make_reader_def reader_rest_def)
  note dec = dec_enc [OF assms(1) this(1)] dec_enc [OF assms(2) this(2)]
  have "x = y"
    using dec by (simp only: sum.inject prod.inject)
  with assms(3) show ?thesis by simp
qed

lemma dec_remaining: "dec r = Inr (x, r') \<Longrightarrow> reader_remaining r' < reader_remaining r"
  by (drule dec_progress) auto

end

section \<open>The primitive codecs\<close>

interpretation varint_codec: prefix_codec "\<lambda>n. varint_bytes n" read_varint "\<lambda>_. True"
proof
  show "reader_rest r = varint_bytes n @ s \<Longrightarrow>
      read_varint r = Inr (n, advance r (length (varint_bytes n)))" for n r s
    by (simp add: read_varint_def decode_complete)
next
  fix r n r'
  assume "read_varint r = Inr (n, r')"
  then obtain d where d: "decode (reader_rest r) = Some d" "r' = advance r (consumed d)"
    by (auto simp: read_varint_def split: option.splits)
  from d(1) have "consumed d = length (varint_bytes (dvalue d))" "consumed d \<le> reader_remaining r"
    using decode_sound(2) [OF d(1)] by (simp_all add: decode_iff length_reader_rest)
  then show "\<exists>k. 0 < k \<and> k \<le> reader_remaining r \<and> r' = advance r k"
    using d(2) peers_bytes_pos [of "unat (dvalue d)"] by (intro exI [of _ "consumed d"]) simp
qed

lemmas read_varint_bytes = varint_codec.dec_enc [OF TrueI]

definition addressable :: "'a list \<Rightarrow> bool" where
  "addressable xs \<longleftrightarrow> length xs < 2 ^ 64"

lemma unat_length [simp]: "addressable xs \<Longrightarrow> unat (of_nat (length xs) :: u64) = length xs"
  by (simp add: addressable_def unsigned_of_nat take_bit_nat_eq_self)

interpretation length_prefixed_codec: prefix_codec lp_bytes read_length_prefixed addressable
proof
  fix bs r s
  assume "addressable bs" and rest: "reader_rest r = lp_bytes bs @ s"
  let ?n = "of_nat (length bs) :: u64"
  have "read_varint r = Inr (?n, advance r (length (varint_bytes ?n)))"
    by (rule varint_codec.dec_enc [where s = "bs @ s"]) (use rest in \<open>simp_all add: lp_bytes_def\<close>)
  moreover have "reader_rest (advance r (length (varint_bytes ?n))) = bs @ s"
    by (rule reader_rest_advance) (use rest in \<open>simp add: lp_bytes_def\<close>)
  ultimately show "read_length_prefixed r = Inr (bs, advance r (length (lp_bytes bs)))"
    using \<open>addressable bs\<close> length_reader_rest [of "advance r (length (varint_bytes ?n))"]
    by (simp add: read_length_prefixed_def read_bytes_eq) (simp add: lp_bytes_def add.assoc)
next
  fix r bs r'
  assume "read_length_prefixed r = Inr (bs, r')"
  then obtain n q where "read_varint r = Inr (n, q)" and
    q: "unat n \<le> reader_remaining q" "r' = advance q (unat n)"
    by (auto simp: read_length_prefixed_def read_bytes_def split: if_splits)
  from varint_codec.dec_progress [OF this(1)] obtain k
    where "0 < k" "k \<le> reader_remaining r" "q = advance r k" by blast
  with q show "\<exists>k. 0 < k \<and> k \<le> reader_remaining r \<and> r' = advance r k"
    by (intro exI [of _ "k + unat n"]) (simp add: add.assoc)
qed

interpretation string_codec: prefix_codec "\<lambda>s. lp_bytes (as_bytes s)" read_string addressable
proof
  fix x r s
  assume "addressable (x :: string)" and "reader_rest r = lp_bytes (as_bytes x) @ s"
  then show "read_string r = Inr (x, advance r (length (lp_bytes (as_bytes x))))"
    using length_prefixed_codec.dec_enc [of "as_bytes x" r s]
    by (simp add: read_string_def addressable_def)
next
  show "read_string r = Inr (x, r') \<Longrightarrow> \<exists>k. 0 < k \<and> k \<le> reader_remaining r \<and> r' = advance r k"
    for r x r'
    by (auto simp: read_string_def dest: length_prefixed_codec.dec_progress)
qed

end
