(* ===== verification/Typed_Data.thy ===== *)
theory Typed_Data
  imports Protocol_IO
begin

text \<open>
  SPOE typed values (\<open>src/spoa/typed_data.h\<close>, \<open>typed_data.cpp\<close>): the tagged union, its size, the
  two encoders and the decoder. The tag and the union of \<open>TypedData\<close> are one datatype; signed
  integers are their two's complement bit patterns.
\<close>

datatype typed_type =
  TT_Null | TT_Boolean | TT_Int32 | TT_UInt32 | TT_Int64 | TT_UInt64 |
  TT_IPv4 | TT_IPv6 | TT_String | TT_Binary

datatype typed_data =
  Null
| Boolean bool
| Int32 u32
| UInt32 u32
| Int64 u64
| UInt64 u64
| IPv4 bytes
| IPv6 bytes
| Str string
| Binary bytes

fun type_of :: "typed_data \<Rightarrow> typed_type" where
  "type_of Null = TT_Null"
| "type_of (Boolean _) = TT_Boolean"
| "type_of (Int32 _) = TT_Int32"
| "type_of (UInt32 _) = TT_UInt32"
| "type_of (Int64 _) = TT_Int64"
| "type_of (UInt64 _) = TT_UInt64"
| "type_of (IPv4 _) = TT_IPv4"
| "type_of (IPv6 _) = TT_IPv6"
| "type_of (Str _) = TT_String"
| "type_of (Binary _) = TT_Binary"

fun type_code :: "typed_type \<Rightarrow> u8" where
  "type_code TT_Null = 0"
| "type_code TT_Boolean = 1"
| "type_code TT_Int32 = 2"
| "type_code TT_UInt32 = 3"
| "type_code TT_Int64 = 4"
| "type_code TT_UInt64 = 5"
| "type_code TT_IPv4 = 6"
| "type_code TT_IPv6 = 7"
| "type_code TT_String = 8"
| "type_code TT_Binary = 9"

fun typed_type_name :: "typed_type \<Rightarrow> string" where
  "typed_type_name TT_Null = ''Null''"
| "typed_type_name TT_Boolean = ''Boolean''"
| "typed_type_name TT_Int32 = ''Int32''"
| "typed_type_name TT_UInt32 = ''UInt32''"
| "typed_type_name TT_Int64 = ''Int64''"
| "typed_type_name TT_UInt64 = ''UInt64''"
| "typed_type_name TT_IPv4 = ''IPv4''"
| "typed_type_name TT_IPv6 = ''IPv6''"
| "typed_type_name TT_String = ''String''"
| "typed_type_name TT_Binary = ''Binary''"

fun typed_encoded_size :: "typed_data \<Rightarrow> nat" where
  "typed_encoded_size Null = 1"
| "typed_encoded_size (Boolean _) = 1"
| "typed_encoded_size (Int32 v) = 1 + encoded_size (scast v)"
| "typed_encoded_size (UInt32 v) = 1 + encoded_size (ucast v)"
| "typed_encoded_size (Int64 v) = 1 + encoded_size v"
| "typed_encoded_size (UInt64 v) = 1 + encoded_size v"
| "typed_encoded_size (IPv4 a) = 1 + length a"
| "typed_encoded_size (IPv6 a) = 1 + length a"
| "typed_encoded_size (Str s) = 1 + length_prefixed_size (length s)"
| "typed_encoded_size (Binary b) = 1 + length_prefixed_size (length b)"

fun encode_payload :: "typed_data \<Rightarrow> writer \<Rightarrow> writer res" where
  "encode_payload Null w = Inr w"
| "encode_payload (Boolean _) w = Inr w"
| "encode_payload (Int32 v) w = write_varint w (scast v)"
| "encode_payload (UInt32 v) w = write_varint w (ucast v)"
| "encode_payload (Int64 v) w = write_varint w v"
| "encode_payload (UInt64 v) w = write_varint w v"
| "encode_payload (IPv4 a) w = write_bytes w a"
| "encode_payload (IPv6 a) w = write_bytes w a"
| "encode_payload (Str s) w = write_string w s"
| "encode_payload (Binary b) w = write_length_prefixed w b"

definition typed_encode :: "typed_data \<Rightarrow> writer \<Rightarrow> writer res" where
  "typed_encode v w =
     rbind (write_byte w (type_code (type_of v) OR (if v = Boolean True then 0x10 else 0)))
       (encode_payload v)"

text \<open>Appending to a vector: grow it once, then write into the new part.\<close>

definition typed_encode_vec :: "typed_data \<Rightarrow> bytes \<Rightarrow> bytes res" where
  "typed_encode_vec v out =
     (let old_size = length out; out = out @ replicate (typed_encoded_size v) 0 in
      rbind (typed_encode v (make_writer (drop old_size out)))
        (\<lambda>w. Inr (take old_size out @ wbuf w)))"

definition read_array :: "nat \<Rightarrow> reader \<Rightarrow> (bytes \<times> reader) res" where
  "read_array n r = read_bytes r n"

definition typed_decode :: "reader \<Rightarrow> (typed_data \<times> reader) res" where
  "typed_decode r =
     rbind (read_byte r) (\<lambda>(header, r).
       let t = header AND 0x0F in
       if t = 0 then Inr (Null, r)
       else if t = 1 then Inr (Boolean (header AND 0x10 \<noteq> 0), r)
       else if t = 2 then rbind (read_varint r) (\<lambda>(n, r). Inr (Int32 (ucast n), r))
       else if t = 3 then rbind (read_varint r) (\<lambda>(n, r). Inr (UInt32 (ucast n), r))
       else if t = 4 then rbind (read_varint r) (\<lambda>(n, r). Inr (Int64 n, r))
       else if t = 5 then rbind (read_varint r) (\<lambda>(n, r). Inr (UInt64 n, r))
       else if t = 6 then rbind (read_array 4 r) (\<lambda>(a, r). Inr (IPv4 a, r))
       else if t = 7 then rbind (read_array 16 r) (\<lambda>(a, r). Inr (IPv6 a, r))
       else if t = 8 then rbind (read_string r) (\<lambda>(s, r). Inr (Str s, r))
       else if t = 9 then rbind (read_length_prefixed r) (\<lambda>(b, r). Inr (Binary b, r))
       else Inl (Error (''unknown typed value type '' @ to_string (unat t))))"

definition typed_decode_span :: "bytes \<Rightarrow> (typed_data \<times> nat) res" where
  "typed_decode_span buf = rbind (typed_decode (make_reader buf)) (\<lambda>(v, r). Inr (v, rpos r))"

section \<open>Layout\<close>

text \<open>The arrays of the union have their fixed sizes and the views fit the address space.\<close>

fun typed_ok :: "typed_data \<Rightarrow> bool" where
  "typed_ok (IPv4 a) \<longleftrightarrow> length a = 4"
| "typed_ok (IPv6 a) \<longleftrightarrow> length a = 16"
| "typed_ok (Str s) \<longleftrightarrow> addressable s"
| "typed_ok (Binary b) \<longleftrightarrow> addressable b"
| "typed_ok _ \<longleftrightarrow> True"

fun payload_bytes :: "typed_data \<Rightarrow> bytes" where
  "payload_bytes Null = []"
| "payload_bytes (Boolean _) = []"
| "payload_bytes (Int32 v) = varint_bytes (scast v)"
| "payload_bytes (UInt32 v) = varint_bytes (ucast v)"
| "payload_bytes (Int64 v) = varint_bytes v"
| "payload_bytes (UInt64 v) = varint_bytes v"
| "payload_bytes (IPv4 a) = a"
| "payload_bytes (IPv6 a) = a"
| "payload_bytes (Str s) = lp_bytes (as_bytes s)"
| "payload_bytes (Binary b) = lp_bytes b"

definition header_byte :: "typed_data \<Rightarrow> u8" where
  "header_byte v = type_code (type_of v) OR (if v = Boolean True then 0x10 else 0)"

definition typed_bytes :: "typed_data \<Rightarrow> bytes" where
  "typed_bytes v = header_byte v # payload_bytes v"

lemma typed_encoded_size_eq: "typed_encoded_size v = length (typed_bytes v)"
  by (cases v) (simp_all add: typed_bytes_def encoded_size_eq length_lp_bytes)

lemma encode_payload_put: "wpos w \<le> length (wbuf w) \<Longrightarrow> encode_payload v w = put w (payload_bytes v)"
  by (cases v) (simp_all add: put_simps, simp_all add: put_def)

lemma typed_encode_put: "typed_encode v w = put w (typed_bytes v)"
proof -
  have "typed_encode v w = rbind (put w [header_byte v]) (\<lambda>w. put w (payload_bytes v))"
    unfolding typed_encode_def header_byte_def [symmetric] write_byte_put
    by (rule rbind_cong) (auto simp: encode_payload_put put_def writer_remaining_def split: if_splits)
  then show ?thesis by (simp add: put_put typed_bytes_def)
qed

lemma typed_encode_vec_eq: "typed_encode_vec v out = Inr (out @ typed_bytes v)"
  by (simp add: typed_encode_vec_def typed_encode_put put_def make_writer_def
      writer_remaining_def typed_encoded_size_eq overwrite_def)

section \<open>Decoding\<close>

lemma read_byte_Cons: "reader_rest r = b # s \<Longrightarrow> read_byte r = Inr (b, advance r 1)"
  by (simp add: read_byte_def read_bytes_eq)

lemma read_byte_Inr: "read_byte r = Inr (b, r') \<Longrightarrow> 1 \<le> reader_remaining r \<and> r' = advance r 1"
  by (auto simp: read_byte_def read_bytes_def split: if_splits)

lemma read_array_append: "reader_rest r = a @ s \<Longrightarrow> length a = n \<Longrightarrow> read_array n r = Inr (a, advance r n)"
  by (auto simp: read_array_def read_bytes_eq)

lemma read_array_Inr: "read_array n r = Inr (a, r') \<Longrightarrow> n \<le> reader_remaining r \<and> r' = advance r n"
  by (auto simp: read_array_def read_bytes_def split: if_splits)

lemma ucast_scast_u32: "ucast (scast (v :: u32) :: u64) = v"
  by (rule bit_word_eqI) (simp add: bit_simps)

lemma ucast_ucast_u32: "ucast (ucast (v :: u32) :: u64) = v"
  by (rule bit_word_eqI) (simp add: bit_simps)

lemma header_nibble: "header_byte v AND 0x0F = type_code (type_of v)"
  by (cases v) (simp_all add: header_byte_def)

lemma header_flag: "header_byte (Boolean b) AND 0x10 \<noteq> 0 \<longleftrightarrow> b"
  by (simp add: header_byte_def)

lemma typed_decode_typed_bytes:
  assumes "typed_ok v" and rest: "reader_rest r = typed_bytes v @ s"
  shows "typed_decode r = Inr (v, advance r (length (typed_bytes v)))"
proof -
  let ?q = "advance r 1"
  have head: "read_byte r = Inr (header_byte v, ?q)"
    using rest by (simp add: typed_bytes_def read_byte_Cons)
  have q: "reader_rest ?q = payload_bytes v @ s"
    using reader_rest_advance [of r "[header_byte v]"] rest by (simp add: typed_bytes_def)
  have len: "advance ?q (length (payload_bytes v)) = advance r (length (typed_bytes v))"
    by (simp add: typed_bytes_def)
  show ?thesis
  proof (cases v)
    case Null
    with head len show ?thesis by (simp add: typed_decode_def header_nibble)
  next
    case (Boolean b)
    with head len show ?thesis by (simp add: typed_decode_def header_nibble header_flag)
  next
    case (Int32 n)
    with head len q varint_codec.dec_enc [of ?q "scast n" s] show ?thesis
      by (simp add: typed_decode_def header_nibble ucast_scast_u32)
  next
    case (UInt32 n)
    with head len q varint_codec.dec_enc [of ?q "ucast n" s] show ?thesis
      by (simp add: typed_decode_def header_nibble ucast_ucast_u32)
  next
    case (Int64 n)
    with head len q varint_codec.dec_enc [of ?q n s] show ?thesis
      by (simp add: typed_decode_def header_nibble)
  next
    case (UInt64 n)
    with head len q varint_codec.dec_enc [of ?q n s] show ?thesis
      by (simp add: typed_decode_def header_nibble)
  next
    case (IPv4 a)
    with assms(1) head len q read_array_append [of ?q a s 4] show ?thesis
      by (simp add: typed_decode_def header_nibble)
  next
    case (IPv6 a)
    with assms(1) head len q read_array_append [of ?q a s 16] show ?thesis
      by (simp add: typed_decode_def header_nibble)
  next
    case (Str t)
    with assms(1) head len q string_codec.dec_enc [of t ?q s] show ?thesis
      by (simp add: typed_decode_def header_nibble)
  next
    case (Binary b)
    with assms(1) head len q length_prefixed_codec.dec_enc [of b ?q s] show ?thesis
      by (simp add: typed_decode_def header_nibble)
  qed
qed

lemma typed_decode_progress:
  assumes "typed_decode r = Inr (v, r')"
  shows "\<exists>k. 0 < k \<and> k \<le> reader_remaining r \<and> r' = advance r k"
proof -
  obtain h q where "read_byte r = Inr (h, q)"
    and body: "q = r' \<or> (\<exists>n. read_varint q = Inr (n, r')) \<or> (\<exists>n a. read_array n q = Inr (a, r')) \<or>
      (\<exists>t. read_string q = Inr (t, r')) \<or> (\<exists>b. read_length_prefixed q = Inr (b, r'))"
    using assms by (auto simp: typed_decode_def Let_def split: if_splits)
  then have q: "1 \<le> reader_remaining r" "q = advance r 1"
    by (auto dest: read_byte_Inr)
  from body have "\<exists>k. k \<le> reader_remaining q \<and> r' = advance q k"
    by (auto dest!: varint_codec.dec_progress read_array_Inr string_codec.dec_progress
        length_prefixed_codec.dec_progress intro: exI [of _ 0])
  then obtain k where "k \<le> reader_remaining q" "r' = advance q k" by blast
  with q show ?thesis by (intro exI [of _ "Suc k"]) (auto simp: reader_remaining_def)
qed

interpretation typed_codec: prefix_codec typed_bytes typed_decode typed_ok
  by unfold_locales (auto intro: typed_decode_typed_bytes typed_decode_progress)

text \<open>What the decoder accepts is well-formed, and an unknown tag is always an error.\<close>

lemma read_array_length: "read_array n r = Inr (a, r') \<Longrightarrow> length a = n"
  by (auto simp: read_array_def read_bytes_def reader_remaining_def split: if_splits)

lemma read_length_prefixed_addressable:
  "read_length_prefixed r = Inr (b, r') \<Longrightarrow> addressable b"
  by (auto simp: read_length_prefixed_def read_bytes_def addressable_def min_less_iff_disj
      unat_bounds split: if_splits)

lemma typed_decode_ok: "typed_decode r = Inr (v, r') \<Longrightarrow> typed_ok v"
  by (auto simp: typed_decode_def Let_def read_string_def addressable_def split: if_splits
      dest: read_array_length read_length_prefixed_addressable)

lemma typed_decode_unknown:
  assumes "reader_rest r = h # s" and "unat (h AND 0x0F) > 9"
  shows "typed_decode r = Inl (Error (''unknown typed value type '' @ to_string (unat (h AND 0x0F))))"
proof -
  have "h AND 0x0F \<noteq> of_nat k" if "k \<le> 9" for k
    using assms(2) that by (auto simp: unsigned_of_nat take_bit_nat_eq_self)
  from this [of 0] this [of 1] this [of 2] this [of 3] this [of 4] this [of 5] this [of 6]
    this [of 7] this [of 8] this [of 9] show ?thesis
    by (simp add: typed_decode_def Let_def read_byte_Cons [OF assms(1)])
qed

section \<open>Properties\<close>

text \<open>C22: a typed value round trips: encoding it appends as many bytes as its computed size, and
  decoding those bytes, whatever follows them, gives the value back and consumes exactly them.\<close>

theorem typed_data_roundtrip:
  assumes "typed_ok v"
  shows "\<exists>bs. typed_encode_vec v out = Inr (out @ bs) \<and> length bs = typed_encoded_size v \<and>
    typed_decode_span (bs @ rest) = Inr (v, length bs)"
proof (intro exI conjI)
  show "typed_encode_vec v out = Inr (out @ typed_bytes v)"
    by (rule typed_encode_vec_eq)
  show "length (typed_bytes v) = typed_encoded_size v"
    by (simp add: typed_encoded_size_eq)
  show "typed_decode_span (typed_bytes v @ rest) = Inr (v, length (typed_bytes v))"
    using typed_codec.dec_enc [OF assms, of "make_reader (typed_bytes v @ rest)" rest]
    by (simp add: typed_decode_span_def make_reader_def reader_rest_def)
qed

theorem typed_data_roundtrip_witness:
  "\<exists>bs. typed_encode_vec (Int32 (- 5)) [1] = Inr ([1] @ bs) \<and>
     length bs = typed_encoded_size (Int32 (- 5)) \<and>
     typed_decode_span (bs @ [9, 9]) = Inr (Int32 (- 5), length bs)"
  using typed_data_roundtrip [of "Int32 (- 5)" "[1]" "[9, 9]"] by simp

text \<open>a value the decoder returns is well formed (addresses have 4 and 16 bytes), the reader
  has advanced and stays inside its buffer, which it does not change.\<close>

theorem typed_decode_bounds:
  assumes "typed_decode r = Inr (v, r')"
  shows "typed_ok v \<and> rdata r' = rdata r \<and> rpos r < rpos r' \<and> rpos r' \<le> length (rdata r)"
proof -
  from typed_codec.dec_progress [OF assms] obtain k
    where "0 < k" "k \<le> reader_remaining r" "r' = advance r k" by blast
  then show ?thesis
    using typed_decode_ok [OF assms] by (auto simp: reader_remaining_def)
qed

theorem typed_decode_bounds_witness:
  "typed_ok (Boolean True) \<and> rpos (make_reader [0x11, 0]) < 1 \<and> 1 \<le> length [0x11, 0 :: u8]"
  using typed_decode_bounds [of "make_reader [0x11, 0]" "Boolean True" "(make_reader [0x11, 0])\<lparr>rpos := 1\<rparr>"]
  by (simp add: make_reader_def typed_decode_def read_byte_def read_bytes_def reader_remaining_def)

text \<open>a tag that is not one of the ten types is always rejected, with the tag in the message,
  whatever the flags of the header byte and the bytes after it.\<close>

theorem typed_decode_rejects_unknown:
  assumes "unat (h AND 0x0F) > 9"
  shows "typed_decode_span (h # rest) =
    Inl (Error (''unknown typed value type '' @ to_string (unat (h AND 0x0F))))"
  using typed_decode_unknown [of "make_reader (h # rest)" h rest] assms
  by (simp add: typed_decode_span_def make_reader_def reader_rest_def)

theorem typed_decode_rejects_unknown_witness:
  "typed_decode_span (0x3B # [1]) =
    Inl (Error (''unknown typed value type '' @ to_string (unat ((0x3B :: u8) AND 0x0F))))"
  using typed_decode_rejects_unknown [of "0x3B" "[1]"] by simp

end
