(* ===== verification/Frame.thy ===== *)
theory Frame
  imports Typed_Data
begin

text \<open>
  SPOE messages and frames (\<open>src/spoa/message.h\<close>, \<open>frame.h\<close>, \<open>frame.cpp\<close>): parsing of the frames
  HAProxy sends and encoding of the frames the agent answers with. The loops over a payload are
  total functions because every read consumes input.
\<close>

section \<open>Data\<close>

record arg =
  arg_name :: string
  arg_value :: typed_data

record message =
  msg_name :: string
  msg_args :: "arg list"

definition message_get :: "message \<Rightarrow> string \<Rightarrow> typed_data option" where
  "message_get m key = map_option arg_value (find (\<lambda>a. arg_name a = key) (msg_args m))"

text \<open>A \<open>FrameType\<close> is made by a cast from the byte on the wire, so it can hold any value.\<close>

datatype frame_type =
  HaproxyHello | HaproxyDisconnect | Notify | AgentHello | AgentDisconnect | AgentAck
| OtherFrame u8

fun frame_type_code :: "frame_type \<Rightarrow> u8" where
  "frame_type_code HaproxyHello = 0x01"
| "frame_type_code HaproxyDisconnect = 0x02"
| "frame_type_code Notify = 0x03"
| "frame_type_code AgentHello = 0x65"
| "frame_type_code AgentDisconnect = 0x66"
| "frame_type_code AgentAck = 0x67"
| "frame_type_code (OtherFrame b) = b"

definition frame_type_of :: "u8 \<Rightarrow> frame_type" where
  "frame_type_of b =
     (if b = 0x01 then HaproxyHello else if b = 0x02 then HaproxyDisconnect
      else if b = 0x03 then Notify else if b = 0x65 then AgentHello
      else if b = 0x66 then AgentDisconnect else if b = 0x67 then AgentAck else OtherFrame b)"

record haproxy_hello =
  hello_stream_id :: u64
  hello_frame_id :: u64
  engine_id :: string
  supported_versions :: string
  max_frame_size :: u32
  healthcheck :: bool

record haproxy_disconnect =
  disconnect_stream_id :: u64
  disconnect_frame_id :: u64
  status_code :: u32
  disconnect_message :: string

record notify =
  notify_stream_id :: u64
  notify_frame_id :: u64
  messages :: "message list"

datatype in_frame =
  InHello haproxy_hello | InDisconnect haproxy_disconnect | InNotify notify

datatype var_scope = Process | Session | Transaction | Request | Response

fun scope_code :: "var_scope \<Rightarrow> u8" where
  "scope_code Process = 0"
| "scope_code Session = 1"
| "scope_code Transaction = 2"
| "scope_code Request = 3"
| "scope_code Response = 4"

record ack_var =
  ack_scope :: var_scope
  ack_name :: string
  ack_value :: typed_data

definition kLengthPrefixSize :: nat where
  "kLengthPrefixSize = 4"

definition kFlagsFin :: bytes where
  "kFlagsFin = [0, 0, 0, 1]"

definition kActionSetVar :: u8 where
  "kActionSetVar = 0x01"

definition kSetVarArgCount :: u8 where
  "kSetVarArgCount = 3"

text \<open>Byte order of the machine. The encoders do not depend on it (\<open>u32_be_bytes_eq\<close>).\<close>

definition native_big_endian :: bool where
  "native_big_endian = False"

section \<open>Reading fields\<close>

definition read_arg :: "reader \<Rightarrow> (arg \<times> reader) res" where
  "read_arg r =
     rbind (read_string r) (\<lambda>(name, r).
     rbind (typed_decode r) (\<lambda>(v, r).
     Inr (\<lparr>arg_name = name, arg_value = v\<rparr>, r)))"

definition field_bytes :: "string \<Rightarrow> typed_data \<Rightarrow> bytes" where
  "field_bytes name v = lp_bytes (as_bytes name) @ typed_bytes v"

abbreviation arg_bytes :: "arg \<Rightarrow> bytes" where
  "arg_bytes a \<equiv> field_bytes (arg_name a) (arg_value a)"

definition arg_ok :: "arg \<Rightarrow> bool" where
  "arg_ok a \<longleftrightarrow> addressable (arg_name a) \<and> typed_ok (arg_value a)"

interpretation arg_codec: prefix_codec arg_bytes read_arg arg_ok
proof
  fix a r s
  assume ok: "arg_ok a" and rest: "reader_rest r = arg_bytes a @ s"
  let ?n = "lp_bytes (as_bytes (arg_name a))"
  let ?q = "advance r (length ?n)"
  have "read_string r = Inr (arg_name a, ?q)"
    by (rule string_codec.dec_enc [where s = "typed_bytes (arg_value a) @ s"])
      (use ok rest in \<open>simp_all add: arg_ok_def field_bytes_def\<close>)
  moreover have "reader_rest ?q = typed_bytes (arg_value a) @ s"
    by (rule reader_rest_advance) (use rest in \<open>simp add: field_bytes_def\<close>)
  then have "typed_decode ?q = Inr (arg_value a, advance ?q (length (typed_bytes (arg_value a))))"
    using ok by (intro typed_codec.dec_enc) (simp_all add: arg_ok_def)
  ultimately show "read_arg r = Inr (a, advance r (length (arg_bytes a)))"
    by (simp add: read_arg_def field_bytes_def add.assoc)
next
  fix r a r'
  assume "read_arg r = Inr (a, r')"
  then obtain n q v where "read_string r = Inr (n, q)" and "typed_decode q = Inr (v, r')"
    by (auto simp: read_arg_def)
  then obtain j k where "0 < j" "j \<le> reader_remaining r" "q = advance r j"
    "0 < k" "k \<le> reader_remaining q" "r' = advance q k"
    using string_codec.dec_progress typed_codec.dec_progress by meson
  then show "\<exists>k. 0 < k \<and> k \<le> reader_remaining r \<and> r' = advance r k"
    by (intro exI [of _ "j + k"]) auto
qed

text \<open>The loop over the fields left in a payload; \<open>visit\<close> updates the frame under construction.\<close>

function for_each_field ::
  "(string \<Rightarrow> typed_data \<Rightarrow> 's \<Rightarrow> 's) \<Rightarrow> reader \<Rightarrow> 's \<Rightarrow> ('s \<times> reader) res" where
  "for_each_field visit r st =
     (if reader_empty r then Inr (st, r)
      else rbind (read_arg r) (\<lambda>(a, r).
        for_each_field visit r (visit (arg_name a) (arg_value a) st)))"
  by pat_completeness auto
termination
  by (relation "measure (\<lambda>(visit, r, st). reader_remaining r)")
    (auto dest: arg_codec.dec_remaining)

declare for_each_field.simps [simp del]

fun read_args :: "nat \<Rightarrow> reader \<Rightarrow> (arg list \<times> reader) res" where
  "read_args 0 r = Inr ([], r)"
| "read_args (Suc n) r =
     rbind (read_arg r) (\<lambda>(a, r). rbind (read_args n r) (\<lambda>(as, r). Inr (a # as, r)))"

lemma read_args_remaining: "read_args n r = Inr (as, r') \<Longrightarrow> reader_remaining r' \<le> reader_remaining r"
  by (induction n arbitrary: r as r')
    (auto dest!: arg_codec.dec_remaining, meson less_imp_le order_trans)

section \<open>Sizes and encoding\<close>

definition add_size :: "nat \<Rightarrow> nat \<Rightarrow> nat res" where
  "add_size sz extra =
     (let max_size = 2 ^ 32 - 1 in
      if extra > max_size \<or> sz > max_size - extra
      then Inl (Error ''frame exceeds the SPOE length limit'')
      else Inr (sz + extra))"

definition field_size :: "string \<Rightarrow> typed_data \<Rightarrow> nat res" where
  "field_size name v = add_size (length_prefixed_size (length name)) (typed_encoded_size v)"

definition append_field :: "bytes \<Rightarrow> string \<Rightarrow> typed_data \<Rightarrow> bytes res" where
  "append_field out name v = typed_encode_vec v (append_length_prefixed out (as_bytes name))"

definition begin_frame :: "frame_type \<Rightarrow> u64 \<Rightarrow> u64 \<Rightarrow> nat \<Rightarrow> bytes res" where
  "begin_frame t stream_id frame_id payload_size =
     rbind (add_size (1 + length kFlagsFin) (encoded_size stream_id)) (\<lambda>frame_size.
     rbind (add_size frame_size (encoded_size frame_id)) (\<lambda>frame_size.
     rbind (add_size frame_size payload_size) (\<lambda>frame_size.
       let out = u32_be_bytes native_big_endian (of_nat frame_size);
           out = out @ [frame_type_code t];
           out = out @ kFlagsFin;
           out = encode_to_vec out stream_id;
           out = encode_to_vec out frame_id
       in Inr out)))"

fun fields_size :: "arg list \<Rightarrow> nat \<Rightarrow> nat res" where
  "fields_size [] sz = Inr sz"
| "fields_size (a # as) sz =
     rbind (field_size (arg_name a) (arg_value a)) (\<lambda>n.
     rbind (add_size sz n) (\<lambda>sz. fields_size as sz))"

fun append_fields :: "arg list \<Rightarrow> bytes \<Rightarrow> bytes res" where
  "append_fields [] out = Inr out"
| "append_fields (a # as) out =
     rbind (append_field out (arg_name a) (arg_value a)) (\<lambda>out. append_fields as out)"

definition encode_fields :: "frame_type \<Rightarrow> u64 \<Rightarrow> u64 \<Rightarrow> arg list \<Rightarrow> bytes res" where
  "encode_fields t stream_id frame_id fs =
     rbind (fields_size fs 0) (\<lambda>payload_size.
     rbind (begin_frame t stream_id frame_id payload_size) (\<lambda>out.
       append_fields fs out))"

section \<open>Parsing\<close>

definition hello_field :: "string \<Rightarrow> typed_data \<Rightarrow> haproxy_hello \<Rightarrow> haproxy_hello" where
  "hello_field key v f =
     (case v of
        Str s \<Rightarrow>
          if key = ''engine-id'' then f\<lparr>engine_id := s\<rparr>
          else if key = ''supported-versions'' then f\<lparr>supported_versions := s\<rparr> else f
      | UInt32 n \<Rightarrow> if key = ''max-frame-size'' then f\<lparr>max_frame_size := n\<rparr> else f
      | Boolean b \<Rightarrow> if key = ''healthcheck'' then f\<lparr>healthcheck := b\<rparr> else f
      | _ \<Rightarrow> f)"

definition parse_hello :: "reader \<Rightarrow> u64 \<Rightarrow> u64 \<Rightarrow> haproxy_hello res" where
  "parse_hello r stream_id frame_id =
     rbind (for_each_field hello_field r
         \<lparr>hello_stream_id = stream_id, hello_frame_id = frame_id, engine_id = '''',
          supported_versions = '''', max_frame_size = 0, healthcheck = False\<rparr>)
       (\<lambda>(f, r). Inr f)"

definition disconnect_field ::
  "string \<Rightarrow> typed_data \<Rightarrow> haproxy_disconnect \<Rightarrow> haproxy_disconnect" where
  "disconnect_field key v f =
     (case v of
        UInt32 n \<Rightarrow> if key = ''status-code'' then f\<lparr>status_code := n\<rparr> else f
      | Str s \<Rightarrow> if key = ''message'' then f\<lparr>disconnect_message := s\<rparr> else f
      | _ \<Rightarrow> f)"

definition parse_disconnect :: "reader \<Rightarrow> u64 \<Rightarrow> u64 \<Rightarrow> haproxy_disconnect res" where
  "parse_disconnect r stream_id frame_id =
     rbind (for_each_field disconnect_field r
         \<lparr>disconnect_stream_id = stream_id, disconnect_frame_id = frame_id,
          status_code = 0, disconnect_message = ''''\<rparr>)
       (\<lambda>(f, r). Inr f)"

definition read_message :: "reader \<Rightarrow> (message \<times> reader) res" where
  "read_message r =
     rbind (read_string r) (\<lambda>(name, r).
     rbind (read_byte r) (\<lambda>(c, r).
       let arg_count = unat c in
       if arg_count > reader_remaining r div 2
       then Inl (Error ''buffer too small for message arguments'')
       else rbind (read_args arg_count r) (\<lambda>(args, r).
         Inr (\<lparr>msg_name = name, msg_args = args\<rparr>, r))))"

lemma read_message_remaining:
  assumes "read_message r = Inr (m, r')"
  shows "reader_remaining r' < reader_remaining r"
proof -
  obtain n q c q' as where "read_string r = Inr (n, q)" "read_byte q = Inr (c, q')"
    "read_args (unat c) q' = Inr (as, r')"
    using assms by (auto simp: read_message_def Let_def split: if_splits)
  then show ?thesis
    by (auto dest!: string_codec.dec_remaining read_byte_Inr read_args_remaining)
qed

function parse_messages :: "reader \<Rightarrow> message list \<Rightarrow> message list res" where
  "parse_messages r acc =
     (if reader_empty r then Inr acc
      else rbind (read_message r) (\<lambda>(m, r). parse_messages r (acc @ [m])))"
  by pat_completeness auto
termination
  by (relation "measure (\<lambda>(r, acc). reader_remaining r)") (auto dest: read_message_remaining)

declare parse_messages.simps [simp del]

definition parse_notify :: "reader \<Rightarrow> u64 \<Rightarrow> u64 \<Rightarrow> notify res" where
  "parse_notify r stream_id frame_id =
     rbind (parse_messages r []) (\<lambda>ms.
       Inr \<lparr>notify_stream_id = stream_id, notify_frame_id = frame_id, messages = ms\<rparr>)"

definition parse :: "frame_type \<Rightarrow> bytes \<Rightarrow> in_frame res" where
  "parse t payload =
     rbind (read_bytes (make_reader payload) (length kFlagsFin)) (\<lambda>(_, r).
     rbind (read_varint r) (\<lambda>(stream_id, r).
     rbind (read_varint r) (\<lambda>(frame_id, r).
       case t of
         HaproxyHello \<Rightarrow> rbind (parse_hello r stream_id frame_id) (\<lambda>f. Inr (InHello f))
       | HaproxyDisconnect \<Rightarrow>
           rbind (parse_disconnect r stream_id frame_id) (\<lambda>f. Inr (InDisconnect f))
       | Notify \<Rightarrow> rbind (parse_notify r stream_id frame_id) (\<lambda>f. Inr (InNotify f))
       | OtherFrame b \<Rightarrow> Inl (Error (''unknown frame type '' @ to_string (unat b)))
       | _ \<Rightarrow> Inl (Error (''unexpected frame type '' @ to_string (unat (frame_type_code t)))))))"

section \<open>Agent frames\<close>

definition encode_agent_hello :: "u64 \<Rightarrow> u64 \<Rightarrow> u32 \<Rightarrow> bytes res" where
  "encode_agent_hello stream_id frame_id max_size =
     encode_fields AgentHello stream_id frame_id
       [\<lparr>arg_name = ''version'', arg_value = Str ''2.0''\<rparr>,
        \<lparr>arg_name = ''max-frame-size'', arg_value = UInt32 max_size\<rparr>,
        \<lparr>arg_name = ''capabilities'', arg_value = Str ''pipelining''\<rparr>]"

definition encode_agent_disconnect :: "u64 \<Rightarrow> u64 \<Rightarrow> u32 \<Rightarrow> string \<Rightarrow> bytes res" where
  "encode_agent_disconnect stream_id frame_id status msg =
     encode_fields AgentDisconnect stream_id frame_id
       [\<lparr>arg_name = ''status-code'', arg_value = UInt32 status\<rparr>,
        \<lparr>arg_name = ''message'', arg_value = Str msg\<rparr>]"

fun ack_payload_size :: "ack_var list \<Rightarrow> nat \<Rightarrow> nat res" where
  "ack_payload_size [] sz = Inr sz"
| "ack_payload_size (v # vs) sz =
     rbind (add_size sz 3) (\<lambda>sz.
     rbind (field_size (ack_name v) (ack_value v)) (\<lambda>n.
     rbind (add_size sz n) (\<lambda>sz. ack_payload_size vs sz)))"

definition ack_frame_size :: "u64 \<Rightarrow> u64 \<Rightarrow> ack_var list \<Rightarrow> nat res" where
  "ack_frame_size stream_id frame_id vars =
     rbind (ack_payload_size vars 0) (\<lambda>payload_size.
     rbind (add_size (1 + length kFlagsFin) (encoded_size stream_id)) (\<lambda>frame_size.
     rbind (add_size frame_size (encoded_size frame_id)) (\<lambda>frame_size.
       add_size frame_size payload_size)))"

fun write_ack_vars :: "ack_var list \<Rightarrow> writer \<Rightarrow> writer res" where
  "write_ack_vars [] w = Inr w"
| "write_ack_vars (v # vs) w =
     rbind (write_byte w kActionSetVar) (\<lambda>w.
     rbind (write_byte w kSetVarArgCount) (\<lambda>w.
     rbind (write_byte w (scope_code (ack_scope v))) (\<lambda>w.
     rbind (write_string w (ack_name v)) (\<lambda>w.
     rbind (typed_encode (ack_value v) w) (\<lambda>w.
       write_ack_vars vs w)))))"

text \<open>The destination buffer and the number of bytes written, 0 when it is too small.\<close>

definition encode_agent_ack_into :: "bytes \<Rightarrow> u64 \<Rightarrow> u64 \<Rightarrow> ack_var list \<Rightarrow> (bytes \<times> nat) res" where
  "encode_agent_ack_into out stream_id frame_id vars =
     rbind (ack_frame_size stream_id frame_id vars) (\<lambda>frame_size.
       if length out < kLengthPrefixSize + frame_size then Inr (out, 0)
       else
         rbind (write_u32_be native_big_endian (make_writer out) (of_nat frame_size)) (\<lambda>w.
         rbind (write_byte w (frame_type_code AgentAck)) (\<lambda>w.
         rbind (write_bytes w kFlagsFin) (\<lambda>w.
         rbind (write_varint w stream_id) (\<lambda>w.
         rbind (write_varint w frame_id) (\<lambda>w.
         rbind (write_ack_vars vars w) (\<lambda>w.
           Inr (wbuf w, wpos w))))))))"

definition encode_agent_ack :: "u64 \<Rightarrow> u64 \<Rightarrow> ack_var list \<Rightarrow> bytes res" where
  "encode_agent_ack stream_id frame_id vars =
     rbind (ack_frame_size stream_id frame_id vars) (\<lambda>frame_size.
     rbind (encode_agent_ack_into (replicate (kLengthPrefixSize + frame_size) 0)
         stream_id frame_id vars) (\<lambda>(out, written).
       Inr (take written out @ replicate (written - length out) 0)))"

section \<open>Layout of the frames\<close>

definition frame_body :: "frame_type \<Rightarrow> u64 \<Rightarrow> u64 \<Rightarrow> bytes \<Rightarrow> bytes" where
  "frame_body t sid fid payload =
     frame_type_code t # kFlagsFin @ varint_bytes sid @ varint_bytes fid @ payload"

definition frame_bytes :: "frame_type \<Rightarrow> u64 \<Rightarrow> u64 \<Rightarrow> bytes \<Rightarrow> bytes" where
  "frame_bytes t sid fid payload =
     (let body = frame_body t sid fid payload
      in u32_be_bytes native_big_endian (of_nat (length body)) @ body)"

definition fields_bytes :: "arg list \<Rightarrow> bytes" where
  "fields_bytes fs = concat (map arg_bytes fs)"

definition ack_var_bytes :: "ack_var \<Rightarrow> bytes" where
  "ack_var_bytes v =
     [kActionSetVar, kSetVarArgCount, scope_code (ack_scope v)] @ field_bytes (ack_name v) (ack_value v)"

definition message_bytes :: "message \<Rightarrow> bytes" where
  "message_bytes m =
     lp_bytes (as_bytes (msg_name m)) @ of_nat (length (msg_args m)) # fields_bytes (msg_args m)"

lemma fields_bytes_simps [simp]:
  "fields_bytes [] = []"
  "fields_bytes (a # as) = arg_bytes a @ fields_bytes as"
  by (simp_all add: fields_bytes_def)

text \<open>Sums of sizes throw exactly when the total exceeds the 32-bit frame length.\<close>

definition size_limit :: nat where
  "size_limit = 2 ^ 32 - 1"

definition checked_size :: "nat \<Rightarrow> nat res" where
  "checked_size n =
     (if n \<le> size_limit then Inr n else Inl (Error ''frame exceeds the SPOE length limit''))"

lemma add_size_checked: "add_size sz extra = checked_size (sz + extra)"
  by (auto simp: add_size_def checked_size_def size_limit_def)

lemma checked_size_bind:
  "rbind (checked_size m) (\<lambda>k. checked_size (k + n)) = checked_size (m + n)"
  by (auto simp: checked_size_def)

lemma field_size_eq: "field_size name v = checked_size (length (field_bytes name v))"
  by (simp add: field_size_def add_size_checked field_bytes_def length_lp_bytes typed_encoded_size_eq)

lemma fields_size_eq:
  "sz \<le> size_limit \<Longrightarrow> fields_size fs sz = checked_size (sz + length (fields_bytes fs))"
  by (induction fs arbitrary: sz)
    (auto simp: field_size_eq add_size_checked checked_size_def add.assoc)

lemma append_fields_eq: "append_fields fs out = Inr (out @ fields_bytes fs)"
  by (induction fs arbitrary: out)
    (simp_all add: append_field_def append_length_prefixed_eq typed_encode_vec_eq field_bytes_def)

lemma length_frame_body:
  "length (frame_body t sid fid payload) =
     5 + length (varint_bytes sid) + length (varint_bytes fid) + length payload"
  by (simp add: frame_body_def kFlagsFin_def)

lemma begin_frame_eq:
  "begin_frame t sid fid n =
     rbind (checked_size (5 + length (varint_bytes sid) + length (varint_bytes fid) + n)) (\<lambda>k.
       Inr (u32_be_bytes native_big_endian (of_nat k) @ frame_body t sid fid []))"
  using varint_bytes_bound [of sid] varint_bytes_bound [of fid]
  by (simp add: begin_frame_def add_size_checked checked_size_def size_limit_def encoded_size_eq
      encode_to_vec_eq kFlagsFin_def frame_body_def max_encoded_size_def Let_def add.assoc)

text \<open>The frame encoders lay out exactly the frame, or throw when it exceeds the limit.\<close>

lemma encode_fields_eq:
  "encode_fields t sid fid fs =
     rbind (checked_size (length (frame_body t sid fid (fields_bytes fs)))) (\<lambda>_.
       Inr (frame_bytes t sid fid (fields_bytes fs)))"
proof (cases "length (fields_bytes fs) \<le> size_limit")
  case True
  then have "fields_size fs 0 = Inr (length (fields_bytes fs))"
    by (simp add: fields_size_eq checked_size_def)
  then show ?thesis
    by (simp add: encode_fields_def begin_frame_eq append_fields_eq length_frame_body)
      (simp add: checked_size_def frame_bytes_def frame_body_def Let_def kFlagsFin_def add.assoc)
next
  case False
  then show ?thesis
    by (simp add: encode_fields_def fields_size_eq checked_size_def length_frame_body)
qed

lemma ack_payload_size_eq:
  "sz \<le> size_limit \<Longrightarrow>
     ack_payload_size vs sz = checked_size (sz + length (concat (map ack_var_bytes vs)))"
  by (induction vs arbitrary: sz)
    (auto simp: field_size_eq add_size_checked checked_size_def ack_var_bytes_def add.assoc)

abbreviation ack_body :: "u64 \<Rightarrow> u64 \<Rightarrow> ack_var list \<Rightarrow> bytes" where
  "ack_body sid fid vars \<equiv> frame_body AgentAck sid fid (concat (map ack_var_bytes vars))"

abbreviation ack_bytes :: "u64 \<Rightarrow> u64 \<Rightarrow> ack_var list \<Rightarrow> bytes" where
  "ack_bytes sid fid vars \<equiv> frame_bytes AgentAck sid fid (concat (map ack_var_bytes vars))"

lemma length_frame_bytes [simp]:
  "length (frame_bytes t sid fid payload) = 4 + length (frame_body t sid fid payload)"
  by (simp add: frame_bytes_def Let_def)

lemma ack_frame_size_eq:
  "ack_frame_size sid fid vars = checked_size (length (ack_body sid fid vars))"
  using varint_bytes_bound [of sid] varint_bytes_bound [of fid]
  by (auto simp: ack_frame_size_def ack_payload_size_eq add_size_checked checked_size_def
      size_limit_def encoded_size_eq kFlagsFin_def max_encoded_size_def length_frame_body)

lemma write_ack_vars_put:
  "wpos w \<le> length (wbuf w) \<Longrightarrow> write_ack_vars vs w = put w (concat (map ack_var_bytes vs))"
proof (induction vs arbitrary: w)
  case Nil
  then show ?case by (simp add: put_def)
next
  case (Cons v vs)
  have "write_ack_vars (v # vs) w = rbind (put w (ack_var_bytes v)) (\<lambda>w. write_ack_vars vs w)"
    by (simp add: put_simps typed_encode_put ack_var_bytes_def field_bytes_def)
  also have "\<dots> = rbind (put w (ack_var_bytes v)) (\<lambda>w. put w (concat (map ack_var_bytes vs)))"
    by (rule rbind_cong) (use Cons in \<open>auto dest: put_written\<close>)
  finally show ?case by (simp add: put_put)
qed

lemma encode_agent_ack_into_eq:
  "encode_agent_ack_into out sid fid vars =
     rbind (checked_size (length (ack_body sid fid vars))) (\<lambda>_.
       if length out < length (ack_bytes sid fid vars) then Inr (out, 0)
       else Inr (overwrite out 0 (ack_bytes sid fid vars), length (ack_bytes sid fid vars)))"
proof (cases "length (ack_body sid fid vars) \<le> size_limit \<and> length (ack_bytes sid fid vars) \<le> length out")
  case True
  let ?pre = "u32_be_bytes native_big_endian (of_nat (length (ack_body sid fid vars))) @
    frame_type_code AgentAck # kFlagsFin @ varint_bytes sid @ varint_bytes fid"
  have "rbind (put (make_writer out) ?pre) (\<lambda>w. write_ack_vars vars w) =
      rbind (put (make_writer out) ?pre) (\<lambda>w. put w (concat (map ack_var_bytes vars)))"
    by (rule rbind_cong)
      (auto simp: make_writer_def intro!: write_ack_vars_put dest: put_written)
  also have "\<dots> = put (make_writer out) (ack_bytes sid fid vars)"
    by (simp add: put_put frame_bytes_def frame_body_def Let_def)
  also have "\<dots> = Inr \<lparr>wbuf = overwrite out 0 (ack_bytes sid fid vars),
      wpos = length (ack_bytes sid fid vars)\<rparr>"
    using True by (simp add: put_def make_writer_def writer_remaining_def)
  finally have *: "rbind (put (make_writer out) ?pre) (\<lambda>w. write_ack_vars vars w) = \<dots>" .
  have "encode_agent_ack_into out sid fid vars =
      rbind (rbind (put (make_writer out) ?pre) (\<lambda>w. write_ack_vars vars w)) (\<lambda>w. Inr (wbuf w, wpos w))"
    using True
    by (simp add: encode_agent_ack_into_def ack_frame_size_eq checked_size_def kLengthPrefixSize_def
        put_simps rbind_assoc)
  also have "\<dots> = Inr (overwrite out 0 (ack_bytes sid fid vars), length (ack_bytes sid fid vars))"
    unfolding * by simp
  finally show ?thesis using True by (simp add: checked_size_def)
next
  case False
  then show ?thesis
    by (auto simp: encode_agent_ack_into_def ack_frame_size_eq checked_size_def kLengthPrefixSize_def)
qed

lemma encode_agent_ack_eq:
  "encode_agent_ack sid fid vars =
     rbind (checked_size (length (ack_body sid fid vars))) (\<lambda>_. Inr (ack_bytes sid fid vars))"
  by (simp add: encode_agent_ack_def ack_frame_size_eq encode_agent_ack_into_eq)
    (simp add: checked_size_def kLengthPrefixSize_def overwrite_def)

section \<open>Parsing what was laid out\<close>

lemma for_each_field_bytes:
  assumes "list_all arg_ok fs" and "reader_rest r = fields_bytes fs"
  shows "for_each_field visit r st =
    Inr (fold (\<lambda>a. visit (arg_name a) (arg_value a)) fs st, advance r (length (fields_bytes fs)))"
  using assms
proof (induction fs arbitrary: r st)
  case Nil
  then show ?case
    by (simp add: for_each_field.simps [of _ r] reader_empty_iff)
next
  case (Cons a fs)
  have "read_arg r = Inr (a, advance r (length (arg_bytes a)))"
    using Cons.prems by (intro arg_codec.dec_enc) simp_all
  moreover have "reader_rest (advance r (length (arg_bytes a))) = fields_bytes fs"
    using Cons.prems by (intro reader_rest_advance) simp
  moreover have "\<not> reader_empty r"
    using Cons.prems arg_codec.enc_nonempty [of a] by (simp add: reader_empty_iff)
  ultimately show ?case
    using Cons by (simp add: for_each_field.simps [of _ r] add.assoc)
qed

lemma read_args_bytes:
  assumes "list_all arg_ok as" and "reader_rest r = fields_bytes as @ s"
  shows "read_args (length as) r = Inr (as, advance r (length (fields_bytes as)))"
  using assms
proof (induction as arbitrary: r)
  case Nil
  then show ?case by simp
next
  case (Cons a as)
  have "read_arg r = Inr (a, advance r (length (arg_bytes a)))"
    using Cons.prems by (intro arg_codec.dec_enc) simp_all
  moreover have "reader_rest (advance r (length (arg_bytes a))) = fields_bytes as @ s"
    using Cons.prems by (intro reader_rest_advance) simp
  ultimately show ?case
    using Cons by (simp add: add.assoc)
qed

lemma arg_bytes_two: "2 \<le> length (arg_bytes a)"
proof -
  have "0 < length (varint_bytes (of_nat (length (as_bytes (arg_name a)))))"
    by (rule peers_bytes_pos)
  then show ?thesis
    unfolding field_bytes_def typed_bytes_def lp_bytes_def length_append length_Cons by linarith
qed

lemma length_fields_bytes: "2 * length fs \<le> length (fields_bytes fs)"
  by (induction fs) (auto intro: add_le_mono [OF arg_bytes_two, simplified])

definition message_ok :: "message \<Rightarrow> bool" where
  "message_ok m \<longleftrightarrow> addressable (msg_name m) \<and> length (msg_args m) < 256 \<and> list_all arg_ok (msg_args m)"

lemma read_message_bytes:
  assumes "message_ok m" and rest: "reader_rest r = message_bytes m @ s"
  shows "read_message r = Inr (m, advance r (length (message_bytes m)))"
proof -
  let ?n = "lp_bytes (as_bytes (msg_name m))" and ?c = "of_nat (length (msg_args m)) :: u8"
    and ?as = "fields_bytes (msg_args m)"
  let ?q = "advance r (length ?n)"
  have c: "unat ?c = length (msg_args m)"
    using assms(1) by (simp add: message_ok_def unsigned_of_nat take_bit_nat_eq_self)
  have "read_string r = Inr (msg_name m, ?q)"
    by (rule string_codec.dec_enc [where s = "?c # ?as @ s"])
      (use assms in \<open>simp_all add: message_ok_def message_bytes_def\<close>)
  moreover have q: "reader_rest ?q = ?c # ?as @ s"
    by (rule reader_rest_advance) (use rest in \<open>simp add: message_bytes_def\<close>)
  then have "read_byte ?q = Inr (?c, advance ?q 1)"
    by (rule read_byte_Cons)
  moreover have q': "reader_rest (advance ?q 1) = ?as @ s"
    using reader_rest_advance [of ?q "[?c]"] q by simp
  then have "read_args (length (msg_args m)) (advance ?q 1) =
      Inr (msg_args m, advance (advance ?q 1) (length ?as))"
    using assms(1) by (intro read_args_bytes) (simp_all add: message_ok_def)
  moreover have "length (msg_args m) \<le> reader_remaining (advance ?q 1) div 2"
    using length_fields_bytes [of "msg_args m"] q'
    by (simp add: less_eq_div_iff_mult_less_eq flip: length_reader_rest)
  ultimately show ?thesis
    by (simp add: read_message_def c message_bytes_def add.assoc)
qed

lemma parse_messages_bytes:
  assumes "list_all message_ok ms" and "reader_rest r = concat (map message_bytes ms)"
  shows "parse_messages r acc = Inr (acc @ ms)"
  using assms
proof (induction ms arbitrary: r acc)
  case Nil
  then show ?case by (simp add: parse_messages.simps [of r] reader_empty_iff)
next
  case (Cons m ms)
  have "read_message r = Inr (m, advance r (length (message_bytes m)))"
    using Cons.prems by (intro read_message_bytes) simp_all
  moreover have "reader_rest (advance r (length (message_bytes m))) = concat (map message_bytes ms)"
    using Cons.prems by (intro reader_rest_advance) simp
  moreover have "\<not> reader_empty r"
    using Cons.prems by (simp add: reader_empty_iff message_bytes_def)
  ultimately show ?case
    using Cons by (simp add: parse_messages.simps [of r])
qed

text \<open>The part of a frame handed to \<open>parse\<close>: everything after the length and the type.\<close>

definition frame_payload :: "u64 \<Rightarrow> u64 \<Rightarrow> bytes \<Rightarrow> bytes" where
  "frame_payload sid fid p = kFlagsFin @ varint_bytes sid @ varint_bytes fid @ p"

definition payload_reader :: "u64 \<Rightarrow> u64 \<Rightarrow> bytes \<Rightarrow> reader" where
  "payload_reader sid fid p =
     \<lparr>rdata = frame_payload sid fid p, rpos = length (frame_payload sid fid [])\<rparr>"

lemma payload_reader_rest [simp]: "reader_rest (payload_reader sid fid p) = p"
  by (simp add: payload_reader_def reader_rest_def frame_payload_def)

lemma parse_payload:
  "parse t (frame_payload sid fid p) =
     (let r = payload_reader sid fid p in
      case t of
        HaproxyHello \<Rightarrow> rbind (parse_hello r sid fid) (\<lambda>f. Inr (InHello f))
      | HaproxyDisconnect \<Rightarrow> rbind (parse_disconnect r sid fid) (\<lambda>f. Inr (InDisconnect f))
      | Notify \<Rightarrow> rbind (parse_notify r sid fid) (\<lambda>f. Inr (InNotify f))
      | OtherFrame b \<Rightarrow> Inl (Error (''unknown frame type '' @ to_string (unat b)))
      | _ \<Rightarrow> Inl (Error (''unexpected frame type '' @ to_string (unat (frame_type_code t)))))"
proof -
  let ?r = "make_reader (frame_payload sid fid p)"
  let ?q = "advance ?r (length kFlagsFin)" and ?v = "varint_bytes sid"
  have "read_bytes ?r (length kFlagsFin) = Inr (kFlagsFin, ?q)"
    by (simp add: read_bytes_eq make_reader_def reader_rest_def frame_payload_def)
  moreover have q: "reader_rest ?q = ?v @ varint_bytes fid @ p"
    by (rule reader_rest_advance) (simp add: make_reader_def reader_rest_def frame_payload_def)
  then have "read_varint ?q = Inr (sid, advance ?q (length ?v))"
    by (rule read_varint_bytes)
  moreover have "reader_rest (advance ?q (length ?v)) = varint_bytes fid @ p"
    using q by (rule reader_rest_advance)
  then have "read_varint (advance ?q (length ?v)) =
      Inr (fid, advance (advance ?q (length ?v)) (length (varint_bytes fid)))"
    by (rule read_varint_bytes)
  moreover have "advance (advance ?q (length ?v)) (length (varint_bytes fid)) = payload_reader sid fid p"
    by (simp add: payload_reader_def make_reader_def frame_payload_def)
  ultimately show ?thesis
    by (simp add: parse_def Let_def)
qed

lemma parse_notify_payload:
  assumes "list_all message_ok ms"
  shows "parse Notify (frame_payload sid fid (concat (map message_bytes ms))) =
    Inr (InNotify \<lparr>notify_stream_id = sid, notify_frame_id = fid, messages = ms\<rparr>)"
  using parse_messages_bytes [OF assms, of "payload_reader sid fid (concat (map message_bytes ms))" "[]"]
  by (simp add: parse_payload parse_notify_def)

lemma parse_hello_payload:
  assumes "list_all arg_ok fs"
  shows "parse HaproxyHello (frame_payload sid fid (fields_bytes fs)) =
    Inr (InHello (fold (\<lambda>a. hello_field (arg_name a) (arg_value a)) fs
      \<lparr>hello_stream_id = sid, hello_frame_id = fid, engine_id = '''',
       supported_versions = '''', max_frame_size = 0, healthcheck = False\<rparr>))"
  by (simp add: parse_payload parse_hello_def for_each_field_bytes [OF assms payload_reader_rest])

lemma parse_disconnect_payload:
  assumes "list_all arg_ok fs"
  shows "parse HaproxyDisconnect (frame_payload sid fid (fields_bytes fs)) =
    Inr (InDisconnect (fold (\<lambda>a. disconnect_field (arg_name a) (arg_value a)) fs
      \<lparr>disconnect_stream_id = sid, disconnect_frame_id = fid,
       status_code = 0, disconnect_message = ''''\<rparr>))"
  by (simp add: parse_payload parse_disconnect_def for_each_field_bytes [OF assms payload_reader_rest])

text \<open>A frame type HAProxy does not send is never accepted.\<close>

lemma parse_Inr_type:
  "parse t payload = Inr f \<Longrightarrow> t \<in> {HaproxyHello, HaproxyDisconnect, Notify}"
  by (cases t) (auto simp: parse_def)

section \<open>Properties\<close>

lemma frame_bytes_nth_drop:
  "frame_bytes t sid fid p ! 4 = frame_type_code t"
  "drop 5 (frame_bytes t sid fid p) = frame_payload sid fid p"
  by (simp_all add: frame_bytes_def Let_def nth_append frame_body_def frame_payload_def)

lemma ucast_drop_bit_of_nat:
  assumes "n < 2 ^ 32"
  shows "ucast (drop_bit k (of_nat n :: u32)) = (of_nat (n div 2 ^ k) :: u8)"
proof -
  have "unat (of_nat n :: u32) = n"
    using assms by (simp add: unsigned_of_nat take_bit_nat_eq_self)
  then have "of_nat (unat (drop_bit k (of_nat n :: u32))) = (of_nat (n div 2 ^ k) :: u8)"
    by (simp only: unat_drop_bit)
  then show ?thesis by simp
qed

text \<open>C24: the frame encoder either produces the complete frame, its big-endian 32-bit length
  followed by the type, the FIN flags, the two identifiers and the fields, or throws; it throws
  exactly when that length does not fit 32 bits.\<close>

theorem encode_fields_layout:
  "encode_fields t sid fid fs =
     (let body = [frame_type_code t] @ [0, 0, 0, 1] @ encode_to_vec (encode_to_vec [] sid) fid @
          concat (map (\<lambda>a. append_length_prefixed [] (as_bytes (arg_name a)) @ typed_bytes (arg_value a)) fs);
          n = length body in
      if n < 2 ^ 32 then Inr ([of_nat (n div 2 ^ 24), of_nat (n div 2 ^ 16), of_nat (n div 2 ^ 8), of_nat n] @ body)
      else Inl (Error ''frame exceeds the SPOE length limit''))"
proof -
  have "u32_be_bytes native_big_endian (of_nat n) =
      [of_nat (n div 2 ^ 24), of_nat (n div 2 ^ 16), of_nat (n div 2 ^ 8), of_nat n]"
    if "n < 2 ^ 32" for n
    using that ucast_drop_bit_of_nat [of n 24] ucast_drop_bit_of_nat [of n 16]
      ucast_drop_bit_of_nat [of n 8] ucast_drop_bit_of_nat [of n 0]
    by (simp add: u32_be_bytes_eq)
  moreover have "[frame_type_code t] @ [0, 0, 0, 1] @ encode_to_vec (encode_to_vec [] sid) fid @
      concat (map (\<lambda>a. append_length_prefixed [] (as_bytes (arg_name a)) @ typed_bytes (arg_value a)) fs) =
      frame_body t sid fid (fields_bytes fs)"
    by (simp add: frame_body_def fields_bytes_def field_bytes_def append_length_prefixed_eq
        encode_to_vec_eq kFlagsFin_def)
  ultimately show ?thesis
    unfolding Let_def encode_fields_eq checked_size_def frame_bytes_def
    by (auto simp: size_limit_def simp del: of_nat_add)
qed

text \<open>C23: a NOTIFY payload laid out as the protocol says, with any messages and arguments, parses
  to exactly those messages in order, under the identifiers of the frame.\<close>

theorem parse_notify_roundtrip:
  assumes "list_all message_ok ms"
  shows "parse Notify (kFlagsFin @ encode_to_vec (encode_to_vec [] sid) fid @
      concat (map message_bytes ms)) =
    Inr (InNotify \<lparr>notify_stream_id = sid, notify_frame_id = fid, messages = ms\<rparr>)"
  using parse_notify_payload [OF assms] by (simp add: frame_payload_def encode_to_vec_eq)

theorem parse_notify_roundtrip_witness:
  "let m = \<lparr>msg_name = ''check'', msg_args = [\<lparr>arg_name = ''ip'', arg_value = IPv4 [10, 0, 0, 1]\<rparr>]\<rparr> in
   parse Notify (kFlagsFin @ encode_to_vec (encode_to_vec [] 7) 300 @ concat (map message_bytes [m])) =
     Inr (InNotify \<lparr>notify_stream_id = 7, notify_frame_id = 300, messages = [m]\<rparr>)"
  using parse_notify_roundtrip [of "[\<lparr>msg_name = ''check'', msg_args =
    [\<lparr>arg_name = ''ip'', arg_value = IPv4 [10, 0, 0, 1]\<rparr>]\<rparr>]" 7 300]
  by (simp add: message_ok_def arg_ok_def addressable_def)

text \<open>what the field encoder writes for a hello or a disconnect frame, the parser reads back:
  the fields with a known key and the expected type, the last one winning, and the defaults for
  the others.\<close>

theorem parse_encoded_fields:
  assumes "list_all arg_ok fs" and "encode_fields t sid fid fs = Inr bs"
    and "t \<in> {HaproxyHello, HaproxyDisconnect}"
  shows "parse (frame_type_of (bs ! 4)) (drop 5 bs) = Inr (
    if t = HaproxyHello
    then InHello (fold (\<lambda>a. hello_field (arg_name a) (arg_value a)) fs
      \<lparr>hello_stream_id = sid, hello_frame_id = fid, engine_id = '''',
       supported_versions = '''', max_frame_size = 0, healthcheck = False\<rparr>)
    else InDisconnect (fold (\<lambda>a. disconnect_field (arg_name a) (arg_value a)) fs
      \<lparr>disconnect_stream_id = sid, disconnect_frame_id = fid,
       status_code = 0, disconnect_message = ''''\<rparr>))"
proof -
  have bs: "bs = frame_bytes t sid fid (fields_bytes fs)"
    using assms(2) by (auto simp: encode_fields_eq)
  have t: "frame_type_of (frame_type_code t) = t"
    using assms(3) by (auto simp: frame_type_of_def)
  show ?thesis
    using assms(3) parse_hello_payload [OF assms(1)] parse_disconnect_payload [OF assms(1)]
    by (auto simp: bs frame_bytes_nth_drop t)
qed

theorem parse_encoded_fields_witness:
  "let fs = [\<lparr>arg_name = ''status-code'', arg_value = UInt32 4\<rparr>];
       bs = frame_bytes HaproxyDisconnect 1 2 (fields_bytes fs) in
   parse (frame_type_of (bs ! 4)) (drop 5 bs) =
     Inr (InDisconnect \<lparr>disconnect_stream_id = 1, disconnect_frame_id = 2,
       status_code = 4, disconnect_message = ''''\<rparr>)"
proof -
  let ?fs = "[\<lparr>arg_name = ''status-code'', arg_value = UInt32 4\<rparr>]"
  let ?bs = "frame_bytes HaproxyDisconnect 1 2 (fields_bytes ?fs)"
  have "encode_fields HaproxyDisconnect 1 2 ?fs = Inr ?bs"
    by (simp add: encode_fields_eq checked_size_def size_limit_def frame_body_def kFlagsFin_def
        field_bytes_def lp_bytes_def peers_bytes_def typed_bytes_def)
  moreover have "list_all arg_ok ?fs"
    by (simp add: arg_ok_def addressable_def)
  ultimately show ?thesis
    using parse_encoded_fields [of ?fs HaproxyDisconnect 1 2 ?bs]
    by (simp add: disconnect_field_def)
qed

text \<open>the parser never accepts a type that only agents send or a type it does not know.\<close>

theorem parse_accepts_haproxy_types:
  assumes "parse (frame_type_of b) payload = Inr f"
  shows "(b = 1 \<and> (\<exists>h. f = InHello h)) \<or> (b = 2 \<and> (\<exists>d. f = InDisconnect d)) \<or>
    (b = 3 \<and> (\<exists>n. f = InNotify n))"
  using assms by (auto simp: parse_def frame_type_of_def split: if_splits)

theorem parse_accepts_haproxy_types_witness:
  "\<exists>n. InNotify \<lparr>notify_stream_id = 0, notify_frame_id = 0, messages = []\<rparr> = InNotify n"
proof -
  have "parse (frame_type_of 3) (frame_payload 0 0 []) =
      Inr (InNotify \<lparr>notify_stream_id = 0, notify_frame_id = 0, messages = []\<rparr>)"
    using parse_notify_payload [of "[]" 0 0] by (simp add: frame_type_of_def)
  from parse_accepts_haproxy_types [OF this] show ?thesis by auto
qed

text \<open>C25: encoding an ACK into a buffer gives the same bytes as encoding it into a vector, at the
  start of the buffer, and leaves the rest of the buffer alone; the count is 0, with nothing
  written, exactly when the buffer is too small; both throw exactly when the frame exceeds 32
  bits.\<close>

theorem encode_agent_ack_into_agrees:
  "encode_agent_ack_into out sid fid vars =
     rbind (encode_agent_ack sid fid vars) (\<lambda>frame.
       if length out < length frame then Inr (out, 0)
       else Inr (frame @ drop (length frame) out, length frame))"
  by (simp add: encode_agent_ack_into_eq encode_agent_ack_eq rbind_assoc overwrite_def)

end
