(* ===== verification/Drop_Categories.thy ===== *)
theory Drop_Categories
  imports Utils "HOL-Library.Char_ord" "HOL-Library.List_Lexorder"
begin

text \<open>
  The configured drop categories and their blocked counters (\<open>src/spoa/drop_categories.h\<close>,
  \<open>drop_categories.cpp\<close>). The \<open>unordered_map\<close> is an association list with distinct keys; no
  operation depends on its order. The locale \<open>category_counters\<close> is the contract the agent uses.
\<close>

record drop_categories =
  categories :: "(string \<times> u64) list"

definition dc_size :: "drop_categories \<Rightarrow> nat" where
  "dc_size dc = length (categories dc)"

definition dc_empty :: "drop_categories \<Rightarrow> bool" where
  "dc_empty dc \<longleftrightarrow> categories dc = []"

text \<open>\<open>std::views::split\<close> on a comma: an empty view has no tokens.\<close>

fun split_loop :: "char \<Rightarrow> string \<Rightarrow> string \<Rightarrow> string list" where
  "split_loop c [] tok = [tok]"
| "split_loop c (x # xs) tok = (if x = c then tok # split_loop c xs [] else split_loop c xs (tok @ [x]))"

definition views_split :: "string \<Rightarrow> char \<Rightarrow> string list" where
  "views_split s c = (if s = [] then [] else split_loop c s [])"

definition try_emplace :: "'k \<Rightarrow> 'v \<Rightarrow> ('k \<times> 'v) list \<Rightarrow> ('k \<times> 'v) list" where
  "try_emplace k v m = (case map_of m k of None \<Rightarrow> m @ [(k, v)] | Some _ \<Rightarrow> m)"

fun load_tokens :: "string list \<Rightarrow> (string \<times> u64) list \<Rightarrow> (string \<times> u64) list" where
  "load_tokens [] m = m"
| "load_tokens (token # tokens) m =
     (let name = trim token in
      load_tokens tokens (if name \<noteq> [] then try_emplace name 0 m else m))"

definition dc_load :: "drop_categories \<Rightarrow> string \<Rightarrow> drop_categories" where
  "dc_load dc config = dc\<lparr>categories := load_tokens (views_split config CHR '','') []\<rparr>"

definition names :: "drop_categories \<Rightarrow> string list" where
  "names dc = sort (map fst (categories dc))"

fun join_names :: "string list \<Rightarrow> string \<Rightarrow> string" where
  "join_names [] out = out"
| "join_names (n # ns) out = join_names ns ((if out \<noteq> [] then out @ '', '' else out) @ n)"

definition names_string :: "drop_categories \<Rightarrow> string" where
  "names_string dc = join_names (names dc) []"

definition match_and_increment :: "drop_categories \<Rightarrow> string \<Rightarrow> string \<times> drop_categories" where
  "match_and_increment dc category =
     (case map_of (categories dc) category of
        None \<Rightarrow> ([], dc)
      | Some _ \<Rightarrow> (category, dc\<lparr>categories :=
          map (\<lambda>(k, n). if k = category then (k, n + 1) else (k, n)) (categories dc)\<rparr>))"

fun match_and_increment_list :: "drop_categories \<Rightarrow> string list \<Rightarrow> string \<times> drop_categories" where
  "match_and_increment_list dc [] = ([], dc)"
| "match_and_increment_list dc (c # cs) =
     (let (matched, dc) = match_and_increment dc c in
      if matched \<noteq> [] then (matched, dc) else match_and_increment_list dc cs)"

definition blocked :: "drop_categories \<Rightarrow> string \<Rightarrow> u64" where
  "blocked dc name = (case map_of (categories dc) name of None \<Rightarrow> 0 | Some n \<Rightarrow> n)"

section \<open>Invariant and contract\<close>

definition configured :: "drop_categories \<Rightarrow> string set" where
  "configured dc = fst ` set (categories dc)"

text \<open>Keys are unique and never empty, so an empty result means no match.\<close>

definition dc_inv :: "drop_categories \<Rightarrow> bool" where
  "dc_inv dc \<longleftrightarrow> distinct (map fst (categories dc)) \<and> [] \<notin> configured dc"

text \<open>What the agent relies on: matching answers with the category itself exactly when it is
  configured, and counts that category alone.\<close>

locale category_counters =
  fixes inv :: "'s \<Rightarrow> bool" and known :: "'s \<Rightarrow> string set"
    and hit :: "'s \<Rightarrow> string \<Rightarrow> string \<times> 's" and count :: "'s \<Rightarrow> string \<Rightarrow> u64"
  assumes known_nonempty: "inv s \<Longrightarrow> [] \<notin> known s"
    and hit_known: "inv s \<Longrightarrow> c \<in> known s \<Longrightarrow> fst (hit s c) = c"
    and hit_unknown: "c \<notin> known s \<Longrightarrow> hit s c = ([], s)"
    and hit_inv: "inv s \<Longrightarrow> inv (snd (hit s c))"
    and hit_keeps: "known (snd (hit s c)) = known s"
    and hit_count: "inv s \<Longrightarrow> count (snd (hit s c)) d =
      count s d + (if d = c \<and> c \<in> known s then 1 else 0)"
begin

lemma hit_empty_iff: "inv s \<Longrightarrow> fst (hit s c) = [] \<longleftrightarrow> c \<notin> known s"
  using hit_known hit_unknown known_nonempty by (metis fst_conv)

text \<open>Walking a list of categories until the first match.\<close>

fun walk :: "'s \<Rightarrow> string list \<Rightarrow> string \<times> 's" where
  "walk s [] = ([], s)"
| "walk s (c # cs) = (let (m, s') = hit s c in if m \<noteq> [] then (m, s') else walk s' cs)"

lemma walk_first:
  assumes "inv s"
  shows "fst (walk s cs) = (case find (\<lambda>c. c \<in> known s) cs of None \<Rightarrow> [] | Some c \<Rightarrow> c)"
    and "known (snd (walk s cs)) = known s" and "inv (snd (walk s cs))"
    and "count (snd (walk s cs)) d =
      count s d + (if find (\<lambda>c. c \<in> known s) cs = Some d then 1 else 0)"
proof (induction cs)
  case Nil
  case 1 show ?case by simp
  case 2 show ?case by simp
  case 3 show ?case using assms by simp
  case 4 show ?case by simp
next
  case (Cons c cs)
  have walk: "walk s (c # cs) = (if c \<in> known s then hit s c else walk s cs)"
    using assms hit_empty_iff [of s c] hit_unknown [of c s] by (auto split: prod.splits)
  case 1 show ?case using assms Cons(1) by (simp add: walk hit_known del: walk.simps)
  case 2 show ?case using Cons(2) by (simp add: walk hit_keeps del: walk.simps)
  case 3 show ?case using assms Cons(3) by (simp add: walk hit_inv del: walk.simps)
  case 4 show ?case using assms Cons(4) by (auto simp: walk hit_count simp del: walk.simps)
qed

end

lemma map_of_bump:
  "map_of (map (\<lambda>(k, n). if k = c then (k, f n) else (k, n)) m) d =
     (if d = c then map_option f (map_of m d) else map_of m d)"
  by (induction m) auto

lemma keys_bump:
  "map fst (map (\<lambda>(k, n). if k = c then (k, f n) else (k, n)) m) = map fst m"
  by (induction m) auto

interpretation dc: category_counters dc_inv configured match_and_increment blocked
proof
  fix dc c d
  show "dc_inv dc \<Longrightarrow> [] \<notin> configured dc"
    by (simp add: dc_inv_def)
  show "c \<in> configured dc \<Longrightarrow> fst (match_and_increment dc c) = c"
    by (auto simp: match_and_increment_def configured_def map_of_eq_None_iff split: option.splits)
  show "c \<notin> configured dc \<Longrightarrow> match_and_increment dc c = ([], dc)"
    by (simp add: match_and_increment_def configured_def flip: map_of_eq_None_iff)
  show keeps: "configured (snd (match_and_increment dc c)) = configured dc"
    using arg_cong [OF keys_bump, of set c "\<lambda>n. n + 1" "categories dc"]
    by (simp add: match_and_increment_def configured_def image_image split: option.splits)
  show "dc_inv dc \<Longrightarrow> dc_inv (snd (match_and_increment dc c))"
    using keeps by (simp add: dc_inv_def match_and_increment_def keys_bump split: option.splits del: map_map)
  show "blocked (snd (match_and_increment dc c)) d =
      blocked dc d + (if d = c \<and> c \<in> configured dc then 1 else 0)"
    using map_of_eq_None_iff [of "categories dc" c]
    by (cases "map_of (categories dc) c"; cases "d = c")
      (simp_all add: blocked_def match_and_increment_def map_of_bump configured_def)
qed

lemma match_and_increment_list_walk: "match_and_increment_list dc cs = dc.walk dc cs"
  by (induction cs arbitrary: dc) (auto split: prod.splits)

section \<open>Loading a configuration\<close>

definition tokens :: "string \<Rightarrow> string list" where
  "tokens config = filter (\<lambda>n. n \<noteq> []) (map trim (views_split config CHR '',''))"

definition fresh_counters :: "(string \<times> u64) list \<Rightarrow> bool" where
  "fresh_counters m \<longleftrightarrow> distinct (map fst m) \<and> [] \<notin> fst ` set m \<and> (\<forall>(k, n) \<in> set m. n = 0)"

lemma fresh_try_emplace:
  assumes "fresh_counters m" and "k \<noteq> []"
  shows "fresh_counters (try_emplace k 0 m) \<and>
    fst ` set (try_emplace k 0 m) = insert k (fst ` set m)"
  using assms by (force simp: fresh_counters_def try_emplace_def map_of_eq_None_iff
      split: option.splits dest: map_of_SomeD)

lemma load_tokens_fresh:
  "fresh_counters m \<Longrightarrow> fresh_counters (load_tokens ts m) \<and>
     fst ` set (load_tokens ts m) = fst ` set m \<union> (set (map trim ts) - {[]})"
  by (induction ts arbitrary: m) (auto simp: Let_def fresh_try_emplace)

lemmas loaded_fresh = load_tokens_fresh [of "[]", unfolded fresh_counters_def, simplified]

lemma dc_load_inv: "dc_inv (dc_load dc config)"
  using loaded_fresh [of "views_split config CHR '',''"]
  by (simp add: dc_inv_def dc_load_def configured_def)

lemma configured_dc_load: "configured (dc_load dc config) = set (tokens config)"
  using loaded_fresh [of "views_split config CHR '',''"]
  by (auto simp: configured_def dc_load_def tokens_def)

lemma blocked_dc_load: "blocked (dc_load dc config) name = 0"
  using loaded_fresh [of "views_split config CHR '',''"]
  by (auto simp: blocked_def dc_load_def split: option.splits dest: map_of_SomeD)

lemma names_sorted:
  assumes "dc_inv dc"
  shows "sorted (names dc)" and "distinct (names dc)" and "set (names dc) = configured dc"
    and "length (names dc) = dc_size dc"
  using assms by (simp_all add: names_def dc_inv_def configured_def dc_size_def)

lemma split_loop_no_sep: "\<forall>t \<in> set (split_loop c s tok). c \<notin> set t" if "c \<notin> set tok"
  using that by (induction c s tok rule: split_loop.induct) auto

text \<open>Joining what was split gives the text back.\<close>

fun join_sep :: "char \<Rightarrow> string list \<Rightarrow> string" where
  "join_sep c [] = []"
| "join_sep c [t] = t"
| "join_sep c (t # u # ts) = t @ c # join_sep c (u # ts)"

lemma split_loop_nonempty [simp]: "split_loop c s tok \<noteq> []"
  by (induction c s tok rule: split_loop.induct) auto

lemma join_split: "join_sep c (split_loop c s tok) = tok @ s"
proof (induction c s tok rule: split_loop.induct)
  case (2 c x xs tok)
  obtain u us where "split_loop c xs [] = u # us"
    by (meson split_loop_nonempty neq_Nil_conv)
  with 2 show ?case by auto
qed simp

section \<open>Properties\<close>

text \<open>a loaded configuration holds exactly the non-empty trimmed items of the comma-separated
  text, each once, listed in sorted order, with every counter at zero; nothing of an earlier
  configuration remains.\<close>

theorem dc_load_configures:
  "set (names (dc_load dc config)) = {trim t | t. t \<in> set (views_split config CHR '','') \<and> trim t \<noteq> []}
   \<and> sorted (names (dc_load dc config)) \<and> distinct (names (dc_load dc config))
   \<and> length (names (dc_load dc config)) = dc_size (dc_load dc config)
   \<and> blocked (dc_load dc config) name = 0"
  using names_sorted [OF dc_load_inv] configured_dc_load [of dc config] blocked_dc_load
  by (auto simp: tokens_def)

text \<open>walking the categories of an entry matches the first configured one in database order,
  counts it once, and counts nothing when none is configured.\<close>

theorem match_first_configured:
  assumes "match_and_increment_list (dc_load dc0 config) cs = (matched, dc)"
  shows "matched = (case find (\<lambda>c. c \<in> set (names (dc_load dc0 config))) cs of None \<Rightarrow> [] | Some c \<Rightarrow> c)
    \<and> names dc = names (dc_load dc0 config)
    \<and> blocked dc d = (if matched \<noteq> [] \<and> d = matched then 1 else 0)"
proof -
  let ?dc = "dc_load dc0 config"
  note first = dc.walk_first [OF dc_load_inv, of dc0 config cs]
  have walk: "dc.walk ?dc cs = (matched, dc)"
    using assms by (simp add: match_and_increment_list_walk)
  have names: "set (names ?dc) = configured ?dc" "set (names dc) = configured dc"
    using names_sorted(3) [OF dc_load_inv] names_sorted(3) [OF first(3)] by (simp_all add: walk)
  then have "names dc = names ?dc"
    using first(2,3) names_sorted [OF dc_load_inv] names_sorted
    by (metis walk snd_conv sorted_distinct_set_unique)
  moreover have "find (\<lambda>c. c \<in> configured ?dc) cs = Some d \<longleftrightarrow> matched \<noteq> [] \<and> d = matched"
    using first(1) dc.known_nonempty [OF dc_load_inv, of dc0 config]
    by (cases "find (\<lambda>c. c \<in> configured ?dc) cs") (auto simp: walk dest: find_SomeD)
  ultimately show ?thesis
    using first(1) first(4) [of d] names(1) by (simp add: walk blocked_dc_load)
qed

theorem match_first_configured_witness:
  "\<exists>matched dc. match_and_increment_list (dc_load \<lparr>categories = []\<rparr> ''abuse, spam'')
       [''other'', ''spam'', ''abuse''] = (matched, dc)
     \<and> matched = ''spam'' \<and> blocked dc ''spam'' = 1 \<and> blocked dc ''abuse'' = 0"
proof -
  let ?dc = "dc_load \<lparr>categories = []\<rparr> ''abuse, spam''"
  let ?cs = "[''other'', ''spam'', ''abuse'']"
  obtain matched dc where m: "match_and_increment_list ?dc ?cs = (matched, dc)"
    by fastforce
  have "trim ''abuse'' = ''abuse''" "trim '' spam'' = ''spam''"
    by (simp_all add: trim_def find_first_not_of_def find_last_not_of_def kWhitespace_def substr_def)
  then have "names ?dc = [''abuse'', ''spam'']"
    by (simp add: names_def dc_load_def views_split_def try_emplace_def)
  with match_first_configured [OF m, of "''spam''"] match_first_configured [OF m, of "''abuse''"] m
  show ?thesis by simp
qed

end
