(* ===== verification/Mmdb_Reload.thy ===== *)
theory Mmdb_Reload
  imports Mmdb
begin

text \<open>
  The hot reload of the database (\<open>src/mmdb/mmdb_reload.h\<close>, \<open>mmdb_reload.cpp\<close>) and the descriptor
  owner it uses (\<open>src/utils/unique_fd.h\<close>). The operating system's answers are explicit inputs: the
  results of the copy calls, of \<open>poll\<close> and \<open>read\<close>, and what \<open>stop_requested\<close> observes at each test.
\<close>

section \<open>UniqueFd\<close>

record unique_fd =
  fd :: int

definition fd_none :: unique_fd where
  "fd_none = \<lparr>fd = -1\<rparr>"

definition fd_valid :: "unique_fd \<Rightarrow> bool" where
  "fd_valid u \<longleftrightarrow> fd u \<noteq> -1"

definition fd_release :: "unique_fd \<Rightarrow> int \<times> unique_fd" where
  "fd_release u = (fd u, \<lparr>fd = -1\<rparr>)"

text \<open>The open descriptors of the process are a set that the system calls and the owners pass on: a call
  that returns a descriptor adds it, and \<open>reset\<close> is the only place that closes one. The move
  assignment and the destructor go through \<open>reset\<close>.\<close>

definition fd_open :: "int \<Rightarrow> int set \<Rightarrow> unique_fd \<times> int set" where
  "fd_open n fds = (\<lparr>fd = n\<rparr>, if n = -1 then fds else insert n fds)"

definition fd_reset :: "unique_fd \<Rightarrow> int \<Rightarrow> int set \<Rightarrow> unique_fd \<times> int set" where
  "fd_reset u new_fd fds =
     (let fds = (if fd u \<noteq> -1 then fds - {fd u} else fds) in (\<lparr>fd = new_fd\<rparr>, fds))"

definition fd_move_assign :: "unique_fd \<Rightarrow> unique_fd \<Rightarrow> int set \<Rightarrow> unique_fd \<times> unique_fd \<times> int set" where
  "fd_move_assign u other fds =
     (let (u, fds) = fd_reset u (-1) fds; (n, other) = fd_release other in (u\<lparr>fd := n\<rparr>, other, fds))"

definition fd_destroy :: "unique_fd \<Rightarrow> int set \<Rightarrow> int set" where
  "fd_destroy u fds = snd (fd_reset u (-1) fds)"

text \<open>A local \<open>UniqueFd\<close>: however its block is left, by returning or by an exception, the destructor runs
  on what the block made of the variable. \<open>None\<close> stands for a block that has not been left.\<close>

definition scoped ::
  "unique_fd \<times> int set \<Rightarrow> (unique_fd \<Rightarrow> int set \<Rightarrow> (unique_fd \<times> 'a \<times> int set) option) \<Rightarrow> ('a \<times> int set) option" where
  "scoped opened block =
     map_option (\<lambda>(u, x, fds). (x, fd_destroy u fds)) (block (fst opened) (snd opened))"

section \<open>Loading a snapshot\<close>

datatype errno = EINTR | EXDEV | EINVAL | ENOSYS | EOPNOTSUPP | EAGAIN | EOTHER nat

text \<open>The result of one \<open>copy_file_range\<close> or \<open>sendfile\<close> call: the bytes it moved, none at the end
  of the file, or an error.\<close>

datatype copy_result = Copied bytes | CopyFailed errno

text \<open>The loop over the results of the calls, with the contents of the copy; \<open>None\<close> while a call has
  not returned. The flag says which call is used next.\<close>

fun copy_contents ::
  "(errno \<Rightarrow> string) \<Rightarrow> string \<Rightarrow> bool \<Rightarrow> copy_result list \<Rightarrow> bytes \<Rightarrow> (bytes res) option" where
  "copy_contents err path use_sendfile [] copy = None"
| "copy_contents err path use_sendfile (Copied bs # calls) copy =
     (if bs = [] then Some (Inr copy) else copy_contents err path use_sendfile calls (copy @ bs))"
| "copy_contents err path use_sendfile (CopyFailed e # calls) copy =
     (if e = EINTR then copy_contents err path use_sendfile calls copy
      else if \<not> use_sendfile \<and> e \<in> {EXDEV, EINVAL, ENOSYS, EOPNOTSUPP}
      then copy_contents err path True calls copy
      else Some (Inl (Error (''MMDB snapshot copy of '' @ path @ '': '' @ err e))))"

text \<open>What the operating system answers to one \<open>load_snapshot\<close>: an error or a descriptor for the
  source and for the temporary file, and the results of the copy calls.\<close>

record load_env =
  source_open :: "errno + nat"
  tmpfile_open :: "errno + nat"
  copy_calls :: "copy_result list"

fun fd_of :: "errno + nat \<Rightarrow> int" where
  "fd_of (Inl e) = -1"
| "fd_of (Inr n) = int n"

text \<open>The \<open>unique_ptr<FILE>\<close> of the temporary file owns its descriptor as a \<open>UniqueFd\<close> does: \<open>fclose\<close>
  closes it. Descriptors that libmaxminddb opens and closes itself are not counted.\<close>

definition load_snapshot ::
  "('db, 'w) maxminddb \<Rightarrow> (errno \<Rightarrow> string) \<Rightarrow> string \<Rightarrow> load_env \<Rightarrow> 'w \<Rightarrow> int set \<Rightarrow>
     (('w \<times> 'db mmdb res) \<times> int set) option" where
  "load_snapshot lib err path env w fds =
     scoped (fd_open (fd_of (source_open env)) fds) (\<lambda>source fds.
       case source_open env of
         Inl e \<Rightarrow> Some (source, (w, Inl (Error (path @ '': '' @ err e))), fds)
       | Inr _ \<Rightarrow>
           map_option (\<lambda>(result, fds). (source, result, fds))
             (scoped (fd_open (fd_of (tmpfile_open env)) fds) (\<lambda>copy fds.
                case tmpfile_open env of
                  Inl e \<Rightarrow> Some (copy, (w, Inl (Error (''MMDB temporary file: '' @ err e))), fds)
                | Inr n \<Rightarrow>
                    (case copy_contents err path False (copy_calls env) [] of
                       None \<Rightarrow> None
                     | Some (Inl e) \<Rightarrow> Some (copy, (w, Inl e), fds)
                     | Some (Inr _) \<Rightarrow>
                         Some (copy, mmdb_construct lib (''/proc/self/fd/'' @ to_string n) w, fds)))))"

section \<open>ReloadableMmdb\<close>

record 'db reloadable =
  current :: "'db mmdb option"
  reload_count :: u64
  log_enabled :: bool
  rl_path :: string
  rl_basename :: string
  inotify :: unique_fd
  stop_event :: unique_fd
  watcher :: bool

definition reloadable_new :: "'db reloadable" where
  "reloadable_new =
     \<lparr>current = None, reload_count = 0, log_enabled = True, rl_path = [], rl_basename = [],
      inotify = fd_none, stop_event = fd_none, watcher = False\<rparr>"

definition snapshot :: "'db reloadable \<Rightarrow> 'db mmdb option" where
  "snapshot r = current r"

text \<open>The loaded snapshot replaces the current one, and only a success is counted.\<close>

definition rl_reload :: "'db reloadable \<Rightarrow> 'db mmdb res \<Rightarrow> 'db reloadable" where
  "rl_reload r loaded =
     (case loaded of
        Inr next_db \<Rightarrow> r\<lparr>current := Some next_db, reload_count := reload_count r + 1\<rparr>
      | Inl error \<Rightarrow> r)"

text \<open>What the operating system answers to one \<open>open\<close>: the absolute path with its file name, the
  descriptors (\<open>-1\<close> on failure), whether the watch was added, what the load meets and whether the
  thread could be created.\<close>

record open_env =
  absolute_path :: "(string \<times> string) res"
  inotify_init1 :: int
  inotify_add_watch :: int
  eventfd :: int
  load_answers :: load_env
  thread_created :: bool

text \<open>The block of \<open>open\<close> after the locals \<open>inotify\<close> and \<open>stop_event\<close> are set up: the load, and handing
  both descriptors to the object. The locals are empty afterwards. When the thread cannot be created
  the exception leaves them with the object.\<close>

definition load_and_watch ::
  "('db, 'w) maxminddb \<Rightarrow> (errno \<Rightarrow> string) \<Rightarrow> 'db reloadable \<Rightarrow> open_env \<Rightarrow> 'w \<Rightarrow> unique_fd \<Rightarrow> unique_fd \<Rightarrow> int set \<Rightarrow>
     (unique_fd \<times> (unique_fd \<times> 'db reloadable \<times> 'w \<times> unit res) \<times> int set) option" where
  "load_and_watch lib err r env w local_inotify local_stop fds =
     (case load_snapshot lib err (rl_path r) (load_answers env) w fds of
        None \<Rightarrow> None
      | Some ((w, Inl e), fds) \<Rightarrow> Some (local_stop, (local_inotify, r, w, Inl e), fds)
      | Some ((w, Inr snap), fds) \<Rightarrow>
          (let r = r\<lparr>current := Some snap\<rparr>;
               (i, local_inotify, fds) = fd_move_assign (inotify r) local_inotify fds;
               (s, local_stop, fds) = fd_move_assign (stop_event r) local_stop fds;
               r = r\<lparr>inotify := i, stop_event := s\<rparr>
           in if thread_created env
              then Some (local_stop, (local_inotify, r\<lparr>watcher := True\<rparr>, w, Inr ()), fds)
              else Some (local_stop, (local_inotify, r, w, Inl (Error ''thread'')), fds)))"

text \<open>The watch is installed before the load.\<close>

definition rl_open ::
  "('db, 'w) maxminddb \<Rightarrow> (errno \<Rightarrow> string) \<Rightarrow> 'db reloadable \<Rightarrow> bool \<Rightarrow> open_env \<Rightarrow> 'w \<Rightarrow> int set \<Rightarrow>
     (('db reloadable \<times> 'w \<times> unit res) \<times> int set) option" where
  "rl_open lib err r log_on env w fds =
     (let r = r\<lparr>log_enabled := log_on\<rparr> in
      if fd_valid (inotify r) then Some ((r, w, Inl (Error ''MMDB watcher already started'')), fds)
      else case absolute_path env of
        Inl e \<Rightarrow> Some ((r, w, Inl e), fds)
      | Inr (absolute, filename) \<Rightarrow>
          (let r = r\<lparr>rl_path := absolute, rl_basename := filename\<rparr> in
           scoped (fd_open (inotify_init1 env) fds) (\<lambda>local_inotify fds.
             if \<not> fd_valid local_inotify
             then Some (local_inotify, (r, w, Inl (Error ''inotify_init1'')), fds)
             else if inotify_add_watch env = -1
             then Some (local_inotify, (r, w, Inl (Error ''MMDB inotify_add_watch'')), fds)
             else
               map_option (\<lambda>((local_inotify, result), fds). (local_inotify, result, fds))
                 (scoped (fd_open (eventfd env) fds) (\<lambda>local_stop fds.
                    if \<not> fd_valid local_stop
                    then Some (local_stop, (local_inotify, r, w, Inl (Error ''MMDB eventfd'')), fds)
                    else load_and_watch lib err r env w local_inotify local_stop fds)))))"

text \<open>Joining waits for the watcher to return, so it is not running afterwards.\<close>

definition stop_watcher :: "'db reloadable \<Rightarrow> 'db reloadable" where
  "stop_watcher r = (if \<not> watcher r then r else r\<lparr>watcher := False\<rparr>)"

definition rl_close :: "'db reloadable \<Rightarrow> int set \<Rightarrow> 'db reloadable \<times> int set" where
  "rl_close r fds =
     (let r = stop_watcher r;
          r = r\<lparr>current := None\<rparr>;
          (i, fds) = fd_reset (inotify r) (-1) fds;
          (s, fds) = fd_reset (stop_event r) (-1) fds
      in (r\<lparr>inotify := i, stop_event := s\<rparr>, fds))"

section \<open>The watcher\<close>

text \<open>Event masks and poll flags of the Linux interface.\<close>

definition IN_Q_OVERFLOW :: u32 where "IN_Q_OVERFLOW = 0x4000"

definition IN_IGNORED :: u32 where "IN_IGNORED = 0x8000"

definition database_events :: u32 where
  "database_events = 0x4 OR 0x8 OR 0x80"

definition directory_events :: u32 where
  "directory_events = 0x400 OR 0x800"

definition poll_failure :: u16 where
  "poll_failure = 0x8 OR 0x10 OR 0x20"

record inotify_event =
  ev_mask :: u32
  ev_len :: u32
  ev_name :: string

text \<open>The loop over the events of one buffer: \<open>None\<close> when the watched directory is gone.\<close>

fun scan_events :: "string \<Rightarrow> inotify_event list \<Rightarrow> bool \<Rightarrow> bool option" where
  "scan_events basename [] changed = Some changed"
| "scan_events basename (e # es) changed =
     (if ev_mask e AND (IN_IGNORED OR directory_events) \<noteq> 0 then None
      else
        (let changed = (if ev_mask e AND IN_Q_OVERFLOW \<noteq> 0 then True else changed);
             changed = (if ev_len e \<noteq> 0 \<and> ev_mask e AND database_events \<noteq> 0 \<and> basename = ev_name e
                        then True else changed)
         in scan_events basename es changed))"

datatype read_result = ReadEvents "inotify_event list" | ReadEof | ReadFailed errno

datatype drain_outcome = Drained bool | Returned | Reading

text \<open>The inner read loop. Each result comes with what \<open>stop_requested\<close> says after it.\<close>

fun drain :: "string \<Rightarrow> (read_result \<times> bool) list \<Rightarrow> bool \<Rightarrow> drain_outcome" where
  "drain basename [] changed = Reading"
| "drain basename ((ReadFailed e, stop) # rs) changed =
     (if e = EINTR then drain basename rs changed
      else if e = EAGAIN then Drained changed
      else Returned)"
| "drain basename ((ReadEof, stop) # rs) changed = Returned"
| "drain basename ((ReadEvents es, stop) # rs) changed =
     (case scan_events basename es changed of
        None \<Rightarrow> Returned
      | Some changed \<Rightarrow> if stop then Returned else drain basename rs changed)"

datatype poll_result = PollFailed errno | PollReady u16 u16

text \<open>One iteration of the outer loop, with the answers it gets.\<close>

record 'db watch_round =
  stop_at_top :: bool
  polled :: poll_result
  stop_after_poll :: bool
  reads :: "(read_result \<times> bool) list"
  stop_before_reload :: bool
  loaded :: "'db mmdb res"

definition watch_step :: "'db reloadable \<Rightarrow> 'db watch_round \<Rightarrow> 'db reloadable \<times> bool" where
  "watch_step r x =
     (if stop_at_top x then (r, False)
      else case polled x of
        PollFailed e \<Rightarrow> (r, e = EINTR)
      | PollReady inotify_revents stop_revents \<Rightarrow>
          if inotify_revents AND poll_failure \<noteq> 0 then (r, False)
          else if stop_revents \<noteq> 0 \<or> stop_after_poll x then (r, False)
          else case drain (rl_basename r) (reads x) False of
            Returned \<Rightarrow> (r, False)
          | Reading \<Rightarrow> (r, False)
          | Drained changed \<Rightarrow>
              if changed \<and> \<not> stop_before_reload x then (rl_reload r (loaded x), True) else (r, True))"

fun watch :: "'db reloadable \<Rightarrow> 'db watch_round list \<Rightarrow> 'db reloadable" where
  "watch r [] = r"
| "watch r (x # xs) = (let (r, more) = watch_step r x in if more then watch r xs else r)"

section \<open>What reloading keeps\<close>

definition directory_gone :: "inotify_event \<Rightarrow> bool" where
  "directory_gone e \<longleftrightarrow> ev_mask e AND (IN_IGNORED OR directory_events) \<noteq> 0"

definition database_changed :: "string \<Rightarrow> inotify_event \<Rightarrow> bool" where
  "database_changed basename e \<longleftrightarrow> ev_mask e AND IN_Q_OVERFLOW \<noteq> 0 \<or>
     ev_len e \<noteq> 0 \<and> ev_mask e AND database_events \<noteq> 0 \<and> ev_name e = basename"

lemma scan_events_eq:
  "scan_events basename es changed =
     (if \<exists>e \<in> set es. directory_gone e then None
      else Some (changed \<or> (\<exists>e \<in> set es. database_changed basename e)))"
  by (induction es arbitrary: changed)
    (auto simp: directory_gone_def database_changed_def Let_def)

fun events_of :: "read_result \<Rightarrow> inotify_event list" where
  "events_of (ReadEvents es) = es"
| "events_of _ = []"

lemma drain_Drained:
  "drain basename rs changed = Drained c \<Longrightarrow>
     \<exists>before after stop. rs = before @ (ReadFailed EAGAIN, stop) # after \<and>
       (\<forall>e \<in> set (concat (map (events_of \<circ> fst) before)). \<not> directory_gone e) \<and>
       (c \<longleftrightarrow> changed \<or> (\<exists>e \<in> set (concat (map (events_of \<circ> fst) before)). database_changed basename e))"
proof (induction basename rs changed rule: drain.induct)
  case (2 basename e stop rs changed)
  show ?case
  proof (cases "e = EINTR")
    case True
    then obtain before after s where "rs = before @ (ReadFailed EAGAIN, s) # after"
      "\<forall>e \<in> set (concat (map (events_of \<circ> fst) before)). \<not> directory_gone e"
      "c \<longleftrightarrow> changed \<or> (\<exists>e \<in> set (concat (map (events_of \<circ> fst) before)). database_changed basename e)"
      using 2 by auto
    then show ?thesis
      by (intro exI [of _ "(ReadFailed e, stop) # before"] exI [of _ after] exI [of _ s]) simp
  next
    case False
    then show ?thesis
      using 2(2) by (intro exI [of _ "[]"] exI [of _ rs] exI [of _ stop]) (auto split: if_splits)
  qed
next
  case (4 basename es stop rs changed)
  let ?c = "changed \<or> (\<exists>e \<in> set es. database_changed basename e)"
  have es: "\<forall>e \<in> set es. \<not> directory_gone e" and "\<not> stop" and d: "drain basename rs ?c = Drained c"
    using 4(2) by (auto simp: scan_events_eq split: if_splits)
  then obtain before after s where "rs = before @ (ReadFailed EAGAIN, s) # after"
    "\<forall>e \<in> set (concat (map (events_of \<circ> fst) before)). \<not> directory_gone e"
    "c \<longleftrightarrow> ?c \<or> (\<exists>e \<in> set (concat (map (events_of \<circ> fst) before)). database_changed basename e)"
    using 4(1) [of ?c] by (auto simp: scan_events_eq)
  with es show ?case
    by (intro exI [of _ "(ReadEvents es, stop) # before"] exI [of _ after] exI [of _ s]) auto
qed simp_all

lemma rl_reload_cases:
  "rl_reload r l = (case l of Inl _ \<Rightarrow> r | Inr db \<Rightarrow> r\<lparr>current := Some db, reload_count := reload_count r + 1\<rparr>)"
  by (simp add: rl_reload_def split: sum.splits)

lemma watch_step_fst: "fst (watch_step r x) = r \<or> fst (watch_step r x) = rl_reload r (loaded x)"
  by (simp add: watch_step_def split: poll_result.splits drain_outcome.splits)

lemma watch_keeps_database:
  "current (watch r xs) = current r \<or> (\<exists>db. current (watch r xs) = Some db \<and> Inr db \<in> loaded ` set xs)"
proof (induction xs arbitrary: r)
  case (Cons x xs)
  have "current (fst (watch_step r x)) = current r \<or>
      (\<exists>db. current (fst (watch_step r x)) = Some db \<and> Inr db = loaded x)"
    using watch_step_fst [of r x] by (cases "loaded x") (auto simp: rl_reload_cases)
  with Cons [of "fst (watch_step r x)"] show ?case
    by (cases "watch_step r x") auto
qed simp

lemma drain_complete:
  assumes "\<forall>(x, stop) \<in> set before. \<not> stop \<and> (\<exists>es. x = ReadEvents es)"
    and "\<forall>e \<in> set (concat (map (events_of \<circ> fst) before)). \<not> directory_gone e"
  shows "drain basename (before @ (ReadFailed EAGAIN, s) # after) changed =
    Drained (changed \<or> (\<exists>e \<in> set (concat (map (events_of \<circ> fst) before)). database_changed basename e))"
  using assms
proof (induction before arbitrary: changed)
  case (Cons x before)
  then obtain es where x: "x = (ReadEvents es, False)" by (cases x) auto
  have "drain basename (before @ (ReadFailed EAGAIN, s) # after) c =
    Drained (c \<or> (\<exists>e \<in> set (concat (map (events_of \<circ> fst) before)). database_changed basename e))" for c
    using Cons.prems by (intro Cons.IH) auto
  then show ?case using Cons.prems by (auto simp: x scan_events_eq)
qed simp

section \<open>Properties\<close>

text \<open>C27: once a database is loaded the watcher never loses it: after any sequence of events, failed
  reloads and stops included, readers still get a snapshot, the one they had or one that was loaded
  successfully.\<close>

theorem watch_never_loses_snapshot:
  assumes "snapshot r = Some db0"
  shows "\<exists>db. snapshot (watch r xs) = Some db \<and> (db = db0 \<or> Inr db \<in> loaded ` set xs)"
  using watch_keeps_database [of r xs] assms by (auto simp: snapshot_def)

theorem watch_never_loses_snapshot_witness:
  "\<exists>db. snapshot (watch (reloadable_new\<lparr>current := Some (mmdb_new :: unit mmdb)\<rparr>)
      [\<lparr>stop_at_top = False, polled = PollFailed EINTR, stop_after_poll = False, reads = [],
        stop_before_reload = False, loaded = Inl (Error [])\<rparr>]) = Some db"
  using watch_never_loses_snapshot [of "reloadable_new\<lparr>current := Some (mmdb_new :: unit mmdb)\<rparr>" mmdb_new
      "[\<lparr>stop_at_top = False, polled = PollFailed EINTR, stop_after_poll = False, reads = [],
        stop_before_reload = False, loaded = Inl (Error [])\<rparr>]"]
  by (auto simp: snapshot_def)

text \<open>no update is lost: when the watcher is not stopped and the directory is still there, a
  round that reads a write, a move or an attribute change of the database file, or a queue overflow,
  among any number of buffers, loads the file once: a success replaces the snapshot and is counted,
  a failure keeps everything; a round without such an event changes nothing.\<close>

theorem watch_step_reloads:
  assumes "\<not> stop_at_top x" and "polled x = PollReady 1 0" and "\<not> stop_after_poll x"
    and "reads x = map (\<lambda>es. (ReadEvents es, False)) buffers @ [(ReadFailed EAGAIN, False)]"
    and "\<not> stop_before_reload x"
    and "\<forall>e \<in> set (concat buffers). ev_mask e AND (IN_IGNORED OR directory_events) = 0"
  shows "watch_step r x =
    (if \<exists>e \<in> set (concat buffers). ev_mask e AND IN_Q_OVERFLOW \<noteq> 0 \<or>
          ev_len e \<noteq> 0 \<and> ev_mask e AND database_events \<noteq> 0 \<and> ev_name e = rl_basename r
     then (case loaded x of Inl _ \<Rightarrow> r
           | Inr db \<Rightarrow> r\<lparr>current := Some db, reload_count := reload_count r + 1\<rparr>, True)
     else (r, True))"
proof -
  let ?before = "map (\<lambda>es. (ReadEvents es, False)) buffers"
  have events: "concat (map (events_of \<circ> fst) ?before) = concat buffers"
    by (simp add: comp_def)
  have "drain (rl_basename r) (reads x) False =
      Drained (False \<or> (\<exists>e \<in> set (concat (map (events_of \<circ> fst) ?before)). database_changed (rl_basename r) e))"
    unfolding assms(4)
    by (rule drain_complete) (use assms(6) in \<open>auto simp: directory_gone_def comp_def\<close>)
  then show ?thesis
    unfolding events database_changed_def [symmetric] using assms(1,2,3,5)
    by (cases "\<exists>e \<in> set (concat buffers). database_changed (rl_basename r) e")
      (simp_all add: watch_step_def poll_failure_def rl_reload_cases)
qed

definition example_round :: "unit watch_round" where
  "example_round =
     \<lparr>stop_at_top = False, polled = PollReady 1 0, stop_after_poll = False,
      reads = [(ReadEvents [\<lparr>ev_mask = 0x80, ev_len = 16, ev_name = ''db.mmdb''\<rparr>], False), (ReadFailed EAGAIN, False)],
      stop_before_reload = False, loaded = Inr mmdb_new\<rparr>"

theorem watch_step_reloads_witness:
  "watch_step (reloadable_new\<lparr>rl_basename := ''db.mmdb''\<rparr>) example_round =
     (reloadable_new\<lparr>rl_basename := ''db.mmdb'', current := Some mmdb_new, reload_count := 1\<rparr>, True)"
  using watch_step_reloads [of example_round "[[\<lparr>ev_mask = 0x80, ev_len = 16, ev_name = ''db.mmdb''\<rparr>]]"
      "reloadable_new\<lparr>rl_basename := ''db.mmdb''\<rparr>"]
  by (simp add: example_round_def reloadable_new_def IN_IGNORED_def directory_events_def
      database_events_def IN_Q_OVERFLOW_def)

section \<open>Ownership of descriptors\<close>

text \<open>The descriptors an object owns, and what the kernel guarantees about new ones: a descriptor it hands
  out is not open.\<close>

definition owned :: "unique_fd \<Rightarrow> int set" where
  "owned u = (if fd_valid u then {fd u} else {})"

definition rl_owned :: "'db reloadable \<Rightarrow> int set" where
  "rl_owned r = owned (inotify r) \<union> owned (stop_event r)"

definition load_fresh :: "load_env \<Rightarrow> int set \<Rightarrow> bool" where
  "load_fresh env fds \<longleftrightarrow> fd_of (source_open env) \<notin> fds \<and>
     fd_of (tmpfile_open env) \<notin> insert (fd_of (source_open env)) fds - {-1}"

definition open_fresh :: "open_env \<Rightarrow> int set \<Rightarrow> bool" where
  "open_fresh env fds \<longleftrightarrow> -1 \<notin> fds \<and> inotify_init1 env \<notin> fds \<and>
     eventfd env \<notin> insert (inotify_init1 env) fds - {-1} \<and>
     load_fresh (load_answers env) (insert (eventfd env) (insert (inotify_init1 env) fds) - {-1})"

lemma fd_destroy_eq: "fd_destroy u fds = fds - owned u"
  by (simp add: fd_destroy_def fd_reset_def owned_def fd_valid_def Let_def)

lemma fd_move_assign_eq:
  "fd_move_assign u other fds = (other, fd_none, fds - owned u)"
  by (simp add: fd_move_assign_def fd_reset_def fd_release_def fd_none_def owned_def fd_valid_def Let_def)

lemma owned_none [simp]: "owned fd_none = {}" "owned \<lparr>fd = -1\<rparr> = {}"
  by (simp_all add: owned_def fd_none_def fd_valid_def)

lemma fd_open_eq: "fd_open n fds = (\<lparr>fd = n\<rparr>, fds \<union> owned \<lparr>fd = n\<rparr>)"
  by (simp add: fd_open_def owned_def fd_valid_def)

lemma rl_close_fds: "snd (rl_close r fds) = fds - rl_owned r"
  by (auto simp: rl_close_def stop_watcher_def fd_reset_def rl_owned_def owned_def fd_valid_def Let_def)

text \<open>Loading leaves no descriptor open, whatever fails.\<close>

lemma load_snapshot_fds:
  assumes "load_snapshot lib err path env w fds = Some (x, fds')" and "load_fresh env fds"
  shows "fds' = fds"
  using assms
  by (cases "source_open env"; cases "tmpfile_open env")
    (auto simp: load_snapshot_def scoped_def fd_open_eq fd_destroy_eq owned_def fd_valid_def load_fresh_def
      split: option.splits sum.splits)

lemma load_and_watch_taken:
  assumes "load_snapshot lib err (rl_path r) (load_answers env) w fds = Some ((w1, Inr snap), f1)"
  shows "load_and_watch lib err r env w li ls fds =
    Some (fd_none, (fd_none, r\<lparr>current := Some snap, inotify := li, stop_event := ls,
        watcher := thread_created env \<or> watcher r\<rparr>, w1,
      if thread_created env then Inr () else Inl (Error ''thread'')), f1 - rl_owned r)"
proof -
  have "f1 - owned (inotify r) - owned (stop_event r) = f1 - rl_owned r" by (auto simp: rl_owned_def)
  then show ?thesis
    unfolding load_and_watch_def assms fd_move_assign_eq
    by (cases "thread_created env"; cases r) simp_all
qed

lemma load_and_watch_cases:
  assumes "load_and_watch lib err r env w li ls fds = Some (ls', (li', r', w', res), g)"
    and "load_fresh (load_answers env) fds"
  obtains (not_loaded) e where "res = Inl e" "ls' = ls" "li' = li" "r' = r" "g = fds"
      "load_snapshot lib err (rl_path r) (load_answers env) w fds = Some ((w', Inl e), fds)"
  | (taken) snap where "ls' = fd_none" "li' = fd_none" "g = fds - rl_owned r"
      "r' = r\<lparr>current := Some snap, inotify := li, stop_event := ls, watcher := thread_created env \<or> watcher r\<rparr>"
      "isl res \<longleftrightarrow> \<not> thread_created env"
      "load_snapshot lib err (rl_path r) (load_answers env) w fds = Some ((w', Inr snap), fds)"
proof -
  obtain w1 x f1 where l: "load_snapshot lib err (rl_path r) (load_answers env) w fds = Some ((w1, x), f1)"
    using assms(1) by (auto simp: load_and_watch_def split: option.splits)
  have f1: "f1 = fds" by (rule load_snapshot_fds [OF l assms(2)])
  show thesis
  proof (cases x)
    case (Inl e)
    with assms(1) l f1 show thesis by (intro not_loaded) (auto simp: load_and_watch_def)
  next
    case (Inr snap)
    have "Some (ls', (li', r', w', res), g) = load_and_watch lib err r env w li ls fds"
      using assms(1) by simp
    also note load_and_watch_taken [OF l [unfolded Inr]]
    finally show thesis using l Inr f1 by (intro taken [of snap]) (simp_all split: if_splits)
  qed
qed

text \<open>The paths of \<open>open\<close>: nothing is handed to the object, or the snapshot and both descriptors are.\<close>

lemma rl_open_cases:
  assumes "rl_open lib err r log_on env w fds = Some ((r', w', res), fds')" and "open_fresh env fds"
  obtains (untouched) "isl res" "current r' = current r" "inotify r' = inotify r" "stop_event r' = stop_event r"
      "watcher r' = watcher r" "fds' = fds"
  | (taken) snap path name where "\<not> fd_valid (inotify r)" "current r' = Some snap"
      "inotify r' = \<lparr>fd = inotify_init1 env\<rparr>" "stop_event r' = \<lparr>fd = eventfd env\<rparr>"
      "watcher r' \<longleftrightarrow> thread_created env \<or> watcher r" "isl res \<longleftrightarrow> \<not> thread_created env"
      "inotify_init1 env \<noteq> -1" "eventfd env \<noteq> -1"
      "fds' = fds \<union> {inotify_init1 env, eventfd env} - rl_owned r"
      "load_snapshot lib err path (load_answers env) w (fds \<union> {inotify_init1 env, eventfd env}) =
         Some ((w', Inr snap), fds \<union> {inotify_init1 env, eventfd env})"
      "absolute_path env = Inr (path, name)"
proof -
  let ?F = "fds \<union> {inotify_init1 env, eventfd env}"
  consider (early) "isl res" "current r' = current r" "inotify r' = inotify r" "stop_event r' = stop_event r"
      "watcher r' = watcher r" "fds' = fds"
    | (late) absolute name ls' li' g where "absolute_path env = Inr (absolute, name)"
      "\<not> fd_valid (inotify r)" "inotify_init1 env \<noteq> -1" "eventfd env \<noteq> -1"
      "load_and_watch lib err (r\<lparr>log_enabled := log_on, rl_path := absolute, rl_basename := name\<rparr>) env w
         \<lparr>fd = inotify_init1 env\<rparr> \<lparr>fd = eventfd env\<rparr> ?F = Some (ls', (li', r', w', res), g)"
      "fds' = g - owned ls' - owned li'"
  proof (cases "fd_valid (inotify r) \<or> isl (absolute_path env) \<or> inotify_init1 env = -1 \<or>
      inotify_add_watch env = -1 \<or> eventfd env = -1")
    case True
    have new: "inotify_init1 env \<notin> fds" using assms(2) by (simp add: open_fresh_def)
    from True consider "fd_valid (inotify r)" | "\<not> fd_valid (inotify r)" "isl (absolute_path env)"
      | a b where "\<not> fd_valid (inotify r)" "absolute_path env = Inr (a, b)" "inotify_init1 env = -1"
      | a b where "\<not> fd_valid (inotify r)" "absolute_path env = Inr (a, b)" "inotify_init1 env \<noteq> -1" "inotify_add_watch env = -1"
      | a b where "\<not> fd_valid (inotify r)" "absolute_path env = Inr (a, b)" "inotify_init1 env \<noteq> -1"
          "inotify_add_watch env \<noteq> -1" "eventfd env = -1"
      by (metis isl_def sum.collapse(2) surj_pair)
    then show thesis
      using assms(1) new
      by cases (auto intro!: early simp: rl_open_def isl_def scoped_def fd_open_eq fd_destroy_eq owned_def fd_valid_def)
  next
    case False
    then obtain a b where ab: "absolute_path env = Inr (a, b)" by (cases "absolute_path env") auto
    have F: "insert (eventfd env) (insert (inotify_init1 env) fds) = ?F" by blast
    show thesis
      using False assms(1) late [OF ab]
      by (auto simp: rl_open_def ab scoped_def fd_open_eq fd_destroy_eq owned_def [of "\<lparr>fd = _\<rparr>"] fd_valid_def F)
  qed
  then show thesis
  proof cases
    case early
    then show thesis by (rule untouched)
  next
    case late
    have fresh: "load_fresh (load_answers env) (fds \<union> {inotify_init1 env, eventfd env})"
    proof -
      have "-1 \<notin> fds" using assms(2) by (simp add: open_fresh_def)
      then have "insert (eventfd env) (insert (inotify_init1 env) fds) - {-1} = fds \<union> {inotify_init1 env, eventfd env}"
        using late(3,4) by auto
      then show ?thesis using assms(2) by (simp add: open_fresh_def)
    qed
    have new: "inotify_init1 env \<notin> fds" "eventfd env \<notin> fds"
      using assms(2) late(3,4) by (auto simp: open_fresh_def)
    from late(5) fresh show thesis
    proof (cases rule: load_and_watch_cases)
      case not_loaded
      with late new show thesis by (intro untouched) (auto simp: owned_def fd_valid_def)
    next
      case (taken snap)
      with late show thesis
        by (intro that(2) [of snap absolute name]) (auto simp: rl_owned_def)
    qed
  qed
qed

section \<open>No descriptor is leaked\<close>

text \<open>C28: opening never leaks a descriptor. Whatever the system calls answer, on every way out of \<open>open\<close>
  (a call that fails, a load that throws at any point, a thread that cannot be created, success), the
  descriptors open afterwards are those open before, less those the object owned, plus those its
  members own now: the locals of \<open>open\<close> and of \<open>load_snapshot\<close> are all closed. A later \<open>close\<close> closes
  exactly what the members own, so it restores the descriptors from before. An exception leaves the
  members and the snapshot as they were unless it is the thread that could not be created; on success
  the snapshot is the one loaded and the watcher runs. The kernel is only asked not to hand out a
  descriptor that is open.\<close>

theorem rl_open_owns_descriptors:
  assumes "rl_open lib err r log_on env w fds = Some ((r', w', res), fds')"
    and "open_fresh env fds" and "rl_owned r \<subseteq> fds"
  shows "fds' = (fds - rl_owned r) \<union> rl_owned r' \<and>
    snd (rl_close r' fds') = fds - rl_owned r \<and>
    (isl res \<and> thread_created env \<longrightarrow>
       inotify r' = inotify r \<and> stop_event r' = stop_event r \<and> current r' = current r \<and> watcher r' = watcher r) \<and>
    (\<not> isl res \<longrightarrow> watcher r' \<and> (\<exists>snap path name fds1.
       current r' = Some snap \<and> absolute_path env = Inr (path, name) \<and>
       load_snapshot lib err path (load_answers env) w fds1 = Some ((w', Inr snap), fds1)))"
  using assms(1,2)
proof (cases rule: rl_open_cases)
  case untouched
  then have "rl_owned r' = rl_owned r" by (simp add: rl_owned_def)
  with untouched assms(3) show ?thesis by (auto simp: rl_close_fds)
next
  case (taken snap path name)
  have own: "rl_owned r' = {inotify_init1 env, eventfd env}"
    using taken by (auto simp: rl_owned_def owned_def fd_valid_def)
  have new: "inotify_init1 env \<notin> fds" "eventfd env \<notin> fds"
    using assms(2) taken by (auto simp: open_fresh_def)
  have "fds' = (fds - rl_owned r) \<union> rl_owned r'"
    using taken(9) own new assms(3) by auto
  moreover from this have "snd (rl_close r' fds') = fds - rl_owned r"
    using own new by (auto simp: rl_close_fds)
  ultimately show ?thesis using taken by blast
qed

text \<open>An object that is opened when the descriptors 0 to 2 are open: the temporary file cannot be created,
  so \<open>open\<close> throws after three descriptors were obtained, and they are closed again.\<close>

definition example_open_fails :: open_env where
  "example_open_fails =
     \<lparr>absolute_path = Inr (''/d/x'', ''x''), inotify_init1 = 3, inotify_add_watch = 1, eventfd = 4,
      load_answers = \<lparr>source_open = Inr 5, tmpfile_open = Inl (EOTHER 24), copy_calls = []\<rparr>, thread_created = True\<rparr>"

theorem rl_open_owns_descriptors_witness:
  "\<exists>r' e. rl_open example_lib (\<lambda>_. ''full'') reloadable_new True example_open_fails () {0, 1, 2} =
     Some ((r', (), Inl e), {0, 1, 2}) \<and> rl_owned r' = {} \<and> snd (rl_close r' {0, 1, 2}) = {0, 1, 2}"
proof -
  have none: "rl_owned reloadable_new = {}" by (simp add: rl_owned_def reloadable_new_def)
  have fresh: "open_fresh example_open_fails {0, 1, 2}"
    by (simp add: open_fresh_def load_fresh_def example_open_fails_def)
  obtain r' res fds' where o: "rl_open example_lib (\<lambda>_. ''full'') reloadable_new True example_open_fails () {0, 1, 2} =
      Some ((r', (), res), fds')" "isl res"
    by (simp add: rl_open_def load_and_watch_def load_snapshot_def scoped_def example_open_fails_def reloadable_new_def
        fd_open_def fd_none_def fd_valid_def)
  have "rl_owned r' = {}"
    using rl_open_owns_descriptors [OF o(1) fresh] none o(2)
    by (simp add: example_open_fails_def) (simp add: rl_owned_def reloadable_new_def)
  with rl_open_owns_descriptors [OF o(1) fresh] none o show ?thesis
    by (cases res) auto
qed

end
