(* ===== verification/Agent.thy ===== *)
theory Agent
  imports Frame Drop_Categories Mmdb_Reload
begin

text \<open>
  The request processor (\<open>src/spoa/spoa_agent.h\<close>, \<open>spoa_agent.cpp\<close>): evaluating the arguments of a
  NOTIFY frame against the current database snapshot and the configured categories, and answering
  each frame. A handler returns the new agent, the bytes it writes and whether the connection's read
  loop should stop. The log level is a parameter, because the category walk depends on it.
\<close>

record 'db agent =
  agent_mmdb :: "'db reloadable option"
  agent_categories :: drop_categories
  lookups_total :: u64
  lookup_errors_total :: u64

definition agent_new :: "'db agent" where
  "agent_new = \<lparr>agent_mmdb = None, agent_categories = \<lparr>categories = []\<rparr>, lookups_total = 0, lookup_errors_total = 0\<rparr>"

definition set_mmdb :: "'db agent \<Rightarrow> 'db reloadable option \<Rightarrow> 'db agent" where
  "set_mmdb ag db = ag\<lparr>agent_mmdb := db\<rparr>"

definition load_drop_categories :: "'db agent \<Rightarrow> string \<Rightarrow> 'db agent" where
  "load_drop_categories ag raw = ag\<lparr>agent_categories := dc_load (agent_categories ag) raw\<rparr>"

definition drop_category_count :: "'db agent \<Rightarrow> nat" where
  "drop_category_count ag = dc_size (agent_categories ag)"

definition drop_category_names :: "'db agent \<Rightarrow> string" where
  "drop_category_names ag = names_string (agent_categories ag)"

definition agent_metadata_string :: "('db, 'w) maxminddb \<Rightarrow> (u64 \<Rightarrow> string) \<Rightarrow> 'db agent \<Rightarrow> string" where
  "agent_metadata_string lib format_epoch ag =
     (case agent_mmdb ag of
        None \<Rightarrow> ''(database not open)''
      | Some rl \<Rightarrow>
          (case snapshot rl of
             None \<Rightarrow> ''(database not open)''
           | Some db \<Rightarrow> metadata_string lib format_epoch db))"

definition inc_lookups :: "'db agent \<Rightarrow> 'db agent" where
  "inc_lookups ag = ag\<lparr>lookups_total := lookups_total ag + 1\<rparr>"

definition inc_lookup_errors :: "'db agent \<Rightarrow> 'db agent" where
  "inc_lookup_errors ag = ag\<lparr>lookup_errors_total := lookup_errors_total ag + 1\<rparr>"

section \<open>Evaluating a lookup\<close>

text \<open>The visitor: the match so far, the categories and the list collected for the log line.\<close>

definition evaluate_visit ::
  "bool \<Rightarrow> string \<Rightarrow> string \<times> drop_categories \<times> string list \<Rightarrow> bool \<times> string \<times> drop_categories \<times> string list" where
  "evaluate_visit log_categories category st =
     (let (matched, dc, cats) = st;
          (matched, dc) = (if matched = [] then match_and_increment dc category else (matched, dc));
          cats = (if log_categories then cats @ [category] else cats)
      in (log_categories \<or> matched = [], matched, dc, cats))"

definition evaluate_lookup ::
  "('db, 'w) maxminddb \<Rightarrow> bool \<Rightarrow> 'db agent \<Rightarrow> 'db lookup_result \<Rightarrow> int \<Rightarrow> bool \<Rightarrow> bool \<times> 'db agent" where
  "evaluate_lookup lib log_categories ag result mmdb_error ip_bad =
     (let ag = inc_lookups ag in
      if mmdb_error \<noteq> MMDB_SUCCESS then (ip_bad, inc_lookup_errors ag)
      else if \<not> found_entry result then (ip_bad, ag)
      else
        (let (matched, dc, cats) =
           for_each_category lib result (evaluate_visit log_categories) ([], agent_categories ag, [])
         in (if matched \<noteq> [] then True else ip_bad, ag\<lparr>agent_categories := dc\<rparr>)))"

text \<open>An argument is evaluated against the handle of the snapshot, if there is one; the result says
  whether its type is supported.\<close>

definition evaluate_argument ::
  "('db, 'w) maxminddb \<Rightarrow> bool \<Rightarrow> 'db agent \<Rightarrow> arg \<Rightarrow> 'db option \<Rightarrow> bool \<Rightarrow> bool \<times> bool \<times> 'db agent" where
  "evaluate_argument lib log_values ag a db ip_bad =
     (if type_of (arg_value a) \<noteq> TT_IPv4 \<and> type_of (arg_value a) \<noteq> TT_IPv6 \<and>
         type_of (arg_value a) \<noteq> TT_String
      then (False, ip_bad, ag)
      else case db of
        None \<Rightarrow> (True, ip_bad, ag)
      | Some h \<Rightarrow>
          (let (result, error) =
             (case arg_value a of
                IPv4 octets \<Rightarrow> lookup_ipv4 lib h octets
              | IPv6 octets \<Rightarrow> lookup_ipv6 lib h octets
              | Str s \<Rightarrow> lookup_string lib h s);
               (ip_bad, ag) = evaluate_lookup lib log_values ag result error ip_bad
           in (True, ip_bad, ag)))"

fun evaluate_args ::
  "('db, 'w) maxminddb \<Rightarrow> bool \<Rightarrow> 'db option \<Rightarrow> arg list \<Rightarrow> bool \<times> bool \<times> 'db agent \<Rightarrow> bool \<times> bool \<times> 'db agent" where
  "evaluate_args lib logging db [] st = st"
| "evaluate_args lib logging db (a # as) (not_implemented, ip_bad, ag) =
     (let (supported, ip_bad, ag) = evaluate_argument lib logging ag a db ip_bad in
      evaluate_args lib logging db as (not_implemented \<or> \<not> supported, ip_bad, ag))"

fun evaluate_messages ::
  "('db, 'w) maxminddb \<Rightarrow> bool \<Rightarrow> 'db option \<Rightarrow> message list \<Rightarrow> bool \<times> bool \<times> 'db agent \<Rightarrow> bool \<times> bool \<times> 'db agent" where
  "evaluate_messages lib logging db [] st = st"
| "evaluate_messages lib logging db (m # ms) st =
     evaluate_messages lib logging db ms (evaluate_args lib logging db (msg_args m) st)"

section \<open>Handling frames\<close>

definition kStatusNotImplemented :: u32 where
  "kStatusNotImplemented = 14"

record response =
  written_bytes :: bytes
  stop_iteration :: bool

definition send_buffer :: "bytes \<Rightarrow> nat \<Rightarrow> bool \<Rightarrow> response" where
  "send_buffer data sz stop = \<lparr>written_bytes = take sz data, stop_iteration = stop\<rparr>"

definition send_frame :: "bytes \<Rightarrow> bool \<Rightarrow> response" where
  "send_frame frame stop = \<lparr>written_bytes = frame, stop_iteration = stop\<rparr>"

text \<open>One snapshot serves all arguments of the frame.\<close>

definition agent_snapshot :: "'db agent \<Rightarrow> 'db option" where
  "agent_snapshot ag =
     (case agent_mmdb ag of
        None \<Rightarrow> None
      | Some rl \<Rightarrow> (case snapshot rl of None \<Rightarrow> None | Some m \<Rightarrow> mmdb_handle m))"

text \<open>The initial contents of the stack buffer are indeterminate, hence an argument.\<close>

definition handle_notify ::
  "('db, 'w) maxminddb \<Rightarrow> bool \<Rightarrow> bytes \<Rightarrow> 'db agent \<Rightarrow> notify \<Rightarrow> 'db agent \<times> response res" where
  "handle_notify lib logging stack_buf ag n =
     (let db = agent_snapshot ag;
          (not_implemented, ip_bad, ag) = evaluate_messages lib logging db (messages n) (False, False, ag)
      in if not_implemented
         then (ag, rbind (encode_agent_disconnect 0 0 kStatusNotImplemented
                      ''agent does not implement argument type'')
                 (\<lambda>frame. Inr (send_frame frame True)))
         else
           (let vars = [\<lparr>ack_scope = Session, ack_name = ''ip_bad'', ack_value = Boolean ip_bad\<rparr>] in
            (ag, rbind (encode_agent_ack_into stack_buf (notify_stream_id n) (notify_frame_id n) vars)
               (\<lambda>(buf, written).
                  if written > 0 then Inr (send_buffer buf written False)
                  else rbind (encode_agent_ack (notify_stream_id n) (notify_frame_id n) vars)
                    (\<lambda>frame. Inr (send_frame frame False))))))"

definition handle_frame ::
  "('db, 'w) maxminddb \<Rightarrow> bool \<Rightarrow> bytes \<Rightarrow> 'db agent \<Rightarrow> frame_type \<Rightarrow> bytes \<Rightarrow> 'db agent \<times> response" where
  "handle_frame lib logging stack_buf ag t payload =
     (let (ag, res) =
        (case parse t payload of
           Inl e \<Rightarrow> (ag, Inl e)
         | Inr (InHello hello) \<Rightarrow>
             (ag, rbind (encode_agent_hello (hello_stream_id hello) (hello_frame_id hello) (max_frame_size hello))
                (\<lambda>frame. Inr (send_frame frame False)))
         | Inr (InDisconnect disconnect) \<Rightarrow> (ag, Inr \<lparr>written_bytes = [], stop_iteration = True\<rparr>)
         | Inr (InNotify n) \<Rightarrow> handle_notify lib logging stack_buf ag n)
      in case res of
           Inl error \<Rightarrow> (ag, \<lparr>written_bytes = [], stop_iteration = True\<rparr>)
         | Inr r \<Rightarrow> (ag, r))"

section \<open>One lookup\<close>

text \<open>What an argument's lookup answers, and the configured category it hits: the first one in
  database order.\<close>

fun value_lookup :: "('db, 'w) maxminddb \<Rightarrow> 'db \<Rightarrow> typed_data \<Rightarrow> 'db lookup_result \<times> int" where
  "value_lookup lib h (IPv4 octets) = lookup_ipv4 lib h octets"
| "value_lookup lib h (IPv6 octets) = lookup_ipv6 lib h octets"
| "value_lookup lib h (Str s) = lookup_string lib h s"

definition supported :: "arg \<Rightarrow> bool" where
  "supported a \<longleftrightarrow> type_of (arg_value a) \<in> {TT_IPv4, TT_IPv6, TT_String}"

definition value_match :: "('db, 'w) maxminddb \<Rightarrow> 'db option \<Rightarrow> string set \<Rightarrow> arg \<Rightarrow> string option" where
  "value_match lib db cats a =
     (case db of
        None \<Rightarrow> None
      | Some h \<Rightarrow>
          if \<not> supported a then None
          else (let (result, error) = value_lookup lib h (arg_value a) in
            if error \<noteq> MMDB_SUCCESS \<or> \<not> found_entry result then None
            else find (\<lambda>c. c \<in> cats) (get_categories lib result)))"

text \<open>With or without logging, the walk counts the first configured category and nothing else.\<close>

lemma visit_list_logging:
  "visit_list (evaluate_visit True) cs (m, dc, acc) =
     (let (m', dc') = (if m = [] then match_and_increment_list dc cs else (m, dc)) in (m', dc', acc @ cs))"
  by (induction cs arbitrary: m dc acc) (auto simp: evaluate_visit_def Let_def split: prod.splits)

lemma visit_list_silent:
  "visit_list (evaluate_visit False) cs ([], dc, acc) =
     (let (m', dc') = match_and_increment_list dc cs in (m', dc', acc))"
  by (induction cs arbitrary: dc acc) (auto simp: evaluate_visit_def Let_def split: prod.splits)

lemma evaluate_lookup_eq:
  "evaluate_lookup lib logging ag result error ip_bad =
     (let ag = inc_lookups ag in
      if error \<noteq> MMDB_SUCCESS then (ip_bad, inc_lookup_errors ag)
      else if \<not> found_entry result then (ip_bad, ag)
      else (let (m, dc) = match_and_increment_list (agent_categories ag) (get_categories lib result)
        in (m \<noteq> [] \<or> ip_bad, ag\<lparr>agent_categories := dc\<rparr>)))"
  by (cases logging)
    (auto simp: evaluate_lookup_def for_each_category_eq visit_list_logging visit_list_silent Let_def
      split: prod.splits)

section \<open>One frame\<close>

text \<open>How an evaluation over some arguments relates the agents before and after it.\<close>

definition evaluated ::
  "('db, 'w) maxminddb \<Rightarrow> 'db option \<Rightarrow> arg list \<Rightarrow> bool \<times> bool \<times> 'db agent \<Rightarrow> bool \<times> bool \<times> 'db agent \<Rightarrow> bool" where
  "evaluated lib db as s s' \<longleftrightarrow>
     (case (s, s') of ((ni, bad, ag), (ni', bad', ag')) \<Rightarrow>
        let hit = value_match lib db (configured (agent_categories ag)) in
        (ni' \<longleftrightarrow> ni \<or> (\<exists>a \<in> set as. \<not> supported a)) \<and>
        (bad' \<longleftrightarrow> bad \<or> (\<exists>a \<in> set as. hit a \<noteq> None)) \<and>
        dc_inv (agent_categories ag') \<and> configured (agent_categories ag') = configured (agent_categories ag) \<and>
        (\<forall>d. blocked (agent_categories ag') d =
           blocked (agent_categories ag) d + of_nat (length (filter (\<lambda>a. hit a = Some d) as))) \<and>
        lookups_total ag' = lookups_total ag +
          (if db = None then 0 else of_nat (length (filter supported as))) \<and>
        agent_mmdb ag' = agent_mmdb ag)"

lemma evaluated_Nil: "dc_inv (agent_categories ag) \<Longrightarrow> evaluated lib db [] (ni, bad, ag) (ni, bad, ag)"
  by (simp add: evaluated_def Let_def)

lemma evaluated_append:
  assumes "evaluated lib db as s s'" and "evaluated lib db bs s' s''"
  shows "evaluated lib db (as @ bs) s s''"
  using assms by (cases s; cases s'; cases s'') (auto simp: evaluated_def Let_def add.assoc)

text \<open>The walk over the categories of one result, through the contract of the counters.\<close>

lemma match_list_effect:
  assumes "dc_inv dc" and "match_and_increment_list dc cs = (m, dc')"
  shows "m \<noteq> [] \<longleftrightarrow> find (\<lambda>c. c \<in> configured dc) cs \<noteq> None"
    and "dc_inv dc'" and "configured dc' = configured dc"
    and "blocked dc' d = blocked dc d + (if find (\<lambda>c. c \<in> configured dc) cs = Some d then 1 else 0)"
proof -
  have walk: "dc.walk dc cs = (m, dc')"
    using assms(2) by (simp add: match_and_increment_list_walk)
  note first = dc.walk_first [OF assms(1), of cs, unfolded walk, simplified]
  show "m \<noteq> [] \<longleftrightarrow> find (\<lambda>c. c \<in> configured dc) cs \<noteq> None"
    using first(1) dc.known_nonempty [OF assms(1)]
    by (cases "find (\<lambda>c. c \<in> configured dc) cs") (auto dest: find_SomeD)
  show "dc_inv dc'" "configured dc' = configured dc"
    and "blocked dc' d = blocked dc d + (if find (\<lambda>c. c \<in> configured dc) cs = Some d then 1 else 0)"
    using first by simp_all
qed

lemma evaluate_argument_evaluated:
  assumes "dc_inv (agent_categories ag)"
    and "evaluate_argument lib logging ag a db bad = (ok, bad', ag')"
  shows "evaluated lib db [a] (ni, bad, ag) (ni \<or> \<not> ok, bad', ag')"
proof (cases "supported a")
  case False
  with assms show ?thesis
    by (auto simp: evaluate_argument_def evaluated_def supported_def value_match_def split: option.splits)
next
  case sup: True
  show ?thesis
  proof (cases db)
    case None
    with assms sup show ?thesis
      by (auto simp: evaluate_argument_def evaluated_def supported_def value_match_def)
  next
    case (Some h)
    obtain result error where l: "value_lookup lib h (arg_value a) = (result, error)" by fastforce
    obtain m dc' where walk: "match_and_increment_list (agent_categories ag) (get_categories lib result) = (m, dc')"
      by fastforce
    have ev: "evaluate_lookup lib logging ag result error bad = (bad', ag')" and ok: "ok"
      using assms(2) sup Some l
      by (cases "arg_value a"; auto simp: evaluate_argument_def supported_def split: prod.splits)+
    show ?thesis
      using ev ok sup Some l walk assms(1) match_list_effect [OF assms(1) walk]
      by (auto simp: evaluate_lookup_eq evaluated_def value_match_def inc_lookups_def
          inc_lookup_errors_def Let_def split: if_splits)
  qed
qed

lemma evaluate_args_evaluated:
  "dc_inv (agent_categories (snd (snd s))) \<Longrightarrow> evaluated lib db as s (evaluate_args lib logging db as s)"
proof (induction as arbitrary: s)
  case Nil
  then show ?case by (cases s) (simp add: evaluated_Nil)
next
  case (Cons a as)
  obtain ni bad ag where s: "s = (ni, bad, ag)" by (cases s)
  obtain ok bad' ag' where a: "evaluate_argument lib logging ag a db bad = (ok, bad', ag')"
    by (cases "evaluate_argument lib logging ag a db bad")
  have 1: "evaluated lib db [a] s (ni \<or> \<not> ok, bad', ag')"
    using evaluate_argument_evaluated [OF _ a] Cons.prems by (simp add: s)
  then have "dc_inv (agent_categories ag')"
    by (auto simp: evaluated_def s Let_def)
  from evaluated_append [OF 1 Cons.IH [of "(ni \<or> \<not> ok, bad', ag')"]] this show ?case
    by (simp add: s a)
qed

lemma evaluated_inv: "evaluated lib db as s s' \<Longrightarrow> dc_inv (agent_categories (snd (snd s')))"
  by (auto simp: evaluated_def Let_def split: prod.splits)

lemma evaluate_messages_evaluated:
  "dc_inv (agent_categories (snd (snd s))) \<Longrightarrow>
     evaluated lib db (concat (map msg_args ms)) s (evaluate_messages lib logging db ms s)"
proof (induction ms arbitrary: s)
  case Nil
  then show ?case by (cases s) (simp add: evaluated_Nil)
next
  case (Cons m ms)
  note args = evaluate_args_evaluated [OF Cons.prems, of lib db "msg_args m" logging]
  show ?case
    using evaluated_append [OF args Cons.IH [OF evaluated_inv [OF args]]] by simp
qed

section \<open>The answers\<close>

abbreviation ip_bad_var :: "bool \<Rightarrow> ack_var" where
  "ip_bad_var b \<equiv> \<lparr>ack_scope = Session, ack_name = ''ip_bad'', ack_value = Boolean b\<rparr>"

lemma length_ip_bad_ack:
  "length (ack_body sid fid [ip_bad_var b]) \<le> 36" "0 < length (ack_body sid fid [ip_bad_var b])"
  using varint_bytes_bound [of sid] varint_bytes_bound [of fid]
  by (simp_all add: length_frame_body ack_var_bytes_def field_bytes_def lp_bytes_def typed_bytes_def
      peers_bytes_def max_encoded_size_def)

text \<open>The stack buffer is always large enough, so the fallback is never taken.\<close>

lemma ip_bad_ack_into:
  assumes "length buf = 64"
  shows "encode_agent_ack_into buf sid fid [ip_bad_var b] =
    Inr (overwrite buf 0 (ack_bytes sid fid [ip_bad_var b]), length (ack_bytes sid fid [ip_bad_var b]))"
  using length_ip_bad_ack [of sid fid b] assms
  by (simp add: encode_agent_ack_into_eq checked_size_def size_limit_def)

abbreviation not_implemented_frame :: bytes where
  "not_implemented_frame \<equiv> frame_bytes AgentDisconnect 0 0 (fields_bytes
     [\<lparr>arg_name = ''status-code'', arg_value = UInt32 14\<rparr>,
      \<lparr>arg_name = ''message'', arg_value = Str ''agent does not implement argument type''\<rparr>])"

lemma encode_not_implemented:
  "encode_agent_disconnect 0 0 kStatusNotImplemented ''agent does not implement argument type'' =
     Inr not_implemented_frame"
  by (simp add: encode_agent_disconnect_def encode_fields_eq checked_size_def size_limit_def
      length_frame_body field_bytes_def lp_bytes_def typed_bytes_def peers_bytes_def
      kStatusNotImplemented_def)

lemma handle_notify_eq:
  assumes "length stack_buf = 64"
    and "evaluate_messages lib logging (agent_snapshot ag) (messages n) (False, False, ag) = (ni, bad, ag')"
  shows "handle_notify lib logging stack_buf ag n =
    (ag', Inr (if ni then \<lparr>written_bytes = not_implemented_frame, stop_iteration = True\<rparr>
               else \<lparr>written_bytes = ack_bytes (notify_stream_id n) (notify_frame_id n) [ip_bad_var bad],
                     stop_iteration = False\<rparr>))"
  using assms length_ip_bad_ack
  by (auto simp: handle_notify_def Let_def encode_not_implemented send_frame_def send_buffer_def
      ip_bad_ack_into overwrite_def simp del: length_greater_0_conv)

lemma evaluate_messages_run:
  assumes "dc_inv (agent_categories ag)"
  obtains ni bad ag' where
    "evaluate_messages lib logging db ms (False, False, ag) = (ni, bad, ag')"
    "evaluated lib db (concat (map msg_args ms)) (False, False, ag) (ni, bad, ag')"
  using evaluate_messages_evaluated [of "(False, False, ag)" lib db ms logging] assms
  by (cases "evaluate_messages lib logging db ms (False, False, ag)") auto

lemma handle_frame_notify:
  assumes "parse t payload = Inr (InNotify n)" and "length stack_buf = 64"
    and "evaluate_messages lib logging (agent_snapshot ag) (messages n) (False, False, ag) = (ni, bad, ag')"
  shows "handle_frame lib logging stack_buf ag t payload =
    (ag', if ni then \<lparr>written_bytes = not_implemented_frame, stop_iteration = True\<rparr>
          else \<lparr>written_bytes = ack_bytes (notify_stream_id n) (notify_frame_id n) [ip_bad_var bad],
                stop_iteration = False\<rparr>)"
  using assms by (simp add: handle_frame_def handle_notify_eq)

text \<open>The bytes of a NOTIFY frame, answered: everything the properties below use.\<close>

lemma notify_frame_run:
  assumes "length stack_buf = 64" and "dc_inv (agent_categories ag)" and "list_all message_ok ms"
  obtains ni bad ag' where
    "handle_frame lib logging stack_buf ag Notify (frame_payload sid fid (concat (map message_bytes ms))) =
      (ag', if ni then \<lparr>written_bytes = not_implemented_frame, stop_iteration = True\<rparr>
            else \<lparr>written_bytes = ack_bytes sid fid [ip_bad_var bad], stop_iteration = False\<rparr>)"
    "evaluated lib (agent_snapshot ag) (concat (map msg_args ms)) (False, False, ag) (ni, bad, ag')"
proof -
  obtain ni bad ag' where run:
    "evaluate_messages lib logging (agent_snapshot ag) ms (False, False, ag) = (ni, bad, ag')"
    "evaluated lib (agent_snapshot ag) (concat (map msg_args ms)) (False, False, ag) (ni, bad, ag')"
    by (rule evaluate_messages_run [OF assms(2)])
  show thesis
    by (rule that [OF _ run(2)])
      (rule handle_frame_notify [OF parse_notify_payload [OF assms(3), of sid fid] assms(1),
        unfolded notify.simps, OF run(1)])
qed

lemma evaluate_messages_logging:
  "evaluate_messages lib l1 db ms s = evaluate_messages lib l2 db ms s"
proof -
  have "evaluate_lookup lib l1 = evaluate_lookup lib l2"
    by (simp add: fun_eq_iff evaluate_lookup_eq)
  then have "evaluate_argument lib l1 = evaluate_argument lib l2"
    by (simp only: fun_eq_iff evaluate_argument_def) simp
  then have "evaluate_args lib l1 db as s = evaluate_args lib l2 db as s" for as s
    by (induction as arbitrary: s) (auto split: prod.splits)
  then show ?thesis by (induction ms arbitrary: s) simp_all
qed

lemma handle_frame_transparent:
  assumes "length b1 = 64" and "length b2 = 64"
  shows "handle_frame lib l1 b1 ag t payload = handle_frame lib l2 b2 ag t payload"
proof -
  have "handle_notify lib l1 b1 ag n = handle_notify lib l2 b2 ag n" for n
    using handle_notify_eq [OF assms(1), of lib l1 ag n] handle_notify_eq [OF assms(2), of lib l2 ag n]
      evaluate_messages_logging [of lib l1 _ _ _ l2]
    by (cases "evaluate_messages lib l2 (agent_snapshot ag) (messages n) (False, False, ag)") simp
  then have "handle_notify lib l1 b1 ag = handle_notify lib l2 b2 ag" by blast
  then show ?thesis by (simp only: handle_frame_def)
qed

lemma unsupported_run:
  assumes "length stack_buf = 64" and "dc_inv (agent_categories ag)" and "list_all message_ok ms"
    and "m \<in> set ms" and "a \<in> set (msg_args m)"
    and "type_of (arg_value a) \<notin> {TT_IPv4, TT_IPv6, TT_String}"
    and "handle_frame lib logging stack_buf ag Notify (frame_payload sid fid (concat (map message_bytes ms)))
      = (ag', r)"
  shows "r = \<lparr>written_bytes = not_implemented_frame, stop_iteration = True\<rparr>"
proof -
  obtain ni bad ag1 where run:
    "handle_frame lib logging stack_buf ag Notify (frame_payload sid fid (concat (map message_bytes ms))) =
      (ag1, if ni then \<lparr>written_bytes = not_implemented_frame, stop_iteration = True\<rparr>
            else \<lparr>written_bytes = ack_bytes sid fid [ip_bad_var bad], stop_iteration = False\<rparr>)"
    "evaluated lib (agent_snapshot ag) (concat (map msg_args ms)) (False, False, ag) (ni, bad, ag1)"
    by (rule notify_frame_run [OF assms(1-3)])
  have "ni" using run(2) assms(4-6) by (auto simp: evaluated_def supported_def Let_def)
  then show ?thesis using assms(7) run(1) by simp
qed

section \<open>Properties\<close>

text \<open>C3: end to end on the bytes of a NOTIFY frame whose arguments all have a supported type: the
  agent answers with one ACK frame, for the same stream and frame, that sets \<open>ip_bad\<close> in the session
  to true exactly when some argument's lookup succeeds, finds an entry and that entry has a
  configured category; a failed lookup, a missing entry or no database never flags. The connection
  goes on.\<close>

theorem notify_decision:
  assumes "length stack_buf = 64" and "dc_inv (agent_categories ag)"
    and "list_all message_ok ms" and "\<forall>m \<in> set ms. \<forall>a \<in> set (msg_args m). supported a"
    and "handle_frame lib logging stack_buf ag Notify (frame_payload sid fid (concat (map message_bytes ms)))
      = (ag', r)"
  shows "encode_agent_ack sid fid
      [\<lparr>ack_scope = Session, ack_name = ''ip_bad'', ack_value = Boolean
        (\<exists>m \<in> set ms. \<exists>a \<in> set (msg_args m). \<exists>h result category.
           agent_snapshot ag = Some h \<and> value_lookup lib h (arg_value a) = (result, MMDB_SUCCESS) \<and>
           found_entry result \<and> category \<in> set (get_categories lib result) \<and>
           category \<in> set (names (agent_categories ag)))\<rparr>] = Inr (written_bytes r)
    \<and> \<not> stop_iteration r"
proof -
  obtain ni bad ag1 where run:
    "handle_frame lib logging stack_buf ag Notify (frame_payload sid fid (concat (map message_bytes ms))) =
      (ag1, if ni then \<lparr>written_bytes = not_implemented_frame, stop_iteration = True\<rparr>
            else \<lparr>written_bytes = ack_bytes sid fid [ip_bad_var bad], stop_iteration = False\<rparr>)"
    "evaluated lib (agent_snapshot ag) (concat (map msg_args ms)) (False, False, ag) (ni, bad, ag1)"
    by (rule notify_frame_run [OF assms(1-3)])
  have "\<not> ni" using run(2) assms(4) by (auto simp: evaluated_def Let_def)
  then have r: "r = \<lparr>written_bytes = ack_bytes sid fid [ip_bad_var bad], stop_iteration = False\<rparr>"
    using assms(5) run(1) by simp
  have "value_match lib (agent_snapshot ag) (set (names (agent_categories ag))) a \<noteq> None \<longleftrightarrow>
      (\<exists>h result category. agent_snapshot ag = Some h \<and>
        value_lookup lib h (arg_value a) = (result, MMDB_SUCCESS) \<and> found_entry result \<and>
        category \<in> set (get_categories lib result) \<and> category \<in> set (names (agent_categories ag)))"
    if "supported a" for a
    using that by (auto simp: value_match_def find_Some_ex split: option.splits prod.splits)
  then have "bad \<longleftrightarrow> (\<exists>m \<in> set ms. \<exists>a \<in> set (msg_args m). \<exists>h result category.
      agent_snapshot ag = Some h \<and> value_lookup lib h (arg_value a) = (result, MMDB_SUCCESS) \<and>
      found_entry result \<and> category \<in> set (get_categories lib result) \<and>
      category \<in> set (names (agent_categories ag)))"
    using run(2) assms(4) names_sorted(3) [OF assms(2)] by (simp add: evaluated_def Let_def)
  then show ?thesis
    using length_ip_bad_ack [of sid fid bad]
    by (simp add: r encode_agent_ack_eq checked_size_def size_limit_def)
qed

text \<open>An agent with the example library, a loaded snapshot and two configured categories.\<close>

definition example_agent :: "unit agent" where
  "example_agent = load_drop_categories (set_mmdb agent_new
     (Some (reloadable_new\<lparr>current := Some \<lparr>mmdb_handle = Some (), mmdb_open_flag = True, mmdb_path = ''/db''\<rparr>\<rparr>)))
     ''abuse,spam''"

abbreviation example_message :: "typed_data \<Rightarrow> message" where
  "example_message v \<equiv> \<lparr>msg_name = ''check'', msg_args = [\<lparr>arg_name = ''ip'', arg_value = v\<rparr>]\<rparr>"

lemma example_agent_inv [simp]: "dc_inv (agent_categories example_agent)"
  by (simp add: example_agent_def load_drop_categories_def dc_load_inv)

lemma example_message_ok [simp]: "message_ok (example_message (IPv4 [10, 0, 0, 1]))" "message_ok (example_message Null)"
  by (simp_all add: message_ok_def arg_ok_def addressable_def)

lemma example_names: "set (names (agent_categories example_agent)) = {''abuse'', ''spam''}"
proof -
  have "trim ''abuse'' = ''abuse''" "trim ''spam'' = ''spam''"
    by (simp_all add: trim_def find_first_not_of_def find_last_not_of_def kWhitespace_def substr_def)
  then show ?thesis
    by (simp add: example_agent_def load_drop_categories_def names_def dc_load_def views_split_def
        try_emplace_def set_mmdb_def agent_new_def)
qed

lemma example_lookup:
  "agent_snapshot example_agent = Some ()"
  "value_lookup example_lib () (IPv4 [10, 0, 0, 1]) =
     (\<lparr>found_entry = True, result_entry = \<lparr>entry_mmdb = (), entry_offset = 0\<rparr>\<rparr>, MMDB_SUCCESS)"
  "get_categories example_lib \<lparr>found_entry = True, result_entry = \<lparr>entry_mmdb = (), entry_offset = 0\<rparr>\<rparr> = [''abuse'']"
  by (simp_all add: example_agent_def load_drop_categories_def set_mmdb_def agent_snapshot_def snapshot_def
      example_lib_def lookup_ipv4_def lookup_sockaddr_def MMDB_SUCCESS_def get_categories_eq category_array_def
      category_at_def List.map_filter_simps to_string.simps)

theorem notify_decision_witness:
  "encode_agent_ack 7 8 [\<lparr>ack_scope = Session, ack_name = ''ip_bad'', ack_value = Boolean True\<rparr>] =
     Inr (written_bytes (snd (handle_frame example_lib False (replicate 64 0) example_agent Notify
       (frame_payload 7 8 (concat (map message_bytes [example_message (IPv4 [10, 0, 0, 1])]))))))"
proof -
  obtain ag' r where h: "handle_frame example_lib False (replicate 64 0) example_agent Notify
      (frame_payload 7 8 (concat (map message_bytes [example_message (IPv4 [10, 0, 0, 1])]))) = (ag', r)"
    by fastforce
  show ?thesis
    using notify_decision [OF _ example_agent_inv _ _ h] example_lookup example_names h
    by (simp add: supported_def)
qed

text \<open>a NOTIFY frame with an argument of a type the agent does not implement is answered with an
  AGENT-DISCONNECT of status 14, and the read loop is told to stop.\<close>

theorem notify_unsupported:
  assumes "length stack_buf = 64" and "dc_inv (agent_categories ag)" and "list_all message_ok ms"
    and "m \<in> set ms" and "a \<in> set (msg_args m)"
    and "type_of (arg_value a) \<notin> {TT_IPv4, TT_IPv6, TT_String}"
    and "handle_frame lib logging stack_buf ag Notify (frame_payload sid fid (concat (map message_bytes ms)))
      = (ag', r)"
  shows "encode_agent_disconnect 0 0 14 ''agent does not implement argument type'' = Inr (written_bytes r)
    \<and> stop_iteration r"
  using unsupported_run [OF assms] encode_not_implemented by (simp add: kStatusNotImplemented_def)

theorem notify_unsupported_witness:
  "stop_iteration (snd (handle_frame example_lib False (replicate 64 0) example_agent Notify
     (frame_payload 7 8 (concat (map message_bytes [example_message Null])))))"
proof -
  obtain ag' r where h: "handle_frame example_lib False (replicate 64 0) example_agent Notify
      (frame_payload 7 8 (concat (map message_bytes [example_message Null]))) = (ag', r)"
    by fastforce
  show ?thesis
    using notify_unsupported [OF _ example_agent_inv _ _ _ _ h, of "example_message Null" "\<lparr>arg_name = ''ip'', arg_value = Null\<rparr>"] h
    by simp
qed

text \<open>C20: the counters after a NOTIFY frame: with a database every supported argument is one lookup,
  and a category's blocked counter grows by the number of arguments whose first configured category
  it is; the configuration and the database are kept.\<close>

theorem notify_counters:
  assumes "length stack_buf = 64" and "dc_inv (agent_categories ag)" and "list_all message_ok ms"
    and "handle_frame lib logging stack_buf ag Notify (frame_payload sid fid (concat (map message_bytes ms)))
      = (ag', r)"
  shows "lookups_total ag' = lookups_total ag + (if agent_snapshot ag = None then 0
      else of_nat (length (filter supported (concat (map msg_args ms)))))
    \<and> blocked (agent_categories ag') d = blocked (agent_categories ag) d +
        of_nat (length (filter (\<lambda>a. value_match lib (agent_snapshot ag) (configured (agent_categories ag)) a = Some d)
          (concat (map msg_args ms))))
    \<and> dc_inv (agent_categories ag') \<and> names (agent_categories ag') = names (agent_categories ag)
    \<and> agent_mmdb ag' = agent_mmdb ag"
proof -
  obtain ni bad ag1 where run:
    "handle_frame lib logging stack_buf ag Notify (frame_payload sid fid (concat (map message_bytes ms))) =
      (ag1, if ni then \<lparr>written_bytes = not_implemented_frame, stop_iteration = True\<rparr>
            else \<lparr>written_bytes = ack_bytes sid fid [ip_bad_var bad], stop_iteration = False\<rparr>)"
    "evaluated lib (agent_snapshot ag) (concat (map msg_args ms)) (False, False, ag) (ni, bad, ag1)"
    by (rule notify_frame_run [OF assms(1-3)])
  then have "evaluated lib (agent_snapshot ag) (concat (map msg_args ms)) (False, False, ag) (ni, bad, ag')"
    using assms(4) by simp
  moreover from this have "names (agent_categories ag') = names (agent_categories ag)"
    using names_sorted [OF assms(2)] names_sorted [of "agent_categories ag'"]
    by (simp add: evaluated_def Let_def sorted_distinct_set_unique)
  ultimately show ?thesis by (simp add: evaluated_def Let_def)
qed

theorem notify_counters_witness:
  "blocked (agent_categories (fst (handle_frame example_lib False (replicate 64 0) example_agent Notify
     (frame_payload 7 8 (concat (map message_bytes [example_message (IPv4 [10, 0, 0, 1])])))))) ''abuse'' = 1"
proof -
  obtain ag' r where h: "handle_frame example_lib False (replicate 64 0) example_agent Notify
      (frame_payload 7 8 (concat (map message_bytes [example_message (IPv4 [10, 0, 0, 1])]))) = (ag', r)"
    by fastforce
  have "configured (agent_categories example_agent) = {''abuse'', ''spam''}"
    using example_names names_sorted(3) [OF example_agent_inv] by simp
  then show ?thesis
    using notify_counters [OF _ example_agent_inv _ h, of "''abuse''"] h example_lookup
    by (simp add: value_match_def supported_def)
      (simp add: example_agent_def load_drop_categories_def blocked_dc_load)
qed

text \<open>a frame that does not parse is answered with nothing, stops the read loop and leaves the
  agent as it was; so does a HAPROXY-DISCONNECT.\<close>

theorem handle_frame_parse_error:
  assumes "(\<exists>e. parse t payload = Inl e) \<or> (\<exists>d. parse t payload = Inr (InDisconnect d))"
  shows "handle_frame lib logging stack_buf ag t payload =
    (ag, \<lparr>written_bytes = [], stop_iteration = True\<rparr>)"
  using assms by (auto simp: handle_frame_def)

theorem handle_frame_parse_error_witness:
  "handle_frame example_lib True (replicate 64 0) example_agent Notify [] =
    (example_agent, \<lparr>written_bytes = [], stop_iteration = True\<rparr>)"
  using handle_frame_parse_error [of Notify "[]" example_lib True "replicate 64 0" example_agent]
  by (simp add: parse_def read_bytes_def make_reader_def reader_remaining_def kFlagsFin_def)

text \<open>a hello is answered with the agent's hello for the same identifiers: protocol 2.0, the
  frame size HAProxy announced and the pipelining capability; the connection goes on.\<close>

theorem handle_frame_hello:
  assumes "parse t payload = Inr (InHello hello)"
  shows "handle_frame lib logging stack_buf ag t payload =
    (ag, \<lparr>written_bytes = frame_bytes AgentHello (hello_stream_id hello) (hello_frame_id hello) (fields_bytes
        [\<lparr>arg_name = ''version'', arg_value = Str ''2.0''\<rparr>,
         \<lparr>arg_name = ''max-frame-size'', arg_value = UInt32 (max_frame_size hello)\<rparr>,
         \<lparr>arg_name = ''capabilities'', arg_value = Str ''pipelining''\<rparr>]), stop_iteration = False\<rparr>)"
  using assms varint_bytes_bound [of "hello_stream_id hello"] varint_bytes_bound [of "hello_frame_id hello"]
    varint_bytes_bound [of "ucast (max_frame_size hello)"]
  by (simp add: handle_frame_def encode_agent_hello_def encode_fields_eq checked_size_def size_limit_def
      send_frame_def length_frame_body field_bytes_def lp_bytes_def typed_bytes_def
      peers_bytes_def max_encoded_size_def)

theorem handle_frame_hello_witness:
  "stop_iteration (snd (handle_frame example_lib True (replicate 64 0) example_agent HaproxyHello
     (frame_payload 0 1 (fields_bytes [])))) = False"
  using handle_frame_hello [OF parse_hello_payload [of "[]" 0 1], of example_lib True "replicate 64 0" example_agent]
  by simp

text \<open>the log level and the initial contents of the stack buffer never change what the agent
  does: the same answer, the same counters.\<close>

theorem logging_is_transparent:
  assumes "length b1 = 64" and "length b2 = 64"
  shows "handle_frame lib True b1 ag t payload = handle_frame lib False b2 ag t payload"
  using assms by (rule handle_frame_transparent)

theorem logging_is_transparent_witness:
  "handle_frame example_lib True (replicate 64 0) example_agent Notify [0, 0, 0, 1, 7, 8] =
   handle_frame example_lib False (replicate 64 1) example_agent Notify [0, 0, 0, 1, 7, 8]"
  by (rule logging_is_transparent) simp_all

end
