(* ===== verification/Server.thy ===== *)
theory Server
  imports Agent
begin

text \<open>
  The connection server (\<open>src/spoa/spoa_server.h\<close>, \<open>spoa_server.cpp\<close>). A Seastar future is its state,
  and everything the reactor may do in between is a step of a transition relation: the server of a
  shard reads frames of its connections in any order, all of them with the one agent of the shard,
  while writes and flushes complete or fail, connections are accepted and finish, the watcher replaces
  the database and the server is stopped. The input stream of a connection is the list of bytes the
  peer sends before it closes. Its output stream is Seastar's, so it is the sequence of calls made on
  it: the code calls \<open>write\<close> for an answer while earlier answers may still wait for their flush, and
  what the stream makes of overlapping calls is not part of the model.
\<close>

definition kFrameLengthSize :: nat where
  "kFrameLengthSize = 4"

definition pipeline_limit :: nat where
  "pipeline_limit = 128"

text \<open>\<open>seastar::read_be<uint32_t>\<close>.\<close>

definition read_be :: "bytes \<Rightarrow> nat" where
  "read_be bs = fold (\<lambda>b n. n * 256 + unat b) (take 4 bs) 0"

definition read_exactly :: "nat \<Rightarrow> bytes \<Rightarrow> bytes \<times> bytes" where
  "read_exactly n inp = (take n inp, drop n inp)"

section \<open>One connection\<close>

datatype stream_call = Write_call bytes | Flush_call | Close_call

text \<open>The future of an answer: the write is pending, then the flush it is chained to, until it is done or
  one of the two has failed. A future on which \<open>then\<close> was called and that failed is used up.\<close>

datatype fut = Writing | Flushing | Done | Failed | Consumed

text \<open>How far the answer has come when \<open>handle_frame\<close> returns, and the calls made by then
  (\<open>send_buffer\<close>, \<open>send_frame\<close>).\<close>

datatype progress = Write_pending | Write_failed | Flush_pending | Flush_failed | Flushed

fun progress_future :: "progress \<Rightarrow> fut" where
  "progress_future Write_pending = Writing"
| "progress_future Write_failed = Failed"
| "progress_future Flush_pending = Flushing"
| "progress_future Flush_failed = Failed"
| "progress_future Flushed = Done"

definition send_calls :: "bytes \<Rightarrow> progress \<Rightarrow> stream_call list" where
  "send_calls data p =
     Write_call data # (if p \<in> {Flush_pending, Flush_failed, Flushed} then [Flush_call] else [])"

text \<open>Where the connection's coroutine is: reading the next frame, waiting for the oldest response,
  draining the responses left, closing the output, or finished; the flag says whether an exception is
  on its way. \<open>Stuck\<close> is waiting on a future that was used up.\<close>

datatype phase = Reading_frame | Awaiting_front | Draining bool | Closing bool | Closed bool | Stuck

record conn =
  conn_in :: bytes
  conn_calls :: "stream_call list"
  pipeline :: "fut list"
  conn_phase :: phase

text \<open>The two reads of \<open>process_one_frame\<close>: the frame, or nothing when the stream ends, and what is left.\<close>

definition next_frame :: "bytes \<Rightarrow> bytes option \<times> bytes" where
  "next_frame inp =
     (let (len, inp) = read_exactly kFrameLengthSize inp in
      if length len < kFrameLengthSize then (None, inp)
      else
        (let sz = read_be len; (frame, inp) = read_exactly sz inp in
         if length frame < sz \<or> frame = [] then (None, inp) else (Some frame, inp)))"

text \<open>One turn of the read loop, on the agent of the shard. The progress of the answer is decided by the
  stream when something is written; without a write the future is ready.\<close>

definition process_one_frame ::
  "('db, 'w) maxminddb \<Rightarrow> bool \<Rightarrow> bytes \<Rightarrow> progress \<Rightarrow> 'db agent \<Rightarrow> conn \<Rightarrow> 'db agent \<times> conn" where
  "process_one_frame lib logging stack_buf p ag c =
     (case next_frame (conn_in c) of
        (None, inp) \<Rightarrow> (ag, c\<lparr>conn_in := inp, conn_phase := Draining False\<rparr>)
      | (Some frame, inp) \<Rightarrow>
          (let (ag, r) = handle_frame lib logging stack_buf ag (frame_type_of (hd frame)) (tl frame);
               f = (if written_bytes r = [] then Done else progress_future p);
               calls = (if written_bytes r = [] then [] else send_calls (written_bytes r) p);
               c = c\<lparr>conn_in := inp, conn_calls := conn_calls c @ calls\<rparr>
           in if f = Done \<and> stop_iteration r then (ag, c\<lparr>conn_phase := Draining False\<rparr>)
              else
                (let c = c\<lparr>pipeline := pipeline c @ [f]\<rparr> in
                 (ag, c\<lparr>conn_phase :=
                    if length (pipeline c) \<ge> pipeline_limit then Awaiting_front else Reading_frame\<rparr>))))"

text \<open>The end of the \<open>finally\<close> block's loop: the output is closed.\<close>

definition close_output :: "bool \<Rightarrow> conn \<Rightarrow> conn" where
  "close_output e c = c\<lparr>conn_calls := conn_calls c @ [Close_call], conn_phase := Closing e\<rparr>"

text \<open>The continuation on the oldest response: \<open>front().then(pop_front)\<close> in the read loop, and in the
  loop of the \<open>finally\<close> block, whose failure still closes the output. Both call \<open>then\<close> on the future
  where it is, so one that failed stays at the front and is used up; the draining loop that follows a
  failed wait of the read loop waits on it a second time.\<close>

definition front_done :: "conn \<Rightarrow> conn option" where
  "front_done c =
     (case (conn_phase c, pipeline c) of
        (Awaiting_front, Done # fs) \<Rightarrow> Some (c\<lparr>pipeline := fs, conn_phase := Reading_frame\<rparr>)
      | (Awaiting_front, Failed # fs) \<Rightarrow> Some (c\<lparr>pipeline := Consumed # fs, conn_phase := Draining True\<rparr>)
      | (Draining e, []) \<Rightarrow> Some (close_output e c)
      | (Draining e, Done # fs) \<Rightarrow> Some (c\<lparr>pipeline := fs\<rparr>)
      | (Draining e, Failed # fs) \<Rightarrow> Some (close_output True (c\<lparr>pipeline := Consumed # fs\<rparr>))
      | (Draining e, Consumed # fs) \<Rightarrow> Some (c\<lparr>conn_phase := Stuck\<rparr>)
      | _ \<Rightarrow> None)"

text \<open>What a pending answer may do next: a finished write calls \<open>flush\<close>.\<close>

inductive answer_step :: "fut \<Rightarrow> stream_call list \<Rightarrow> fut \<Rightarrow> bool" where
  written: "answer_step Writing [Flush_call] Flushing"
| write_fails: "answer_step Writing [] Failed"
| flushed: "answer_step Flushing [] Done"
| flush_fails: "answer_step Flushing [] Failed"

inductive_cases answer_stepE: "answer_step f calls g"

text \<open>The steps of a connection that do not involve the agent: a read that fails, a pending answer going
  on, the continuation on the oldest response, and the end of closing. Seastar does not say what
  waiting on a used-up future does; it may fail, or never go on.\<close>

inductive conn_step :: "conn \<Rightarrow> conn \<Rightarrow> bool" where
  read_fails: "conn_phase c = Reading_frame \<Longrightarrow>
    conn_step c (c\<lparr>conn_in := drop n (conn_in c), conn_phase := Draining True\<rparr>)"
| answer: "i < length (pipeline c) \<Longrightarrow> answer_step (pipeline c ! i) calls f \<Longrightarrow>
    conn_step c (c\<lparr>conn_calls := conn_calls c @ calls, pipeline := (pipeline c)[i := f]\<rparr>)"
| front: "front_done c = Some c' \<Longrightarrow> conn_step c c'"
| used_up: "conn_phase c = Stuck \<Longrightarrow> conn_step c (close_output True c)"
| closed: "conn_phase c = Closing e \<Longrightarrow> e' = e \<or> e' \<Longrightarrow> conn_step c (c\<lparr>conn_phase := Closed e'\<rparr>)"

inductive_cases conn_stepE: "conn_step c c'"

definition conn_start :: "bytes \<Rightarrow> conn" where
  "conn_start inp = \<lparr>conn_in = inp, conn_calls = [], pipeline = [], conn_phase = Reading_frame\<rparr>"

section \<open>The server of a shard\<close>

text \<open>Its agent, whether it listens and accepts, the gate that counts the connections
  (\<open>seastar::gate\<close>), how many were accepted, the connections with their numbers, and how far \<open>stop\<close>
  has come.\<close>

datatype stop_phase = Running | Stopping | Gate_closing | Stopped

record 'db server =
  srv_agent :: "'db agent"
  srv_listening :: bool
  srv_accepting :: bool
  gate_count :: nat
  gate_closed :: bool
  srv_accepted :: nat
  srv_conns :: "(nat \<times> conn) list"
  srv_stop :: stop_phase

definition server_new :: "'db server" where
  "server_new = \<lparr>srv_agent = agent_new, srv_listening = False, srv_accepting = False,
     gate_count = 0, gate_closed = False, srv_accepted = 0, srv_conns = [], srv_stop = Running\<rparr>"

definition start_listening :: "'db server \<Rightarrow> 'db server" where
  "start_listening s = s\<lparr>srv_listening := True, srv_accepting := True\<rparr>"

definition server_start :: "'db server \<Rightarrow> string \<Rightarrow> 'db reloadable option \<Rightarrow> 'db server" where
  "server_start s drop_by_category db =
     (let s = s\<lparr>srv_agent := load_drop_categories (srv_agent s) drop_by_category\<rparr>;
          s = s\<lparr>srv_agent := set_mmdb (srv_agent s) db\<rparr>
      in start_listening s)"

text \<open>One turn of \<open>accept_loop\<close>: an accepted connection, with the bytes its peer will send, enters the
  gate and runs on its own; a closed gate or a failed accept ends the loop.\<close>

definition accept_turn :: "'db server \<Rightarrow> bytes option \<Rightarrow> 'db server" where
  "accept_turn s accepted =
     (case accepted of
        Some inp \<Rightarrow>
          if gate_closed s then s\<lparr>srv_accepting := False\<rparr>
          else s\<lparr>gate_count := gate_count s + 1, srv_accepted := srv_accepted s + 1,
                 srv_conns := (srv_accepted s, conn_start inp) # srv_conns s\<rparr>
      | None \<Rightarrow> s\<lparr>srv_accepting := False\<rparr>)"

text \<open>The continuation of a finished connection leaves the gate.\<close>

definition conn_finished :: "'db server \<Rightarrow> nat \<Rightarrow> 'db server" where
  "conn_finished s k =
     s\<lparr>srv_conns := take k (srv_conns s) @ drop (Suc k) (srv_conns s), gate_count := gate_count s - 1\<rparr>"

text \<open>\<open>stop\<close> and its two continuations: closing the gate once the accept loop has ended, and resolving
  once the gate is empty.\<close>

definition server_stop :: "'db server \<Rightarrow> 'db server" where
  "server_stop s = s\<lparr>srv_listening := False, srv_stop := Stopping\<rparr>"

definition stop_continue :: "'db server \<Rightarrow> 'db server option" where
  "stop_continue s =
     (case srv_stop s of
        Stopping \<Rightarrow> if srv_accepting s then None else Some (s\<lparr>gate_closed := True, srv_stop := Gate_closing\<rparr>)
      | Gate_closing \<Rightarrow> if gate_count s = 0 then Some (s\<lparr>srv_stop := Stopped\<rparr>) else None
      | _ \<Rightarrow> None)"

text \<open>The watcher's thread replaces the snapshot in the database object that the agent shares.\<close>

definition agent_reload :: "'db mmdb res \<Rightarrow> 'db agent \<Rightarrow> 'db agent" where
  "agent_reload snap ag = ag\<lparr>agent_mmdb := map_option (\<lambda>r. rl_reload r snap) (agent_mmdb ag)\<rparr>"

text \<open>The events of a shard that matter outside one connection: a connection was accepted, a frame of a
  connection was handled, the database was reloaded. A step is labelled with the events it makes.\<close>

datatype 'db event = Accepted nat bytes | Handled nat bytes | Reloaded "'db mmdb res"

definition accept_events :: "'db server \<Rightarrow> bytes option \<Rightarrow> 'db event list" where
  "accept_events s accepted =
     (case accepted of Some inp \<Rightarrow> if gate_closed s then [] else [Accepted (srv_accepted s) inp] | None \<Rightarrow> [])"

definition read_events :: "nat \<Rightarrow> conn \<Rightarrow> 'db event list" where
  "read_events i c = (case fst (next_frame (conn_in c)) of Some frame \<Rightarrow> [Handled i frame] | None \<Rightarrow> [])"

inductive server_step ::
  "('db, 'w) maxminddb \<Rightarrow> bool \<Rightarrow> 'db server \<Rightarrow> 'db event list \<Rightarrow> 'db server \<Rightarrow> bool" for lib logging where
  accept: "srv_accepting s \<Longrightarrow>
    server_step lib logging s (accept_events s accepted) (accept_turn s accepted)"
| read: "k < length (srv_conns s) \<Longrightarrow> srv_conns s ! k = (i, c) \<Longrightarrow> conn_phase c = Reading_frame \<Longrightarrow>
    length stack_buf = 64 \<Longrightarrow> process_one_frame lib logging stack_buf p (srv_agent s) c = (ag, c') \<Longrightarrow>
    server_step lib logging s (read_events i c) (s\<lparr>srv_agent := ag, srv_conns := (srv_conns s)[k := (i, c')]\<rparr>)"
| conn: "k < length (srv_conns s) \<Longrightarrow> srv_conns s ! k = (i, c) \<Longrightarrow> conn_step c c' \<Longrightarrow>
    server_step lib logging s [] (s\<lparr>srv_conns := (srv_conns s)[k := (i, c')]\<rparr>)"
| finished: "k < length (srv_conns s) \<Longrightarrow> srv_conns s ! k = (i, c) \<Longrightarrow> conn_phase c = Closed e \<Longrightarrow>
    server_step lib logging s [] (conn_finished s k)"
| reload: "server_step lib logging s [Reloaded snap] (s\<lparr>srv_agent := agent_reload snap (srv_agent s)\<rparr>)"
| stop: "srv_stop s = Running \<Longrightarrow> server_step lib logging s [] (server_stop s)"
| continue: "stop_continue s = Some s' \<Longrightarrow> server_step lib logging s [] s'"

text \<open>A run of the shard from a state, with the events in the order in which they happened.\<close>

inductive server_run ::
  "('db, 'w) maxminddb \<Rightarrow> bool \<Rightarrow> 'db server \<Rightarrow> 'db event list \<Rightarrow> 'db server \<Rightarrow> bool" for lib logging s0 where
  start: "server_run lib logging s0 [] s0"
| more: "server_run lib logging s0 tr s \<Longrightarrow> server_step lib logging s evs s' \<Longrightarrow>
    server_run lib logging s0 (tr @ evs) s'"

section \<open>Frames on the wire\<close>

definition encode_frame :: "bytes \<Rightarrow> bytes" where
  "encode_frame frame = u32_be_bytes native_big_endian (of_nat (length frame)) @ frame"


definition frame_ok :: "bytes \<Rightarrow> bool" where
  "frame_ok frame \<longleftrightarrow> frame \<noteq> [] \<and> length frame < 2 ^ 32"

lemma u32_be_bytes_nat:
  assumes "n < 2 ^ 32"
  shows "u32_be_bytes big (of_nat n) =
      [of_nat (n div 2 ^ 24), of_nat (n div 2 ^ 16), of_nat (n div 2 ^ 8), of_nat n]"
  using ucast_drop_bit_of_nat [OF assms, of 24] ucast_drop_bit_of_nat [OF assms, of 16]
    ucast_drop_bit_of_nat [OF assms, of 8] ucast_drop_bit_of_nat [OF assms, of 0]
  by (simp add: u32_be_bytes_eq)

lemma read_be_u32:
  assumes "n < 2 ^ 32"
  shows "read_be (u32_be_bytes big (of_nat n)) = n"
proof -
  have b: "unat (of_nat m :: u8) = m mod 256" for m
    by (simp add: unsigned_of_nat take_bit_eq_mod)
  have d: "n div 2 ^ 16 = n div 256 div 256" "n div 2 ^ 24 = n div 256 div 256 div 256"
    by (simp_all add: div_mult2_eq [symmetric])
  have "n div 256 div 256 div 256 mod 256 = n div 256 div 256 div 256"
    using assms by (simp add: div_mult2_eq [symmetric])
  then show ?thesis
    unfolding read_be_def u32_be_bytes_nat [OF assms] d by (simp add: b)
qed


text \<open>Reading a frame is taking it off the wire.\<close>

lemma next_frame_encode: "frame_ok frame \<Longrightarrow> next_frame (encode_frame frame @ rest) = (Some frame, rest)"
  by (simp add: next_frame_def encode_frame_def read_exactly_def kFrameLengthSize_def frame_ok_def read_be_u32)


section \<open>What every connection keeps\<close>

text \<open>The pipeline is bounded, and as long as no answer failed every write that is not pending was
  followed by its flush.\<close>

fun write_calls :: "stream_call list \<Rightarrow> bytes list" where
  "write_calls [] = []"
| "write_calls (Write_call bs # calls) = bs # write_calls calls"
| "write_calls (_ # calls) = write_calls calls"

abbreviation flush_calls :: "stream_call list \<Rightarrow> stream_call list" where
  "flush_calls calls \<equiv> filter (\<lambda>x. x = Flush_call) calls"

abbreviation unflushed :: "fut list \<Rightarrow> fut list" where
  "unflushed fs \<equiv> filter (\<lambda>f. f \<noteq> Flushing \<and> f \<noteq> Done) fs"

lemma write_calls_append [simp]: "write_calls (xs @ ys) = write_calls xs @ write_calls ys"
  by (induction xs rule: write_calls.induct) simp_all

definition flush_inv :: "conn \<Rightarrow> bool" where
  "flush_inv c \<longleftrightarrow>
     length (write_calls (conn_calls c)) \<le> length (flush_calls (conn_calls c)) + length (unflushed (pipeline c))"

definition conn_inv :: "conn \<Rightarrow> bool" where
  "conn_inv c \<longleftrightarrow>
     length (pipeline c) \<le> pipeline_limit \<and>
     (conn_phase c = Reading_frame \<longrightarrow> length (pipeline c) < pipeline_limit) \<and>
     (conn_phase c = Awaiting_front \<longrightarrow> length (pipeline c) = pipeline_limit) \<and>
     (conn_phase c \<in> {Closing False, Closed False} \<longrightarrow> pipeline c = [])"

lemma conn_inv_start: "conn_inv (conn_start inp)" "flush_inv (conn_start inp)"
  by (simp_all add: conn_inv_def flush_inv_def conn_start_def pipeline_limit_def)

lemma process_one_frame_inv:
  assumes "conn_inv c" and "conn_phase c = Reading_frame"
    and "process_one_frame lib logging stack_buf p ag c = (ag', c')"
  shows "conn_inv c'"
  using assms
  by (auto simp: process_one_frame_def conn_inv_def Let_def split: prod.splits option.splits if_splits)

lemma process_one_frame_flush:
  assumes "flush_inv c" and "process_one_frame lib logging stack_buf p ag c = (ag', c')"
  shows "flush_inv c'"
  using assms
  by (cases p) (auto simp: process_one_frame_def flush_inv_def send_calls_def Let_def split: prod.splits option.splits if_splits)

lemma front_done_inv: "conn_inv c \<Longrightarrow> front_done c = Some c' \<Longrightarrow> conn_inv c'"
  by (auto simp: front_done_def conn_inv_def close_output_def split: phase.splits list.splits fut.splits)

lemma front_done_flush: "flush_inv c \<Longrightarrow> front_done c = Some c' \<Longrightarrow> flush_inv c'"
  by (auto simp: front_done_def flush_inv_def close_output_def split: phase.splits list.splits fut.splits)

lemma length_filter_update:
  assumes "i < length xs"
  shows "length (filter P (xs[i := x])) + (if P (xs ! i) then 1 else 0) =
    length (filter P xs) + (if P x then 1 else 0)"
  using assms
proof (induction xs arbitrary: i)
  case (Cons y ys)
  then show ?case by (cases i) auto
qed simp

lemma answer_flush:
  assumes "flush_inv c" "i < length (pipeline c)" "answer_step (pipeline c ! i) calls f"
  shows "flush_inv (c\<lparr>conn_calls := conn_calls c @ calls, pipeline := (pipeline c)[i := f]\<rparr>)"
proof -
  note count = length_filter_update [OF assms(2), of "\<lambda>f. f \<noteq> Flushing \<and> f \<noteq> Done" f]
  show ?thesis using assms(3)
    by cases (use count assms(1) in \<open>simp_all add: flush_inv_def\<close>)
qed

lemma conn_step_inv: "conn_step c c' \<Longrightarrow> conn_inv c \<Longrightarrow> conn_inv c'"
proof (induction rule: conn_step.induct)
  case (front c c')
  from front_done_inv [OF front(2,1)] show ?case .
next
  case (closed c e e')
  then show ?case by (cases e') (simp_all add: conn_inv_def)
qed (simp_all add: conn_inv_def close_output_def)

lemma conn_step_flush: "conn_step c c' \<Longrightarrow> flush_inv c \<Longrightarrow> flush_inv c'"
proof (induction rule: conn_step.induct)
  case (front c c')
  from front_done_flush [OF front(2,1)] show ?case .
next
  case (answer i c calls f)
  then show ?case by (intro answer_flush)
qed (simp_all add: flush_inv_def close_output_def)

section \<open>What every server keeps\<close>

definition server_inv :: "'db server \<Rightarrow> bool" where
  "server_inv s \<longleftrightarrow> gate_count s = length (srv_conns s) \<and>
     (srv_stop s \<in> {Gate_closing, Stopped} \<longrightarrow> \<not> srv_accepting s \<and> gate_closed s) \<and>
     (srv_stop s = Stopped \<longrightarrow> srv_conns s = [])"

definition conns_inv :: "'db server \<Rightarrow> bool" where
  "conns_inv s \<longleftrightarrow> (\<forall>(i, c) \<in> set (srv_conns s). conn_inv c \<and> flush_inv c)"

lemma set_drop_at: "set (take k xs @ drop (Suc k) xs) \<subseteq> set xs"
  using set_take_subset [of k xs] set_drop_subset [of "Suc k" xs] by auto

lemma server_inv_new: "server_inv server_new"
  by (simp add: server_inv_def server_new_def)

lemma server_step_inv: "server_step lib logging s evs s' \<Longrightarrow> server_inv s \<Longrightarrow> server_inv s'"
proof (induction rule: server_step.induct)
  case (finished k s i c e)
  then show ?case by (auto simp: server_inv_def conn_finished_def)
qed (auto simp: server_inv_def accept_turn_def server_stop_def stop_continue_def
    split: option.splits stop_phase.splits if_splits)

lemma conns_inv_update:
  assumes "conns_inv s" "conn_inv c" "flush_inv c" "srv_conns s' = (srv_conns s)[k := (i, c)]"
  shows "conns_inv s'"
  using assms set_update_subset_insert [of "srv_conns s" k "(i, c)"] unfolding conns_inv_def by fastforce

lemma conns_inv_at: "conns_inv s \<Longrightarrow> k < length (srv_conns s) \<Longrightarrow> srv_conns s ! k = (i, c) \<Longrightarrow> conn_inv c \<and> flush_inv c"
  using nth_mem [of k "srv_conns s"] by (auto simp: conns_inv_def)

lemma server_step_conns: "server_step lib logging s evs s' \<Longrightarrow> conns_inv s \<Longrightarrow> conns_inv s'"
proof (induction rule: server_step.induct)
  case (accept s accepted)
  then show ?case by (auto simp: conns_inv_def accept_turn_def conn_inv_start split: option.splits)
next
  case (read k s i c stack_buf p ag c')
  have "conn_inv c" "flush_inv c" using conns_inv_at [OF read(6,1,2)] by simp_all
  then have "conn_inv c'" "flush_inv c'"
    using process_one_frame_inv [OF _ read(3,5)] process_one_frame_flush [OF _ read(5)] by simp_all
  then show ?case by (intro conns_inv_update [OF read(6), of c' _ k i]) simp_all
next
  case (conn k s i c c')
  have "conn_inv c" "flush_inv c" using conns_inv_at [OF conn(4,1,2)] by simp_all
  then have "conn_inv c'" "flush_inv c'"
    using conn_step_inv [OF conn(3)] conn_step_flush [OF conn(3)] by simp_all
  then show ?case by (intro conns_inv_update [OF conn(4), of c' _ k i]) simp_all
next
  case (finished k s i c e)
  then show ?case using set_drop_at [of k "srv_conns s"] by (auto simp: conns_inv_def conn_finished_def)
qed (auto simp: conns_inv_def server_stop_def stop_continue_def split: stop_phase.splits if_splits)

lemma server_start_fields [simp]:
  "srv_agent (server_start server_new cats db) = set_mmdb (load_drop_categories agent_new cats) db"
  "srv_conns (server_start server_new cats db) = []" "srv_accepted (server_start server_new cats db) = 0"
  "srv_stop (server_start server_new cats db) = Running" "srv_accepting (server_start server_new cats db)"
  "\<not> gate_closed (server_start server_new cats db)" "gate_count (server_start server_new cats db) = 0"
  by (simp_all add: server_start_def start_listening_def server_new_def Let_def)

lemma server_run_inv:
  "server_run lib logging (server_start server_new cats db) tr s \<Longrightarrow> server_inv s \<and> conns_inv s"
proof (induction rule: server_run.induct)
  case start
  show ?case by (simp add: server_inv_def conns_inv_def)
qed (auto intro: server_step_inv server_step_conns)

section \<open>The shared agent serves a sequence\<close>





















section \<open>Properties\<close>


text \<open>C29: the pipeline of a connection never holds more than 128 responses, a frame is only read
  while there are fewer, and a connection that closes without an error has none left, in every run
  of the shard.\<close>

theorem pipeline_bounded:
  assumes "server_run lib logging (server_start server_new cats db) tr s" and "(i, c) \<in> set (srv_conns s)"
  shows "length (pipeline c) \<le> 128 \<and> (conn_phase c = Reading_frame \<longrightarrow> length (pipeline c) < 128) \<and>
    (conn_phase c = Closed False \<longrightarrow> pipeline c = [])"
  using server_run_inv [OF assms(1)] assms(2) by (auto simp: conns_inv_def conn_inv_def pipeline_limit_def)

text \<open>a truncated stream never reaches the agent: when fewer bytes than a length prefix, an empty
  frame or fewer bytes than the announced length are left, the connection stops reading, writes
  nothing and keeps the agent.\<close>

theorem truncated_frame_stops:
  assumes "length (conn_in c) < 4 \<or> read_be (take 4 (conn_in c)) = 0 \<or>
    length (conn_in c) < 4 + read_be (take 4 (conn_in c))"
  shows "\<exists>rest. process_one_frame lib logging stack_buf p ag c = (ag, c\<lparr>conn_in := rest, conn_phase := Draining False\<rparr>)"
  using assms
  by (auto simp: process_one_frame_def next_frame_def read_exactly_def kFrameLengthSize_def Let_def)

theorem truncated_frame_stops_witness:
  "\<exists>rest. process_one_frame example_lib False (replicate 64 0) Flushed example_agent (conn_start [0, 0, 0, 5, 1]) =
     (example_agent, (conn_start [0, 0, 0, 5, 1])\<lparr>conn_in := rest, conn_phase := Draining False\<rparr>)"
  by (rule truncated_frame_stops) (simp add: conn_start_def read_be_def)

text \<open>C31: the request to stop is lost when the answer has not finished: a frame that the agent answers
  with a disconnect and a stop leaves the connection reading further frames if the answer's write or
  its flush is still pending; only an answer that completes at once ends the loop.\<close>

theorem pending_stop_is_dropped:
  assumes "frame_ok frame" and "conn_in c = encode_frame frame @ rest" and "length (pipeline c) < 127"
    and "handle_frame lib logging stack_buf ag (frame_type_of (hd frame)) (tl frame) = (ag', r)"
    and "stop_iteration r" and "written_bytes r \<noteq> []"
  shows "conn_phase (snd (process_one_frame lib logging stack_buf Write_pending ag c)) = Reading_frame \<and>
    conn_phase (snd (process_one_frame lib logging stack_buf Flush_pending ag c)) = Reading_frame \<and>
    conn_phase (snd (process_one_frame lib logging stack_buf Flushed ag c)) = Draining False"
  using assms(3-6) by (simp add: process_one_frame_def assms(2) next_frame_encode [OF assms(1)] pipeline_limit_def)

theorem pending_stop_is_dropped_witness:
  "\<exists>frame. conn_phase (snd (process_one_frame example_lib False (replicate 64 0) Write_pending example_agent
     (conn_start (encode_frame frame @ [])))) = Reading_frame"
proof -
  let ?frame = "3 # frame_payload 7 8 (concat (map message_bytes [example_message Null]))"
  let ?c = "conn_start (encode_frame ?frame @ [])"
  obtain ag r where h: "handle_frame example_lib False (replicate 64 0) example_agent Notify
      (frame_payload 7 8 (concat (map message_bytes [example_message Null]))) = (ag, r)"
    by fastforce
  have "r = \<lparr>written_bytes = not_implemented_frame, stop_iteration = True\<rparr>"
    by (rule unsupported_run [OF _ example_agent_inv _ _ _ _ h,
        of "example_message Null" "\<lparr>arg_name = ''ip'', arg_value = Null\<rparr>"]) simp_all
  moreover have "frame_ok ?frame"
    by (simp add: frame_ok_def frame_payload_def kFlagsFin_def peers_bytes_def message_bytes_def
        lp_bytes_def field_bytes_def typed_bytes_def)
  ultimately show ?thesis
    using pending_stop_is_dropped [of ?frame ?c "[]" example_lib False "replicate 64 0" example_agent ag r] h
    by (intro exI [of _ ?frame])
      (simp add: conn_start_def frame_type_of_def frame_bytes_def Let_def frame_body_def)
qed

text \<open>a failed response is waited on twice: when the pipeline is full and the oldest response fails, the
  draining loop is left waiting on a future that was used up.\<close>

lemma failed_front_waits_twice:
  assumes "conn_phase c = Awaiting_front" and "pipeline c = Failed # fs"
  shows "\<exists>c'. conn_step\<^sup>*\<^sup>* c c' \<and> conn_phase c' = Stuck \<and> pipeline c' = Consumed # fs"
proof -
  have "conn_step c (c\<lparr>pipeline := Consumed # fs, conn_phase := Draining True\<rparr>)"
    by (rule conn_step.front) (simp add: front_done_def assms)
  moreover have "conn_step (c\<lparr>pipeline := Consumed # fs, conn_phase := Draining True\<rparr>)
      (c\<lparr>pipeline := Consumed # fs, conn_phase := Stuck\<rparr>)"
    by (rule conn_step.front) (simp add: front_done_def)
  ultimately show ?thesis
    by (intro exI [of _ "c\<lparr>pipeline := Consumed # fs, conn_phase := Stuck\<rparr>"]) (simp add: rtranclp.rtrancl_into_rtrancl)
qed

text \<open>C30: shutting down is clean: whatever the connections do and however accepts and the stop interleave
  with it, the gate counts the open connections; once the gate is closed nothing is accepted any more;
  and once \<open>stop\<close> has finished no connection is left.\<close>

theorem stopped_server_is_idle:
  assumes "server_run lib logging (server_start server_new cats db) tr s"
  shows "gate_count s = length (srv_conns s) \<and>
    (srv_stop s \<in> {Gate_closing, Stopped} \<longrightarrow> \<not> srv_accepting s \<and> gate_closed s) \<and>
    (srv_stop s = Stopped \<longrightarrow> \<not> srv_accepting s \<and> srv_conns s = [])"
  using server_run_inv [OF assms] by (auto simp: server_inv_def)

section \<open>Two runs\<close>

text \<open>A NOTIFY frame without messages, and its answer.\<close>

definition ping :: "u64 \<Rightarrow> u64 \<Rightarrow> bytes" where
  "ping sid fid = 3 # frame_payload sid fid []"

lemma ping_ok: "frame_ok (ping sid fid)"
  using varint_bytes_bound [of sid] varint_bytes_bound [of fid]
  by (simp add: frame_ok_def ping_def frame_payload_def kFlagsFin_def max_encoded_size_def)

lemma handle_ping:
  assumes "length stack_buf = 64"
  shows "handle_frame lib logging stack_buf ag (frame_type_of (hd (ping sid fid))) (tl (ping sid fid)) =
    (ag, \<lparr>written_bytes = ack_bytes sid fid [ip_bad_var False], stop_iteration = False\<rparr>)"
  using handle_frame_notify [OF parse_notify_payload [of "[]" sid fid] assms, of lib logging ag False False ag]
  by (simp add: ping_def frame_type_of_def)

lemma ping_step:
  assumes "conn_in c = encode_frame (ping sid fid) @ rest" "length (pipeline c) < 127" "length stack_buf = 64"
  shows "process_one_frame lib logging stack_buf p ag c =
    (ag, c\<lparr>conn_in := rest, conn_calls := conn_calls c @ send_calls (ack_bytes sid fid [ip_bad_var False]) p,
       pipeline := pipeline c @ [progress_future p], conn_phase := Reading_frame\<rparr>)"
proof -
  have "ack_bytes sid fid [ip_bad_var False] \<noteq> []" by (simp add: frame_bytes_def frame_body_def Let_def)
  then show ?thesis
    using assms(2) handle_ping [OF assms(3), of lib logging ag sid fid]
    by (simp add: process_one_frame_def assms(1) next_frame_encode [OF ping_ok] pipeline_limit_def)
qed

text \<open>Two connections on one shard: both send frames, and the first one's second answer is written while
  the first is still pending; in between the watcher fails to load a new database.\<close>

definition example_trace :: "unit event list" where
  "example_trace =
     [Accepted 0 (encode_frame (ping 7 8) @ encode_frame (ping 7 9)), Accepted 1 (encode_frame (ping 1 1)),
      Handled 0 (ping 7 8), Handled 1 (ping 1 1), Reloaded (Inl (Error ''gone'')), Handled 0 (ping 7 9)]"

definition example_conn0 :: conn where
  "example_conn0 =
     \<lparr>conn_in = [], conn_calls = [Write_call (ack_bytes 7 8 [ip_bad_var False]), Write_call (ack_bytes 7 9 [ip_bad_var False])],
      pipeline = [Writing, Writing], conn_phase = Reading_frame\<rparr>"

lemma example_run:
  "\<exists>s. server_run example_lib False (server_start server_new cats db) example_trace s \<and>
     (0, example_conn0) \<in> set (srv_conns s)"
proof -
  let ?step = "server_step example_lib False :: unit server \<Rightarrow> unit event list \<Rightarrow> unit server \<Rightarrow> bool"
  let ?in0 = "encode_frame (ping 7 8) @ encode_frame (ping 7 9)" and ?in1 = "encode_frame (ping 1 1)"
  let ?ack = "\<lambda>sid fid. ack_bytes sid fid [ip_bad_var False]"
  define s0 where "s0 = server_start server_new cats db"
  define s1 where "s1 = accept_turn s0 (Some ?in0)"
  define s2 where "s2 = accept_turn s1 (Some ?in1)"
  have [simp]: "srv_conns s0 = []" "srv_accepting s0" "\<not> gate_closed s0" "srv_accepted s0 = 0" by (simp_all add: s0_def)
  have [simp]: "srv_conns s1 = [(0, conn_start ?in0)]" "srv_accepting s1" "\<not> gate_closed s1" "srv_accepted s1 = 1"
    by (simp_all add: s1_def accept_turn_def)
  have c2 [simp]: "srv_conns s2 = [(1, conn_start ?in1), (0, conn_start ?in0)]" by (simp add: s2_def accept_turn_def)
  define d0 where "d0 = \<lparr>conn_in = encode_frame (ping 7 9), conn_calls = [Write_call (?ack 7 8)],
      pipeline = [Writing], conn_phase = Reading_frame\<rparr>"
  define d1 where "d1 = \<lparr>conn_in = [], conn_calls = [Write_call (?ack 1 1), Flush_call], pipeline = [Flushing],
      conn_phase = Reading_frame\<rparr>"
  define s3 where "s3 = s2\<lparr>srv_conns := [(1, conn_start ?in1), (0, d0)]\<rparr>"
  define s4 where "s4 = s3\<lparr>srv_conns := [(1, d1), (0, d0)]\<rparr>"
  define s5 where "s5 = s4\<lparr>srv_agent := agent_reload (Inl (Error ''gone'')) (srv_agent s4)\<rparr>"
  define s6 where "s6 = s5\<lparr>srv_conns := [(1, d1), (0, example_conn0)]\<rparr>"
  note frames = read_events_def next_frame_encode [OF ping_ok, of _ _ "[]", simplified] next_frame_encode [OF ping_ok]
  have r1: "server_run example_lib False s0 ([] @ accept_events s0 (Some ?in0)) s1" unfolding s1_def
    by (rule server_run.more [OF server_run.start]) (rule server_step.accept, simp)
  have r2: "server_run example_lib False s0 (([] @ accept_events s0 (Some ?in0)) @ accept_events s1 (Some ?in1)) s2"
    unfolding s2_def by (rule server_run.more [OF r1]) (rule server_step.accept, simp)
  have p: "process_one_frame example_lib False (replicate 64 0) Write_pending ag (conn_start ?in0) = (ag, d0)"
    "process_one_frame example_lib False (replicate 64 0) Flush_pending ag (conn_start ?in1) = (ag, d1)"
    "process_one_frame example_lib False (replicate 64 0) Write_pending ag d0 = (ag, example_conn0)" for ag
    using ping_step [of "conn_start ?in0" 7 8 "encode_frame (ping 7 9)" "replicate 64 0" example_lib False Write_pending ag]
      ping_step [of "conn_start ?in1" 1 1 "[]" "replicate 64 0" example_lib False Flush_pending ag]
      ping_step [of d0 7 9 "[]" "replicate 64 0" example_lib False Write_pending ag]
    by (simp_all add: conn_start_def d0_def d1_def example_conn0_def send_calls_def)
  have "?step s2 (read_events 0 (conn_start ?in0)) (s2\<lparr>srv_agent := srv_agent s2, srv_conns := (srv_conns s2)[1 := (0, d0)]\<rparr>)"
    by (rule server_step.read [where k = 1, OF _ _ _ _ p(1)]) (simp_all add: conn_start_def)
  then have s23: "?step s2 (read_events 0 (conn_start ?in0)) s3" by (simp add: s3_def)
  have "?step s3 (read_events 1 (conn_start ?in1)) (s3\<lparr>srv_agent := srv_agent s3, srv_conns := (srv_conns s3)[0 := (1, d1)]\<rparr>)"
    by (rule server_step.read [where k = 0, OF _ _ _ _ p(2)]) (simp_all add: conn_start_def s3_def)
  then have s34: "?step s3 (read_events 1 (conn_start ?in1)) s4" by (simp add: s4_def s3_def)
  have s45: "?step s4 [Reloaded (Inl (Error ''gone''))] s5" unfolding s5_def by (rule server_step.reload)
  have "?step s5 (read_events 0 d0) (s5\<lparr>srv_agent := srv_agent s5, srv_conns := (srv_conns s5)[1 := (0, example_conn0)]\<rparr>)"
    by (rule server_step.read [where k = 1, OF _ _ _ _ p(3)]) (simp_all add: s5_def s4_def d0_def)
  then have s56: "?step s5 (read_events 0 d0) s6" by (simp add: s6_def s5_def s4_def)
  note run = server_run.more [OF server_run.more [OF server_run.more [OF server_run.more [OF r2 s23] s34] s45] s56]
  then have "server_run example_lib False s0 example_trace s6"
    by (simp add: example_trace_def accept_events_def frames conn_start_def d0_def)
  then show ?thesis unfolding s0_def by (intro exI [of _ s6]) (simp add: s6_def)
qed


theorem pipeline_bounded_witness:
  "\<exists>s. server_run example_lib False (server_start server_new ''abuse'' None) example_trace s \<and>
     (0, example_conn0) \<in> set (srv_conns s) \<and> length (pipeline example_conn0) < 128"
proof -
  obtain s where s: "server_run example_lib False (server_start server_new ''abuse'' None) example_trace s"
    "(0, example_conn0) \<in> set (srv_conns s)"
    using example_run by blast
  from pipeline_bounded [OF s] show ?thesis using s by (intro exI [of _ s]) (simp add: example_conn0_def)
qed

text \<open>A shard that accepts a connection, serves it until the peer closes, and is stopped.\<close>

lemma example_stop:
  "\<exists>s :: unit server. server_run example_lib False (server_start server_new cats db) [Accepted 0 []] s \<and> srv_stop s = Stopped"
proof -
  let ?run = "server_run example_lib False (server_start server_new cats db) :: unit event list \<Rightarrow> unit server \<Rightarrow> bool"
  let ?s0 = "server_start server_new cats db"
  have [simp]: "srv_listening ?s0" by (simp add: server_start_def start_listening_def)
  define s1 where "s1 = accept_turn ?s0 (Some [])"
  define c where "c = \<lparr>conn_in = [], conn_calls = [], pipeline = [], conn_phase = Draining False\<rparr>"
  define s2 where "s2 = s1\<lparr>srv_conns := [(0, c)]\<rparr>"
  define s3 where "s3 = s2\<lparr>srv_conns := [(0, close_output False c)]\<rparr>"
  define s4 where "s4 = s3\<lparr>srv_conns := [(0, (close_output False c)\<lparr>conn_phase := Closed False\<rparr>)]\<rparr>"
  define s5 where "s5 = conn_finished s4 0"
  define s6 where "s6 = accept_turn (server_stop s5) None"
  have c1: "srv_conns s1 = [(0, conn_start [])]" by (simp add: s1_def accept_turn_def)
  have f: "gate_count s5 = 0" "srv_accepting s5" "srv_stop s5 = Running" "\<not> srv_accepting s6" "srv_stop s6 = Stopping"
    "gate_count s6 = 0" "srv_accepting (server_stop s5)"
    by (simp_all add: s6_def s5_def s4_def s3_def s2_def s1_def accept_turn_def conn_finished_def server_stop_def)
  have "?run ([] @ accept_events ?s0 (Some [])) s1" unfolding s1_def
    by (rule server_run.more [OF server_run.start]) (rule server_step.accept, simp)
  moreover have "accept_events ?s0 (Some []) = [Accepted 0 []]" by (simp add: accept_events_def)
  ultimately have r1: "?run [Accepted 0 []] s1" by simp
  have p: "process_one_frame example_lib False (replicate 64 0) Flushed (srv_agent s1) (conn_start []) = (srv_agent s1, c)"
    by (simp add: process_one_frame_def next_frame_def read_exactly_def kFrameLengthSize_def conn_start_def c_def)
  have e: "read_events 0 (conn_start []) = []"
    by (simp add: read_events_def next_frame_def read_exactly_def kFrameLengthSize_def conn_start_def)
  have "server_step example_lib False s1 (read_events 0 (conn_start []))
      (s1\<lparr>srv_agent := srv_agent s1, srv_conns := (srv_conns s1)[0 := (0, c)]\<rparr>)"
    by (rule server_step.read [where k = 0, OF _ _ _ _ p]) (simp_all add: c1 conn_start_def)
  then have "server_step example_lib False s1 [] s2" by (simp add: s2_def c1 e)
  note r2 = server_run.more [OF r1 this]
  have "conn_step c (close_output False c)" by (rule conn_step.front) (simp add: front_done_def c_def)
  then have "server_step example_lib False s2 [] (s2\<lparr>srv_conns := (srv_conns s2)[0 := (0, close_output False c)]\<rparr>)"
    by (intro server_step.conn [where c = c]) (simp_all add: s2_def)
  then have "server_step example_lib False s2 [] s3" by (simp add: s3_def s2_def)
  note r3 = server_run.more [OF r2 this]
  have "conn_step (close_output False c) ((close_output False c)\<lparr>conn_phase := Closed False\<rparr>)"
    by (rule conn_step.closed [where e = False]) (simp_all add: close_output_def)
  then have "server_step example_lib False s3 []
      (s3\<lparr>srv_conns := (srv_conns s3)[0 := (0, (close_output False c)\<lparr>conn_phase := Closed False\<rparr>)]\<rparr>)"
    by (intro server_step.conn [where c = "close_output False c"]) (simp_all add: s3_def)
  then have "server_step example_lib False s3 [] s4" by (simp add: s4_def s3_def)
  note r4 = server_run.more [OF r3 this]
  have "server_step example_lib False s4 [] s5" unfolding s5_def
    by (rule server_step.finished [where i = 0 and e = False and c = "(close_output False c)\<lparr>conn_phase := Closed False\<rparr>"])
      (simp_all add: s4_def close_output_def)
  note r5 = server_run.more [OF r4 this]
  note r6 = server_run.more [OF r5 server_step.stop [OF f(3)]]
  have "server_step example_lib False (server_stop s5) [] s6"
    using server_step.accept [OF f(7), of example_lib False None] by (simp add: s6_def accept_events_def)
  note r7 = server_run.more [OF r6 this]
  have "server_step example_lib False s6 [] (s6\<lparr>gate_closed := True, srv_stop := Gate_closing\<rparr>)"
    by (rule server_step.continue) (simp add: stop_continue_def f)
  note r8 = server_run.more [OF r7 this]
  have "server_step example_lib False (s6\<lparr>gate_closed := True, srv_stop := Gate_closing\<rparr>) [] (s6\<lparr>gate_closed := True, srv_stop := Stopped\<rparr>)"
    by (rule server_step.continue) (simp add: stop_continue_def f)
  from server_run.more [OF r8 this] show ?thesis
    by (intro exI [of _ "s6\<lparr>gate_closed := True, srv_stop := Stopped\<rparr>"]) simp
qed

theorem stopped_server_is_idle_witness:
  "\<exists>s :: unit server. server_run example_lib False (server_start server_new ''abuse'' None) [Accepted 0 []] s \<and>
     srv_stop s = Stopped \<and> \<not> srv_accepting s \<and> srv_conns s = []"
proof -
  obtain s :: "unit server" where s: "server_run example_lib False (server_start server_new ''abuse'' None) [Accepted 0 []] s"
    "srv_stop s = Stopped"
    using example_stop by blast
  from stopped_server_is_idle [OF s(1)] s show ?thesis by blast
qed

end
