(* ===== verification/Cron_Parse.thy ===== *)
theory Cron_Parse
  imports Utils
begin

text \<open>
  The crontab expressions of \<open>src/job_scheduler/croncpp.h\<close>: the traits that describe the three
  dialects, the fields of a \<open>cronexpr\<close> as bitsets, and \<open>make_cron\<close> with the helpers it calls. The
  templates over a traits type take the traits as a record, the templates over the number type
  take the type as a \<open>cron_type\<close>: the eight-bit \<open>cron_int\<close> wraps in the loop that steps through a
  field, the \<open>int\<close> of the year field overflows there.
\<close>

section \<open>Errors and number types\<close>

text \<open>The exceptions of the parser and of \<open>std::bitset\<close>, and the signed overflow that has no meaning.\<close>

datatype cron_error = bad_cronexpr string | bitset_out_of_range | signed_overflow | toupper_undefined

datatype cron_type = CronInt | Int32

fun type_max :: "cron_type \<Rightarrow> int" where
  "type_max CronInt = 255"
| "type_max Int32 = 2147483647"

definition ULONG_MAX :: int where
  "ULONG_MAX = 18446744073709551615"

text \<open>\<open>i += delta\<close> at the type of the field.\<close>

fun advance :: "cron_type \<Rightarrow> nat \<Rightarrow> nat \<Rightarrow> cron_error + nat" where
  "advance CronInt i delta = Inr ((i + delta) mod 256)"
| "advance Int32 i delta = (if int i + int delta > 2147483647 then Inl signed_overflow else Inr (i + delta))"

text \<open>\<open>std::bitset::set\<close>.\<close>

definition bit_put :: "bool list \<Rightarrow> nat \<Rightarrow> cron_error + bool list" where
  "bit_put target i = (if i < length target then Inr (target[i := True]) else Inl bitset_out_of_range)"

definition bit_test :: "bool list \<Rightarrow> nat \<Rightarrow> bool" where
  "bit_test target i \<longleftrightarrow> i < length target \<and> target ! i"

definition bit_none :: "bool list \<Rightarrow> bool" where
  "bit_none target \<longleftrightarrow> (\<forall>b \<in> set target. \<not> b)"

definition bit_all :: "bool list \<Rightarrow> bool" where
  "bit_all target \<longleftrightarrow> (\<forall>b \<in> set target. b)"

definition bit_count :: "bool list \<Rightarrow> nat" where
  "bit_count target = length (filter (\<lambda>b. b) target)"

section \<open>Traits\<close>

datatype day_field_rule = intersect | either | reject

definition CRON_YEAR_BASE :: nat where "CRON_YEAR_BASE = 1970"
definition CRON_YEAR_COUNT :: nat where "CRON_YEAR_COUNT = 130"

text \<open>\<open>CRON_YEARS\<close> is the range of a traits type that declares one (\<open>supports_years\<close>).\<close>

record cron_traits =
  CRON_MIN_SECONDS :: nat
  CRON_MAX_SECONDS :: nat
  CRON_MIN_MINUTES :: nat
  CRON_MAX_MINUTES :: nat
  CRON_MIN_HOURS :: nat
  CRON_MAX_HOURS :: nat
  CRON_MIN_DAYS_OF_WEEK :: nat
  CRON_MAX_DAYS_OF_WEEK :: nat
  CRON_MIN_DAYS_OF_MONTH :: nat
  CRON_MAX_DAYS_OF_MONTH :: nat
  CRON_MIN_MONTHS :: nat
  CRON_MAX_MONTHS :: nat
  CRON_MAX_YEARS_DIFF :: nat
  CRON_DAY_FIELD_RULE :: day_field_rule
  CRON_YEARS :: "(nat \<times> nat) option"
  DAYS :: "string list"
  MONTHS :: "string list"

definition day_names :: "string list" where
  "day_names = [''SUN'', ''MON'', ''TUE'', ''WED'', ''THU'', ''FRI'', ''SAT'']"

definition month_names :: "string list" where
  "month_names = [''JAN'', ''FEB'', ''MAR'', ''APR'', ''MAY'', ''JUN'', ''JUL'', ''AUG'', ''SEP'', ''OCT'',
     ''NOV'', ''DEC'']"

definition cron_standard_traits :: cron_traits where
  "cron_standard_traits =
     \<lparr>CRON_MIN_SECONDS = 0, CRON_MAX_SECONDS = 59, CRON_MIN_MINUTES = 0, CRON_MAX_MINUTES = 59,
      CRON_MIN_HOURS = 0, CRON_MAX_HOURS = 23, CRON_MIN_DAYS_OF_WEEK = 0, CRON_MAX_DAYS_OF_WEEK = 6,
      CRON_MIN_DAYS_OF_MONTH = 1, CRON_MAX_DAYS_OF_MONTH = 31, CRON_MIN_MONTHS = 1,
      CRON_MAX_MONTHS = 12, CRON_MAX_YEARS_DIFF = 4, CRON_DAY_FIELD_RULE = either,
      CRON_YEARS = Some (1970, 2099), DAYS = day_names, MONTHS = ''NIL'' # month_names\<rparr>"

definition cron_oracle_traits :: cron_traits where
  "cron_oracle_traits =
     \<lparr>CRON_MIN_SECONDS = 0, CRON_MAX_SECONDS = 59, CRON_MIN_MINUTES = 0, CRON_MAX_MINUTES = 59,
      CRON_MIN_HOURS = 0, CRON_MAX_HOURS = 23, CRON_MIN_DAYS_OF_WEEK = 1, CRON_MAX_DAYS_OF_WEEK = 7,
      CRON_MIN_DAYS_OF_MONTH = 1, CRON_MAX_DAYS_OF_MONTH = 31, CRON_MIN_MONTHS = 0,
      CRON_MAX_MONTHS = 11, CRON_MAX_YEARS_DIFF = 4, CRON_DAY_FIELD_RULE = reject,
      CRON_YEARS = Some (1970, 2099), DAYS = ''NIL'' # day_names, MONTHS = month_names\<rparr>"

definition cron_quartz_traits :: cron_traits where
  "cron_quartz_traits =
     \<lparr>CRON_MIN_SECONDS = 0, CRON_MAX_SECONDS = 59, CRON_MIN_MINUTES = 0, CRON_MAX_MINUTES = 59,
      CRON_MIN_HOURS = 0, CRON_MAX_HOURS = 23, CRON_MIN_DAYS_OF_WEEK = 1, CRON_MAX_DAYS_OF_WEEK = 7,
      CRON_MIN_DAYS_OF_MONTH = 1, CRON_MAX_DAYS_OF_MONTH = 31, CRON_MIN_MONTHS = 1,
      CRON_MAX_MONTHS = 12, CRON_MAX_YEARS_DIFF = 4, CRON_DAY_FIELD_RULE = reject,
      CRON_YEARS = Some (1970, 2099), DAYS = ''NIL'' # day_names, MONTHS = ''NIL'' # month_names\<rparr>"

section \<open>Expressions\<close>

record day_of_month_options =
  dom_last :: bool
  dom_nearest_weekday :: bool
  dom_day :: nat
  dom_restricted :: bool

record day_of_week_options =
  dow_nth :: nat
  dow_last :: bool
  dow_restricted :: bool

record cronexpr =
  seconds :: "bool list"
  minutes :: "bool list"
  hours :: "bool list"
  days_of_week :: "bool list"
  days_of_month :: "bool list"
  months :: "bool list"
  years :: "bool list"
  expr :: string
  dom_options :: day_of_month_options
  dow_options :: day_of_week_options

text \<open>A default-constructed \<open>cronexpr\<close>.\<close>

definition no_bits :: "nat \<Rightarrow> bool list" where
  "no_bits n = replicate n False"

definition default_cronexpr :: cronexpr where
  "default_cronexpr =
     \<lparr>seconds = no_bits 60, minutes = no_bits 60, hours = no_bits 24, days_of_week = no_bits 7,
      days_of_month = no_bits 31, months = no_bits 12, years = no_bits CRON_YEAR_COUNT, expr = [],
      dom_options = \<lparr>dom_last = False, dom_nearest_weekday = False, dom_day = 0, dom_restricted = False\<rparr>,
      dow_options = \<lparr>dow_nth = 0, dow_last = False, dow_restricted = False\<rparr>\<rparr>"

definition cron_empty :: "cronexpr \<Rightarrow> bool" where
  "cron_empty c =
     (let no_day_of_month = bit_none (days_of_month c) \<and> \<not> dom_last (dom_options c) \<and>
            \<not> dom_nearest_weekday (dom_options c)
      in bit_none (seconds c) \<or> bit_none (minutes c) \<or> bit_none (hours c) \<or> bit_none (days_of_week c) \<or>
         no_day_of_month \<or> bit_none (months c) \<or> bit_none (years c))"

text \<open>\<open>operator==\<close> compares everything but the text.\<close>

definition cron_equal :: "cronexpr \<Rightarrow> cronexpr \<Rightarrow> bool" where
  "cron_equal e1 e2 \<longleftrightarrow>
     seconds e1 = seconds e2 \<and> minutes e1 = minutes e2 \<and> hours e1 = hours e2 \<and>
     days_of_week e1 = days_of_week e2 \<and> days_of_month e1 = days_of_month e2 \<and>
     months e1 = months e2 \<and> years e1 = years e2 \<and>
     dom_last (dom_options e1) = dom_last (dom_options e2) \<and>
     dom_nearest_weekday (dom_options e1) = dom_nearest_weekday (dom_options e2) \<and>
     dom_day (dom_options e1) = dom_day (dom_options e2) \<and>
     dom_restricted (dom_options e1) = dom_restricted (dom_options e2) \<and>
     dow_nth (dow_options e1) = dow_nth (dow_options e2) \<and>
     dow_last (dow_options e1) = dow_last (dow_options e2) \<and>
     dow_restricted (dow_options e1) = dow_restricted (dow_options e2)"

definition cron_not_equal :: "cronexpr \<Rightarrow> cronexpr \<Rightarrow> bool" where
  "cron_not_equal e1 e2 \<longleftrightarrow> \<not> cron_equal e1 e2"

text \<open>\<open>std::bitset::to_string\<close> prints the highest bit first.\<close>

definition bitset_to_string :: "bool list \<Rightarrow> string" where
  "bitset_to_string bs = map (\<lambda>b. if b then CHR ''1'' else CHR ''0'') (rev bs)"

definition cron_to_string :: "cronexpr \<Rightarrow> string" where
  "cron_to_string c =
     bitset_to_string (seconds c) @ '' '' @ bitset_to_string (minutes c) @ '' '' @ bitset_to_string (hours c) @ '' '' @
     bitset_to_string (days_of_month c) @ '' '' @ bitset_to_string (months c) @ '' '' @ bitset_to_string (days_of_week c)"

definition to_cronstr :: "cronexpr \<Rightarrow> string" where
  "to_cronstr c = expr c"

section \<open>Text helpers\<close>

definition toupper :: "char \<Rightarrow> char" where
  "toupper c = (if 97 \<le> (of_char c :: nat) \<and> (of_char c :: nat) \<le> 122
     then char_of ((of_char c :: nat) - 32) else c)"

text \<open>\<open>std::toupper\<close> takes an \<open>int\<close> that has to be \<open>EOF\<close> or the value of an \<open>unsigned char\<close>; the code
  passes a \<open>char\<close>. Where that type is signed, a byte from \<open>0x80\<close> is negative, and only \<open>0xFF\<close> is
  \<open>EOF\<close>: for the others the call has no defined behaviour. The locale is the one a program starts
  in, \<open>C\<close>.\<close>

definition negative_char :: "char \<Rightarrow> bool" where
  "negative_char c \<longleftrightarrow> 128 \<le> (of_char c :: nat) \<and> (of_char c :: nat) \<noteq> 255"

definition to_upper :: "string \<Rightarrow> cron_error + string" where
  "to_upper s = (if \<exists>c \<in> set s. negative_char c then Inl toupper_undefined else Inr (map toupper s))"

text \<open>\<open>std::getline\<close> until the stream is exhausted: a trailing delimiter opens no further token.\<close>

function getline_tokens :: "string \<Rightarrow> char \<Rightarrow> string list" where
  "getline_tokens [] d = []"
| "getline_tokens (c # cs) d =
     (if c = d then [] # getline_tokens cs d
      else (c # takeWhile (\<lambda>c. c \<noteq> d) cs) # getline_tokens (tl (dropWhile (\<lambda>c. c \<noteq> d) cs)) d)"
  by pat_completeness auto
termination
proof (relation "measure (length o fst)")
  fix c d :: char and cs :: string
  have "length (tl (dropWhile (\<lambda>c. c \<noteq> d) cs)) < length (c # cs)"
    using length_dropWhile_le [of "\<lambda>c. c \<noteq> d" cs] by simp
  then show "((tl (dropWhile (\<lambda>c. c \<noteq> d) cs), d), c # cs, d) \<in> measure (length o fst)" by simp
qed simp_all

text \<open>The stream is built from \<open>text.data()\<close>, a C string.\<close>

definition split :: "string \<Rightarrow> char \<Rightarrow> string list" where
  "split s d = getline_tokens (c_string s) d"

definition contains :: "string \<Rightarrow> char \<Rightarrow> bool" where
  "contains s c \<longleftrightarrow> c \<in> set s"

definition is_leap_year :: "int \<Rightarrow> bool" where
  "is_leap_year year \<longleftrightarrow> (year mod 4 = 0 \<and> year mod 100 \<noteq> 0) \<or> year mod 400 = 0"

text \<open>The month counts from zero, as in \<open>std::tm\<close>; the table is only indexed with \<open>tm_mon\<close>.\<close>

definition days_in_month :: "int \<Rightarrow> int \<Rightarrow> int" where
  "days_in_month year month =
     (if month = 1 \<and> is_leap_year year then 29
      else [31, 28, 31, 30, 31, 30, 31, 31, 30, 31, 30, 31] ! nat month)"

section \<open>Numbers, names and ranges\<close>

definition number_of :: "string \<Rightarrow> int" where
  "number_of s = foldl (\<lambda>n c. n * 10 + int (digit_value c)) 0 s"

definition to_cron_number :: "cron_type \<Rightarrow> string \<Rightarrow> cron_error + nat" where
  "to_cron_number t s =
     (if s = [] then Inl (bad_cronexpr ''Cron field value cannot be empty'')
      else case find (\<lambda>c. \<not> is_digit c) s of
        Some ch \<Rightarrow>
          (if ch = CHR ''L'' \<or> ch = CHR ''W'' \<or> ch = CHR ''#''
           then Inl (bad_cronexpr (''Special character '' @ [CHR 0x27, ch, CHR 0x27] @ '' is not valid in this field''))
           else Inl (bad_cronexpr (''Invalid character in cron field: '' @ s)))
      | None \<Rightarrow>
          (let v = number_of s
           in if v > ULONG_MAX then Inl (bad_cronexpr ''stoul'')
              else if v > type_max t then Inl (bad_cronexpr ''Cron field value is out of range'')
              else Inr (nat v)))"

definition is_field_separator :: "char \<Rightarrow> bool" where
  "is_field_separator ch \<longleftrightarrow> ch = CHR '','' \<or> ch = CHR ''-'' \<or> ch = CHR ''/''"

definition to_cron_int :: "string \<Rightarrow> cron_error + nat" where
  "to_cron_int s = to_cron_number CronInt s"

text \<open>
  One name of \<open>replace_ordinals\<close>: \<open>find\<close> goes through the text from the left and goes on behind the
  number it wrote, or one character further when the name does not stand on its own. \<open>prev\<close> is the
  character before the rest of the text.
\<close>

definition at_start :: "char option \<Rightarrow> bool" where
  "at_start prev = (case prev of None \<Rightarrow> True | Some c \<Rightarrow> is_field_separator c)"

definition at_end :: "string \<Rightarrow> bool" where
  "at_end rest = (case rest of [] \<Rightarrow> True | c # _ \<Rightarrow> is_field_separator c)"

fun replace_name :: "string \<Rightarrow> string \<Rightarrow> char option \<Rightarrow> string \<Rightarrow> string" where
  "replace_name [] v prev s = s"
| "replace_name (n # name) v prev [] = []"
| "replace_name (n # name) v prev (c # cs) =
     (if c = n \<and> take (length name) cs = name \<and> at_start prev \<and> at_end (drop (length name) cs)
      then v @ replace_name (n # name) v (if v = [] then prev else Some (last v)) (drop (length name) cs)
      else c # replace_name (n # name) v (Some c) cs)"

primrec replace_from :: "nat \<Rightarrow> string list \<Rightarrow> string \<Rightarrow> string" where
  "replace_from i [] s = s"
| "replace_from i (name # names) s = replace_from (Suc i) names (replace_name name (to_string i) None s)"

definition replace_ordinals :: "string \<Rightarrow> string list \<Rightarrow> string" where
  "replace_ordinals s replacement = replace_from 0 replacement s"

definition check_range :: "nat \<Rightarrow> nat \<Rightarrow> nat \<times> nat \<Rightarrow> cron_error + nat \<times> nat" where
  "check_range minval maxval r =
     (case r of (first, final) \<Rightarrow>
        if first > maxval \<or> final > maxval then Inl (bad_cronexpr ''Specified range exceeds maximum'')
        else if first < minval \<or> final < minval then Inl (bad_cronexpr ''Specified range is less than minimum'')
        else if first > final then Inl (bad_cronexpr ''Specified range start exceeds range end'')
        else Inr (first, final))"

definition make_range :: "cron_type \<Rightarrow> string \<Rightarrow> nat \<Rightarrow> nat \<Rightarrow> cron_error + nat \<times> nat" where
  "make_range t field minval maxval =
     rbind
       (if field = ''*'' then Inr (minval, maxval)
        else if \<not> contains field (CHR ''-'')
        then rbind (to_cron_number t field) (\<lambda>first. Inr (first, first))
        else
          (let parts = split field (CHR ''-'')
           in if length parts \<noteq> 2 then Inl (bad_cronexpr ''Specified range requires two fields'')
              else rbind (to_cron_number t (parts ! 0)) (\<lambda>first.
                   rbind (to_cron_number t (parts ! 1)) (\<lambda>final. Inr (first, final)))))
       (check_range minval maxval)"

section \<open>Fields\<close>

text \<open>The loop \<open>++i\<close> of a plain range; \<open>last - minval\<close> is below every type's maximum.\<close>

fun set_range :: "nat \<Rightarrow> nat \<Rightarrow> bool list \<Rightarrow> cron_error + bool list" where
  "set_range i 0 target = Inr target"
| "set_range i (Suc n) target = rbind (bit_put target i) (set_range (Suc i) n)"

text \<open>
  The loop \<open>i += delta\<close>. The bitsets of the eight-bit fields have at most 60 bits and the one of the
  years 130; the first test only says that no larger last index exists, which is what makes the
  wrapping loop end.
\<close>

fun index_limit :: "cron_type \<Rightarrow> nat" where
  "index_limit CronInt = 59"
| "index_limit Int32 = 129"

function set_steps :: "cron_type \<Rightarrow> nat \<Rightarrow> nat \<Rightarrow> nat \<Rightarrow> bool list \<Rightarrow> cron_error + bool list" where
  "set_steps t i final delta target =
     (if final > index_limit t \<or> delta = 0 \<or> int delta > type_max t then Inl bitset_out_of_range
      else if i \<le> final
      then rbind (bit_put target i) (\<lambda>target.
           rbind (advance t i delta) (\<lambda>i. set_steps t i final delta target))
      else Inr target)"
  by pat_completeness auto

definition steps_measure :: "cron_type \<times> nat \<times> nat \<times> nat \<times> bool list \<Rightarrow> nat" where
  "steps_measure = (\<lambda>(t, i, final, delta, _).
     if final < i then 0 else if t = CronInt \<and> 128 \<le> delta then Suc i else Suc (final - i))"

lemma advance_measure:
  assumes "final \<le> index_limit t" "delta \<noteq> 0" "int delta \<le> type_max t" "i \<le> final" "advance t i delta = Inr j"
  shows "steps_measure (t, j, final, delta, a) < steps_measure (t, i, final, delta, b)"
proof (cases t)
  case CronInt
  with assms have "final \<le> 59" "delta \<le> 255" and j: "j = (i + delta) mod 256" by simp_all
  consider "delta < 128" | "128 \<le> delta" "i + delta < 256" | "128 \<le> delta" "256 \<le> i + delta" by linarith
  then show ?thesis
  proof cases
    case 3
    then have "j = i + delta - 256" using j \<open>delta \<le> 255\<close> \<open>i \<le> final\<close> \<open>final \<le> 59\<close>
      by (simp add: mod_if)
    then show ?thesis using 3 assms CronInt \<open>delta \<le> 255\<close> by (auto simp: steps_measure_def)
  qed (use assms CronInt j \<open>final \<le> 59\<close> in \<open>auto simp: steps_measure_def\<close>)
next
  case Int32
  with assms show ?thesis by (auto simp: steps_measure_def split: if_splits)
qed

termination set_steps
  by (relation "measure steps_measure") (auto intro: advance_measure)

declare set_steps.simps [simp del]

text \<open>One element of the comma-separated list of a field.\<close>

definition set_element :: "cron_type \<Rightarrow> nat \<Rightarrow> nat \<Rightarrow> string \<Rightarrow> bool list \<Rightarrow> cron_error + bool list" where
  "set_element t minval maxval field target =
     (if \<not> contains field (CHR ''/'') then
        rbind (make_range t field minval maxval) (\<lambda>(first, final).
          set_range (first - minval) (Suc (final - minval) - (first - minval)) target)
      else
        (let parts = split field (CHR ''/'')
         in if length parts \<noteq> 2 then Inl (bad_cronexpr ''Incrementer must have two fields'')
            else rbind (make_range t (parts ! 0) minval maxval) (\<lambda>(first, final).
                   let final = (if \<not> contains (parts ! 0) (CHR ''-'') then maxval else final)
                   in rbind (to_cron_number t (parts ! 1)) (\<lambda>delta.
                      if delta = 0 then Inl (bad_cronexpr ''Incrementer must be a positive value'')
                      else set_steps t (first - minval) (final - minval) delta target))))"

primrec set_elements ::
  "cron_type \<Rightarrow> nat \<Rightarrow> nat \<Rightarrow> string list \<Rightarrow> bool list \<Rightarrow> cron_error + bool list" where
  "set_elements t minval maxval [] target = Inr target"
| "set_elements t minval maxval (field # rest) target =
     rbind (set_element t minval maxval field target) (set_elements t minval maxval rest)"

definition set_cron_field ::
  "cron_type \<Rightarrow> string \<Rightarrow> bool list \<Rightarrow> nat \<Rightarrow> nat \<Rightarrow> cron_error + bool list" where
  "set_cron_field t v target minval maxval =
     (if v \<noteq> [] \<and> last v = CHR '','' then Inl (bad_cronexpr ''Value cannot end with comma'')
      else
        (let fields = split v (CHR '','')
         in if fields = [] then Inl (bad_cronexpr ''Expression parsing error'')
            else set_elements t minval maxval fields target))"

definition has_list_or_range :: "string \<Rightarrow> bool" where
  "has_list_or_range v \<longleftrightarrow> contains v (CHR '','') \<or> contains v (CHR ''-'') \<or> contains v (CHR ''/'')"

text \<open>How both day fields begin: \<open>?\<close> is another way to write \<open>*\<close>.\<close>

definition day_field :: "string \<Rightarrow> cron_error + string" where
  "day_field v = rbind (to_upper v) (\<lambda>days. Inr (if days = ''?'' then ''*'' else days))"

definition single_day_error :: cron_error where
  "single_day_error = bad_cronexpr ''The L and # special characters apply to a single day of week''"

text \<open>The part of the field \<open>set_cron_days_of_week\<close> strips before it reads the days.\<close>

definition day_of_week_qualifier ::
  "cron_traits \<Rightarrow> string \<Rightarrow> day_of_week_options \<Rightarrow> cron_error + string \<times> day_of_week_options" where
  "day_of_week_qualifier tr days opts =
     (if days = ''L'' then Inr (to_string (CRON_MAX_DAYS_OF_WEEK tr), opts)
      else if contains days (CHR ''#'') \<or> (days \<noteq> [] \<and> last days = CHR ''L'') then
        (if has_list_or_range days then Inl single_day_error
         else if last days = CHR ''L'' then Inr (butlast days, opts\<lparr>dow_last := True\<rparr>)
         else
           (let parts = split days (CHR ''#'')
            in if length parts \<noteq> 2 then Inl (bad_cronexpr ''The # special character must have two fields'')
               else rbind (to_cron_int (parts ! 1)) (\<lambda>n.
                      if n < 1 \<or> n > 5
                      then Inl (bad_cronexpr ''The # special character must select the 1st to the 5th weekday'')
                      else Inr (parts ! 0, opts\<lparr>dow_nth := n\<rparr>))))
      else Inr (days, opts))"

definition set_cron_days_of_week ::
  "cron_traits \<Rightarrow> string \<Rightarrow> bool list \<Rightarrow> day_of_week_options \<Rightarrow>
   cron_error + bool list \<times> day_of_week_options" where
  "set_cron_days_of_week tr v target opts =
     rbind (day_field v) (\<lambda>days.
      let opts = opts\<lparr>dow_restricted := days \<noteq> ''*''\<rparr>
      in rbind (day_of_week_qualifier tr days opts) (\<lambda>(days, opts).
         let days_replaced = replace_ordinals days (DAYS tr)
         in rbind (set_cron_field CronInt days_replaced target (CRON_MIN_DAYS_OF_WEEK tr)
                     (CRON_MAX_DAYS_OF_WEEK tr)) (\<lambda>target.
            if (dow_nth opts \<noteq> 0 \<or> dow_last opts) \<and> bit_count target \<noteq> 1 then Inl single_day_error
            else Inr (target, opts))))"

definition set_cron_days_of_month ::
  "cron_traits \<Rightarrow> string \<Rightarrow> bool list \<Rightarrow> day_of_month_options \<Rightarrow>
   cron_error + bool list \<times> day_of_month_options" where
  "set_cron_days_of_month tr v target opts =
     rbind (day_field v) (\<lambda>days.
      let opts = opts\<lparr>dom_restricted := days \<noteq> ''*''\<rparr>
      in if contains days (CHR ''L'') \<or> contains days (CHR ''W'') then
           (if has_list_or_range days
            then Inl (bad_cronexpr ''The L and W special characters apply to a single day of month'')
            else if days = ''L'' then Inr (target, opts\<lparr>dom_last := True\<rparr>)
            else if days = ''LW'' then Inr (target, opts\<lparr>dom_last := True, dom_nearest_weekday := True\<rparr>)
            else if last days \<noteq> CHR ''W'' then Inl (bad_cronexpr (''Invalid character in cron field: '' @ v))
            else rbind (to_cron_int (butlast days)) (\<lambda>day.
                   if day < CRON_MIN_DAYS_OF_MONTH tr \<or> day > CRON_MAX_DAYS_OF_MONTH tr
                   then Inl (bad_cronexpr ''Specified range exceeds maximum'')
                   else Inr (target, opts\<lparr>dom_nearest_weekday := True, dom_day := day\<rparr>)))
         else rbind (set_cron_field CronInt days target (CRON_MIN_DAYS_OF_MONTH tr) (CRON_MAX_DAYS_OF_MONTH tr))
                (\<lambda>target. Inr (target, opts)))"

definition set_cron_month :: "cron_traits \<Rightarrow> string \<Rightarrow> bool list \<Rightarrow> cron_error + bool list" where
  "set_cron_month tr v target =
     rbind (to_upper v) (\<lambda>month.
      let month_replaced = replace_ordinals month (MONTHS tr)
      in set_cron_field CronInt month_replaced target (CRON_MIN_MONTHS tr) (CRON_MAX_MONTHS tr))"

text \<open>\<open>year_field\<close> and its specialisation for traits without years.\<close>

definition year_set_all :: "cron_traits \<Rightarrow> bool list \<Rightarrow> cron_error + bool list" where
  "year_set_all tr target =
     (case CRON_YEARS tr of
        None \<Rightarrow> Inr (replicate (length target) True)
      | Some (lo, hi) \<Rightarrow> set_range (lo - CRON_YEAR_BASE) (Suc hi - lo) target)"

definition year_set :: "cron_traits \<Rightarrow> string \<Rightarrow> bool list \<Rightarrow> cron_error + bool list" where
  "year_set tr v target =
     (case CRON_YEARS tr of
        None \<Rightarrow> Inl (bad_cronexpr ''These traits do not support a year field'')
      | Some (lo, hi) \<Rightarrow>
          if v = ''*'' then year_set_all tr target
          else rbind (set_cron_field Int32 v target CRON_YEAR_BASE (CRON_YEAR_BASE + CRON_YEAR_COUNT - 1))
            (\<lambda>target.
               if \<exists>i \<in> set [0..<length target]. target ! i \<and> (i + CRON_YEAR_BASE < lo \<or> i + CRON_YEAR_BASE > hi)
               then Inl (bad_cronexpr ''Specified year is out of range'')
               else Inr target))"

definition last_day_of :: "nat list" where
  "last_day_of = [31, 29, 31, 30, 31, 30, 31, 31, 30, 31, 30, 31]"

definition has_reachable_date :: "bool list \<Rightarrow> bool list \<Rightarrow> day_of_month_options \<Rightarrow> bool" where
  "has_reachable_date doms mons opts \<longleftrightarrow>
     dom_last opts \<or>
     (\<exists>month \<in> set [0..<length mons]. mons ! month \<and>
        (if dom_nearest_weekday opts then dom_day opts \<le> last_day_of ! month
         else \<exists>day \<in> set [0..<length doms]. doms ! day \<and> day + 1 \<le> last_day_of ! month))"

section \<open>The parser\<close>

definition make_cron :: "cron_traits \<Rightarrow> string \<Rightarrow> cron_error + cronexpr" where
  "make_cron tr e =
     (if e = [] then Inl (bad_cronexpr ''Invalid empty cron expression'')
      else
        (let c = default_cronexpr;
             fields = filter (\<lambda>s. s \<noteq> []) (split e (CHR '' ''));
             years_allowed = CRON_YEARS tr \<noteq> None
         in if length fields \<noteq> 6 \<and> \<not> (years_allowed \<and> length fields = 7)
            then Inl (bad_cronexpr (if years_allowed then ''cron expression must have six or seven fields''
                                    else ''cron expression must have six fields''))
            else
              rbind (set_cron_field CronInt (fields ! 0) (seconds c) (CRON_MIN_SECONDS tr) (CRON_MAX_SECONDS tr)) (\<lambda>sec.
              rbind (set_cron_field CronInt (fields ! 1) (minutes c) (CRON_MIN_MINUTES tr) (CRON_MAX_MINUTES tr)) (\<lambda>mins.
              rbind (set_cron_field CronInt (fields ! 2) (hours c) (CRON_MIN_HOURS tr) (CRON_MAX_HOURS tr)) (\<lambda>hrs.
              rbind (set_cron_days_of_week tr (fields ! 5) (days_of_week c) (dow_options c)) (\<lambda>(dow, dowo).
              rbind (set_cron_days_of_month tr (fields ! 3) (days_of_month c) (dom_options c)) (\<lambda>(dom, domo).
                if CRON_DAY_FIELD_RULE tr = reject \<and> dom_restricted domo \<and> dow_restricted dowo
                then Inl (bad_cronexpr ''Specify a day of month or a day of week, and ? for the other'')
                else
                  rbind (set_cron_month tr (fields ! 4) (months c)) (\<lambda>mon.
                  rbind (if length fields = 7 then year_set tr (fields ! 6) (years c)
                         else year_set_all tr (years c)) (\<lambda>yrs.
                    if \<not> has_reachable_date dom mon domo
                    then Inl (bad_cronexpr ''Date specified by the expression is invalid'')
                    else Inr \<lparr>seconds = sec, minutes = mins, hours = hrs, days_of_week = dow,
                      days_of_month = dom, months = mon, years = yrs, expr = e,
                      dom_options = domo, dow_options = dowo\<rparr>)))))))))"

end
