(* ===== verification/Calendar.thy ===== *)
theory Calendar
  imports Cron_Parse
begin

text \<open>
  Calendar time as the cron search sees it: \<open>std::tm\<close>, the two library calls \<open>mktime\<close> and
  \<open>localtime_r\<close>, which depend on the time zone of the process and are therefore a parameter, and the
  concrete clock of a process that runs in UTC, with the arithmetic of the Gregorian calendar behind
  it.
\<close>

section \<open>Broken-down time and the clock of a process\<close>

record tm =
  tm_sec :: int
  tm_min :: int
  tm_hour :: int
  tm_mday :: int
  tm_mon :: int
  tm_year :: int
  tm_wday :: int
  tm_yday :: int
  tm_isdst :: int

text \<open>
  \<open>mktime\<close> returns the instant and normalises its argument; \<open>localtime_r\<close> may fail. A value-initialised
  \<open>std::tm\<close> has all members zero.
\<close>

record clock =
  mktime :: "tm \<Rightarrow> int \<times> tm"
  localtime_r :: "int \<Rightarrow> tm option"

definition INVALID_TIME :: int where
  "INVALID_TIME = - 1"

definition zero_tm :: tm where
  "zero_tm = \<lparr>tm_sec = 0, tm_min = 0, tm_hour = 0, tm_mday = 0, tm_mon = 0, tm_year = 0, tm_wday = 0,
     tm_yday = 0, tm_isdst = 0\<rparr>"

section \<open>The Gregorian calendar\<close>

text \<open>Days before the first of January of a year, counted from the first of January of the year 1.\<close>

definition days_before_year :: "int \<Rightarrow> int" where
  "days_before_year y = 365 * (y - 1) + (y - 1) div 4 - (y - 1) div 100 + (y - 1) div 400"

definition month_offsets :: "int list" where
  "month_offsets = [0, 31, 59, 90, 120, 151, 181, 212, 243, 273, 304, 334, 365]"

definition days_before_month :: "int \<Rightarrow> nat \<Rightarrow> int" where
  "days_before_month y m = month_offsets ! m + (if 2 \<le> m \<and> is_leap_year y then 1 else 0)"

text \<open>Days since the epoch; the day of the month need not lie in the month.\<close>

definition days_of_civil :: "int \<Rightarrow> nat \<Rightarrow> int \<Rightarrow> int" where
  "days_of_civil y m d = days_before_year y + days_before_month y m + (d - 1) - 719162"

definition year_of_days :: "int \<Rightarrow> int" where
  "year_of_days n =
     (let n = n + 719162; y = n * 400 div 146097 + 1
      in if n < days_before_year y then y - 1 else if days_before_year (y + 1) \<le> n then y + 1 else y)"

definition month_of_yday :: "int \<Rightarrow> int \<Rightarrow> nat" where
  "month_of_yday y yd = length (filter (\<lambda>m. days_before_month y m \<le> yd) [1..<12])"

definition civil_of_days :: "int \<Rightarrow> int \<times> nat \<times> int" where
  "civil_of_days n =
     (let y = year_of_days n; yd = n + 719162 - days_before_year y; m = month_of_yday y yd
      in (y, m, yd - days_before_month y m + 1))"

definition utc_time :: "tm \<Rightarrow> int" where
  "utc_time d =
     86400 * days_of_civil (tm_year d + 1900 + tm_mon d div 12) (nat (tm_mon d mod 12)) (tm_mday d) +
     3600 * tm_hour d + 60 * tm_min d + tm_sec d"

definition utc_tm :: "int \<Rightarrow> tm" where
  "utc_tm t =
     (let n = t div 86400
      in case civil_of_days n of (y, m, d) \<Rightarrow>
           \<lparr>tm_sec = t mod 60, tm_min = t div 60 mod 60, tm_hour = t div 3600 mod 24, tm_mday = d,
            tm_mon = int m, tm_year = y - 1900, tm_wday = (n + 4) mod 7,
            tm_yday = n + 719162 - days_before_year y, tm_isdst = 0\<rparr>)"

text \<open>A process in UTC. The year 2147485548, the first beyond \<open>tm_year\<close>, is not singled out.\<close>

definition utc_clock :: clock where
  "utc_clock = \<lparr>mktime = (\<lambda>d. (utc_time d, utc_tm (utc_time d))), localtime_r = (\<lambda>t. Some (utc_tm t))\<rparr>"

section \<open>Years\<close>

lemma div_step: "0 < k \<Longrightarrow> (y :: int) div k - (y - 1) div k = (if y mod k = 0 then 1 else 0)"
proof -
  assume k: "0 < k"
  define q r where "q = y div k" and "r = y mod k"
  have y: "y = k * q + r" and r: "0 \<le> r" "r < k" using k by (simp_all add: q_def r_def)
  have "(y - 1) div k = (if r = 0 then q - 1 else q)"
  proof (cases "r = 0")
    case True
    then have "y - 1 = k * (q - 1) + (k - 1)" using y by (simp add: algebra_simps)
    from int_div_pos_eq [OF this] show ?thesis using k True by simp
  next
    case False
    have "y - 1 = k * q + (r - 1)" using y by simp
    from int_div_pos_eq [OF this] show ?thesis using r False by simp
  qed
  then show ?thesis by (simp add: q_def r_def)
qed

lemma days_before_year_step: "days_before_year (y + 1) = days_before_year y + (if is_leap_year y then 366 else 365)"
proof -
  have m: "y mod 400 mod 100 = y mod 100" "y mod 100 mod 4 = y mod 4" by (simp_all add: mod_mod_cancel)
  have "y mod 400 \<noteq> 0 \<or> y mod 100 = 0" using m(1) by (cases "y mod 400 = 0") simp_all
  moreover have "y mod 100 \<noteq> 0 \<or> y mod 4 = 0" using m(2) by (cases "y mod 100 = 0") simp_all
  ultimately have leap: "365 + (if y mod 4 = 0 then 1 else 0) - (if y mod 100 = 0 then 1 else 0) +
      (if y mod 400 = 0 then 1 else 0) = (if is_leap_year y then 366 else 365 :: int)"
    unfolding is_leap_year_def by (cases "y mod 4 = 0"; cases "y mod 100 = 0"; cases "y mod 400 = 0") simp_all
  have "days_before_year (y + 1) - days_before_year y =
      365 + (y div 4 - (y - 1) div 4) - (y div 100 - (y - 1) div 100) + (y div 400 - (y - 1) div 400)"
    by (simp add: days_before_year_def algebra_simps)
  also have "\<dots> = (if is_leap_year y then 366 else 365)"
    unfolding leap [symmetric] by (simp only: div_step [of 4 y, simplified] div_step [of 100 y, simplified]
        div_step [of 400 y, simplified])
  finally show ?thesis by simp
qed

lemma days_before_year_mono: "y < z \<Longrightarrow> days_before_year y + 365 \<le> days_before_year z"
proof (induction "nat (z - y)" arbitrary: z)
  case (Suc n)
  then have z: "days_before_year z = days_before_year (z - 1) + (if is_leap_year (z - 1) then 366 else 365)"
    using days_before_year_step [of "z - 1"] by simp
  show ?case
  proof (cases "z = y + 1")
    case True
    then show ?thesis using days_before_year_step [of y] by simp
  next
    case False
    then have "days_before_year y + 365 \<le> days_before_year (z - 1)" using Suc by (intro Suc.hyps) auto
    then show ?thesis using z by simp
  qed
qed simp

lemma days_before_year_bounds:
  "146097 * (y - 1) - 800 \<le> 400 * days_before_year y" "400 * days_before_year y \<le> 146097 * (y - 1) + 400"
proof -
  define k where "k = y - 1"
  define a b c where "a = k div 4" and "b = k div 100" and "c = k div 400"
  have e: "4 * a = k - k mod 4" "100 * b = k - k mod 100" "400 * c = k - k mod 400"
    by (simp_all add: a_def b_def c_def minus_mod_eq_mult_div)
  have r: "0 \<le> k mod 4" "k mod 4 < 4" "0 \<le> k mod 100" "k mod 100 < 100" "0 \<le> k mod 400" "k mod 400 < 400"
    by simp_all
  have "400 * (365 * k + a - b + c) = 146097 * k - 100 * (k mod 4) + 4 * (k mod 100) - k mod 400"
    using e by simp
  then have "146097 * k - 800 \<le> 400 * (365 * k + a - b + c) \<and> 400 * (365 * k + a - b + c) \<le> 146097 * k + 400"
    using r by linarith
  then show "146097 * (y - 1) - 800 \<le> 400 * days_before_year y" "400 * days_before_year y \<le> 146097 * (y - 1) + 400"
    by (simp_all add: days_before_year_def k_def a_def b_def c_def)
qed

lemma year_of_days_bounds:
  "days_before_year (year_of_days n) \<le> n + 719162" "n + 719162 < days_before_year (year_of_days n + 1)"
proof -
  define m where "m = n + 719162"
  define y where "y = m * 400 div 146097 + 1"
  have y: "146097 * (y - 1) \<le> 400 * m" "400 * m < 146097 * (y - 1) + 146097"
    by (simp_all add: y_def mult.commute) (simp add: minus_mod_eq_mult_div [symmetric], smt (verit) pos_mod_bound)?
  have lo: "days_before_year (y - 1) \<le> m" using days_before_year_bounds(2) [of "y - 1"] y by simp
  have hi: "m < days_before_year (y + 2)" using days_before_year_bounds(1) [of "y + 2"] y by simp
  have "year_of_days n = (if m < days_before_year y then y - 1 else if days_before_year (y + 1) \<le> m then y + 1 else y)"
    by (simp add: year_of_days_def Let_def m_def y_def)
  then have "days_before_year (year_of_days n) \<le> m \<and> m < days_before_year (year_of_days n + 1)"
    using lo hi by (simp add: add.commute)
  then show "days_before_year (year_of_days n) \<le> n + 719162" "n + 719162 < days_before_year (year_of_days n + 1)"
    by (simp_all add: m_def)
qed

lemma year_of_days_unique:
  assumes "days_before_year y \<le> n + 719162" "n + 719162 < days_before_year (y + 1)"
  shows "year_of_days n = y"
proof (rule ccontr)
  assume "year_of_days n \<noteq> y"
  then consider "year_of_days n + 1 \<le> y" | "y + 1 \<le> year_of_days n" by linarith
  then show False
  proof cases
    case 1
    then have "days_before_year (year_of_days n + 1) \<le> days_before_year y"
      using days_before_year_mono [of "year_of_days n + 1" y] by (cases "year_of_days n + 1 = y") auto
    then show False using assms year_of_days_bounds [of n] by linarith
  next
    case 2
    then have "days_before_year (y + 1) \<le> days_before_year (year_of_days n)"
      using days_before_year_mono [of "y + 1" "year_of_days n"] by (cases "y + 1 = year_of_days n") auto
    then show False using assms year_of_days_bounds [of n] by linarith
  qed
qed

section \<open>Months\<close>

lemma month_cases:
  "m < (12 :: nat) \<Longrightarrow> m = 0 \<or> m = 1 \<or> m = 2 \<or> m = 3 \<or> m = 4 \<or> m = 5 \<or> m = 6 \<or> m = 7 \<or> m = 8 \<or> m = 9 \<or>
     m = 10 \<or> m = 11"
  by (auto simp: numeral_eq_Suc less_Suc_eq)

lemma days_before_month_step:
  assumes "m < 12"
  shows "days_before_month y (Suc m) = days_before_month y m + days_in_month y (int m)"
  using month_cases [OF assms]
  by (elim disjE) (simp_all add: days_before_month_def month_offsets_def days_in_month_def)

lemma days_in_month_bounds: "m < 12 \<Longrightarrow> 28 \<le> days_in_month y (int m) \<and> days_in_month y (int m) \<le> 31"
  by (drule month_cases) (elim disjE; simp add: days_in_month_def)

lemma days_before_month_0 [simp]: "days_before_month y 0 = 0"
  by (simp add: days_before_month_def month_offsets_def)

lemma days_before_month_12: "days_before_month y 12 = (if is_leap_year y then 366 else 365)"
  by (simp add: days_before_month_def month_offsets_def)

lemma days_before_month_mono: "m < k \<Longrightarrow> k \<le> 12 \<Longrightarrow> days_before_month y m < days_before_month y k"
proof (induction k)
  case (Suc k)
  then show ?case using days_before_month_step [of k y] days_in_month_bounds [of k y]
    by (cases "m = k") auto
qed simp

text \<open>A date of the calendar: a month and a day of it.\<close>

definition valid_date :: "int \<Rightarrow> nat \<Rightarrow> int \<Rightarrow> bool" where
  "valid_date y m d \<longleftrightarrow> m < 12 \<and> 1 \<le> d \<and> d \<le> days_in_month y (int m)"

lemma month_of_yday_unique:
  assumes "m < 12" "days_before_month y m \<le> yd" "yd < days_before_month y (Suc m)"
  shows "month_of_yday y yd = m"
proof -
  have "days_before_month y k \<le> yd \<longleftrightarrow> k \<le> m" if "k < 12" for k
  proof (cases "k \<le> m")
    case True
    then show ?thesis using days_before_month_mono [of k m y] assms by (cases "k = m") auto
  next
    case False
    then show ?thesis using days_before_month_mono [of "Suc m" k y] assms that by (cases "k = Suc m") auto
  qed
  then have "filter (\<lambda>k. days_before_month y k \<le> yd) [1..<12] = filter (\<lambda>k. k \<le> m) [1..<12]"
    by (intro filter_cong) auto
  moreover have "length (filter (\<lambda>k. k \<le> m) [1..<12]) = m"
    using month_cases [OF assms(1)] by (elim disjE) (simp_all add: upt_rec numeral_eq_Suc)
  ultimately show ?thesis by (simp add: month_of_yday_def)
qed

lemma month_of_yday_bounds:
  assumes "0 \<le> yd" "yd < days_before_month y 12"
  shows "month_of_yday y yd < 12 \<and> days_before_month y (month_of_yday y yd) \<le> yd \<and>
    yd < days_before_month y (Suc (month_of_yday y yd))"
proof -
  define m where "m = (LEAST m. yd < days_before_month y (Suc m))"
  have ex: "yd < days_before_month y (Suc 11)" using assms by simp
  have hi: "yd < days_before_month y (Suc m)" unfolding m_def
    by (rule LeastI [of "\<lambda>m. yd < days_before_month y (Suc m)" 11, OF ex])
  have "m \<le> 11" unfolding m_def
    by (rule Least_le [of "\<lambda>m. yd < days_before_month y (Suc m)" 11, OF ex])
  have "days_before_month y m \<le> yd"
  proof (cases m)
    case (Suc k)
    then have "\<not> yd < days_before_month y (Suc k)"
      using not_less_Least [of k "\<lambda>m. yd < days_before_month y (Suc m)"] by (simp add: m_def)
    then show ?thesis using Suc by simp
  qed (use assms in simp)
  moreover from this have "month_of_yday y yd = m" using \<open>m \<le> 11\<close> hi by (intro month_of_yday_unique) auto
  ultimately show ?thesis using hi \<open>m \<le> 11\<close> by simp
qed

section \<open>Dates and days\<close>

lemma civil_of_days_of_civil:
  assumes "valid_date y m d"
  shows "civil_of_days (days_of_civil y m d) = (y, m, d)"
proof -
  have m: "m < 12" "1 \<le> d" "d \<le> days_in_month y (int m)" using assms by (auto simp: valid_date_def)
  define n where "n = days_of_civil y m d"
  define yd where "yd = days_before_month y m + (d - 1)"
  have n: "n + 719162 = days_before_year y + yd" by (simp add: n_def days_of_civil_def yd_def)
  have lo: "days_before_month y m \<le> yd" using m by (simp add: yd_def)
  have hi: "yd < days_before_month y (Suc m)" using m days_before_month_step [of m y] by (simp add: yd_def)
  have "0 \<le> days_before_month y m" using days_before_month_mono [of 0 m y] m by (cases m) auto
  moreover have "days_before_month y (Suc m) \<le> days_before_month y 12"
    using days_before_month_mono [of "Suc m" 12 y] m by (cases "Suc m = 12") auto
  ultimately have "year_of_days n = y"
    using n lo hi days_before_year_step [of y] days_before_month_12 [of y] by (intro year_of_days_unique) auto
  moreover have "month_of_yday y yd = m" using m lo hi by (intro month_of_yday_unique)
  moreover have "n + 719162 - days_before_year y = yd" using n by simp
  ultimately show ?thesis by (simp add: civil_of_days_def Let_def n_def [symmetric]) (simp add: yd_def)
qed

lemma days_of_civil_of_days:
  obtains y m d where "civil_of_days n = (y, m, d)" "valid_date y m d" "days_of_civil y m d = n"
proof -
  define y where "y = year_of_days n"
  define yd where "yd = n + 719162 - days_before_year y"
  define m where "m = month_of_yday y yd"
  have "0 \<le> yd" "yd < days_before_month y 12"
    using year_of_days_bounds [of n] days_before_year_step [of y]
    by (auto simp: yd_def y_def days_before_month_12)
  from month_of_yday_bounds [OF this] have m: "m < 12" "days_before_month y m \<le> yd" "yd < days_before_month y (Suc m)"
    by (simp_all add: m_def)
  have "civil_of_days n = (y, m, yd - days_before_month y m + 1)"
    by (simp add: civil_of_days_def Let_def y_def m_def yd_def)
  moreover have "valid_date y m (yd - days_before_month y m + 1)"
    using m days_before_month_step [of m y] by (simp add: valid_date_def)
  moreover have "days_of_civil y m (yd - days_before_month y m + 1) = n"
    by (simp add: days_of_civil_def yd_def)
  ultimately show thesis by (rule that)
qed

section \<open>The clock in UTC\<close>

text \<open>The year, month and day of an instant, and the day count it lies in.\<close>

definition day_number :: "int \<Rightarrow> int" where "day_number t = t div 86400"
definition hour_of :: "int \<Rightarrow> int" where "hour_of t = t div 3600 mod 24"
definition min_of :: "int \<Rightarrow> int" where "min_of t = t div 60 mod 60"
definition sec_of :: "int \<Rightarrow> int" where "sec_of t = t mod 60"
definition wday_of :: "int \<Rightarrow> int" where "wday_of n = (n + 4) mod 7"

lemma utc_tm_fields [simp]:
  "tm_sec (utc_tm t) = sec_of t" "tm_min (utc_tm t) = min_of t" "tm_hour (utc_tm t) = hour_of t"
  "tm_wday (utc_tm t) = wday_of (day_number t)" "tm_isdst (utc_tm t) = 0"
  by (simp_all add: utc_tm_def Let_def day_number_def hour_of_def min_of_def sec_of_def wday_of_def split: prod.splits)

lemma utc_tm_date:
  "civil_of_days (day_number t) = (y, m, d) \<Longrightarrow>
   tm_year (utc_tm t) = y - 1900 \<and> tm_mon (utc_tm t) = int m \<and> tm_mday (utc_tm t) = d"
  by (simp add: utc_tm_def Let_def day_number_def)

lemma utc_date:
  obtains y m where "valid_date y m (tm_mday (utc_tm t))" "tm_year (utc_tm t) = y - 1900"
    "tm_mon (utc_tm t) = int m" "days_of_civil y m (tm_mday (utc_tm t)) = day_number t"
proof -
  obtain y m d where "civil_of_days (day_number t) = (y, m, d)" "valid_date y m d"
    "days_of_civil y m d = day_number t" by (rule days_of_civil_of_days)
  with utc_tm_date show thesis by (intro that) auto
qed

text \<open>The one fact about division the search needs: the four parts determine the instant.\<close>

lemma seconds_sum:
  "t = 60 * a + b \<Longrightarrow> a = 60 * c + d \<Longrightarrow> c = 24 * e + f \<Longrightarrow>
   86400 * e + 3600 * f + 60 * d + b = (t :: int)"
  by simp

lemma time_parts: "86400 * day_number t + 3600 * hour_of t + 60 * min_of t + sec_of t = t"
  unfolding day_number_def hour_of_def min_of_def sec_of_def
proof (rule seconds_sum [where a = "t div 60" and c = "t div 3600"])
  have e: "t div 60 div 60 = t div 3600" "t div 3600 div 24 = t div 86400"
    by (simp_all add: zdiv_zmult2_eq [symmetric])
  show "t = 60 * (t div 60) + t mod 60" by simp
  show "t div 60 = 60 * (t div 3600) + t div 60 mod 60" unfolding e(1) [symmetric] by simp
  show "t div 3600 = 24 * (t div 86400) + t div 3600 mod 24" unfolding e(2) [symmetric] by simp
qed

lemma time_ranges:
  "0 \<le> hour_of t" "hour_of t < 24" "0 \<le> min_of t" "min_of t < 60" "0 \<le> sec_of t" "sec_of t < 60"
  by (simp_all add: hour_of_def min_of_def sec_of_def)

lemma time_parts_unique:
  assumes "t = 86400 * n + 3600 * h + 60 * m + s" "0 \<le> h" "h < 24" "0 \<le> m" "m < 60" "0 \<le> s" "s < 60"
  shows "day_number t = n" "hour_of t = h" "min_of t = m" "sec_of t = s"
proof -
  note p = time_parts [of t] time_ranges [of t]
  have n: "day_number t = n" using p assms by linarith
  then have h: "hour_of t = h" using p assms by linarith
  then have m: "min_of t = m" using p assms n by linarith
  then show "day_number t = n" "hour_of t = h" "min_of t = m" "sec_of t = s" using p assms n h by linarith+
qed

text \<open>\<open>mktime\<close> inverts \<open>localtime_r\<close>, and it is linear in everything but the month and the year.\<close>

lemma utc_time_utc_tm [simp]: "utc_time (utc_tm t) = t"
proof -
  obtain y m where d: "valid_date y m (tm_mday (utc_tm t))" "tm_year (utc_tm t) = y - 1900"
    "tm_mon (utc_tm t) = int m" "days_of_civil y m (tm_mday (utc_tm t)) = day_number t" by (rule utc_date)
  have "m < 12" using d(1) by (simp add: valid_date_def)
  then have "y - 1900 + 1900 + int m div 12 = y" "nat (int m mod 12) = m" by simp_all
  then show ?thesis unfolding utc_time_def d(2,3)
    by (simp only: d(4) utc_tm_fields time_parts)
qed

lemma days_of_civil_linear: "days_of_civil y m d = days_of_civil y m 1 + (d - 1)"
  by (simp add: days_of_civil_def)

lemma utc_time_updates:
  "utc_time (d\<lparr>tm_sec := v\<rparr>) = utc_time d + (v - tm_sec d)"
  "utc_time (d\<lparr>tm_min := v\<rparr>) = utc_time d + 60 * (v - tm_min d)"
  "utc_time (d\<lparr>tm_hour := v\<rparr>) = utc_time d + 3600 * (v - tm_hour d)"
  "utc_time (d\<lparr>tm_mday := v\<rparr>) = utc_time d + 86400 * (v - tm_mday d)"
  "utc_time (d\<lparr>tm_wday := v\<rparr>) = utc_time d" "utc_time (d\<lparr>tm_isdst := v\<rparr>) = utc_time d"
  by (simp_all add: utc_time_def days_of_civil_def algebra_simps)

end
