(* ===== verification/Cron_Search.thy ===== *)
theory Cron_Search
  imports Calendar
begin

text \<open>
  The search for the next occurrence of a crontab expression (\<open>src/job_scheduler/croncpp.h\<close>, from
  \<open>field_value\<close> to \<open>cron_prev\<close>). It works on a \<open>std::tm\<close> that \<open>mktime\<close> normalises after every change, so
  the clock of the process is a parameter throughout. \<open>find_next\<close> recurses until nothing moves any
  more; whether it does depends on the clock and the expression, so it is a partial function.
\<close>

section \<open>Fields of a date\<close>

datatype cron_field = second | minute | hour_of_day | day_of_week | day_of_month | month | year

fun field_index :: "cron_field \<Rightarrow> nat" where
  "field_index second = 0"
| "field_index minute = 1"
| "field_index hour_of_day = 2"
| "field_index day_of_week = 3"
| "field_index day_of_month = 4"
| "field_index month = 5"
| "field_index year = 6"

definition cron_fields :: "cron_field list" where
  "cron_fields = [second, minute, hour_of_day, day_of_week, day_of_month, month, year]"

fun field_value :: "tm \<Rightarrow> cron_field \<Rightarrow> int" where
  "field_value date second = tm_sec date"
| "field_value date minute = tm_min date"
| "field_value date hour_of_day = tm_hour date"
| "field_value date day_of_week = tm_wday date"
| "field_value date day_of_month = tm_mday date"
| "field_value date month = tm_mon date"
| "field_value date year = tm_year date"

text \<open>How the three mutators end: the daylight-saving flag is dropped and \<open>mktime\<close> normalises.\<close>

definition normalise :: "clock \<Rightarrow> tm \<Rightarrow> cron_error + tm" where
  "normalise ck date =
     (case mktime ck (date\<lparr>tm_isdst := - 1\<rparr>) of (t, date) \<Rightarrow>
        if t = INVALID_TIME then Inl (bad_cronexpr ''Invalid time expression'') else Inr date)"

definition add_to_field :: "clock \<Rightarrow> tm \<Rightarrow> cron_field \<Rightarrow> int \<Rightarrow> cron_error + tm" where
  "add_to_field ck date field v =
     normalise ck
       (case field of
          second \<Rightarrow> date\<lparr>tm_sec := tm_sec date + v\<rparr>
        | minute \<Rightarrow> date\<lparr>tm_min := tm_min date + v\<rparr>
        | hour_of_day \<Rightarrow> date\<lparr>tm_hour := tm_hour date + v\<rparr>
        | day_of_week \<Rightarrow> date\<lparr>tm_mday := tm_mday date + v\<rparr>
        | day_of_month \<Rightarrow> date\<lparr>tm_mday := tm_mday date + v\<rparr>
        | month \<Rightarrow> date\<lparr>tm_mon := tm_mon date + v\<rparr>
        | year \<Rightarrow> date\<lparr>tm_year := tm_year date + v\<rparr>)"

definition set_field :: "clock \<Rightarrow> tm \<Rightarrow> cron_field \<Rightarrow> int \<Rightarrow> cron_error + tm" where
  "set_field ck date field v =
     normalise ck
       (case field of
          second \<Rightarrow> date\<lparr>tm_sec := v\<rparr>
        | minute \<Rightarrow> date\<lparr>tm_min := v\<rparr>
        | hour_of_day \<Rightarrow> date\<lparr>tm_hour := v\<rparr>
        | day_of_week \<Rightarrow> date\<lparr>tm_wday := v\<rparr>
        | day_of_month \<Rightarrow> date\<lparr>tm_mday := v\<rparr>
        | month \<Rightarrow> date\<lparr>tm_mday := 1, tm_mon := v\<rparr>
        | year \<Rightarrow> date\<lparr>tm_year := v\<rparr>)"

definition reset_field :: "clock \<Rightarrow> tm \<Rightarrow> cron_field \<Rightarrow> cron_error + tm" where
  "reset_field ck date field =
     normalise ck
       (case field of
          second \<Rightarrow> date\<lparr>tm_sec := 0\<rparr>
        | minute \<Rightarrow> date\<lparr>tm_min := 0\<rparr>
        | hour_of_day \<Rightarrow> date\<lparr>tm_hour := 0\<rparr>
        | day_of_week \<Rightarrow> date\<lparr>tm_wday := 0\<rparr>
        | day_of_month \<Rightarrow> date\<lparr>tm_mday := 1\<rparr>
        | month \<Rightarrow> date\<lparr>tm_mon := 0\<rparr>
        | year \<Rightarrow> date\<lparr>tm_year := 0\<rparr>)"

text \<open>The marked fields are a bitset over the seven fields, reset in the order of the enumeration.\<close>

fun reset_fields :: "clock \<Rightarrow> bool list \<Rightarrow> cron_field list \<Rightarrow> tm \<Rightarrow> cron_error + tm" where
  "reset_fields ck marked [] date = Inr date"
| "reset_fields ck marked (f # fs) date =
     (if bit_test marked (field_index f)
      then rbind (reset_field ck date f) (reset_fields ck marked fs)
      else reset_fields ck marked fs date)"

definition reset_all_fields :: "clock \<Rightarrow> tm \<Rightarrow> bool list \<Rightarrow> cron_error + tm" where
  "reset_all_fields ck date marked = reset_fields ck marked cron_fields date"

definition mark_field :: "bool list \<Rightarrow> cron_field \<Rightarrow> bool list" where
  "mark_field orders field =
     (if \<not> bit_test orders (field_index field) then orders[field_index field := True] else orders)"

section \<open>Searching one field\<close>

text \<open>\<open>None\<close> is \<open>INVALID_INDEX\<close>; the bounds the function is passed are unused.\<close>

definition next_set_bit :: "bool list \<Rightarrow> nat \<Rightarrow> nat option" where
  "next_set_bit target offset = find (\<lambda>i. target ! i) [offset..<length target]"

definition index_int :: "nat option \<Rightarrow> int" where
  "index_int i = (case i of None \<Rightarrow> - 1 | Some n \<Rightarrow> int n)"

text \<open>The value asked for does not exist on this day: move the next larger field and search again.\<close>

definition skip_missing ::
  "clock \<Rightarrow> bool list \<Rightarrow> tm \<Rightarrow> cron_field \<Rightarrow> cron_field \<Rightarrow> bool list \<Rightarrow> cron_error + nat option \<times> tm" where
  "skip_missing ck target date field next_field marked =
     rbind (add_to_field ck date next_field 1) (\<lambda>date.
     rbind (reset_field ck date field) (\<lambda>date.
       case next_set_bit target 0 of
         None \<Rightarrow> Inr (None, date)
       | Some n \<Rightarrow>
           rbind (set_field ck date field (int n)) (\<lambda>date.
           rbind (reset_all_fields ck date marked) (\<lambda>date. Inr (Some n, date)))))"

definition find_next_value ::
  "clock \<Rightarrow> bool list \<Rightarrow> tm \<Rightarrow> nat \<Rightarrow> cron_field \<Rightarrow> cron_field \<Rightarrow> bool list \<Rightarrow> cron_error + nat option \<times> tm" where
  "find_next_value ck target date v field next_field marked =
     rbind
       (case next_set_bit target v of
          Some n \<Rightarrow> Inr (Some n, date)
        | None \<Rightarrow>
            rbind (add_to_field ck date next_field 1) (\<lambda>date.
            rbind (reset_field ck date field) (\<lambda>date.
              Inr (next_set_bit target 0, date))))
       (\<lambda>(next_value, date).
          if next_value \<noteq> Some v then
            rbind (set_field ck date field (index_int next_value)) (\<lambda>date.
            rbind (reset_all_fields ck date marked) (\<lambda>date.
              if next_value \<noteq> None \<and> field_value date field \<noteq> index_int next_value
              then skip_missing ck target date field next_field marked
              else Inr (next_value, date)))
          else Inr (next_value, date))"

section \<open>Days\<close>

definition nearest_weekday_to :: "tm \<Rightarrow> int \<Rightarrow> int \<Rightarrow> int" where
  "nearest_weekday_to date target final =
     (if target < 1 \<or> target > final then 0
      else
        (let offset = target - tm_mday date;
             weekday = (tm_wday date + offset) mod 7
         in if weekday = 6 then (if target > 1 then target - 1 else target + 2)
            else if weekday = 0 then (if target < final then target + 1 else target - 2)
            else target))"

definition matches_day_of_month :: "cron_traits \<Rightarrow> tm \<Rightarrow> bool list \<Rightarrow> day_of_month_options \<Rightarrow> bool" where
  "matches_day_of_month tr date doms options =
     (let final = days_in_month (tm_year date + 1900) (tm_mon date)
      in if dom_last options
         then (if dom_nearest_weekday options then tm_mday date = nearest_weekday_to date final final
               else tm_mday date = final)
         else if dom_nearest_weekday options
         then tm_mday date = nearest_weekday_to date (int (dom_day options)) final
         else bit_test doms (nat (tm_mday date - int (CRON_MIN_DAYS_OF_MONTH tr))))"

definition matches_day_of_week :: "tm \<Rightarrow> bool list \<Rightarrow> day_of_week_options \<Rightarrow> bool" where
  "matches_day_of_week date dows options =
     (if \<not> bit_test dows (nat (tm_wday date)) then False
      else if dow_nth options \<noteq> 0 then (tm_mday date - 1) div 7 + 1 = int (dow_nth options)
      else if dow_last options then tm_mday date + 7 > days_in_month (tm_year date + 1900) (tm_mon date)
      else True)"

definition matches_day :: "cron_traits \<Rightarrow> tm \<Rightarrow> cronexpr \<Rightarrow> bool" where
  "matches_day tr date cex =
     (let dom = matches_day_of_month tr date (days_of_month cex) (dom_options cex);
          dow = matches_day_of_week date (days_of_week cex) (dow_options cex)
      in if CRON_DAY_FIELD_RULE tr = either \<and> dom_restricted (dom_options cex) \<and> dow_restricted (dow_options cex)
         then dom \<or> dow else dom \<and> dow)"

text \<open>The first argument counts the days that may still be tried.\<close>

fun find_next_day_loop ::
  "nat \<Rightarrow> clock \<Rightarrow> cron_traits \<Rightarrow> cronexpr \<Rightarrow> int \<Rightarrow> bool list \<Rightarrow> tm \<Rightarrow> cron_error + int \<times> tm" where
  "find_next_day_loop n ck tr cex mday marked date =
     (if matches_day tr date cex then Inr (mday, date)
      else case n of
        0 \<Rightarrow> Inr (mday, date)
      | Suc n \<Rightarrow>
          rbind (add_to_field ck date day_of_month 1) (\<lambda>date.
            let mday = tm_mday date
            in rbind (reset_all_fields ck date marked)
                 (find_next_day_loop n ck tr cex mday marked)))"

declare find_next_day_loop.simps [simp del]

definition find_next_day ::
  "clock \<Rightarrow> cron_traits \<Rightarrow> cronexpr \<Rightarrow> tm \<Rightarrow> int \<Rightarrow> bool list \<Rightarrow> cron_error + int \<times> tm" where
  "find_next_day ck tr cex date mday marked = find_next_day_loop 366 ck tr cex mday marked date"

section \<open>The search\<close>

text \<open>\<open>date.tm_year - dot\<close> is computed in \<open>size_t\<close>, from two values of type \<open>int\<close>.\<close>

definition years_ahead :: "tm \<Rightarrow> int \<Rightarrow> int" where
  "years_ahead date dot =
     (if dot \<le> tm_year date then tm_year date - dot else tm_year date - dot + 18446744073709551616)"

definition start_of_year :: "nat \<Rightarrow> tm" where
  "start_of_year i = zero_tm\<lparr>tm_year := int i + int CRON_YEAR_BASE - 1900, tm_mon := 0, tm_mday := 1, tm_isdst := - 1\<rparr>"

text \<open>The check of the year field: the date is left alone, given up, or replaced by a year's start.\<close>

datatype year_check = YearOk | YearNone | YearStart tm

definition check_year :: "clock \<Rightarrow> cronexpr \<Rightarrow> tm \<Rightarrow> year_check" where
  "check_year ck cex date =
     (if bit_all (years cex) then YearOk
      else
        (let y = tm_year date + 1900;
             index = (if y > int CRON_YEAR_BASE then nat (y - int CRON_YEAR_BASE) else 0)
         in if index \<ge> CRON_YEAR_COUNT then YearNone
            else if bit_test (years cex) index then YearOk
            else case next_set_bit (years cex) index of
              None \<Rightarrow> YearNone
            | Some n \<Rightarrow>
                (case mktime ck (start_of_year n) of (t, start) \<Rightarrow>
                   if t = INVALID_TIME then YearNone else YearStart start)))"

partial_function (option) find_next ::
  "clock \<Rightarrow> cron_traits \<Rightarrow> cronexpr \<Rightarrow> tm \<Rightarrow> int \<Rightarrow> (cron_error + bool \<times> tm) option" where
  "find_next ck tr cex date dot =
     (case find_next_value ck (seconds cex) date (nat (tm_sec date)) second minute (no_bits 7) of
        Inl e \<Rightarrow> Some (Inl e)
      | Inr (updated_second, date1) \<Rightarrow>
     (let marked = (if updated_second = Some (nat (tm_sec date)) then mark_field (no_bits 7) second else no_bits 7)
      in case find_next_value ck (minutes cex) date1 (nat (tm_min date1)) minute hour_of_day marked of
        Inl e \<Rightarrow> Some (Inl e)
      | Inr (update_minute, date2) \<Rightarrow>
     (let same = (update_minute = Some (nat (tm_min date1)));
          marked = (if same then mark_field marked minute else marked)
      in Option.bind (if same then Some (Inr (True, date2)) else find_next ck tr cex date2 dot) (\<lambda>r. case r of
        Inl e \<Rightarrow> Some (Inl e)
      | Inr (res, date3) \<Rightarrow> if \<not> res then Some (Inr (False, date3)) else
     (case find_next_value ck (hours cex) date3 (nat (tm_hour date3)) hour_of_day day_of_week marked of
        Inl e \<Rightarrow> Some (Inl e)
      | Inr (updated_hour, date4) \<Rightarrow>
     (let same = (updated_hour = Some (nat (tm_hour date3)));
          marked = (if same then mark_field marked hour_of_day else marked)
      in Option.bind (if same then Some (Inr (True, date4)) else find_next ck tr cex date4 dot) (\<lambda>r. case r of
        Inl e \<Rightarrow> Some (Inl e)
      | Inr (res, date5) \<Rightarrow> if \<not> res then Some (Inr (False, date5)) else
     (case find_next_day ck tr cex date5 (tm_mday date5) marked of
        Inl e \<Rightarrow> Some (Inl e)
      | Inr (updated_day, date6) \<Rightarrow>
     (let same = (updated_day = tm_mday date5);
          marked = (if same then mark_field marked day_of_month else marked)
      in Option.bind (if same then Some (Inr (True, date6)) else find_next ck tr cex date6 dot) (\<lambda>r. case r of
        Inl e \<Rightarrow> Some (Inl e)
      | Inr (res, date7) \<Rightarrow> if \<not> res then Some (Inr (False, date7)) else
     (case find_next_value ck (months cex) date7 (nat (tm_mon date7)) month year marked of
        Inl e \<Rightarrow> Some (Inl e)
      | Inr (updated_month, date8) \<Rightarrow>
     (if updated_month \<noteq> Some (nat (tm_mon date7)) \<and> bit_all (years cex) \<and>
         years_ahead date8 dot > int (CRON_MAX_YEARS_DIFF tr)
      then Some (Inr (False, date8))
      else Option.bind (if updated_month = Some (nat (tm_mon date7)) then Some (Inr (True, date8))
                        else find_next ck tr cex date8 dot) (\<lambda>r. case r of
        Inl e \<Rightarrow> Some (Inl e)
      | Inr (res, date9) \<Rightarrow> if \<not> res then Some (Inr (False, date9)) else
     (case check_year ck cex date9 of
        YearOk \<Rightarrow> Some (Inr (True, date9))
      | YearNone \<Rightarrow> Some (Inr (False, date9))
      | YearStart start \<Rightarrow> find_next ck tr cex start (tm_year start)))))))))))))))"

declare find_next.simps [code]

section \<open>The entry points\<close>

definition CRON_MAX_DST_SHIFT :: nat where
  "CRON_MAX_DST_SHIFT = 7200"

text \<open>
  The loop of \<open>find_next_after\<close>: \<open>n\<close> starts are left besides \<open>start\<close>. The result is the instant and, when
  there is one, the calendar time derived from it.
\<close>

fun find_next_after_loop ::
  "nat \<Rightarrow> clock \<Rightarrow> cron_traits \<Rightarrow> cronexpr \<Rightarrow> int \<Rightarrow> int \<Rightarrow> (cron_error + int \<times> tm option) option" where
  "find_next_after_loop n ck tr cex original start =
     (case localtime_r ck start of
        None \<Rightarrow> Some (Inr (INVALID_TIME, None))
      | Some date \<Rightarrow>
          Option.bind (find_next ck tr cex date (tm_year date)) (\<lambda>r. case r of
            Inl e \<Rightarrow> Some (Inl e)
          | Inr (found, date) \<Rightarrow>
              if \<not> found then Some (Inr (INVALID_TIME, None))
              else
                (let calculated = fst (mktime ck date)
                 in if calculated = INVALID_TIME then Some (Inr (INVALID_TIME, None))
                    else if calculated > original
                    then (case localtime_r ck calculated of
                            None \<Rightarrow> Some (Inr (INVALID_TIME, None))
                          | Some result \<Rightarrow> Some (Inr (calculated, Some result)))
                    else case n of
                      0 \<Rightarrow> Some (Inr (INVALID_TIME, None))
                    | Suc n \<Rightarrow> find_next_after_loop n ck tr cex original (start + 1))))"

declare find_next_after_loop.simps [simp del]

definition find_next_after ::
  "clock \<Rightarrow> cron_traits \<Rightarrow> cronexpr \<Rightarrow> int \<Rightarrow> (cron_error + int \<times> tm option) option" where
  "find_next_after ck tr cex original = find_next_after_loop CRON_MAX_DST_SHIFT ck tr cex original original"

definition cron_next :: "clock \<Rightarrow> cron_traits \<Rightarrow> cronexpr \<Rightarrow> int \<Rightarrow> (cron_error + int) option" where
  "cron_next ck tr cex date =
     (if cron_empty cex then Some (Inl (bad_cronexpr ''Invalid empty cron expression''))
      else map_option (map_sum id fst) (find_next_after ck tr cex date))"

text \<open>The overload on calendar times answers with a value-initialised \<open>tm\<close> when there is no next time.\<close>

definition cron_next_tm :: "clock \<Rightarrow> cron_traits \<Rightarrow> cronexpr \<Rightarrow> tm \<Rightarrow> (cron_error + tm) option" where
  "cron_next_tm ck tr cex date =
     (if cron_empty cex then Some (Inl (bad_cronexpr ''Invalid empty cron expression''))
      else
        (let original = fst (mktime ck date)
         in if original = INVALID_TIME then Some (Inr zero_tm)
            else map_option (map_sum id (\<lambda>(t, result). case result of
                   Some result \<Rightarrow> if t = INVALID_TIME then zero_tm else result
                 | None \<Rightarrow> zero_tm)) (find_next_after ck tr cex original)))"

section \<open>The previous occurrence\<close>

definition cron_windows :: "int list" where
  "cron_windows = [60, 60 * 60, 24 * 60 * 60, 31 * 24 * 60 * 60, 366 * 24 * 60 * 60, 4 * 366 * 24 * 60 * 60]"

definition TIME_MIN :: int where
  "TIME_MIN = - 9223372036854775808"

text \<open>The smallest window that holds an occurrence; the inner \<open>None\<close> when none does.\<close>

fun bracket :: "(int \<Rightarrow> (cron_error + int) option) \<Rightarrow> int \<Rightarrow> int list \<Rightarrow> (cron_error + int option) option" where
  "bracket nxt date [] = Some (Inr None)"
| "bracket nxt date (w # ws) =
     (if date < TIME_MIN + w then bracket nxt date ws
      else Option.bind (nxt (date - w)) (\<lambda>r. case r of
             Inl e \<Rightarrow> Some (Inl e)
           | Inr first \<Rightarrow> if first \<noteq> INVALID_TIME \<and> first < date then Some (Inr (Some (date - w)))
                          else bracket nxt date ws))"

function bisect ::
  "(int \<Rightarrow> (cron_error + int) option) \<Rightarrow> int \<Rightarrow> int \<Rightarrow> int \<Rightarrow> (cron_error + int) option" where
  "bisect nxt date low high =
     (if high - low > 1
      then
        (let middle = low + (high - low) div 2
         in Option.bind (nxt middle) (\<lambda>r. case r of
              Inl e \<Rightarrow> Some (Inl e)
            | Inr n \<Rightarrow> if n \<noteq> INVALID_TIME \<and> n < date then bisect nxt date middle high
                       else bisect nxt date low middle))
      else Some (Inr low))"
  by pat_completeness auto
termination
  by (relation "measure (\<lambda>(nxt, date, low, high). nat (high - low))") auto

declare bisect.simps [simp del]

definition cron_prev :: "clock \<Rightarrow> cron_traits \<Rightarrow> cronexpr \<Rightarrow> int \<Rightarrow> (cron_error + int) option" where
  "cron_prev ck tr cex date =
     (if cron_empty cex then Some (Inl (bad_cronexpr ''Invalid empty cron expression''))
      else
        Option.bind (bracket (cron_next ck tr cex) date cron_windows) (\<lambda>r. case r of
          Inl e \<Rightarrow> Some (Inl e)
        | Inr None \<Rightarrow> Some (Inr INVALID_TIME)
        | Inr (Some low) \<Rightarrow>
            Option.bind (bisect (cron_next ck tr cex) date low date) (\<lambda>r. case r of
              Inl e \<Rightarrow> Some (Inl e)
            | Inr low \<Rightarrow>
                Option.bind (cron_next ck tr cex low) (\<lambda>r. case r of
                  Inl e \<Rightarrow> Some (Inl e)
                | Inr result \<Rightarrow>
                    Some (Inr (if result \<noteq> INVALID_TIME \<and> result < date then result else INVALID_TIME))))))"

definition cron_prev_tm :: "clock \<Rightarrow> cron_traits \<Rightarrow> cronexpr \<Rightarrow> tm \<Rightarrow> (cron_error + tm) option" where
  "cron_prev_tm ck tr cex date =
     (let original = fst (mktime ck date)
      in if original = INVALID_TIME then Some (Inr zero_tm)
         else map_option (map_sum id (\<lambda>t.
                if t = INVALID_TIME then zero_tm
                else case localtime_r ck t of None \<Rightarrow> zero_tm | Some out \<Rightarrow> out)) (cron_prev ck tr cex original))"

section \<open>Points of the system clock\<close>

text \<open>
  \<open>std::chrono::system_clock\<close> counts nanoseconds; conversions to coarser units truncate towards zero.
  A time point of another duration is the number of its ticks, of \<open>tick\<close> nanoseconds each, and the
  smallest time point says that there is no occurrence.
\<close>

definition trunc_div :: "int \<Rightarrow> int \<Rightarrow> int" where
  "trunc_div a b = (if a < 0 then - ((- a) div b) else a div b)"

definition NANOS :: int where
  "NANOS = 1000000000"

definition to_time_t :: "int \<Rightarrow> int" where
  "to_time_t n = trunc_div n NANOS"

definition from_time_t :: "int \<Rightarrow> int" where
  "from_time_t s = s * NANOS"

definition point_of :: "int \<Rightarrow> int \<Rightarrow> int" where
  "point_of tick t = (if t = INVALID_TIME then TIME_MIN else trunc_div (from_time_t t) tick)"

definition cron_next_point ::
  "clock \<Rightarrow> cron_traits \<Rightarrow> cronexpr \<Rightarrow> int \<Rightarrow> int \<Rightarrow> (cron_error + int) option" where
  "cron_next_point ck tr cex tick time_point =
     map_option (map_sum id (point_of tick)) (cron_next ck tr cex (to_time_t (time_point * tick)))"

definition round_up_time_t :: "int \<Rightarrow> int" where
  "round_up_time_t n = (let tt = to_time_t n in if from_time_t tt < n then tt + 1 else tt)"

definition cron_next_ceil ::
  "clock \<Rightarrow> cron_traits \<Rightarrow> cronexpr \<Rightarrow> int \<Rightarrow> int \<Rightarrow> (cron_error + int) option" where
  "cron_next_ceil ck tr cex tick time_point =
     map_option (map_sum id (point_of tick)) (cron_next ck tr cex (round_up_time_t (time_point * tick)))"

definition cron_prev_point ::
  "clock \<Rightarrow> cron_traits \<Rightarrow> cronexpr \<Rightarrow> int \<Rightarrow> int \<Rightarrow> (cron_error + int) option" where
  "cron_prev_point ck tr cex tick time_point =
     map_option (map_sum id (point_of tick)) (cron_prev ck tr cex (round_up_time_t (time_point * tick)))"

lemma trunc_div_bounds:
  assumes "0 < b"
  shows "0 \<le> a \<Longrightarrow> trunc_div a b * b \<le> a \<and> a < trunc_div a b * b + b"
    and "a < 0 \<Longrightarrow> a \<le> trunc_div a b * b \<and> trunc_div a b * b < a + b"
proof -
  have m: "x div b * b = x - x mod b" "0 \<le> x mod b" "x mod b < b" for x using assms by (simp_all add: minus_mod_eq_div_mult)
  show "0 \<le> a \<Longrightarrow> trunc_div a b * b \<le> a \<and> a < trunc_div a b * b + b"
    using m [of a] by (simp add: trunc_div_def)
  show "a < 0 \<Longrightarrow> a \<le> trunc_div a b * b \<and> trunc_div a b * b < a + b"
    using m [of "- a"] by (simp add: trunc_div_def)
qed

text \<open>Rounding up gives the first full second at or after the point, before the epoch too.\<close>

lemma round_up_is_ceiling: "n \<le> from_time_t (round_up_time_t n) \<and> from_time_t (round_up_time_t n) < n + NANOS"
  using trunc_div_bounds [of NANOS n]
  by (cases "n < 0") (auto simp: round_up_time_t_def to_time_t_def from_time_t_def NANOS_def algebra_simps Let_def)

end
