(* ===== verification/Cron_Wf.thy ===== *)
theory Cron_Wf
  imports Cron_Parse
begin

text \<open>
  What a parsed crontab expression guarantees: every bitset has its width and is not empty, an open
  day field has all its bits, the qualifiers of the day fields are in range, and the parser never
  writes outside a bitset.
\<close>

section \<open>Setting bits\<close>

definition grows :: "bool list \<Rightarrow> bool list \<Rightarrow> bool" where
  "grows a b \<longleftrightarrow> length b = length a \<and> (\<forall>i. bit_test a i \<longrightarrow> bit_test b i)"

lemma grows_refl [simp]: "grows a a"
  by (simp add: grows_def)

lemma grows_trans: "grows a b \<Longrightarrow> grows b c \<Longrightarrow> grows a c"
  by (simp add: grows_def)

lemma grows_bit: "grows a b \<Longrightarrow> bit_test a i \<Longrightarrow> bit_test b i"
  by (simp add: grows_def)

lemma grows_length: "grows a b \<Longrightarrow> length b = length a"
  by (simp add: grows_def)

lemma bit_put_grows: "bit_put a i = Inr b \<Longrightarrow> grows a b \<and> bit_test b i"
  by (auto simp: bit_put_def grows_def bit_test_def nth_list_update split: if_splits)

lemma bit_put_ok: "i < length a \<Longrightarrow> bit_put a i = Inr (a[i := True])"
  by (simp add: bit_put_def)

lemma bit_test_put: "i < length a \<Longrightarrow> bit_test (a[i := True]) j \<longleftrightarrow> j = i \<or> bit_test a j"
  by (auto simp: bit_test_def nth_list_update)

lemma bit_none_iff: "bit_none a \<longleftrightarrow> (\<forall>i. \<not> bit_test a i)"
  by (auto simp: bit_none_def bit_test_def in_set_conv_nth)

lemma bit_all_iff: "bit_all a \<longleftrightarrow> (\<forall>i < length a. bit_test a i)"
  by (simp add: bit_all_def bit_test_def all_set_conv_all_nth)

lemma set_range_grows: "set_range i n a = Inr b \<Longrightarrow> grows a b \<and> (0 < n \<longrightarrow> bit_test b i)"
proof (induction i n a rule: set_range.induct)
  case (2 i n a)
  from "2.prems" obtain c where c: "bit_put a i = Inr c" "set_range (Suc i) n c = Inr b" by auto
  have "grows a c" "bit_test c i" using bit_put_grows [OF c(1)] by auto
  moreover have "grows c b" using "2.IH" [OF c] by simp
  ultimately show ?case using grows_trans grows_bit by blast
qed simp

lemma set_range_bits:
  "i + n \<le> length a \<Longrightarrow> \<exists>b. set_range i n a = Inr b \<and> length b = length a \<and>
     (\<forall>j. bit_test b j \<longleftrightarrow> bit_test a j \<or> (i \<le> j \<and> j < i + n))"
proof (induction n arbitrary: i a)
  case (Suc n)
  have "Suc i + n \<le> length (a[i := True])" using Suc.prems by simp
  from Suc.IH [OF this] obtain b where b: "set_range (Suc i) n (a[i := True]) = Inr b"
    "length b = length a" "\<forall>j. bit_test b j \<longleftrightarrow> bit_test (a[i := True]) j \<or> (Suc i \<le> j \<and> j < Suc i + n)"
    by (simp only: length_list_update) blast
  have "bit_test b j \<longleftrightarrow> bit_test a j \<or> (i \<le> j \<and> j < i + Suc n)" for j
    using b(3) [rule_format, of j] Suc.prems by (auto simp: bit_test_put)
  then show ?case using Suc.prems b(1,2) by (simp add: bit_put_ok)
qed auto

lemma set_steps_grows:
  "set_steps t i final delta a = Inr b \<Longrightarrow> grows a b \<and> (i \<le> final \<longrightarrow> bit_test b i)"
proof (induction t i final delta a rule: set_steps.induct)
  case (1 t i final delta a)
  show ?case
  proof (cases "i \<le> final \<and> \<not> (final > index_limit t \<or> delta = 0 \<or> int delta > type_max t)")
    case True
    then obtain c j where c: "bit_put a i = Inr c" "advance t i delta = Inr j"
      "set_steps t j final delta c = Inr b"
      using "1.prems" by (subst (asm) set_steps.simps) (auto split: if_splits)
    have "grows c b" using "1.IH" True c by blast
    then show ?thesis using bit_put_grows [OF c(1)] grows_trans grows_bit by blast
  next
    case False
    then show ?thesis using "1.prems" by (subst (asm) set_steps.simps) (auto split: if_splits)
  qed
qed

lemma set_steps_error:
  "set_steps t i final delta a = Inl e \<Longrightarrow> final \<le> index_limit t \<Longrightarrow> delta \<noteq> 0 \<Longrightarrow> int delta \<le> type_max t \<Longrightarrow>
   final < length a \<Longrightarrow> e = signed_overflow \<and> t = Int32"
proof (induction t i final delta a rule: set_steps.induct)
  case (1 t i final delta a)
  have ok: "\<not> (final > index_limit t \<or> delta = 0 \<or> int delta > type_max t)" using "1.prems" by simp
  have i: "i \<le> final" using "1.prems"(1) ok by (subst (asm) set_steps.simps) (auto split: if_splits)
  have put: "bit_put a i = Inr (a[i := True])" using i "1.prems" by (simp add: bit_put_ok)
  show ?case
  proof (cases "advance t i delta")
    case (Inl e')
    then have "t = Int32 \<and> e' = signed_overflow" by (cases t) (auto split: if_splits)
    moreover have "e = e'" using "1.prems"(1) i ok put Inl by (subst (asm) set_steps.simps) auto
    ultimately show ?thesis by simp
  next
    case (Inr j)
    have "set_steps t j final delta (a[i := True]) = Inl e"
      using "1.prems"(1) i ok put Inr by (subst (asm) set_steps.simps) auto
    then show ?thesis using "1.IH" [OF ok i put Inr] "1.prems" by simp
  qed
qed

section \<open>Fields\<close>

definition cron_bad :: "cron_type \<Rightarrow> cron_error \<Rightarrow> bool" where
  "cron_bad t e \<longleftrightarrow> (\<exists>m. e = bad_cronexpr m) \<or> (t = Int32 \<and> e = signed_overflow)"

lemma cron_bad_simps [simp]: "cron_bad t (bad_cronexpr m)" "cron_bad Int32 signed_overflow"
  by (simp_all add: cron_bad_def)

definition field_width :: "cron_type \<Rightarrow> nat \<Rightarrow> nat \<Rightarrow> bool list \<Rightarrow> bool" where
  "field_width t minval maxval a \<longleftrightarrow>
     minval \<le> maxval \<and> length a = Suc (maxval - minval) \<and> maxval - minval \<le> index_limit t"

lemma to_cron_number_bound: "to_cron_number t s = Inr n \<Longrightarrow> int n \<le> type_max t"
proof -
  assume "to_cron_number t s = Inr n"
  then have "n = nat (number_of s) \<and> number_of s \<le> type_max t"
    by (auto simp: to_cron_number_def Let_def split: if_splits option.splits)
  moreover have "0 \<le> type_max t" by (cases t) simp_all
  ultimately show ?thesis by simp
qed

lemma to_cron_number_error: "to_cron_number t s = Inl e \<Longrightarrow> cron_bad u e"
  by (auto simp: to_cron_number_def Let_def split: if_splits option.splits)

lemma check_range_bounds:
  "check_range minval maxval r = Inr (f, l) \<Longrightarrow> minval \<le> f \<and> f \<le> l \<and> l \<le> maxval"
  by (auto simp: check_range_def split: prod.splits if_splits)

lemma check_range_error: "check_range minval maxval r = Inl e \<Longrightarrow> cron_bad t e"
  by (auto simp: check_range_def split: prod.splits if_splits)

lemma make_range_bounds: "make_range t s minval maxval = Inr (f, l) \<Longrightarrow> minval \<le> f \<and> f \<le> l \<and> l \<le> maxval"
  unfolding make_range_def rbind_eq_Inr_iff by (blast dest: check_range_bounds)

lemma make_range_error: "make_range t s minval maxval = Inl e \<Longrightarrow> cron_bad u e"
  unfolding make_range_def
  by (auto simp: rbind_eq_Inl_iff Let_def intro: check_range_error to_cron_number_error split: if_splits)

lemma set_element_grows:
  assumes "set_element t minval maxval s a = Inr b"
  shows "grows a b \<and> (\<exists>i. bit_test b i)"
proof (cases "contains s (CHR ''/'')")
  case False
  with assms obtain f l where r: "make_range t s minval maxval = Inr (f, l)"
    and s: "set_range (f - minval) (Suc (l - minval) - (f - minval)) a = Inr b"
    by (auto simp: set_element_def)
  have "f \<le> l" "minval \<le> f" using make_range_bounds [OF r] by simp_all
  then show ?thesis using set_range_grows [OF s] by (auto simp: diff_le_mono le_imp_less_Suc)
next
  case True
  define parts where "parts = split s (CHR ''/'')"
  from assms True obtain f l k delta where r: "make_range t (parts ! 0) minval maxval = Inr (f, l)"
    and k: "k = maxval \<or> k = l" and s: "set_steps t (f - minval) (k - minval) delta a = Inr b"
    by (auto simp: set_element_def parts_def [symmetric] Let_def split: if_splits)
  have "f \<le> k" using make_range_bounds [OF r] k by auto
  then show ?thesis using set_steps_grows [OF s] by (auto simp: diff_le_mono)
qed

lemma set_element_error:
  assumes w: "field_width t minval maxval a" and e: "set_element t minval maxval s a = Inl e"
  shows "cron_bad (if CHR ''/'' \<in> set s then t else CronInt) e"
proof (cases "contains s (CHR ''/'')")
  case False
  show ?thesis
  proof (cases "make_range t s minval maxval")
    case (Inr r)
    obtain f l where r: "r = (f, l)" by fastforce
    have b: "minval \<le> f" "f \<le> l" "l \<le> maxval" using make_range_bounds Inr r by blast+
    have "(f - minval) + (Suc (l - minval) - (f - minval)) \<le> length a"
      using w b by (auto simp: field_width_def)
    from set_range_bits [OF this] show ?thesis using e False Inr r by (auto simp: set_element_def)
  qed (use e False make_range_error [of t s minval maxval e] in \<open>auto simp: set_element_def contains_def\<close>)
next
  case True
  then have step: "CHR ''/'' \<in> set s" by (simp add: contains_def)
  define parts where "parts = split s (CHR ''/'')"
  show ?thesis
  proof (cases "make_range t (parts ! 0) minval maxval")
    case (Inr r)
    obtain f l where r: "r = (f, l)" by fastforce
    have b: "l \<le> maxval" using make_range_bounds Inr r by blast
    define k where "k = (if contains (parts ! 0) (CHR ''-'') then l else maxval)"
    have k: "k - minval \<le> maxval - minval" using b by (auto simp: k_def diff_le_mono)
    show ?thesis
    proof (cases "to_cron_number t (parts ! 1)")
      case n: (Inr delta)
      show ?thesis
      proof (cases "length parts = 2 \<and> delta \<noteq> 0")
        case ok: True
        then have "set_steps t (f - minval) (k - minval) delta a = Inl e"
          using e True Inr r n
          by (auto simp: set_element_def parts_def [symmetric] k_def Let_def split: if_splits)
        then show ?thesis using set_steps_error [of t "f - minval" "k - minval" delta a e]
          ok k w step to_cron_number_bound [OF n] by (auto simp: field_width_def)
      qed (use e True Inr r n in
          \<open>auto simp: set_element_def parts_def [symmetric] Let_def split: if_splits\<close>)
    qed (use e True Inr r to_cron_number_error [of t "parts ! 1"] in
        \<open>auto simp: set_element_def parts_def [symmetric] Let_def split: if_splits\<close>)
  qed (use e True make_range_error [of t "parts ! 0"] in
      \<open>auto simp: set_element_def parts_def [symmetric] Let_def split: if_splits\<close>)
qed

lemma set_elements_grows:
  "set_elements t minval maxval ss a = Inr b \<Longrightarrow> grows a b \<and> (ss \<noteq> [] \<longrightarrow> (\<exists>i. bit_test b i))"
proof (induction ss arbitrary: a)
  case (Cons s ss)
  then obtain c where c: "set_element t minval maxval s a = Inr c" "set_elements t minval maxval ss c = Inr b"
    by auto
  then show ?case using set_element_grows [OF c(1)] Cons.IH [OF c(2)] grows_trans grows_bit by blast
qed simp

lemma cron_bad_weaken: "cron_bad (if P then t else CronInt) e \<Longrightarrow> (P \<Longrightarrow> Q) \<Longrightarrow> cron_bad (if Q then t else CronInt) e"
  by (auto simp: cron_bad_def split: if_splits)

lemma set_elements_error:
  "set_elements t minval maxval ss a = Inl e \<Longrightarrow> field_width t minval maxval a \<Longrightarrow>
     cron_bad (if \<exists>s \<in> set ss. CHR ''/'' \<in> set s then t else CronInt) e"
proof (induction ss arbitrary: a)
  case (Cons s ss)
  show ?case
  proof (cases "set_element t minval maxval s a")
    case (Inr c)
    then have "field_width t minval maxval c"
      using Cons.prems set_element_grows [OF Inr] by (simp add: field_width_def grows_def)
    then have "cron_bad (if \<exists>s \<in> set ss. CHR ''/'' \<in> set s then t else CronInt) e" using Cons Inr by simp
    then show ?thesis by (rule cron_bad_weaken) auto
  next
    case (Inl e')
    then have "cron_bad (if CHR ''/'' \<in> set s then t else CronInt) e"
      using Cons.prems set_element_error [OF Cons.prems(2) Inl] by simp
    then show ?thesis by (rule cron_bad_weaken) auto
  qed
qed simp

lemma getline_tokens_chars: "s \<in> set (getline_tokens v d) \<Longrightarrow> set s \<subseteq> set v"
proof (induction v d rule: getline_tokens.induct)
  case (2 c cs d)
  have t: "set (tl (dropWhile (\<lambda>c. c \<noteq> d) cs)) \<subseteq> set cs"
  proof
    fix x assume "x \<in> set (tl (dropWhile (\<lambda>c. c \<noteq> d) cs))"
    then have "x \<in> set (dropWhile (\<lambda>c. c \<noteq> d) cs)" by (cases "dropWhile (\<lambda>c. c \<noteq> d) cs") auto
    then show "x \<in> set cs" by (rule set_dropWhileD)
  qed
  show ?case
  proof (cases "c = d")
    case False
    then show ?thesis using 2 t by (auto dest: set_takeWhileD)
  qed (use 2 in auto)
qed simp

lemma split_chars: "s \<in> set (split v d) \<Longrightarrow> set s \<subseteq> set v"
  using getline_tokens_chars [of s "c_string v" d] by (auto simp: split_def c_string_def dest: set_takeWhileD)

lemma set_cron_field_grows: "set_cron_field t v a minval maxval = Inr b \<Longrightarrow> grows a b \<and> (\<exists>i. bit_test b i)"
  by (auto simp: set_cron_field_def Let_def split: if_splits dest: set_elements_grows)

lemma set_cron_field_step_error:
  assumes "set_cron_field t v a minval maxval = Inl e" "field_width t minval maxval a"
  shows "cron_bad (if CHR ''/'' \<in> set v then t else CronInt) e"
proof (cases "\<exists>m. e = bad_cronexpr m")
  case False
  then have "set_elements t minval maxval (split v (CHR '','')) a = Inl e"
    using assms(1) by (auto simp: set_cron_field_def Let_def split: if_splits)
  from set_elements_error [OF this assms(2)] show ?thesis
    by (rule cron_bad_weaken) (use split_chars in blast)
qed auto

lemma set_cron_field_error:
  "set_cron_field t v a minval maxval = Inl e \<Longrightarrow> field_width t minval maxval a \<Longrightarrow> cron_bad t e"
  using set_cron_field_step_error [of t v a minval maxval e] by (auto simp: cron_bad_def split: if_splits)

section \<open>Well-formed expressions\<close>

definition wf_day_of_month :: "bool list \<Rightarrow> day_of_month_options \<Rightarrow> bool" where
  "wf_day_of_month bits opts \<longleftrightarrow>
     length bits = 31 \<and> (dom_last opts \<or> dom_nearest_weekday opts \<or> \<not> bit_none bits) \<and>
     (dom_nearest_weekday opts \<and> \<not> dom_last opts \<longrightarrow> 1 \<le> dom_day opts \<and> dom_day opts \<le> 31) \<and>
     (\<not> dom_restricted opts \<longrightarrow> bit_all bits \<and> \<not> dom_last opts \<and> \<not> dom_nearest_weekday opts)"

definition wf_day_of_week :: "bool list \<Rightarrow> day_of_week_options \<Rightarrow> bool" where
  "wf_day_of_week bits opts \<longleftrightarrow>
     length bits = 7 \<and> \<not> bit_none bits \<and> dow_nth opts \<le> 5 \<and>
     (dow_nth opts \<noteq> 0 \<or> dow_last opts \<longrightarrow> bit_count bits = 1) \<and>
     (\<not> dow_restricted opts \<longrightarrow> bit_all bits \<and> dow_nth opts = 0 \<and> \<not> dow_last opts)"

definition wf_cronexpr :: "cronexpr \<Rightarrow> bool" where
  "wf_cronexpr c \<longleftrightarrow>
     length (seconds c) = 60 \<and> length (minutes c) = 60 \<and> length (hours c) = 24 \<and>
     length (months c) = 12 \<and> length (years c) = 130 \<and>
     \<not> bit_none (seconds c) \<and> \<not> bit_none (minutes c) \<and> \<not> bit_none (hours c) \<and> \<not> bit_none (months c) \<and>
     \<not> bit_none (years c) \<and> wf_day_of_month (days_of_month c) (dom_options c) \<and>
     wf_day_of_week (days_of_week c) (dow_options c) \<and>
     has_reachable_date (days_of_month c) (months c) (dom_options c)"

definition known_traits :: "cron_traits \<Rightarrow> bool" where
  "known_traits tr \<longleftrightarrow> tr = cron_standard_traits \<or> tr = cron_oracle_traits \<or> tr = cron_quartz_traits"

lemma known_traitsE:
  assumes "known_traits tr" "P cron_standard_traits" "P cron_oracle_traits" "P cron_quartz_traits"
  shows "P tr"
  using assms by (auto simp: known_traits_def)

lemmas traits_defs = cron_standard_traits_def cron_oracle_traits_def cron_quartz_traits_def

lemma trait_widths:
  assumes "known_traits tr"
  shows "field_width CronInt (CRON_MIN_SECONDS tr) (CRON_MAX_SECONDS tr) (no_bits 60)"
    "field_width CronInt (CRON_MIN_MINUTES tr) (CRON_MAX_MINUTES tr) (no_bits 60)"
    "field_width CronInt (CRON_MIN_HOURS tr) (CRON_MAX_HOURS tr) (no_bits 24)"
    "field_width CronInt (CRON_MIN_DAYS_OF_WEEK tr) (CRON_MAX_DAYS_OF_WEEK tr) (no_bits 7)"
    "field_width CronInt (CRON_MIN_DAYS_OF_MONTH tr) (CRON_MAX_DAYS_OF_MONTH tr) (no_bits 31)"
    "field_width CronInt (CRON_MIN_MONTHS tr) (CRON_MAX_MONTHS tr) (no_bits 12)"
    "field_width Int32 CRON_YEAR_BASE (CRON_YEAR_BASE + CRON_YEAR_COUNT - 1) (no_bits CRON_YEAR_COUNT)"
    "CRON_YEARS tr = Some (1970, 2099)" "CRON_MIN_DAYS_OF_MONTH tr = 1" "CRON_MAX_DAYS_OF_MONTH tr = 31"
  by (rule known_traitsE [OF assms];
      simp add: traits_defs field_width_def no_bits_def CRON_YEAR_BASE_def CRON_YEAR_COUNT_def)+

lemma star_sets_all:
  assumes "known_traits tr"
  shows "set_cron_field CronInt (replace_ordinals ''*'' (DAYS tr)) (no_bits 7) (CRON_MIN_DAYS_OF_WEEK tr)
           (CRON_MAX_DAYS_OF_WEEK tr) = Inr (replicate 7 True)" (is ?W)
    "set_cron_field CronInt ''*'' (no_bits 31) (CRON_MIN_DAYS_OF_MONTH tr) (CRON_MAX_DAYS_OF_MONTH tr)
       = Inr (replicate 31 True)" (is ?M)
proof -
  show ?W by (rule known_traitsE [OF assms]; code_simp)
  show ?M by (rule known_traitsE [OF assms]; code_simp)
qed

lemma set_cron_month_length:
  "set_cron_month tr v a = Inr b \<Longrightarrow> length b = length a \<and> \<not> bit_none b"
  by (auto simp: set_cron_month_def Let_def bit_none_iff dest!: set_cron_field_grows intro: grows_length)

lemma year_set_all_wf:
  assumes "known_traits tr"
  shows "\<exists>b. year_set_all tr (no_bits CRON_YEAR_COUNT) = Inr b \<and> length b = 130 \<and> \<not> bit_none b"
proof -
  have "year_set_all tr (no_bits CRON_YEAR_COUNT) = set_range 0 130 (no_bits 130)"
    using trait_widths(8) [OF assms] by (simp add: year_set_all_def CRON_YEAR_BASE_def CRON_YEAR_COUNT_def)
  moreover obtain b where "set_range 0 130 (no_bits 130) = Inr b" "length b = 130" "bit_test b 0"
    using set_range_bits [of 0 130 "no_bits 130"] by (auto simp: no_bits_def)
  ultimately show ?thesis by (auto simp: bit_none_iff)
qed

lemma year_set_wf:
  assumes "known_traits tr" "year_set tr v (no_bits CRON_YEAR_COUNT) = Inr b"
  shows "length b = 130 \<and> \<not> bit_none b"
proof (cases "v = ''*''")
  case True
  then show ?thesis using assms year_set_all_wf [OF assms(1)] trait_widths(8) [OF assms(1)]
    by (auto simp: year_set_def)
next
  case False
  then have "set_cron_field Int32 v (no_bits CRON_YEAR_COUNT) CRON_YEAR_BASE (CRON_YEAR_BASE + CRON_YEAR_COUNT - 1)
      = Inr b"
    using assms trait_widths(8) [OF assms(1)] by (auto simp: year_set_def split: if_splits)
  from set_cron_field_grows [OF this] show ?thesis
    by (auto simp: bit_none_iff grows_def no_bits_def CRON_YEAR_COUNT_def)
qed

lemma set_cron_days_of_month_wf:
  assumes tr: "known_traits tr"
    and ok: "set_cron_days_of_month tr v (no_bits 31) (dom_options default_cronexpr) = Inr (b, opts)"
  shows "wf_day_of_month b opts"
proof -
  obtain days where days: "day_field v = Inr days" using ok by (auto simp: set_cron_days_of_month_def)
  define o0 where "o0 = (dom_options default_cronexpr)\<lparr>dom_restricted := days \<noteq> ''*''\<rparr>"
  have o0: "dom_restricted o0 = (days \<noteq> ''*'')" "\<not> dom_last o0" "\<not> dom_nearest_weekday o0"
    by (simp_all add: o0_def default_cronexpr_def)
  note ok' = ok [unfolded set_cron_days_of_month_def Let_def days rbind_simps(2), folded o0_def]
  show ?thesis
  proof (cases "contains days (CHR ''L'') \<or> contains days (CHR ''W'')")
    case True
    then have "days \<noteq> ''*''" by (auto simp: contains_def)
    then show ?thesis using ok' True o0 trait_widths(9,10) [OF tr]
      by (auto simp: wf_day_of_month_def no_bits_def split: if_splits)
  next
    case False
    then have f: "set_cron_field CronInt days (no_bits 31) (CRON_MIN_DAYS_OF_MONTH tr) (CRON_MAX_DAYS_OF_MONTH tr)
        = Inr b" and "opts = o0"
      using ok' by auto
    have "days = ''*'' \<Longrightarrow> b = replicate 31 True" using f star_sets_all(2) [OF tr] by simp
    then show ?thesis using set_cron_field_grows [OF f] o0 \<open>opts = o0\<close>
      by (auto simp: wf_day_of_month_def grows_def no_bits_def bit_none_iff bit_all_def)
  qed
qed

lemma day_of_week_qualifier_range:
  assumes "day_of_week_qualifier tr days opts = Inr (days', opts')"
  shows "dow_restricted opts' = dow_restricted opts"
    "dow_nth opts' \<le> max 5 (dow_nth opts)" "days = ''*'' \<Longrightarrow> days' = ''*'' \<and> opts' = opts"
  using assms
  by (auto simp: day_of_week_qualifier_def contains_def Let_def split: if_splits)

lemma set_cron_days_of_week_wf:
  assumes tr: "known_traits tr"
    and ok: "set_cron_days_of_week tr v (no_bits 7) (dow_options default_cronexpr) = Inr (b, opts)"
  shows "wf_day_of_week b opts"
proof -
  obtain days where days: "day_field v = Inr days" using ok by (auto simp: set_cron_days_of_week_def)
  define o0 where "o0 = (dow_options default_cronexpr)\<lparr>dow_restricted := days \<noteq> ''*''\<rparr>"
  have o0: "dow_restricted o0 = (days \<noteq> ''*'')" "\<not> dow_last o0" "dow_nth o0 = 0"
    by (simp_all add: o0_def default_cronexpr_def)
  note ok' = ok [unfolded set_cron_days_of_week_def Let_def days rbind_simps(2), folded o0_def]
  from ok' obtain days' where q: "day_of_week_qualifier tr days o0 = Inr (days', opts)"
    and f: "set_cron_field CronInt (replace_ordinals days' (DAYS tr)) (no_bits 7) (CRON_MIN_DAYS_OF_WEEK tr)
      (CRON_MAX_DAYS_OF_WEEK tr) = Inr b"
    and one: "dow_nth opts \<noteq> 0 \<or> dow_last opts \<longrightarrow> bit_count b = 1"
    by (auto split: if_splits)
  have "days = ''*'' \<Longrightarrow> b = replicate 7 True"
    using day_of_week_qualifier_range(3) [OF q] f star_sets_all(1) [OF tr] by auto
  then show ?thesis
    using day_of_week_qualifier_range [OF q] set_cron_field_grows [OF f] o0 one
    by (auto simp: wf_day_of_week_def grows_def no_bits_def bit_none_iff bit_all_def)
qed

lemma set_cron_field_wf: "set_cron_field t v (no_bits n) minval maxval = Inr b \<Longrightarrow> length b = n \<and> \<not> bit_none b"
  by (auto simp: bit_none_iff no_bits_def grows_def dest!: set_cron_field_grows)

definition cron_texts :: "string \<Rightarrow> string list" where
  "cron_texts e = filter (\<lambda>s. s \<noteq> []) (split e (CHR '' ''))"

lemma make_cron_parts:
  assumes ok: "make_cron tr e = Inr c" and fs: "fs = cron_texts e"
  shows "set_cron_field CronInt (fs ! 0) (no_bits 60) (CRON_MIN_SECONDS tr) (CRON_MAX_SECONDS tr) = Inr (seconds c)"
    "set_cron_field CronInt (fs ! 1) (no_bits 60) (CRON_MIN_MINUTES tr) (CRON_MAX_MINUTES tr) = Inr (minutes c)"
    "set_cron_field CronInt (fs ! 2) (no_bits 24) (CRON_MIN_HOURS tr) (CRON_MAX_HOURS tr) = Inr (hours c)"
    "set_cron_days_of_week tr (fs ! 5) (no_bits 7) (dow_options default_cronexpr) = Inr (days_of_week c, dow_options c)"
    "set_cron_days_of_month tr (fs ! 3) (no_bits 31) (dom_options default_cronexpr) = Inr (days_of_month c, dom_options c)"
    "set_cron_month tr (fs ! 4) (no_bits 12) = Inr (months c)"
    "(if length fs = 7 then year_set tr (fs ! 6) (no_bits CRON_YEAR_COUNT)
      else year_set_all tr (no_bits CRON_YEAR_COUNT)) = Inr (years c)"
    "has_reachable_date (days_of_month c) (months c) (dom_options c)" "expr c = e"
proof -
  have d: "seconds default_cronexpr = no_bits 60" "minutes default_cronexpr = no_bits 60"
    "hours default_cronexpr = no_bits 24" "days_of_week default_cronexpr = no_bits 7"
    "days_of_month default_cronexpr = no_bits 31" "months default_cronexpr = no_bits 12"
    "years default_cronexpr = no_bits CRON_YEAR_COUNT" by (simp_all add: default_cronexpr_def)
  note ok' = ok [unfolded make_cron_def Let_def, folded cron_texts_def, folded fs]
  show "set_cron_field CronInt (fs ! 0) (no_bits 60) (CRON_MIN_SECONDS tr) (CRON_MAX_SECONDS tr) = Inr (seconds c)"
    "set_cron_field CronInt (fs ! 1) (no_bits 60) (CRON_MIN_MINUTES tr) (CRON_MAX_MINUTES tr) = Inr (minutes c)"
    "set_cron_field CronInt (fs ! 2) (no_bits 24) (CRON_MIN_HOURS tr) (CRON_MAX_HOURS tr) = Inr (hours c)"
    "set_cron_days_of_week tr (fs ! 5) (no_bits 7) (dow_options default_cronexpr) = Inr (days_of_week c, dow_options c)"
    "set_cron_days_of_month tr (fs ! 3) (no_bits 31) (dom_options default_cronexpr) = Inr (days_of_month c, dom_options c)"
    "set_cron_month tr (fs ! 4) (no_bits 12) = Inr (months c)"
    "(if length fs = 7 then year_set tr (fs ! 6) (no_bits CRON_YEAR_COUNT)
      else year_set_all tr (no_bits CRON_YEAR_COUNT)) = Inr (years c)"
    "has_reachable_date (days_of_month c) (months c) (dom_options c)" "expr c = e"
    using ok' by (auto simp: d split: if_splits)
qed

lemma make_cron_wf:
  assumes tr: "known_traits tr" and ok: "make_cron tr e = Inr c"
  shows "wf_cronexpr c" "expr c = e"
proof -
  note f = make_cron_parts [OF ok refl]
  have "length (years c) = 130 \<and> \<not> bit_none (years c)"
    using f(7) year_set_wf [OF tr] year_set_all_wf [OF tr] by (auto split: if_splits)
  moreover have "length (months c) = 12 \<and> \<not> bit_none (months c)"
    using set_cron_month_length [OF f(6)] by (simp add: no_bits_def)
  ultimately show "wf_cronexpr c"
    using f(8) set_cron_field_wf [OF f(1)] set_cron_field_wf [OF f(2)] set_cron_field_wf [OF f(3)]
      set_cron_days_of_week_wf [OF tr f(4)] set_cron_days_of_month_wf [OF tr f(5)]
    by (simp add: wf_cronexpr_def)
  show "expr c = e" by (rule f(9))
qed

text \<open>C36: a crontab expression the parser accepts is well formed, whichever of the three dialects it is
  written in: all seven bitsets have their width, none of the fields is empty, an open day field
  matches every day, a weekday qualifier belongs to exactly one weekday, and some day the expression
  names exists in a month it names. In particular \<open>cron_next\<close> never rejects it as empty.
\<close>

theorem make_cron_well_formed:
  assumes tr: "known_traits tr" and ok: "make_cron tr e = Inr c"
  shows "wf_cronexpr c \<and> \<not> cron_empty c \<and> to_cronstr c = e"
  using make_cron_wf [OF tr ok]
  by (simp add: wf_cronexpr_def cron_empty_def wf_day_of_month_def wf_day_of_week_def to_cronstr_def) blast

text \<open>What else the three fields with names can end with.\<close>

definition named_field_bad :: "string \<Rightarrow> cron_error \<Rightarrow> bool" where
  "named_field_bad v e \<longleftrightarrow> cron_bad CronInt e \<or> (e = toupper_undefined \<and> (\<exists>c \<in> set v. negative_char c))"

lemma to_upper_error: "to_upper v = Inl e \<longleftrightarrow> e = toupper_undefined \<and> (\<exists>c \<in> set v. negative_char c)"
  by (auto simp: to_upper_def)

lemma day_field_error: "day_field v = Inl e \<longleftrightarrow> e = toupper_undefined \<and> (\<exists>c \<in> set v. negative_char c)"
  by (auto simp: day_field_def rbind_eq_Inl_iff to_upper_error)

lemma set_cron_days_of_week_error:
  assumes tr: "known_traits tr" and "set_cron_days_of_week tr v (no_bits 7) o0 = Inl e"
  shows "named_field_bad v e"
  using assms(2) trait_widths(4) [OF tr] unfolding set_cron_days_of_week_def day_of_week_qualifier_def Let_def
  by (auto simp: named_field_bad_def day_field_error rbind_eq_Inl_iff single_day_error_def to_cron_int_def
      split: if_splits dest: set_cron_field_error to_cron_number_error)

lemma set_cron_days_of_month_error:
  assumes tr: "known_traits tr" and "set_cron_days_of_month tr v (no_bits 31) o0 = Inl e"
  shows "named_field_bad v e"
  using assms(2) trait_widths(5) [OF tr] unfolding set_cron_days_of_month_def Let_def
  by (auto simp: named_field_bad_def day_field_error rbind_eq_Inl_iff to_cron_int_def
      split: if_splits dest: set_cron_field_error to_cron_number_error)

text \<open>The witness: an hourly expression of the standard dialect.\<close>

lemma make_cron_well_formed_witness:
  "\<exists>c. make_cron cron_standard_traits ''0 30 * * * *'' = Inr c \<and> wf_cronexpr c"
proof -
  have "isl (make_cron cron_standard_traits ''0 30 * * * *'') = False" by code_simp
  then obtain c where c: "make_cron cron_standard_traits ''0 30 * * * *'' = Inr c"
    by (metis obj_sumE isl_def)
  have "known_traits cron_standard_traits" by (simp add: known_traits_def)
  from make_cron_well_formed [OF this c] c show ?thesis by blast
qed

lemma year_set_error:
  assumes tr: "known_traits tr" and "year_set tr v (no_bits CRON_YEAR_COUNT) = Inl e"
  shows "cron_bad (if CHR ''/'' \<in> set v then Int32 else CronInt) e"
  using assms(2) trait_widths(7,8) [OF tr] year_set_all_wf [OF tr]
  by (auto simp: year_set_def rbind_eq_Inl_iff split: if_splits dest!: set_cron_field_step_error)

text \<open>C37: whatever the text, \<open>make_cron\<close> returns an expression, or throws \<open>bad_cronexpr\<close>, the only exception
  the scheduler turns into its \<open>invalid_argument\<close>, and it never sets a bit outside a bitset. There are
  just two ways to leave the defined behaviour of the language: a step in the seventh field, the years,
  whose addition overflows; and a byte from \<open>0x80\<close> to \<open>0xFE\<close> in the day of month, month or day of week
  field, which \<open>to_upper\<close> passes to \<open>std::toupper\<close> as a negative number.
\<close>

theorem make_cron_throws_bad_cronexpr:
  assumes tr: "known_traits tr" and err: "make_cron tr e = Inl x"
  shows "(\<exists>m. x = bad_cronexpr m) \<or>
     (x = signed_overflow \<and> length (cron_texts e) = 7 \<and> CHR ''/'' \<in> set (cron_texts e ! 6)) \<or>
     (x = toupper_undefined \<and> 6 \<le> length (cron_texts e) \<and>
        (\<exists>i \<in> {3, 4, 5}. \<exists>c \<in> set (cron_texts e ! i). 128 \<le> (of_char c :: nat) \<and> (of_char c :: nat) \<noteq> 255))"
proof -
  define fs where "fs = cron_texts e"
  note w = trait_widths [OF tr]
  note field = set_cron_field_error [OF _ w(1)] set_cron_field_error [OF _ w(2)] set_cron_field_error [OF _ w(3)]
  note named = set_cron_days_of_week_error [OF tr] set_cron_days_of_month_error [OF tr]
  have month: "set_cron_month tr v (no_bits 12) = Inl y \<Longrightarrow> named_field_bad v y" for v y
    using set_cron_field_error [OF _ w(6)]
    by (auto simp: set_cron_month_def named_field_bad_def rbind_eq_Inl_iff to_upper_error Let_def)
  have all: "year_set_all tr (no_bits CRON_YEAR_COUNT) \<noteq> Inl y" for y using year_set_all_wf [OF tr] by auto
  have d: "seconds default_cronexpr = no_bits 60" "minutes default_cronexpr = no_bits 60"
    "hours default_cronexpr = no_bits 24" "days_of_week default_cronexpr = no_bits 7"
    "days_of_month default_cronexpr = no_bits 31" "months default_cronexpr = no_bits 12"
    "years default_cronexpr = no_bits CRON_YEAR_COUNT" by (simp_all add: default_cronexpr_def)
  have "cron_bad CronInt x \<or> 6 \<le> length fs \<and> (\<exists>i \<in> {3, 4, 5}. named_field_bad (fs ! i) x) \<or>
      (length fs = 7 \<and> cron_bad (if CHR ''/'' \<in> set (fs ! 6) then Int32 else CronInt) x)"
    using err [unfolded make_cron_def Let_def, folded cron_texts_def, folded fs_def]
    by (auto simp: d rbind_eq_Inl_iff all split: if_splits dest: field named month year_set_error [OF tr])
  then show ?thesis unfolding fs_def [symmetric]
    by (auto simp: cron_bad_def named_field_bad_def negative_char_def split: if_splits)
qed

text \<open>The witness: five fields are one too few for the library.\<close>

lemma make_cron_throws_bad_cronexpr_witness:
  "\<exists>m. make_cron cron_standard_traits ''30 * * * *'' = Inl (bad_cronexpr m)"
proof -
  have "isl (make_cron cron_standard_traits ''30 * * * *'')" by code_simp
  then obtain x where x: "make_cron cron_standard_traits ''30 * * * *'' = Inl x" by (auto simp: isl_def)
  have "known_traits cron_standard_traits" by (simp add: known_traits_def)
  moreover have "length (cron_texts ''30 * * * *'') = 5" by code_simp
  ultimately show ?thesis using make_cron_throws_bad_cronexpr [OF _ x] x by auto
qed

text \<open>A byte of an accented letter in the day of week field.\<close>

lemma accented_day_undefined:
  "make_cron cron_standard_traits (''0 0 0 ? * '' @ [CHR 0xC3]) = Inl toupper_undefined"
  by code_simp

end
