(* ===== verification/Cron_Utc.thy ===== *)
theory Cron_Utc
  imports Cron_Search Cron_Wf
begin

text \<open>
  The cron search in a process that runs in UTC. Every date the search looks at is then the calendar
  time of an instant, and every operation on a date is arithmetic on the instant: the theory
  computes that arithmetic, field by field, from the model of the code.
\<close>

section \<open>Instants and their parts\<close>

definition year_at :: "int \<Rightarrow> int" where "year_at t = tm_year (utc_tm t) + 1900"
definition mon_at :: "int \<Rightarrow> nat" where "mon_at t = nat (tm_mon (utc_tm t))"
definition mday_at :: "int \<Rightarrow> int" where "mday_at t = tm_mday (utc_tm t)"
definition time_of_day :: "int \<Rightarrow> int" where "time_of_day t = t - 86400 * day_number t"

lemma date_at:
  "valid_date (year_at t) (mon_at t) (mday_at t)" "days_of_civil (year_at t) (mon_at t) (mday_at t) = day_number t"
  "tm_mon (utc_tm t) = int (mon_at t)" "tm_year (utc_tm t) = year_at t - 1900"
proof -
  obtain y m where d: "valid_date y m (tm_mday (utc_tm t))" "tm_year (utc_tm t) = y - 1900"
    "tm_mon (utc_tm t) = int m" "days_of_civil y m (tm_mday (utc_tm t)) = day_number t" by (rule utc_date)
  then have "year_at t = y" "mon_at t = m" "mday_at t = tm_mday (utc_tm t)"
    by (simp_all add: year_at_def mon_at_def mday_at_def)
  with d show "valid_date (year_at t) (mon_at t) (mday_at t)"
    "days_of_civil (year_at t) (mon_at t) (mday_at t) = day_number t"
    "tm_mon (utc_tm t) = int (mon_at t)" "tm_year (utc_tm t) = year_at t - 1900" by simp_all
qed

lemma mon_at_less: "mon_at t < 12" and mday_at_range: "1 \<le> mday_at t" "mday_at t \<le> 31"
  using date_at(1) [of t] days_in_month_bounds [of "mon_at t" "year_at t"] by (auto simp: valid_date_def)

lemma time_of_day_range: "0 \<le> time_of_day t" "time_of_day t < 86400"
  using time_parts [of t] time_ranges [of t] by (simp_all add: time_of_day_def)

lemma time_of_day_parts: "time_of_day t = 3600 * hour_of t + 60 * min_of t + sec_of t"
  using time_parts [of t] by (simp add: time_of_day_def)

lemma instant_parts: "t = 86400 * day_number t + time_of_day t"
  by (simp add: time_of_day_def)

lemma instant_unique:
  assumes "0 \<le> s" "s < 86400"
  shows "day_number (86400 * n + s) = n" "time_of_day (86400 * n + s) = s"
proof -
  note p = instant_parts [of "86400 * n + s"] time_of_day_range [of "86400 * n + s"]
  show n: "day_number (86400 * n + s) = n" using p assms by linarith
  show "time_of_day (86400 * n + s) = s" by (simp add: time_of_day_def n)
qed

lemma day_number_mono: "s \<le> t \<Longrightarrow> day_number s \<le> day_number t"
  using instant_parts [of s] instant_parts [of t] time_of_day_range [of s] time_of_day_range [of t] by linarith

lemma date_of_day:
  assumes "valid_date y m d" "day_number t = days_of_civil y m d"
  shows "year_at t = y" "mon_at t = m" "mday_at t = d"
proof -
  have "civil_of_days (day_number t) = (y, m, d)" using assms civil_of_days_of_civil by simp
  from utc_tm_date [OF this] show "year_at t = y" "mon_at t = m" "mday_at t = d"
    by (simp_all add: year_at_def mon_at_def mday_at_def)
qed

lemma same_day:
  assumes "day_number s = day_number t"
  shows "year_at s = year_at t" "mon_at s = mon_at t" "mday_at s = mday_at t"
proof -
  have e: "day_number s = days_of_civil (year_at t) (mon_at t) (mday_at t)" using assms date_at(2) by simp
  show "year_at s = year_at t" "mon_at s = mon_at t" "mday_at s = mday_at t"
    by (rule date_of_day [OF date_at(1) e])+
qed

lemma days_before_year_1970: "days_before_year 1970 = 719162"
  by (simp add: days_before_year_def)

lemma year_at_1970: "0 \<le> t \<Longrightarrow> 1970 \<le> year_at t"
proof (rule ccontr)
  assume t: "0 \<le> t" and "\<not> 1970 \<le> year_at t"
  define y where "y = year_at t"
  have y: "y + 1 \<le> 1970" using \<open>\<not> 1970 \<le> year_at t\<close> by (simp add: y_def)
  have "days_before_year (y + 1) \<le> days_before_year 1970"
    using days_before_year_mono [of "y + 1" 1970] y by (cases "y + 1 = 1970") auto
  moreover have "0 \<le> day_number t" using t by (simp add: day_number_def)
  moreover have "y = year_of_days (day_number t)"
    by (simp add: y_def year_at_def utc_tm_def civil_of_days_def Let_def day_number_def)
  ultimately show False using year_of_days_bounds(2) [of "day_number t"] by (simp add: days_before_year_1970)
qed

lemma days_before_month_nonneg: "m < 12 \<Longrightarrow> 0 \<le> days_before_month y m"
  using days_before_month_mono [of 0 m y] by (cases m) auto

lemma days_of_civil_nonneg:
  assumes "1970 \<le> y" "m < 12" "1 \<le> d"
  shows "0 \<le> days_of_civil y m d"
proof -
  have "days_before_year 1970 \<le> days_before_year y"
    using days_before_year_mono [of 1970 y] assms by (cases "y = 1970") auto
  then show ?thesis using days_before_month_nonneg [OF assms(2), of y] assms
    by (simp add: days_of_civil_def days_before_year_1970)
qed

section \<open>Operations on dates\<close>

lemma normalise_utc: "0 \<le> utc_time d \<Longrightarrow> normalise utc_clock d = Inr (utc_tm (utc_time d))"
  by (simp add: normalise_def utc_clock_def utc_time_updates INVALID_TIME_def)

lemma day_number_nonneg: "0 \<le> t \<Longrightarrow> 0 \<le> day_number t"
  by (simp add: day_number_def)

lemma parts_nonneg:
  assumes "0 \<le> t"
  shows "0 \<le> t - sec_of t" "0 \<le> t - 60 * min_of t" "0 \<le> t - 3600 * hour_of t" "0 \<le> t - 86400 * (mday_at t - 1)"
proof -
  note p = time_parts [of t] time_ranges [of t] day_number_nonneg [OF assms]
  show "0 \<le> t - sec_of t" "0 \<le> t - 60 * min_of t" "0 \<le> t - 3600 * hour_of t" using p by linarith+
  have "0 \<le> days_of_civil (year_at t) (mon_at t) 1"
    using year_at_1970 [OF assms] mon_at_less by (intro days_of_civil_nonneg) auto
  moreover have e: "day_number t = days_of_civil (year_at t) (mon_at t) 1 + (mday_at t - 1)"
    using date_at(2) [of t] days_of_civil_linear [of "year_at t" "mon_at t" "mday_at t"] by simp
  have "t - 86400 * (mday_at t - 1) = 86400 * days_of_civil (year_at t) (mon_at t) 1 + time_of_day t"
    unfolding time_of_day_def e by (simp add: algebra_simps)
  ultimately show "0 \<le> t - 86400 * (mday_at t - 1)" using time_of_day_range(1) [of t] by simp
qed

lemma set_field_utc:
  assumes "0 \<le> t" "0 \<le> v"
  shows "set_field utc_clock (utc_tm t) second v = Inr (utc_tm (t + (v - sec_of t)))"
    "set_field utc_clock (utc_tm t) minute v = Inr (utc_tm (t + 60 * (v - min_of t)))"
    "set_field utc_clock (utc_tm t) hour_of_day v = Inr (utc_tm (t + 3600 * (v - hour_of t)))"
  using parts_nonneg [OF assms(1)] assms(2)
  by (simp_all add: set_field_def normalise_utc utc_time_updates algebra_simps)

lemma reset_field_utc:
  assumes "0 \<le> t"
  shows "reset_field utc_clock (utc_tm t) second = Inr (utc_tm (t - sec_of t))"
    "reset_field utc_clock (utc_tm t) minute = Inr (utc_tm (t - 60 * min_of t))"
    "reset_field utc_clock (utc_tm t) hour_of_day = Inr (utc_tm (t - 3600 * hour_of t))"
    "reset_field utc_clock (utc_tm t) day_of_month = Inr (utc_tm (t - 86400 * (mday_at t - 1)))"
  using parts_nonneg [OF assms(1)]
  by (simp_all add: reset_field_def normalise_utc utc_time_updates mday_at_def algebra_simps)

lemma add_to_field_utc:
  assumes "0 \<le> t"
  shows "add_to_field utc_clock (utc_tm t) minute 1 = Inr (utc_tm (t + 60))"
    "add_to_field utc_clock (utc_tm t) hour_of_day 1 = Inr (utc_tm (t + 3600))"
    "add_to_field utc_clock (utc_tm t) day_of_week 1 = Inr (utc_tm (t + 86400))"
    "add_to_field utc_clock (utc_tm t) day_of_month 1 = Inr (utc_tm (t + 86400))"
  using assms by (simp_all add: add_to_field_def normalise_utc utc_time_updates)

lemma utc_time_date:
  assumes "tm_hour d = hour_of t" "tm_min d = min_of t" "tm_sec d = sec_of t" "tm_mon d = int m" "m < 12"
  shows "utc_time d = 86400 * days_of_civil (tm_year d + 1900) m (tm_mday d) + time_of_day t"
proof -
  have "tm_mon d div 12 = 0" "nat (tm_mon d mod 12) = m" using assms by simp_all
  then show ?thesis using assms by (simp add: utc_time_def time_of_day_parts)
qed

lemma set_month_utc:
  assumes "0 \<le> t" "m < 12"
  shows "set_field utc_clock (utc_tm t) month (int m) =
    Inr (utc_tm (86400 * days_of_civil (year_at t) m 1 + time_of_day t))"
proof -
  define d where "d = (utc_tm t)\<lparr>tm_mday := 1, tm_mon := int m\<rparr>"
  have u: "utc_time d = 86400 * days_of_civil (year_at t) m 1 + time_of_day t"
    using utc_time_date [of d t m] assms by (simp add: d_def year_at_def)
  have "0 \<le> days_of_civil (year_at t) m 1" using year_at_1970 [OF assms(1)] assms(2) by (intro days_of_civil_nonneg) auto
  then have "0 \<le> utc_time d" using u time_of_day_range(1) [of t] by simp
  then show ?thesis using u by (simp add: set_field_def d_def [symmetric] normalise_utc)
qed

text \<open>The next year, in January: the 29th of February of a leap year becomes the 1st.\<close>

definition next_year :: "int \<Rightarrow> int" where
  "next_year t =
     86400 * days_of_civil (year_at t + 1) 0 (if valid_date (year_at t + 1) (mon_at t) (mday_at t) then mday_at t else 1) +
     time_of_day t"

lemma invalid_next_year:
  assumes "\<not> valid_date (year_at t + 1) (mon_at t) (mday_at t)"
  shows "mon_at t = 1 \<and> days_of_civil (year_at t + 1) (mon_at t) (mday_at t) = days_of_civil (year_at t + 1) 2 1"
proof -
  have v: "valid_date (year_at t) (mon_at t) (mday_at t)" by (rule date_at(1))
  have "days_in_month y (int m) = days_in_month z (int m)" if "m \<noteq> 1" for m y z
    using that by (simp add: days_in_month_def)
  then have m: "mon_at t = 1" using v assms by (metis valid_date_def)
  moreover have "days_in_month y 1 = (if is_leap_year y then 29 else 28)" for y by (simp add: days_in_month_def)
  ultimately have "mday_at t = 29" "\<not> is_leap_year (year_at t + 1)"
    using v assms by (auto simp: valid_date_def split: if_splits)
  then show ?thesis using m by (simp add: days_of_civil_def days_before_month_def month_offsets_def)
qed

lemma date_of_instant:
  assumes "valid_date y m d"
  shows "year_at (86400 * days_of_civil y m d + time_of_day t) = y"
    "mon_at (86400 * days_of_civil y m d + time_of_day t) = m"
    "mday_at (86400 * days_of_civil y m d + time_of_day t) = d"
  by (rule date_of_day [OF assms], simp add: instant_unique time_of_day_range)+

lemma add_year_utc:
  assumes t: "0 \<le> t"
  shows "add_to_field utc_clock (utc_tm t) year 1 =
    Inr (utc_tm (86400 * days_of_civil (year_at t + 1) (mon_at t) (mday_at t) + time_of_day t))"
proof -
  define d where "d = (utc_tm t)\<lparr>tm_year := tm_year (utc_tm t) + 1\<rparr>"
  have u: "utc_time d = 86400 * days_of_civil (year_at t + 1) (mon_at t) (mday_at t) + time_of_day t"
    using utc_time_date [of d t "mon_at t"] mon_at_less [of t] date_at(3) [of t]
    by (simp add: d_def year_at_def mday_at_def algebra_simps)
  have "0 \<le> days_of_civil (year_at t + 1) (mon_at t) (mday_at t)"
    using year_at_1970 [OF t] mon_at_less mday_at_range by (intro days_of_civil_nonneg) auto
  then have "0 \<le> utc_time d" using u time_of_day_range(1) [of t] by simp
  then show ?thesis using u by (simp add: add_to_field_def d_def [symmetric] normalise_utc)
qed

lemma reset_month_utc:
  assumes "1970 \<le> y" "valid_date y m d"
  shows "reset_field utc_clock (utc_tm (86400 * days_of_civil y m d + time_of_day t)) month =
    Inr (utc_tm (86400 * days_of_civil y 0 d + time_of_day t))"
proof -
  define s where "s = 86400 * days_of_civil y m d + time_of_day t"
  define e where "e = (utc_tm s)\<lparr>tm_mon := 0\<rparr>"
  have s: "year_at s = y" "mday_at s = d" "time_of_day s = time_of_day t"
    unfolding s_def by (simp_all add: date_of_instant [OF assms(2)] instant_unique time_of_day_range)
  have u: "utc_time e = 86400 * days_of_civil y 0 d + time_of_day t"
    using utc_time_date [of e s 0] s by (simp add: e_def year_at_def mday_at_def)
  have "1 \<le> d" using assms by (simp add: valid_date_def)
  then have "0 \<le> days_of_civil y 0 d" using assms by (intro days_of_civil_nonneg) auto
  then have "0 \<le> utc_time e" using u time_of_day_range(1) [of t] by simp
  then show ?thesis using u by (simp add: reset_field_def s_def [symmetric] e_def [symmetric] normalise_utc)
qed

lemma next_year_utc:
  assumes t: "0 \<le> t"
  shows "rbind (add_to_field utc_clock (utc_tm t) year 1) (\<lambda>date. reset_field utc_clock date month) =
    Inr (utc_tm (next_year t))"
proof (cases "valid_date (year_at t + 1) (mon_at t) (mday_at t)")
  case True
  then show ?thesis using add_year_utc [OF t] reset_month_utc [OF _ True, of t] year_at_1970 [OF t]
    by (simp add: next_year_def)
next
  case False
  have "valid_date (year_at t + 1) 2 1" by (simp add: valid_date_def days_in_month_def)
  moreover have e: "days_of_civil (year_at t + 1) (mon_at t) (mday_at t) = days_of_civil (year_at t + 1) 2 1"
    using invalid_next_year [OF False] by blast
  ultimately show ?thesis using reset_month_utc [of "year_at t + 1" 2 1 t] False year_at_1970 [OF t]
    unfolding add_year_utc [OF t] e next_year_def by simp
qed

section \<open>Resetting marked fields\<close>

text \<open>The marks the search uses: seconds, minutes, hours and days of the month.\<close>

definition marks :: "bool \<Rightarrow> bool \<Rightarrow> bool \<Rightarrow> bool \<Rightarrow> bool list" where
  "marks bs bm bh bd = [bs, bm, bh, False, bd, False, False]"

definition reset_at :: "bool \<Rightarrow> bool \<Rightarrow> bool \<Rightarrow> bool \<Rightarrow> int \<Rightarrow> int" where
  "reset_at bs bm bh bd t =
     86400 * (day_number t - (if bd then mday_at t - 1 else 0)) + 3600 * (if bh then 0 else hour_of t) +
     60 * (if bm then 0 else min_of t) + (if bs then 0 else sec_of t)"

lemma marks_simps [simp]:
  "no_bits 7 = marks False False False False"
  "mark_field (marks bs bm bh bd) second = marks True bm bh bd"
  "mark_field (marks bs bm bh bd) minute = marks bs True bh bd"
  "mark_field (marks bs bm bh bd) hour_of_day = marks bs bm True bd"
  "mark_field (marks bs bm bh bd) day_of_month = marks bs bm bh True"
  by (simp_all add: marks_def no_bits_def mark_field_def bit_test_def numeral_eq_Suc)

lemma marks_test [simp]:
  "bit_test (marks bs bm bh bd) 0 = bs" "bit_test (marks bs bm bh bd) (Suc 0) = bm"
  "bit_test (marks bs bm bh bd) 2 = bh" "\<not> bit_test (marks bs bm bh bd) 3"
  "bit_test (marks bs bm bh bd) 4 = bd" "\<not> bit_test (marks bs bm bh bd) 5"
  "\<not> bit_test (marks bs bm bh bd) 6"
  by (simp_all add: marks_def bit_test_def numeral_eq_Suc)

lemma reset_fields_Nil: "reset_fields ck marked [] = Inr"
  by (rule ext) simp

lemma reset_fields_Cons:
  "reset_fields ck marked (f # fs) = (\<lambda>d. rbind (if bit_test marked (field_index f) then reset_field ck d f
     else Inr d) (reset_fields ck marked fs))"
  by (rule ext) simp

lemma rbind_Inr [simp]: "rbind m Inr = m"
  by (cases m) simp_all

lemma reset_at_parts:
  "day_number (reset_at bs bm bh bd t) = day_number t - (if bd then mday_at t - 1 else 0)"
  "hour_of (reset_at bs bm bh bd t) = (if bh then 0 else hour_of t)"
  "min_of (reset_at bs bm bh bd t) = (if bm then 0 else min_of t)"
  "sec_of (reset_at bs bm bh bd t) = (if bs then 0 else sec_of t)"
  by (rule time_parts_unique [OF reset_at_def]; simp add: time_ranges)+

lemma reset_at_none [simp]: "reset_at False False False False t = t"
  using time_parts [of t] by (simp add: reset_at_def)

lemma reset_at_nonneg: "0 \<le> t \<Longrightarrow> 0 \<le> reset_at bs bm bh bd t"
proof -
  assume t: "0 \<le> t"
  have "0 \<le> days_of_civil (year_at t) (mon_at t) 1"
    using year_at_1970 [OF t] mon_at_less by (intro days_of_civil_nonneg) auto
  then have "0 \<le> day_number t - (mday_at t - 1)"
    using date_at(2) [of t] days_of_civil_linear [of "year_at t" "mon_at t" "mday_at t"] by simp
  then show ?thesis using day_number_nonneg [OF t] time_ranges [of t] by (simp add: reset_at_def)
qed

lemma reset_at_steps:
  "(if bs then t - sec_of t else t) = reset_at bs False False False t"
  "(let s = reset_at bs False False False t in if bm then s - 60 * min_of s else s) = reset_at bs bm False False t"
  "(let s = reset_at bs bm False False t in if bh then s - 3600 * hour_of s else s) = reset_at bs bm bh False t"
  "(let s = reset_at bs bm bh False t in if bd then s - 86400 * (mday_at s - 1) else s) = reset_at bs bm bh bd t"
proof -
  show "(if bs then t - sec_of t else t) = reset_at bs False False False t"
    using time_parts [of t] by (simp add: reset_at_def)
  show "(let s = reset_at bs False False False t in if bm then s - 60 * min_of s else s) = reset_at bs bm False False t"
    "(let s = reset_at bs bm False False t in if bh then s - 3600 * hour_of s else s) = reset_at bs bm bh False t"
    unfolding Let_def reset_at_parts by (simp_all add: reset_at_def)
  have "mday_at (reset_at bs bm bh False t) = mday_at t" by (rule same_day(3)) (simp add: reset_at_parts)
  then show "(let s = reset_at bs bm bh False t in if bd then s - 86400 * (mday_at s - 1) else s) = reset_at bs bm bh bd t"
    unfolding Let_def by (simp add: reset_at_def)
qed

lemma reset_all_fields_utc:
  assumes t: "0 \<le> t"
  shows "reset_all_fields utc_clock (utc_tm t) (marks bs bm bh bd) = Inr (utc_tm (reset_at bs bm bh bd t))"
proof -
  define t1 t2 t3 where "t1 = reset_at bs False False False t" and "t2 = reset_at bs bm False False t"
    and "t3 = reset_at bs bm bh False t"
  have nn: "0 \<le> t1" "0 \<le> t2" "0 \<le> t3" using t by (simp_all add: t1_def t2_def t3_def reset_at_nonneg)
  have s1: "(if bs then reset_field utc_clock (utc_tm t) second else Inr (utc_tm t)) = Inr (utc_tm t1)"
    using reset_at_steps(1) [of bs t, folded t1_def] reset_field_utc(1) [OF t] by (cases bs) simp_all
  have s2: "(if bm then reset_field utc_clock (utc_tm t1) minute else Inr (utc_tm t1)) = Inr (utc_tm t2)"
    using reset_at_steps(2) [of bs t bm, unfolded Let_def, folded t1_def t2_def] reset_field_utc(2) [OF nn(1)]
    by (cases bm) simp_all
  have s3: "(if bh then reset_field utc_clock (utc_tm t2) hour_of_day else Inr (utc_tm t2)) = Inr (utc_tm t3)"
    using reset_at_steps(3) [of bs bm t bh, unfolded Let_def, folded t2_def t3_def] reset_field_utc(3) [OF nn(2)]
    by (cases bh) simp_all
  have s4: "(if bd then reset_field utc_clock (utc_tm t3) day_of_month else Inr (utc_tm t3)) =
      Inr (utc_tm (reset_at bs bm bh bd t))"
    using reset_at_steps(4) [of bs bm bh t bd, unfolded Let_def, folded t3_def] reset_field_utc(4) [OF nn(3)]
    by (cases bd) simp_all
  have r: "reset_all_fields ck d (marks bs bm bh bd) =
      rbind (if bs then reset_field ck d second else Inr d) (\<lambda>d.
      rbind (if bm then reset_field ck d minute else Inr d) (\<lambda>d.
      rbind (if bh then reset_field ck d hour_of_day else Inr d) (\<lambda>d.
      if bd then reset_field ck d day_of_month else Inr d)))" for ck d
    by (simp add: reset_all_fields_def cron_fields_def reset_fields_Cons reset_fields_Nil)
  show ?thesis unfolding r s1 by (simp only: rbind_simps s2 s3 s4)
qed

section \<open>Searching a field\<close>

lemma next_set_bit_Some:
  assumes "next_set_bit a v = Some n"
  shows "v \<le> n" "bit_test a n" "\<And>i. v \<le> i \<Longrightarrow> i < n \<Longrightarrow> \<not> bit_test a i"
proof -
  have f: "find (\<lambda>i. a ! i) [v..<length a] = Some n" using assms by (simp add: next_set_bit_def)
  from f obtain k where k: "k < length [v..<length a]" "a ! ([v..<length a] ! k)" "n = [v..<length a] ! k"
    "\<forall>j<k. \<not> a ! ([v..<length a] ! j)" by (auto simp: find_Some_iff)
  then have n: "n = v + k" "v + k < length a" by auto
  then show "v \<le> n" "bit_test a n" using k by (simp_all add: bit_test_def)
  fix i assume "v \<le> i" "i < n"
  then have "i - v < k" "v + (i - v) = i" "v + (i - v) < length a" using n by auto
  then have "\<not> a ! i" using k(4) [rule_format, of "i - v"] by simp
  then show "\<not> bit_test a i" by (simp add: bit_test_def)
qed

lemma next_set_bit_None: "next_set_bit a v = None \<longleftrightarrow> (\<forall>i \<ge> v. \<not> bit_test a i)"
  by (auto simp: next_set_bit_def find_None_iff bit_test_def)

lemma next_set_bit_here: "bit_test a v \<Longrightarrow> next_set_bit a v = Some v"
  using next_set_bit_Some(3) [of a v _ v] next_set_bit_Some(1) [of a v] next_set_bit_None [of a v]
  by (cases "next_set_bit a v") (auto, metis le_neq_implies_less order_refl)

text \<open>The first bit of a field.\<close>

definition first_bit :: "bool list \<Rightarrow> nat" where
  "first_bit a = the (next_set_bit a 0)"

lemma first_bit:
  assumes "\<not> bit_none a"
  shows "next_set_bit a 0 = Some (first_bit a)" "bit_test a (first_bit a)" "i < first_bit a \<Longrightarrow> \<not> bit_test a i"
proof -
  have "next_set_bit a 0 \<noteq> None" using assms by (auto simp: next_set_bit_None bit_none_iff)
  then show n: "next_set_bit a 0 = Some (first_bit a)" by (auto simp: first_bit_def)
  show "bit_test a (first_bit a)" "i < first_bit a \<Longrightarrow> \<not> bit_test a i"
    using next_set_bit_Some [OF n] by simp_all
qed

text \<open>
  What the search needs of a field: putting a value there, carrying into the next larger field and
  resetting the smaller ones are arithmetic on the instant.
\<close>

locale utc_field =
  fixes f g :: cron_field and part :: "int \<Rightarrow> nat" and width :: nat
    and put :: "int \<Rightarrow> nat \<Rightarrow> int" and up :: "int \<Rightarrow> int"
    and smaller :: "bool \<Rightarrow> bool \<Rightarrow> bool \<Rightarrow> bool \<Rightarrow> bool"
  assumes part_less: "0 \<le> t \<Longrightarrow> part t < width"
    and part_value: "0 \<le> t \<Longrightarrow> field_value (utc_tm t) f = int (part t)"
    and put_value: "0 \<le> t \<Longrightarrow> v < width \<Longrightarrow> set_field utc_clock (utc_tm t) f (int v) = Inr (utc_tm (put t v))"
    and put_nonneg: "0 \<le> t \<Longrightarrow> v < width \<Longrightarrow> 0 \<le> put t v"
    and part_put: "0 \<le> t \<Longrightarrow> v < width \<Longrightarrow> part (put t v) = v"
    and carry: "0 \<le> t \<Longrightarrow> rbind (add_to_field utc_clock (utc_tm t) g 1) (\<lambda>d. reset_field utc_clock d f) = Inr (utc_tm (up t))"
    and carry_nonneg: "0 \<le> t \<Longrightarrow> 0 \<le> up t"
    and part_reset: "0 \<le> t \<Longrightarrow> smaller bs bm bh bd \<Longrightarrow> part (reset_at bs bm bh bd t) = part t"
begin

definition move :: "bool list \<Rightarrow> bool \<Rightarrow> bool \<Rightarrow> bool \<Rightarrow> bool \<Rightarrow> int \<Rightarrow> int" where
  "move a bs bm bh bd t =
     (case next_set_bit a (part t) of
        Some n \<Rightarrow> if n = part t then t else reset_at bs bm bh bd (put t n)
      | None \<Rightarrow> reset_at bs bm bh bd (put (up t) (first_bit a)))"

lemma find_next_value_utc:
  assumes t: "0 \<le> t" and a: "length a = width" "\<not> bit_none a" and sm: "smaller bs bm bh bd"
  shows "\<exists>n. find_next_value utc_clock a (utc_tm t) (part t) f g (marks bs bm bh bd) =
      Inr (Some n, utc_tm (move a bs bm bh bd t)) \<and> (n = part t \<longleftrightarrow> bit_test a (part t))"
proof -
  have set: "rbind (set_field utc_clock (utc_tm s) f (int n)) (\<lambda>d. rbind (reset_all_fields utc_clock d (marks bs bm bh bd)) k)
      = k (utc_tm (reset_at bs bm bh bd (put s n)))"
    and same: "field_value (utc_tm (reset_at bs bm bh bd (put s n))) f = int n"
    if "0 \<le> s" "bit_test a n" for s n and k :: "tm \<Rightarrow> cron_error + nat option \<times> tm"
  proof -
    have n: "n < width" using that a by (simp add: bit_test_def)
    show "rbind (set_field utc_clock (utc_tm s) f (int n)) (\<lambda>d. rbind (reset_all_fields utc_clock d (marks bs bm bh bd)) k)
        = k (utc_tm (reset_at bs bm bh bd (put s n)))"
      by (simp add: put_value [OF that(1) n] reset_all_fields_utc [OF put_nonneg [OF that(1) n]])
    show "field_value (utc_tm (reset_at bs bm bh bd (put s n))) f = int n"
      using part_value [OF reset_at_nonneg [OF put_nonneg [OF that(1) n]]]
        part_reset [OF put_nonneg [OF that(1) n] sm] part_put [OF that(1) n] by simp
  qed
  show ?thesis
  proof (cases "next_set_bit a (part t)")
    case (Some n)
    note n = next_set_bit_Some [OF Some]
    show ?thesis
    proof (cases "n = part t")
      case True
      then show ?thesis using Some n by (auto simp: find_next_value_def move_def)
    next
      case False
      then have "\<not> bit_test a (part t)" using n by (metis le_neq_implies_less order_refl)
      then show ?thesis using Some False set [OF t n(2)] same [OF t n(2)]
        by (simp add: find_next_value_def move_def index_int_def)
    qed
  next
    case None
    note n = first_bit [OF a(2)]
    have "\<not> bit_test a (part t)" using None by (simp add: next_set_bit_None)
    moreover from this have "first_bit a \<noteq> part t" using n(2) by auto
    moreover have "rbind (add_to_field utc_clock (utc_tm t) g 1) (\<lambda>date. rbind (reset_field utc_clock date f)
        (\<lambda>date. Inr (next_set_bit a 0, date))) = Inr (Some (first_bit a), utc_tm (up t))"
      using carry [OF t] n(1) by (simp only: rbind_assoc [symmetric]) simp
    ultimately have "find_next_value utc_clock a (utc_tm t) (part t) f g (marks bs bm bh bd) =
        Inr (Some (first_bit a), utc_tm (move a bs bm bh bd t))"
      unfolding find_next_value_def None option.case
      using None set [OF carry_nonneg [OF t] n(2)] same [OF carry_nonneg [OF t] n(2)]
      by (simp only: rbind_simps prod.case) (simp add: move_def index_int_def del: rbind_eq_Inr_iff)
    then show ?thesis using \<open>\<not> bit_test a (part t)\<close> n(2) by auto
  qed
qed

end

lemma field_parts:
  "int (nat (sec_of t)) = sec_of t" "int (nat (min_of t)) = min_of t" "int (nat (hour_of t)) = hour_of t"
  using time_ranges [of t] by simp_all

lemma put_second_parts:
  assumes "0 \<le> v" "v < 60"
  shows "day_number (t + (v - sec_of t)) = day_number t" "hour_of (t + (v - sec_of t)) = hour_of t"
    "min_of (t + (v - sec_of t)) = min_of t" "sec_of (t + (v - sec_of t)) = v"
  using time_parts [of t]
  by (intro time_parts_unique [where n = "day_number t" and h = "hour_of t" and m = "min_of t" and s = v];
      simp add: time_ranges assms)+

lemma put_minute_parts:
  assumes "0 \<le> v" "v < 60"
  shows "day_number (t + 60 * (v - min_of t)) = day_number t" "hour_of (t + 60 * (v - min_of t)) = hour_of t"
    "min_of (t + 60 * (v - min_of t)) = v" "sec_of (t + 60 * (v - min_of t)) = sec_of t"
  using time_parts [of t]
  by (intro time_parts_unique [where n = "day_number t" and h = "hour_of t" and m = v and s = "sec_of t"];
      simp add: time_ranges assms algebra_simps)+

lemma put_hour_parts:
  assumes "0 \<le> v" "v < 24"
  shows "day_number (t + 3600 * (v - hour_of t)) = day_number t" "hour_of (t + 3600 * (v - hour_of t)) = v"
    "min_of (t + 3600 * (v - hour_of t)) = min_of t" "sec_of (t + 3600 * (v - hour_of t)) = sec_of t"
  using time_parts [of t]
  by (intro time_parts_unique [where n = "day_number t" and h = v and m = "min_of t" and s = "sec_of t"];
      simp add: time_ranges assms algebra_simps)+

lemma carry_parts:
  "sec_of (t + 60) = sec_of t" "min_of (t + 3600) = min_of t" "hour_of (t + 86400) = hour_of t"
proof -
  have "(t + 3600) div 60 = t div 60 + 60" "(t + 86400) div 3600 = t div 3600 + 24"
    using div_mult_self1 [of 60 t 60] div_mult_self1 [of 3600 t 24] by simp_all
  then show "sec_of (t + 60) = sec_of t" "min_of (t + 3600) = min_of t" "hour_of (t + 86400) = hour_of t"
    by (simp_all add: sec_of_def min_of_def hour_of_def)
qed

definition put_second :: "int \<Rightarrow> nat \<Rightarrow> int" where "put_second t v = t + (int v - sec_of t)"
definition put_minute :: "int \<Rightarrow> nat \<Rightarrow> int" where "put_minute t v = t + 60 * (int v - min_of t)"
definition put_hour :: "int \<Rightarrow> nat \<Rightarrow> int" where "put_hour t v = t + 3600 * (int v - hour_of t)"
definition put_month :: "int \<Rightarrow> nat \<Rightarrow> int" where
  "put_month t v = 86400 * days_of_civil (year_at t) v 1 + time_of_day t"

interpretation sec: utc_field second minute "\<lambda>t. nat (sec_of t)" 60 put_second "\<lambda>t. t + 60 - sec_of t"
  "\<lambda>bs bm bh bd. \<not> bs \<and> \<not> bm \<and> \<not> bh \<and> \<not> bd"
proof unfold_locales
  fix t :: int and v :: nat
  assume t: "0 \<le> t"
  show "0 \<le> t + 60 - sec_of t" using parts_nonneg(1) [OF t] by simp
  show "nat (sec_of t) < 60" "field_value (utc_tm t) second = int (nat (sec_of t))"
    using time_ranges [of t] by simp_all
  show "rbind (add_to_field utc_clock (utc_tm t) minute 1) (\<lambda>d. reset_field utc_clock d second) =
      Inr (utc_tm (t + 60 - sec_of t))"
    using add_to_field_utc(1) [OF t] reset_field_utc(1) [of "t + 60"] t by (simp add: carry_parts)
  assume v: "v < 60"
  then show "set_field utc_clock (utc_tm t) second (int v) = Inr (utc_tm (put_second t v))" "0 \<le> put_second t v"
      "nat (sec_of (put_second t v)) = v"
    using set_field_utc(1) [OF t] put_second_parts(4) [of "int v" t] parts_nonneg(1) [OF t]
    by (simp_all add: put_second_def)
qed auto

interpretation mins: utc_field minute hour_of_day "\<lambda>t. nat (min_of t)" 60 put_minute "\<lambda>t. t + 3600 - 60 * min_of t"
  "\<lambda>bs bm bh bd. \<not> bm \<and> \<not> bh \<and> \<not> bd"
proof unfold_locales
  fix t :: int and v :: nat
  assume t: "0 \<le> t"
  show "0 \<le> t + 3600 - 60 * min_of t" using parts_nonneg(2) [OF t] by simp
  show "nat (min_of t) < 60" "field_value (utc_tm t) minute = int (nat (min_of t))"
    using time_ranges [of t] by simp_all
  show "rbind (add_to_field utc_clock (utc_tm t) hour_of_day 1) (\<lambda>d. reset_field utc_clock d minute) =
      Inr (utc_tm (t + 3600 - 60 * min_of t))"
    using add_to_field_utc(2) [OF t] reset_field_utc(2) [of "t + 3600"] t by (simp add: carry_parts)
  assume v: "v < 60"
  then show "set_field utc_clock (utc_tm t) minute (int v) = Inr (utc_tm (put_minute t v))" "0 \<le> put_minute t v"
      "nat (min_of (put_minute t v)) = v"
    using set_field_utc(2) [OF t] put_minute_parts(3) [of "int v" t] parts_nonneg(2) [OF t]
    by (simp_all add: put_minute_def)
qed (auto simp: reset_at_parts)

interpretation hrs: utc_field hour_of_day day_of_week "\<lambda>t. nat (hour_of t)" 24 put_hour "\<lambda>t. t + 86400 - 3600 * hour_of t"
  "\<lambda>bs bm bh bd. \<not> bh \<and> \<not> bd"
proof unfold_locales
  fix t :: int and v :: nat
  assume t: "0 \<le> t"
  show "0 \<le> t + 86400 - 3600 * hour_of t" using parts_nonneg(3) [OF t] by simp
  show "nat (hour_of t) < 24" "field_value (utc_tm t) hour_of_day = int (nat (hour_of t))"
    using time_ranges [of t] by simp_all
  show "rbind (add_to_field utc_clock (utc_tm t) day_of_week 1) (\<lambda>d. reset_field utc_clock d hour_of_day) =
      Inr (utc_tm (t + 86400 - 3600 * hour_of t))"
    using add_to_field_utc(3) [OF t] reset_field_utc(3) [of "t + 86400"] t by (simp add: carry_parts)
  assume v: "v < 24"
  then show "set_field utc_clock (utc_tm t) hour_of_day (int v) = Inr (utc_tm (put_hour t v))" "0 \<le> put_hour t v"
      "nat (hour_of (put_hour t v)) = v"
    using set_field_utc(3) [OF t] put_hour_parts(2) [of "int v" t] parts_nonneg(3) [OF t]
    by (simp_all add: put_hour_def)
qed (auto simp: reset_at_parts)

lemma put_month_date:
  assumes "m < 12"
  shows "year_at (put_month t m) = year_at t" "mon_at (put_month t m) = m" "mday_at (put_month t m) = 1"
    "day_number (put_month t m) = days_of_civil (year_at t) m 1" "time_of_day (put_month t m) = time_of_day t"
proof -
  have "valid_date (year_at t) m 1" using assms days_in_month_bounds [OF assms, of "year_at t"] by (simp add: valid_date_def)
  then show "year_at (put_month t m) = year_at t" "mon_at (put_month t m) = m" "mday_at (put_month t m) = 1"
    unfolding put_month_def by (simp_all add: date_of_instant)
  show "day_number (put_month t m) = days_of_civil (year_at t) m 1" "time_of_day (put_month t m) = time_of_day t"
    unfolding put_month_def by (simp_all add: instant_unique time_of_day_range)
qed

lemma next_year_date:
  "year_at (next_year t) = year_at t + 1" "time_of_day (next_year t) = time_of_day t"
proof -
  have "valid_date (year_at t + 1) 0 (if valid_date (year_at t + 1) (mon_at t) (mday_at t) then mday_at t else 1)"
    using mday_at_range [of t] by (simp add: valid_date_def days_in_month_def)
  then show "year_at (next_year t) = year_at t + 1" unfolding next_year_def by (rule date_of_instant(1))
  show "time_of_day (next_year t) = time_of_day t"
    unfolding next_year_def by (simp add: instant_unique time_of_day_range)
qed

lemma reset_day_date: "year_at (reset_at bs bm bh bd t) = year_at t" "mon_at (reset_at bs bm bh bd t) = mon_at t"
proof -
  define d where "d = (if bd then 1 else mday_at t)"
  have "valid_date (year_at t) (mon_at t) d"
    using date_at(1) [of t] days_in_month_bounds [OF mon_at_less, of "year_at t" t] by (auto simp: d_def valid_date_def)
  moreover have "day_number (reset_at bs bm bh bd t) = days_of_civil (year_at t) (mon_at t) d"
    using date_at(2) [of t] days_of_civil_linear [of "year_at t" "mon_at t" "mday_at t"]
    by (auto simp: reset_at_parts d_def)
  ultimately show "year_at (reset_at bs bm bh bd t) = year_at t" "mon_at (reset_at bs bm bh bd t) = mon_at t"
    by (rule date_of_day)+
qed

interpretation mon: utc_field month year mon_at 12 put_month next_year "\<lambda>bs bm bh bd. True"
proof unfold_locales
  fix t :: int and v :: nat and bs bm bh bd
  assume t: "0 \<le> t"
  show "mon_at t < 12" by (rule mon_at_less)
  show "field_value (utc_tm t) month = int (mon_at t)" by (simp add: date_at)
  show "rbind (add_to_field utc_clock (utc_tm t) year 1) (\<lambda>d. reset_field utc_clock d month) = Inr (utc_tm (next_year t))"
    by (rule next_year_utc [OF t])
  have "0 \<le> days_of_civil (year_at t + 1) 0 d" if "1 \<le> d" for d
    using year_at_1970 [OF t] that by (intro days_of_civil_nonneg) auto
  then show "0 \<le> next_year t"
    using mday_at_range(1) [of t] time_of_day_range(1) [of t] by (auto simp: next_year_def)
  show "mon_at (reset_at bs bm bh bd t) = mon_at t" by (rule reset_day_date)
  assume v: "v < 12"
  show "set_field utc_clock (utc_tm t) month (int v) = Inr (utc_tm (put_month t v))"
    using set_month_utc [OF t v] by (simp add: put_month_def)
  show "mon_at (put_month t v) = v" by (rule put_month_date [OF v])
  have "0 \<le> days_of_civil (year_at t) v 1" using year_at_1970 [OF t] v by (intro days_of_civil_nonneg) auto
  then show "0 \<le> put_month t v" using time_of_day_range(1) [of t] by (simp add: put_month_def)
qed

end
