(* ===== verification/Cron_Next.thy ===== *)
theory Cron_Next
  imports Cron_Utc
begin

text \<open>
  Correctness of the cron search in UTC. An occurrence is an instant all of whose fields match; the
  search moves from instant to instant without jumping over an occurrence, the moves end, and where
  they end every field matches or the search horizon is exceeded.
\<close>

section \<open>Months in order\<close>

definition month_start :: "int \<Rightarrow> int" where
  "month_start k = days_of_civil (k div 12) (nat (k mod 12)) 1"

definition month_index :: "int \<Rightarrow> int" where
  "month_index t = 12 * year_at t + int (mon_at t)"

lemma month_start_index: "m < 12 \<Longrightarrow> month_start (12 * y + int m) = days_of_civil y m 1"
  by (simp add: month_start_def)

lemma month_start_step:
  "month_start (k + 1) = month_start k + days_in_month (k div 12) (k mod 12)"
proof -
  define y m where "y = k div 12" and "m = nat (k mod 12)"
  have m: "m < 12" and k: "k = 12 * y + int m" by (simp_all add: y_def m_def)
  have l: "days_in_month (k div 12) (k mod 12) = days_in_month y (int m)" by (simp add: y_def m_def)
  show ?thesis
  proof (cases "m = 11")
    case True
    have "month_start (k + 1) = days_of_civil (y + 1) 0 1" using True k month_start_index [of 0 "y + 1"] by (simp add: add.commute)
    moreover have "days_of_civil (y + 1) 0 1 = days_of_civil y 11 1 + days_in_month y 11"
      using days_before_year_step [of y] days_before_month_step [of 11 y] days_before_month_12 [of y]
      by (simp add: days_of_civil_def)
    ultimately show ?thesis using True k l month_start_index [of 11 y] by simp
  next
    case False
    then have "month_start (k + 1) = days_of_civil y (Suc m) 1" using m k month_start_index [of "Suc m" y] by (simp add: algebra_simps)
    moreover have "days_of_civil y (Suc m) 1 = days_of_civil y m 1 + days_in_month y (int m)"
      using days_before_month_step [OF m, of y] by (simp add: days_of_civil_def)
    ultimately show ?thesis using k l month_start_index [OF m, of y] by simp
  qed
qed

lemma month_length: "28 \<le> days_in_month (k div 12) (k mod 12)" "days_in_month (k div 12) (k mod 12) \<le> 31"
  using days_in_month_bounds [of "nat (k mod 12)" "k div 12"] by simp_all

lemma month_start_mono: "j \<le> k \<Longrightarrow> month_start j \<le> month_start k"
proof (induction "nat (k - j)" arbitrary: k)
  case (Suc n)
  then have "month_start j \<le> month_start (k - 1)" by (intro Suc.hyps) auto
  then show ?case using month_start_step [of "k - 1"] month_length(1) [of "k - 1"] by simp
qed simp

lemma month_index_bounds:
  "month_start (month_index t) \<le> day_number t" "day_number t < month_start (month_index t + 1)"
  "day_number t = month_start (month_index t) + (mday_at t - 1)"
proof -
  have m: "month_start (month_index t) = days_of_civil (year_at t) (mon_at t) 1"
    unfolding month_index_def by (rule month_start_index [OF mon_at_less])
  show d: "day_number t = month_start (month_index t) + (mday_at t - 1)"
    using date_at(2) [of t] days_of_civil_linear [of "year_at t" "mon_at t" "mday_at t"] m by simp
  show "month_start (month_index t) \<le> day_number t" using d mday_at_range(1) [of t] by simp
  have "month_index t div 12 = year_at t" "month_index t mod 12 = int (mon_at t)"
    using mon_at_less [of t] by (simp_all add: month_index_def)
  then show "day_number t < month_start (month_index t + 1)"
    using d month_start_step [of "month_index t"] date_at(1) [of t] by (simp add: valid_date_def)
qed

lemma month_index_mono: "s \<le> t \<Longrightarrow> month_index s \<le> month_index t"
proof (rule ccontr)
  assume st: "s \<le> t" and "\<not> month_index s \<le> month_index t"
  then have "month_start (month_index t + 1) \<le> month_start (month_index s)" by (intro month_start_mono) simp
  then show False using month_index_bounds [of s] month_index_bounds [of t] day_number_mono [OF st] by linarith
qed

lemma year_at_mono: "s \<le> t \<Longrightarrow> year_at s \<le> year_at t"
  using month_index_mono [of s t] mon_at_less [of s] mon_at_less [of t] by (simp add: month_index_def)

section \<open>Minutes and hours in order\<close>

definition hour_number :: "int \<Rightarrow> int" where "hour_number t = 24 * day_number t + hour_of t"
definition minute_number :: "int \<Rightarrow> int" where "minute_number t = 60 * hour_number t + min_of t"

lemma number_parts: "t = 60 * minute_number t + sec_of t"
  using time_parts [of t] by (simp add: minute_number_def hour_number_def)

lemma minute_number_mono: "s \<le> t \<Longrightarrow> minute_number s \<le> minute_number t"
  using number_parts [of s] number_parts [of t] time_ranges [of s] time_ranges [of t] by linarith

lemma hour_number_mono: "s \<le> t \<Longrightarrow> hour_number s \<le> hour_number t"
  using minute_number_mono [of s t] time_ranges [of s] time_ranges [of t] by (simp add: minute_number_def)

lemma reset_at_minute:
  "minute_number (reset_at bs False False False t) = minute_number t"
  "minute_number (reset_at bs True False False t) = 60 * hour_number t"
  "minute_number (reset_at bs True True False t) = 1440 * day_number t"
  by (simp_all add: minute_number_def hour_number_def reset_at_parts)

section \<open>Occurrences\<close>

definition sec_ok :: "cronexpr \<Rightarrow> int \<Rightarrow> bool" where "sec_ok c u = bit_test (seconds c) (nat (sec_of u))"
definition min_ok :: "cronexpr \<Rightarrow> int \<Rightarrow> bool" where "min_ok c u = bit_test (minutes c) (nat (min_of u))"
definition hour_ok :: "cronexpr \<Rightarrow> int \<Rightarrow> bool" where "hour_ok c u = bit_test (hours c) (nat (hour_of u))"
definition mon_ok :: "cronexpr \<Rightarrow> int \<Rightarrow> bool" where "mon_ok c u = bit_test (months c) (mon_at u)"
definition day_ok :: "cronexpr \<Rightarrow> int \<Rightarrow> bool" where
  "day_ok c u = matches_day cron_standard_traits (utc_tm u) c"

text \<open>The specification: the instant \<open>u\<close>, read in UTC, matches every field of the expression.\<close>

definition occurs :: "cronexpr \<Rightarrow> int \<Rightarrow> bool" where
  "occurs c u \<longleftrightarrow> sec_ok c u \<and> min_ok c u \<and> hour_ok c u \<and> day_ok c u \<and> mon_ok c u"

section \<open>Moves\<close>

lemma sec_move:
  assumes t: "0 \<le> t" and a: "length (seconds c) = 60" "\<not> bit_none (seconds c)"
  defines "t1 \<equiv> sec.move (seconds c) False False False False t"
  shows "t \<le> t1" "sec_ok c t1" "sec_ok c t \<longleftrightarrow> t1 = t" "\<And>u. t \<le> u \<Longrightarrow> sec_ok c u \<Longrightarrow> t1 \<le> u"
proof -
  note r = time_ranges
  have bit: "n < 60" if "bit_test (seconds c) n" for n using that a by (simp add: bit_test_def)
  have "t \<le> t1 \<and> sec_ok c t1 \<and> (sec_ok c t \<longleftrightarrow> t1 = t) \<and> (\<forall>u \<ge> t. sec_ok c u \<longrightarrow> t1 \<le> u)"
  proof (cases "next_set_bit (seconds c) (nat (sec_of t))")
    case (Some n)
    note n = next_set_bit_Some [OF Some]
    have t1: "t1 = t + (int n - sec_of t)" using Some by (auto simp: t1_def sec.move_def put_second_def r)
    have s1: "sec_of t1 = int n" unfolding t1 using put_second_parts(4) bit [OF n(2)] by simp
    have "t1 \<le> u" if u: "t \<le> u" "sec_ok c u" for u
    proof (cases "minute_number u = minute_number t")
      case True
      then have "sec_of t \<le> sec_of u" using u number_parts [of t] number_parts [of u] by linarith
      then have "n \<le> nat (sec_of u)" using n(3) [of "nat (sec_of u)"] u(2) by (auto simp: sec_ok_def not_less [symmetric])
      then show ?thesis using True number_parts [of t] number_parts [of u] r(5) [of u] unfolding t1 by linarith
    next
      case False
      then have "minute_number t + 1 \<le> minute_number u" using minute_number_mono [OF u(1)] by linarith
      then show ?thesis using number_parts [of t] number_parts [of u] r(5,6) [of u] bit [OF n(2)] unfolding t1 by linarith
    qed
    moreover have "sec_ok c t1" using s1 n(2) by (simp add: sec_ok_def)
    moreover have "t \<le> t1" using n(1) t1 by simp
    moreover have "sec_ok c t \<Longrightarrow> t1 = t" using next_set_bit_here Some t1 r(5) [of t] by (auto simp: sec_ok_def)
    ultimately show ?thesis by auto
  next
    case None
    note n = first_bit [OF a(2)]
    have t1: "t1 = t + 60 - sec_of t + int (first_bit (seconds c))"
    proof -
      have "sec_of (t + 60 - sec_of t) = 0" using put_second_parts(4) [of 0 "t + 60"] by (simp add: carry_parts)
      then show ?thesis using None by (simp add: t1_def sec.move_def put_second_def)
    qed
    have "t1 = 60 * minute_number t + 60 + int (first_bit (seconds c))" using t1 number_parts [of t] by simp
    moreover have "t1 = (t + 60) + (int (first_bit (seconds c)) - sec_of (t + 60))" using t1 by (simp add: carry_parts)
    then have "sec_of t1 = int (first_bit (seconds c))" using put_second_parts(4) bit [OF n(2)] by simp
    moreover have "60 * minute_number t + 60 + int (first_bit (seconds c)) \<le> u" if u: "t \<le> u" "sec_ok c u" for u
    proof -
      have "nat (sec_of u) < nat (sec_of t)" using None u(2) by (auto simp: next_set_bit_None sec_ok_def not_le [symmetric])
      then have "minute_number t \<noteq> minute_number u" using u number_parts [of t] number_parts [of u] r(5) [of u] by linarith
      then have "minute_number t + 1 \<le> minute_number u" using minute_number_mono [OF u(1)] by linarith
      moreover have "first_bit (seconds c) \<le> nat (sec_of u)"
        using n(3) [of "nat (sec_of u)"] u(2) by (auto simp: sec_ok_def not_less [symmetric])
      then have "int (first_bit (seconds c)) \<le> sec_of u" using r(5) [of u] by linarith
      ultimately show ?thesis using number_parts [of u] by linarith
    qed
    moreover have "\<not> sec_ok c t" using None by (simp add: next_set_bit_None sec_ok_def)
    moreover have "t < t1" using t1 r(6) [of t] by simp
    ultimately show ?thesis using n(2) by (auto simp: sec_ok_def)
  qed
  then show "t \<le> t1" "sec_ok c t1" "sec_ok c t \<longleftrightarrow> t1 = t" "\<And>u. t \<le> u \<Longrightarrow> sec_ok c u \<Longrightarrow> t1 \<le> u" by auto
qed

text \<open>
  A later move: it makes progress, keeps or clears the second, and stays at or before the minute of
  every later instant that matches the field.
\<close>

definition moves :: "bool \<Rightarrow> (int \<Rightarrow> bool) \<Rightarrow> int \<Rightarrow> int \<Rightarrow> bool" where
  "moves bs ok t t2 \<longleftrightarrow>
     minute_number t < minute_number t2 \<and> sec_of t2 = (if bs then 0 else sec_of t) \<and>
     (\<forall>u \<ge> t. ok u \<longrightarrow> minute_number t2 \<le> minute_number u)"

lemma moves_less: "moves bs ok t t2 \<Longrightarrow> t < t2"
  using minute_number_mono [of t2 t] by (auto simp: moves_def not_le [symmetric])

lemma put_minute_number:
  "v < 60 \<Longrightarrow> minute_number (put_minute t v) = 60 * hour_number t + int v" "v < 60 \<Longrightarrow> sec_of (put_minute t v) = sec_of t"
  using put_minute_parts [of "int v" t] by (simp_all add: put_minute_def minute_number_def hour_number_def)

lemma min_move:
  assumes t: "0 \<le> t" and a: "length (minutes c) = 60" "\<not> bit_none (minutes c)" and no: "\<not> min_ok c t"
  shows "moves bs (min_ok c) t (mins.move (minutes c) bs False False False t)"
proof -
  note r = time_ranges
  have bit: "n < 60" if "bit_test (minutes c) n" for n using that a by (simp add: bit_test_def)
  have here: "minute_number u = 60 * hour_number u + min_of u" for u by (simp add: minute_number_def)
  have later: "hour_number t + 1 \<le> hour_number u" if "t \<le> u" "hour_number u \<noteq> hour_number t" for u
    using hour_number_mono [OF that(1)] that(2) by linarith
  have order: "min_of t \<le> min_of u" if "t \<le> u" "hour_number u = hour_number t" for u
    using minute_number_mono [OF that(1)] here [of t] here [of u] that(2) by simp
  show ?thesis
  proof (cases "next_set_bit (minutes c) (nat (min_of t))")
    case (Some n)
    note n = next_set_bit_Some [OF Some]
    have ne: "n \<noteq> nat (min_of t)" using no n(2) by (auto simp: min_ok_def)
    then have gt: "min_of t < int n" using n(1) r(3) [of t] by linarith
    have "60 * hour_number t + int n \<le> minute_number u" if u: "t \<le> u" "min_ok c u" for u
    proof (cases "hour_number u = hour_number t")
      case True
      then have "n \<le> nat (min_of u)" using n(3) [of "nat (min_of u)"] u(2) order [OF u(1) True]
        by (auto simp: min_ok_def not_less [symmetric])
      then show ?thesis using True here [of u] r(3) [of u] by linarith
    next
      case False
      then show ?thesis using later [OF u(1)] here [of u] r(3) [of u] bit [OF n(2)] by simp
    qed
    then show ?thesis using Some ne gt here [of t] put_minute_number [OF bit [OF n(2)], of t]
      by (auto simp: moves_def mins.move_def reset_at_minute reset_at_parts)
  next
    case None
    define n where "n = first_bit (minutes c)"
    note nb = first_bit [OF a(2), folded n_def]
    define s where "s = t + 3600 - 60 * min_of t"
    have s: "hour_number s = hour_number t + 1" "sec_of s = sec_of t"
    proof -
      have s': "s = (t + 3600) + 60 * (0 - min_of (t + 3600))" by (simp add: s_def carry_parts)
      have "s = 3600 * hour_number t + 3600 + sec_of t"
        using number_parts [of t] here [of t] by (simp add: s_def)
      moreover have "min_of s = 0" unfolding s' by (rule put_minute_parts) simp_all
      ultimately have e: "3600 * hour_number s + sec_of s = 3600 * hour_number t + 3600 + sec_of t"
        using number_parts [of s] here [of s] by linarith
      then show "hour_number s = hour_number t + 1" using r(5,6) [of s] r(5,6) [of t] by linarith
      with e show "sec_of s = sec_of t" by simp
    qed
    have "60 * hour_number t + 60 + int n \<le> minute_number u" if u: "t \<le> u" "min_ok c u" for u
    proof -
      have "nat (min_of u) < nat (min_of t)" using None u(2) by (auto simp: next_set_bit_None min_ok_def not_le [symmetric])
      then have "hour_number u \<noteq> hour_number t" using order [OF u(1)] r(3) [of t] by linarith
      moreover have "n \<le> nat (min_of u)" using nb(3) [of "nat (min_of u)"] u(2) by (auto simp: min_ok_def not_less [symmetric])
      ultimately show ?thesis using later [OF u(1)] here [of u] r(3) [of u] by linarith
    qed
    then show ?thesis using None here [of t] r(4) [of t] put_minute_number [OF bit [OF nb(2)], of s] s
      by (auto simp: moves_def mins.move_def n_def [symmetric] s_def [symmetric] reset_at_minute reset_at_parts)
  qed
qed

lemma put_hour_number:
  "v < 24 \<Longrightarrow> hour_number (put_hour t v) = 24 * day_number t + int v" "v < 24 \<Longrightarrow> sec_of (put_hour t v) = sec_of t"
  using put_hour_parts [of "int v" t] by (simp_all add: put_hour_def hour_number_def)

lemma hour_move:
  assumes t: "0 \<le> t" and a: "length (hours c) = 24" "\<not> bit_none (hours c)" and no: "\<not> hour_ok c t"
  shows "moves bs (hour_ok c) t (hrs.move (hours c) bs True False False t)"
proof -
  note r = time_ranges
  have bit: "n < 24" if "bit_test (hours c) n" for n using that a by (simp add: bit_test_def)
  have here: "hour_number u = 24 * day_number u + hour_of u" for u by (simp add: hour_number_def)
  have later: "day_number t + 1 \<le> day_number u" if "t \<le> u" "day_number u \<noteq> day_number t" for u
    using day_number_mono [OF that(1)] that(2) by linarith
  have order: "hour_of t \<le> hour_of u" if "t \<le> u" "day_number u = day_number t" for u
    using hour_number_mono [OF that(1)] here [of t] here [of u] that(2) by simp
  have move: "moves bs (hour_ok c) t (reset_at bs True False False (put_hour s n))"
    if s: "sec_of s = sec_of t" "hour_number t < 24 * day_number s + int n" and n: "n < 24"
      and least: "\<And>u. t \<le> u \<Longrightarrow> hour_ok c u \<Longrightarrow> 24 * day_number s + int n \<le> hour_number u" for s n
  proof -
    have "minute_number t < 60 * (24 * day_number s + int n)"
      using s(2) r(4) [of t] by (simp add: minute_number_def)
    moreover have "60 * (24 * day_number s + int n) \<le> minute_number u" if "t \<le> u" "hour_ok c u" for u
      using least [OF that] r(3) [of u] by (simp add: minute_number_def)
    ultimately show ?thesis using put_hour_number [OF n, of s] s(1)
      by (simp add: moves_def reset_at_minute reset_at_parts)
  qed
  show ?thesis
  proof (cases "next_set_bit (hours c) (nat (hour_of t))")
    case (Some n)
    note n = next_set_bit_Some [OF Some]
    have ne: "n \<noteq> nat (hour_of t)" using no n(2) by (auto simp: hour_ok_def)
    then have gt: "hour_of t < int n" using n(1) r(1) [of t] by linarith
    have "24 * day_number t + int n \<le> hour_number u" if u: "t \<le> u" "hour_ok c u" for u
    proof (cases "day_number u = day_number t")
      case True
      then have "n \<le> nat (hour_of u)" using n(3) [of "nat (hour_of u)"] u(2) order [OF u(1) True]
        by (auto simp: hour_ok_def not_less [symmetric])
      then show ?thesis using True here [of u] r(1) [of u] by linarith
    next
      case False
      then show ?thesis using later [OF u(1)] here [of u] r(1) [of u] bit [OF n(2)] by simp
    qed
    then show ?thesis using Some ne move [OF refl _ bit [OF n(2)]] gt here [of t] by (simp add: hrs.move_def)
  next
    case None
    define n where "n = first_bit (hours c)"
    note nb = first_bit [OF a(2), folded n_def]
    define s where "s = t + 86400 - 3600 * hour_of t"
    have s': "s = 86400 * (day_number t + 1) + 3600 * 0 + 60 * min_of t + sec_of t"
      using time_parts [of t] by (simp add: s_def)
    have s: "day_number s = day_number t + 1" "sec_of s = sec_of t"
      by (rule time_parts_unique [OF s']; simp add: r)+
    have "24 * day_number t + 24 + int n \<le> hour_number u" if u: "t \<le> u" "hour_ok c u" for u
    proof -
      have "nat (hour_of u) < nat (hour_of t)" using None u(2) by (auto simp: next_set_bit_None hour_ok_def not_le [symmetric])
      then have "day_number u \<noteq> day_number t" using order [OF u(1)] r(1) [of t] by linarith
      moreover have "n \<le> nat (hour_of u)" using nb(3) [of "nat (hour_of u)"] u(2) by (auto simp: hour_ok_def not_less [symmetric])
      ultimately show ?thesis using later [OF u(1)] here [of u] r(1) [of u] by linarith
    qed
    then show ?thesis using None move [of s n] s bit [OF nb(2)] here [of t] r(2) [of t]
      by (simp add: hrs.move_def n_def [symmetric] s_def [symmetric])
  qed
qed

lemma mon_move:
  assumes t: "0 \<le> t" and a: "length (months c) = 12" "\<not> bit_none (months c)" and no: "\<not> mon_ok c t"
  shows "moves bs (mon_ok c) t (mon.move (months c) bs True True True t)"
    "month_index t < month_index (mon.move (months c) bs True True True t)"
proof -
  have bit: "n < 12" if "bit_test (months c) n" for n using that a by (simp add: bit_test_def)
  have move: "moves bs (mon_ok c) t (reset_at bs True True True (put_month s n)) \<and>
      month_index t < month_index (reset_at bs True True True (put_month s n))"
    if s: "sec_of s = sec_of t" "month_index t < 12 * year_at s + int n" and n: "n < 12"
      and least: "\<And>u. t \<le> u \<Longrightarrow> mon_ok c u \<Longrightarrow> 12 * year_at s + int n \<le> month_index u" for s n
  proof -
    define t2 where "t2 = reset_at bs True True True (put_month s n)"
    have d: "day_number t2 = month_start (12 * year_at s + int n)"
      by (simp add: t2_def reset_at_parts put_month_date [OF n] month_start_index [OF n])
    have m: "minute_number t2 = 1440 * day_number t2"
      by (simp add: minute_number_def hour_number_def t2_def reset_at_parts)
    have "month_start (month_index t + 1) \<le> day_number t2" unfolding d using s(2) by (intro month_start_mono) simp
    then have "day_number t < day_number t2" using month_index_bounds(2) [of t] by simp
    then have "minute_number t < minute_number t2" unfolding m
      using time_ranges [of t] by (simp add: minute_number_def hour_number_def)
    moreover have "minute_number t2 \<le> minute_number u" if u: "t \<le> u" "mon_ok c u" for u
    proof -
      have "day_number t2 \<le> month_start (month_index u)" unfolding d by (rule month_start_mono [OF least [OF u]])
      then have "day_number t2 \<le> day_number u" using month_index_bounds(1) [of u] by simp
      then show ?thesis unfolding m using time_ranges [of u] by (simp add: minute_number_def hour_number_def)
    qed
    moreover have "sec_of (put_month s n) = sec_of s"
    proof -
      have "put_month s n = 86400 * days_of_civil (year_at s) n 1 + 3600 * hour_of s + 60 * min_of s + sec_of s"
        by (simp add: put_month_def time_of_day_parts)
      then show ?thesis by (rule time_parts_unique) (simp_all add: time_ranges)
    qed
    moreover have "month_index t2 = 12 * year_at s + int n"
      by (simp add: month_index_def t2_def reset_day_date put_month_date [OF n])
    ultimately show ?thesis using s by (simp add: moves_def t2_def [symmetric]) (simp add: t2_def reset_at_parts)
  qed
  have "moves bs (mon_ok c) t (mon.move (months c) bs True True True t) \<and>
    month_index t < month_index (mon.move (months c) bs True True True t)"
  proof (cases "next_set_bit (months c) (mon_at t)")
    case (Some n)
    note n = next_set_bit_Some [OF Some]
    have ne: "n \<noteq> mon_at t" using no n(2) by (auto simp: mon_ok_def)
    have "12 * year_at t + int n \<le> month_index u" if u: "t \<le> u" "mon_ok c u" for u
    proof (cases "year_at u = year_at t")
      case True
      then have "mon_at t \<le> mon_at u" using month_index_mono [OF u(1)] by (simp add: month_index_def)
      then have "n \<le> mon_at u" using n(3) [of "mon_at u"] u(2) by (auto simp: mon_ok_def not_less [symmetric])
      then show ?thesis using True by (simp add: month_index_def)
    next
      case False
      then show ?thesis using year_at_mono [OF u(1)] bit [OF n(2)] by (simp add: month_index_def)
    qed
    moreover have "month_index t < 12 * year_at t + int n" using ne n(1) by (simp add: month_index_def)
    ultimately show ?thesis using Some ne move [OF refl _ bit [OF n(2)]] by (simp add: mon.move_def)
  next
    case None
    define n where "n = first_bit (months c)"
    note nb = first_bit [OF a(2), folded n_def]
    have "12 * year_at t + 12 + int n \<le> month_index u" if u: "t \<le> u" "mon_ok c u" for u
    proof -
      have "mon_at u < mon_at t" using None u(2) by (auto simp: next_set_bit_None mon_ok_def not_le [symmetric])
      then have "year_at t < year_at u" using month_index_mono [OF u(1)] by (simp add: month_index_def)
      moreover have "n \<le> mon_at u" using nb(3) [of "mon_at u"] u(2) by (auto simp: mon_ok_def not_less [symmetric])
      ultimately show ?thesis by (simp add: month_index_def)
    qed
    moreover have "sec_of (next_year t) = sec_of t"
    proof -
      have "next_year t = 86400 * day_number (next_year t) + 3600 * hour_of t + 60 * min_of t + sec_of t"
        using instant_parts [of "next_year t"] next_year_date(2) [of t] by (simp add: time_of_day_parts)
      then show ?thesis by (rule time_parts_unique) (simp_all add: time_ranges)
    qed
    moreover have "month_index t < 12 * year_at t + 12 + int n" using mon_at_less [of t] by (simp add: month_index_def)
    ultimately show ?thesis using None move [of "next_year t" n] bit [OF nb(2)]
      by (simp add: mon.move_def n_def [symmetric] next_year_date algebra_simps)
  qed
  then show "moves bs (mon_ok c) t (mon.move (months c) bs True True True t)"
    "month_index t < month_index (mon.move (months c) bs True True True t)" by simp_all
qed

section \<open>Days\<close>

lemma day_ok_day: "day_number s = day_number t \<Longrightarrow> day_ok c s = day_ok c t"
proof -
  assume d: "day_number s = day_number t"
  have e: "tm_mday (utc_tm s) = tm_mday (utc_tm t)" "tm_mon (utc_tm s) = tm_mon (utc_tm t)"
    "tm_year (utc_tm s) = tm_year (utc_tm t)" "tm_wday (utc_tm s) = tm_wday (utc_tm t)"
    using same_day [OF d] date_at(3,4) [of s] date_at(3,4) [of t] d by (simp_all add: mday_at_def)
  show ?thesis
    by (simp only: day_ok_def matches_day_def matches_day_of_month_def matches_day_of_week_def nearest_weekday_to_def e)
qed

lemma day_instant [simp]: "day_number (86400 * d) = d"
  using instant_unique(1) [of 0 d] by simp

lemma minute_day: "1440 * day_number u \<le> minute_number u" "minute_number u < 1440 * day_number u + 1440"
  using time_ranges [of u] by (simp_all add: minute_number_def hour_number_def)

definition next_day :: "bool \<Rightarrow> int \<Rightarrow> int" where
  "next_day bs t = reset_at bs True True False (t + 86400)"

lemma next_day:
  "day_number (next_day bs t) = day_number t + 1" "minute_number (next_day bs t) = 1440 * day_number t + 1440"
  "sec_of (next_day bs t) = (if bs then 0 else sec_of t)"
proof -
  have e: "t + 86400 = 86400 * (day_number t + 1) + 3600 * hour_of t + 60 * min_of t + sec_of t"
    using time_parts [of t] by simp
  have "day_number (t + 86400) = day_number t + 1" "sec_of (t + 86400) = sec_of t"
    by (rule time_parts_unique [OF e]; simp add: time_ranges)+
  then show "day_number (next_day bs t) = day_number t + 1" "minute_number (next_day bs t) = 1440 * day_number t + 1440"
    "sec_of (next_day bs t) = (if bs then 0 else sec_of t)"
    by (simp_all add: next_day_def reset_at_parts reset_at_minute)
qed

lemma day_loop:
  assumes "0 \<le> t" "\<not> day_ok c t" "day_number t \<le> d" "d \<le> day_number t + int n" "day_ok c (86400 * d)"
  shows "\<exists>t2. find_next_day_loop n utc_clock cron_standard_traits c md (marks bs True True False) (utc_tm t) =
      Inr (mday_at t2, utc_tm t2) \<and> moves bs (day_ok c) t t2 \<and> day_ok c t2"
  using assms
proof (induction n arbitrary: t md)
  case 0
  then show ?case using day_ok_day [of t "86400 * d" c] by auto
next
  case (Suc n)
  define s where "s = next_day bs t"
  note s = next_day [of bs t, folded s_def]
  have s0: "0 \<le> s" using reset_at_nonneg [of "t + 86400" bs True True False] Suc.prems(1) by (simp add: s_def next_day_def)
  have ne: "d \<noteq> day_number t" using day_ok_day [of t "86400 * d" c] Suc.prems(2,5) by auto
  have later: "day_number t + 1 \<le> day_number u" if "t \<le> u" "day_ok c u" for u
    using day_number_mono [OF that(1)] that(2) day_ok_day [of u t c] Suc.prems(2)
    by (cases "day_number u = day_number t") auto
  have st: "moves bs (day_ok c) t s"
    unfolding moves_def s(2,3)
  proof (intro conjI allI impI)
    show "minute_number t < 1440 * day_number t + 1440" by (rule minute_day)
    fix u assume "t \<le> u" "day_ok c u"
    then show "1440 * day_number t + 1440 \<le> minute_number u" using later [of u] minute_day(1) [of u] by linarith
  qed simp
  have step: "find_next_day_loop (Suc n) utc_clock cron_standard_traits c md (marks bs True True False) (utc_tm t) =
      find_next_day_loop n utc_clock cron_standard_traits c (mday_at (t + 86400)) (marks bs True True False) (utc_tm s)"
    using Suc.prems(2) add_to_field_utc(4) [OF Suc.prems(1)] reset_all_fields_utc [of "t + 86400" bs True True False] Suc.prems(1)
    by (subst find_next_day_loop.simps) (simp add: day_ok_def mday_at_def s_def next_day_def Let_def)
  have md: "mday_at (t + 86400) = mday_at s" by (rule same_day(3)) (simp add: s_def next_day_def reset_at_parts)
  show ?case
  proof (cases "day_ok c s")
    case True
    then have "find_next_day_loop n utc_clock cron_standard_traits c (mday_at s) (marks bs True True False) (utc_tm s) =
        Inr (mday_at s, utc_tm s)" by (subst find_next_day_loop.simps) (simp add: day_ok_def)
    then show ?thesis using step md st True by auto
  next
    case False
    have "day_number s \<le> d" "d \<le> day_number s + int n" using ne Suc.prems(3,4) s(1) by auto
    from Suc.IH [OF s0 False this Suc.prems(5), of "mday_at s"] obtain t2
      where t2: "find_next_day_loop n utc_clock cron_standard_traits c (mday_at s) (marks bs True True False) (utc_tm s) =
          Inr (mday_at t2, utc_tm t2)" "moves bs (day_ok c) s t2" "day_ok c t2" by blast
    have "s \<le> u" if u: "t \<le> u" "day_ok c u" for u
    proof (rule ccontr)
      assume "\<not> s \<le> u"
      then have "day_number u \<le> day_number s" by (intro day_number_mono) simp
      then have "day_number u = day_number s" using later [OF u] s(1) by simp
      then show False using day_ok_day [of u s c] u(2) False by simp
    qed
    then have "moves bs (day_ok c) t t2" using t2(2) st by (auto simp: moves_def)
    then show ?thesis using step md t2 by auto
  qed
qed

text \<open>
  An expression whose day fields are lists, ranges and steps, or \<open>L\<close> for the last day of the month:
  no nearest weekday, no n-th and no last weekday of the month.
\<close>

definition plain_days :: "cronexpr \<Rightarrow> bool" where
  "plain_days c \<longleftrightarrow> \<not> dom_nearest_weekday (dom_options c) \<and> dow_nth (dow_options c) = 0 \<and> \<not> dow_last (dow_options c)"

definition month_days :: "int \<Rightarrow> int" where
  "month_days k = days_in_month (k div 12) (k mod 12)"

lemma month_days_at: "days_in_month (tm_year (utc_tm t) + 1900) (tm_mon (utc_tm t)) = month_days (month_index t)"
proof -
  have "month_index t div 12 = year_at t" "month_index t mod 12 = int (mon_at t)"
    using mon_at_less [of t] by (simp_all add: month_index_def)
  then show ?thesis by (simp add: month_days_def date_at)
qed

lemma month_days_range: "28 \<le> month_days k" "month_days k \<le> 31"
  unfolding month_days_def by (rule month_length)+

lemma month_start_Suc: "month_start (k + 1) = month_start k + month_days k"
  unfolding month_days_def by (rule month_start_step)

text \<open>Of two consecutive months one has 31 days.\<close>

lemma long_month: "month_days (k + 1) = 31 \<or> month_days (k + 2) = 31"
proof -
  have long: "month_days j = 31" if "j mod 12 \<in> {0, 2, 4, 6, 7, 9, 11}" for j
    using that by (auto simp: month_days_def days_in_month_def)
  have "k mod 12 = 0 \<or> k mod 12 = 1 \<or> k mod 12 = 2 \<or> k mod 12 = 3 \<or> k mod 12 = 4 \<or> k mod 12 = 5 \<or> k mod 12 = 6 \<or>
      k mod 12 = 7 \<or> k mod 12 = 8 \<or> k mod 12 = 9 \<or> k mod 12 = 10 \<or> k mod 12 = 11"
    by presburger
  then have "(k + 1) mod 12 \<in> {0, 2, 4, 6, 7, 9, 11} \<or> (k + 2) mod 12 \<in> {0, 2, 4, 6, 7, 9, 11}"
    by (elim disjE) (simp_all add: mod_add_left_eq [of k 12, symmetric] del: mod_add_left_eq)
  then show ?thesis using long [of "k + 1"] long [of "k + 2"] by meson
qed

lemma plain_day_ok:
  assumes "plain_days c" "wf_cronexpr c"
  shows "day_ok c t \<longleftrightarrow>
     (let dom = (if dom_last (dom_options c) then mday_at t = month_days (month_index t)
                 else bit_test (days_of_month c) (nat (mday_at t - 1)));
          dow = bit_test (days_of_week c) (nat (wday_of (day_number t)))
      in if dow_restricted (dow_options c) then (if dom_restricted (dom_options c) then dom \<or> dow else dow) else dom)"
proof -
  have "\<not> dow_restricted (dow_options c) \<Longrightarrow> bit_test (days_of_week c) (nat (wday_of (day_number t)))"
    using assms by (simp add: wf_cronexpr_def wf_day_of_week_def bit_all_iff wday_of_def nat_less_iff)
  moreover have "\<not> dom_restricted (dom_options c) \<Longrightarrow>
      \<not> dom_last (dom_options c) \<and> bit_test (days_of_month c) (nat (mday_at t - 1))"
    using assms mday_at_range [of t] by (simp add: wf_cronexpr_def wf_day_of_month_def bit_all_iff nat_less_iff)
  moreover have "CRON_DAY_FIELD_RULE cron_standard_traits = either" "CRON_MIN_DAYS_OF_MONTH cron_standard_traits = 1"
    by (simp_all add: cron_standard_traits_def)
  ultimately show ?thesis using assms(1)
    by (simp add: day_ok_def matches_day_def matches_day_of_month_def matches_day_of_week_def plain_days_def
        month_days_at mday_at_def [symmetric] Let_def)
qed

lemma weekday_exists:
  assumes "wf_cronexpr c"
  shows "\<exists>d. n \<le> d \<and> d \<le> n + 6 \<and> bit_test (days_of_week c) (nat (wday_of d))"
proof -
  obtain w where w: "bit_test (days_of_week c) w"
    using assms by (auto simp: wf_cronexpr_def wf_day_of_week_def bit_none_iff)
  then have "w < 7" using assms by (simp add: wf_cronexpr_def wf_day_of_week_def bit_test_def)
  define d where "d = n + (int w - (n + 4)) mod 7"
  have "wday_of d = int w"
  proof -
    have "d + 4 = (n + 4) + (int w - (n + 4)) mod 7" by (simp add: d_def)
    then have "wday_of d = (n + 4 + (int w - (n + 4))) mod 7" by (simp only: wday_of_def mod_add_right_eq)
    then show ?thesis using \<open>w < 7\<close> by simp
  qed
  moreover have "0 \<le> (int w - (n + 4)) mod 7" "(int w - (n + 4)) mod 7 \<le> 6" by simp_all
  ultimately show ?thesis using w by (intro exI [of _ d]) (simp add: d_def)
qed

lemma day_of_month_instant:
  assumes "0 \<le> j" "j < month_days k"
  shows "month_index (86400 * (month_start k + j)) = k" "mday_at (86400 * (month_start k + j)) = j + 1"
proof -
  define t where "t = 86400 * (month_start k + j)"
  have d: "day_number t = month_start k + j" unfolding t_def by (rule day_instant)
  have lo: "k \<le> month_index t"
  proof (rule ccontr)
    assume "\<not> k \<le> month_index t"
    then have "month_start (month_index t + 1) \<le> month_start k" by (intro month_start_mono) simp
    then show False using month_index_bounds(2) [of t] d assms by simp
  qed
  have hi: "month_index t \<le> k"
  proof (rule ccontr)
    assume "\<not> month_index t \<le> k"
    then have "month_start (k + 1) \<le> month_start (month_index t)" by (intro month_start_mono) simp
    then show False using month_index_bounds(1) [of t] d assms month_start_Suc [of k] by simp
  qed
  show k: "month_index t = k" using lo hi by simp
  show "mday_at t = j + 1" using month_index_bounds(3) [of t] d k by simp
qed

lemma day_exists:
  assumes c: "plain_days c" "wf_cronexpr c"
  shows "\<exists>d. day_number t \<le> d \<and> d \<le> day_number t + 366 \<and> day_ok c (86400 * d) \<and>
     (dow_restricted (dow_options c) \<longrightarrow> d \<le> day_number t + 6) \<and>
     (\<not> dow_restricted (dow_options c) \<and> dom_last (dom_options c) \<longrightarrow> d < month_start (month_index t + 1))"
proof -
  note ok = plain_day_ok [OF c]
  define k where "k = month_index t"
  note b = month_index_bounds [of t, folded k_def]
  have len: "28 \<le> month_days j" "month_days j \<le> 31" for j by (rule month_days_range)+
  consider "dow_restricted (dow_options c)" | "\<not> dow_restricted (dow_options c)" "dom_last (dom_options c)"
    | "\<not> dow_restricted (dow_options c)" "\<not> dom_last (dom_options c)" by blast
  then show ?thesis
  proof cases
    case 1
    then obtain d where d: "day_number t \<le> d" "d \<le> day_number t + 6" "bit_test (days_of_week c) (nat (wday_of d))"
      using weekday_exists [OF c(2), of "day_number t"] by blast
    then have "day_ok c (86400 * d)" using 1 by (simp add: ok Let_def)
    then show ?thesis using d 1 by (intro exI [of _ d]) auto
  next
    case 2
    define d where "d = month_start k + (month_days k - 1)"
    have "0 \<le> month_days k - 1" "month_days k - 1 < month_days k" using len(1) [of k] by simp_all
    from day_of_month_instant [OF this] have "day_ok c (86400 * d)" using 2 by (simp add: ok Let_def d_def)
    moreover have "d = month_start (k + 1) - 1" using month_start_Suc [of k] by (simp add: d_def)
    ultimately show ?thesis using 2 b len(2) [of k] month_start_Suc [of k] unfolding k_def [symmetric]
      by (intro exI [of _ d]) auto
  next
    case 3
    then obtain j where j: "bit_test (days_of_month c) j"
      using c by (auto simp: wf_cronexpr_def wf_day_of_month_def plain_days_def bit_none_iff)
    then have "j < 31" using c(2) by (simp add: wf_cronexpr_def wf_day_of_month_def bit_test_def)
    obtain m where m: "m = k + 1 \<or> m = k + 2" "month_days m = 31" using long_month [of k] by blast
    have "0 \<le> int j" "int j < month_days m" using m(2) \<open>j < 31\<close> by simp_all
    note i = day_of_month_instant [OF this]
    have "day_ok c (86400 * (month_start m + int j))" unfolding ok i using 3 j by (simp add: Let_def)
    moreover have "month_start (k + 1) \<le> month_start m" "month_start m \<le> month_start k + 62"
      using m(1) month_start_Suc [of k] month_start_Suc [of "k + 1"] len [of k] len [of "k + 1"]
      by (auto simp: add.assoc)
    ultimately show ?thesis using 3 b \<open>j < 31\<close> by (intro exI [of _ "month_start m + int j"]) auto
  qed
qed

lemma mday_far:
  assumes "mday_at s = mday_at t" "day_number t < day_number s"
  shows "day_number t + 28 \<le> day_number s" "month_index t < month_index s"
proof -
  note bs = month_index_bounds [of s] and bt = month_index_bounds [of t]
  show lt: "month_index t < month_index s"
  proof (rule ccontr)
    assume "\<not> month_index t < month_index s"
    then have "month_start (month_index s) \<le> month_start (month_index t)" by (intro month_start_mono) simp
    then show False using bs(3) bt(3) assms by simp
  qed
  have "month_start (month_index t + 1) \<le> month_start (month_index s)" using lt by (intro month_start_mono) simp
  then show "day_number t + 28 \<le> day_number s"
    using bs(3) bt(3) assms month_start_Suc [of "month_index t"] month_days_range(1) [of "month_index t"] by simp
qed

text \<open>The day search of an expression with plain days, and why comparing the day of the month is enough.\<close>

lemma find_next_day_utc:
  assumes t: "0 \<le> t" and c: "plain_days c" "wf_cronexpr c" and no: "\<not> day_ok c t"
  shows "\<exists>t2. find_next_day utc_clock cron_standard_traits c (utc_tm t) (mday_at t) (marks bs True True False) =
      Inr (mday_at t2, utc_tm t2) \<and> moves bs (day_ok c) t t2 \<and> day_ok c t2 \<and> mday_at t2 \<noteq> mday_at t"
proof -
  obtain d where d: "day_number t \<le> d" "d \<le> day_number t + 366" "day_ok c (86400 * d)"
    "dow_restricted (dow_options c) \<longrightarrow> d \<le> day_number t + 6"
    "\<not> dow_restricted (dow_options c) \<and> dom_last (dom_options c) \<longrightarrow> d < month_start (month_index t + 1)"
    using day_exists [OF c, of t] by blast
  have d366: "d \<le> day_number t + int 366" using d(2) by simp
  from day_loop [OF t no d(1) d366 d(3), where md = "mday_at t" and bs = bs] obtain t2
    where t2: "find_next_day utc_clock cron_standard_traits c (utc_tm t) (mday_at t) (marks bs True True False) =
      Inr (mday_at t2, utc_tm t2)" "moves bs (day_ok c) t t2" "day_ok c t2"
    unfolding find_next_day_def by blast
  have ne: "day_number t2 \<noteq> day_number t" using day_ok_day [of t2 t c] t2(3) no by auto
  moreover have "day_number t \<le> day_number t2" using moves_less [OF t2(2)] by (intro day_number_mono) simp
  ultimately have gt: "day_number t < day_number t2" by simp
  have "d \<noteq> day_number t" using day_ok_day [of "86400 * d" t c] d(3) no by auto
  then have "t \<le> 86400 * d" using d(1) instant_parts [of t] time_of_day_range(2) [of t] by linarith
  then have "minute_number t2 \<le> minute_number (86400 * d)" using t2(2) d(3) by (auto simp: moves_def)
  moreover have "minute_number (86400 * d) = 1440 * d"
    using time_parts_unique [of "86400 * d" d 0 0 0] by (simp add: minute_number_def hour_number_def)
  ultimately have le: "day_number t2 \<le> d" using minute_day(1) [of t2] by simp
  have "mday_at t2 \<noteq> mday_at t"
  proof
    assume eq: "mday_at t2 = mday_at t"
    note far = mday_far [OF eq gt]
    show False
    proof (cases "dow_restricted (dow_options c)")
      case True
      then show False using far(1) le d(4) by simp
    next
      case False
      show False
      proof (cases "dom_last (dom_options c)")
        case True
        have "month_start (month_index t + 1) \<le> month_start (month_index t2)"
          using far(2) by (intro month_start_mono) simp
        then show False using month_index_bounds(1) [of t2] le d(5) False True by simp
      next
        case last: False
        then show False using plain_day_ok [OF c, of t] plain_day_ok [OF c, of t2] no t2(3) eq False by (simp add: Let_def)
      qed
    qed
  qed
  then show ?thesis using t2 by blast
qed

section \<open>One round of the search\<close>

text \<open>The expressions of five or six fields with plain days: every year the library knows is allowed.\<close>

definition cron_ok :: "cronexpr \<Rightarrow> bool" where
  "cron_ok c \<longleftrightarrow> wf_cronexpr c \<and> plain_days c \<and> bit_all (years c)"

abbreviation search :: "cronexpr \<Rightarrow> int \<Rightarrow> int \<Rightarrow> (cron_error + bool \<times> tm) option" where
  "search c t dot \<equiv> find_next utc_clock cron_standard_traits c (utc_tm t) dot"

definition after_second :: "cronexpr \<Rightarrow> int \<Rightarrow> int" where
  "after_second c t = sec.move (seconds c) False False False False t"

lemma find_next_value_here: "bit_test a v \<Longrightarrow> find_next_value ck a d v f g m = Inr (Some v, d)"
  by (simp add: find_next_value_def next_set_bit_here)

lemma second_stage:
  assumes "0 \<le> t" "cron_ok c"
  obtains n where "find_next_value utc_clock (seconds c) (utc_tm t) (nat (sec_of t)) second minute (marks False False False False) =
      Inr (Some n, utc_tm (after_second c t))" "n = nat (sec_of t) \<longleftrightarrow> sec_ok c t" "0 \<le> after_second c t"
proof -
  have a: "length (seconds c) = 60" "\<not> bit_none (seconds c)" using assms(2) by (simp_all add: cron_ok_def wf_cronexpr_def)
  have "\<not> False \<and> \<not> False \<and> \<not> False \<and> \<not> False" by simp
  from sec.find_next_value_utc [OF assms(1) a this] obtain n
    where "find_next_value utc_clock (seconds c) (utc_tm t) (nat (sec_of t)) second minute (marks False False False False) =
      Inr (Some n, utc_tm (after_second c t))" "n = nat (sec_of t) \<longleftrightarrow> bit_test (seconds c) (nat (sec_of t))"
    unfolding after_second_def by blast
  moreover have "0 \<le> after_second c t" using sec_move(1) [OF assms(1) a] assms(1) by (simp add: after_second_def)
  ultimately show thesis by (intro that) (simp_all add: sec_ok_def)
qed

text \<open>When nothing is left to do in the later fields, the rest of a round changes nothing.\<close>

lemma occurs_stages:
  assumes "occurs c t"
  shows "find_next_value ck (minutes c) (utc_tm t) (nat (min_of t)) minute hour_of_day m = Inr (Some (nat (min_of t)), utc_tm t)"
    "find_next_value ck (hours c) (utc_tm t) (nat (hour_of t)) hour_of_day day_of_week m = Inr (Some (nat (hour_of t)), utc_tm t)"
    "find_next_day ck cron_standard_traits c (utc_tm t) md m = Inr (md, utc_tm t)"
    "find_next_value ck (months c) (utc_tm t) (nat (tm_mon (utc_tm t))) month year m = Inr (Some (nat (tm_mon (utc_tm t))), utc_tm t)"
  using assms
  by (simp_all add: occurs_def min_ok_def hour_ok_def mon_ok_def day_ok_def find_next_value_here find_next_day_def
      find_next_day_loop.simps date_at)

lemma year_stage: "cron_ok c \<Longrightarrow> check_year ck c d = YearOk"
  by (simp add: cron_ok_def check_year_def)

lemma search_min:
  assumes t: "0 \<le> t" and c: "cron_ok c" and no: "\<not> min_ok c (after_second c t)"
  defines "t2 \<equiv> mins.move (minutes c) (sec_ok c t) False False False (after_second c t)"
  assumes rec: "search c t2 dot = Some (Inr (b, utc_tm t'))" and b: "b \<longrightarrow> occurs c t'"
  shows "search c t dot = Some (Inr (b, utc_tm t'))"
proof -
  define t1 where "t1 = after_second c t"
  obtain n where n: "find_next_value utc_clock (seconds c) (utc_tm t) (nat (sec_of t)) second minute (marks False False False False) =
      Inr (Some n, utc_tm t1)" "n = nat (sec_of t) \<longleftrightarrow> sec_ok c t" "0 \<le> t1"
    unfolding t1_def by (rule second_stage [OF t c])
  have a: "length (minutes c) = 60" "\<not> bit_none (minutes c)" using c by (simp_all add: cron_ok_def wf_cronexpr_def)
  have "\<not> False \<and> \<not> False \<and> \<not> False" by simp
  from mins.find_next_value_utc [OF n(3) a this] obtain k
    where k: "find_next_value utc_clock (minutes c) (utc_tm t1) (nat (min_of t1)) minute hour_of_day
      (marks (sec_ok c t) False False False) = Inr (Some k, utc_tm t2)" "k \<noteq> nat (min_of t1)"
    using no unfolding t2_def t1_def [symmetric] min_ok_def by blast
  show ?thesis
  proof (cases b)
    case True
    then have o: "occurs c t'" using b by simp
    show ?thesis using n(1,2) k rec True
      by (cases "sec_ok c t"; subst find_next.simps; simp add: occurs_stages [OF o] year_stage [OF c] Let_def)
  next
    case False
    then show ?thesis using n(1,2) k rec by (cases "sec_ok c t"; subst find_next.simps; simp add: Let_def)
  qed
qed

lemma minute_stage:
  "min_ok c t \<Longrightarrow> find_next_value ck (minutes c) (utc_tm t) (nat (min_of t)) minute hour_of_day m = Inr (Some (nat (min_of t)), utc_tm t)"
  by (simp add: min_ok_def find_next_value_here)

lemma hour_stage:
  "hour_ok c t \<Longrightarrow> find_next_value ck (hours c) (utc_tm t) (nat (hour_of t)) hour_of_day day_of_week m = Inr (Some (nat (hour_of t)), utc_tm t)"
  by (simp add: hour_ok_def find_next_value_here)

lemma day_stage:
  "day_ok c t \<Longrightarrow> find_next_day ck cron_standard_traits c (utc_tm t) md m = Inr (md, utc_tm t)"
  by (simp add: day_ok_def find_next_day_def find_next_day_loop.simps)

lemma search_hour:
  assumes t: "0 \<le> t" and c: "cron_ok c" and ok: "min_ok c (after_second c t)" and no: "\<not> hour_ok c (after_second c t)"
  defines "t2 \<equiv> hrs.move (hours c) (sec_ok c t) True False False (after_second c t)"
  assumes rec: "search c t2 dot = Some (Inr (b, utc_tm t'))" and b: "b \<longrightarrow> occurs c t'"
  shows "search c t dot = Some (Inr (b, utc_tm t'))"
proof -
  define t1 where "t1 = after_second c t"
  obtain n where n: "find_next_value utc_clock (seconds c) (utc_tm t) (nat (sec_of t)) second minute (marks False False False False) =
      Inr (Some n, utc_tm t1)" "n = nat (sec_of t) \<longleftrightarrow> sec_ok c t" "0 \<le> t1"
    unfolding t1_def by (rule second_stage [OF t c])
  have a: "length (hours c) = 24" "\<not> bit_none (hours c)" using c by (simp_all add: cron_ok_def wf_cronexpr_def)
  have "\<not> False \<and> \<not> False" by simp
  from hrs.find_next_value_utc [OF n(3) a this] obtain k
    where k: "find_next_value utc_clock (hours c) (utc_tm t1) (nat (hour_of t1)) hour_of_day day_of_week
      (marks (sec_ok c t) True False False) = Inr (Some k, utc_tm t2)" "k \<noteq> nat (hour_of t1)"
    using no unfolding t2_def t1_def [symmetric] hour_ok_def by blast
  note st = minute_stage [OF ok [folded t1_def]]
  show ?thesis
  proof (cases b)
    case True
    then have o: "occurs c t'" using b by simp
    show ?thesis using n(1,2) k rec True
      by (cases "sec_ok c t"; subst find_next.simps; simp add: st occurs_stages [OF o] year_stage [OF c] Let_def)
  next
    case False
    then show ?thesis using n(1,2) k rec by (cases "sec_ok c t"; subst find_next.simps; simp add: st Let_def)
  qed
qed

lemma search_day:
  assumes t: "0 \<le> t" and c: "cron_ok c" and ok: "min_ok c (after_second c t)" "hour_ok c (after_second c t)"
    and no: "\<not> day_ok c (after_second c t)"
  obtains t2 where "moves (sec_ok c t) (day_ok c) (after_second c t) t2" "day_ok c t2"
    "\<And>b t'. search c t2 dot = Some (Inr (b, utc_tm t')) \<Longrightarrow> (b \<longrightarrow> occurs c t') \<Longrightarrow>
      search c t dot = Some (Inr (b, utc_tm t'))"
proof -
  define t1 where "t1 = after_second c t"
  obtain n where n: "find_next_value utc_clock (seconds c) (utc_tm t) (nat (sec_of t)) second minute (marks False False False False) =
      Inr (Some n, utc_tm t1)" "n = nat (sec_of t) \<longleftrightarrow> sec_ok c t" "0 \<le> t1"
    unfolding t1_def by (rule second_stage [OF t c])
  have c': "plain_days c" "wf_cronexpr c" using c by (simp_all add: cron_ok_def)
  from find_next_day_utc [OF n(3) c' no [folded t1_def], of "sec_ok c t"] obtain t2
    where k: "find_next_day utc_clock cron_standard_traits c (utc_tm t1) (tm_mday (utc_tm t1)) (marks (sec_ok c t) True True False) =
      Inr (mday_at t2, utc_tm t2)" "mday_at t2 \<noteq> tm_mday (utc_tm t1)"
      and m: "moves (sec_ok c t) (day_ok c) t1 t2" "day_ok c t2"
    unfolding mday_at_def [of t1] by blast
  note st = minute_stage [OF ok(1) [folded t1_def]] hour_stage [OF ok(2) [folded t1_def]]
  have "search c t dot = Some (Inr (b, utc_tm t'))"
    if rec: "search c t2 dot = Some (Inr (b, utc_tm t'))" and b: "b \<longrightarrow> occurs c t'" for b t'
  proof (cases b)
    case True
    then have o: "occurs c t'" using b by simp
    show ?thesis using n(1,2) k rec True
      by (cases "sec_ok c t"; subst find_next.simps; simp add: st occurs_stages [OF o] year_stage [OF c] Let_def)
  next
    case False
    then show ?thesis using n(1,2) k rec by (cases "sec_ok c t"; subst find_next.simps; simp add: st Let_def)
  qed
  then show thesis using m by (intro that [of t2]) (simp_all add: t1_def)
qed

lemma search_month:
  assumes t: "0 \<le> t" and c: "cron_ok c"
    and ok: "min_ok c (after_second c t)" "hour_ok c (after_second c t)" "day_ok c (after_second c t)"
    and no: "\<not> mon_ok c (after_second c t)" and dot: "dot \<le> year_at t - 1900"
  defines "t2 \<equiv> mon.move (months c) (sec_ok c t) True True True (after_second c t)"
  assumes rec: "if year_at t2 - 1900 - dot > 4 then b = False \<and> t' = t2
      else search c t2 dot = Some (Inr (b, utc_tm t'))" and b: "b \<longrightarrow> occurs c t'"
  shows "search c t dot = Some (Inr (b, utc_tm t'))"
proof -
  define t1 where "t1 = after_second c t"
  obtain n where n: "find_next_value utc_clock (seconds c) (utc_tm t) (nat (sec_of t)) second minute (marks False False False False) =
      Inr (Some n, utc_tm t1)" "n = nat (sec_of t) \<longleftrightarrow> sec_ok c t" "0 \<le> t1"
    unfolding t1_def by (rule second_stage [OF t c])
  have a: "length (months c) = 12" "\<not> bit_none (months c)" using c by (simp_all add: cron_ok_def wf_cronexpr_def)
  from mon.find_next_value_utc [OF n(3) a TrueI] obtain k
    where k: "find_next_value utc_clock (months c) (utc_tm t1) (nat (tm_mon (utc_tm t1))) month year
      (marks (sec_ok c t) True True True) = Inr (Some k, utc_tm t2)" "k \<noteq> nat (tm_mon (utc_tm t1))"
    using no unfolding t2_def t1_def [symmetric] mon_ok_def mon_at_def by blast
  have s: "length (seconds c) = 60" "\<not> bit_none (seconds c)" using c by (simp_all add: cron_ok_def wf_cronexpr_def)
  have "t1 < t2" unfolding t1_def t2_def by (rule moves_less [OF mon_move(1)]) (use n no a in \<open>simp_all add: t1_def\<close>)
  moreover have "t \<le> t1" using sec_move(1) [OF t s] by (simp add: t1_def after_second_def)
  ultimately have "year_at t \<le> year_at t2" by (intro year_at_mono) simp
  then have ya: "years_ahead (utc_tm t2) dot = year_at t2 - 1900 - dot" using dot by (simp add: years_ahead_def date_at(4))
  have yd: "int (CRON_MAX_YEARS_DIFF cron_standard_traits) = 4" by (simp add: cron_standard_traits_def)
  have all: "bit_all (years c)" using c by (simp add: cron_ok_def)
  note st = minute_stage [OF ok(1) [folded t1_def]] hour_stage [OF ok(2) [folded t1_def]] day_stage [OF ok(3) [folded t1_def]]
  show ?thesis
  proof (cases "year_at t2 - 1900 - dot > 4")
    case True
    then have "b = False" "t' = t2" using rec by simp_all
    then show ?thesis using n(1,2) k True all
      by (cases "sec_ok c t"; subst find_next.simps; simp add: st Let_def ya yd)
  next
    case False
    then have rec': "search c t2 dot = Some (Inr (b, utc_tm t'))" using rec by simp
    show ?thesis using n(1,2) k rec' False
      by (cases "sec_ok c t"; subst find_next.simps; cases b; simp add: st Let_def ya yd year_stage [OF c])
  qed
qed

lemma search_found:
  assumes t: "0 \<le> t" and c: "cron_ok c" and o: "occurs c (after_second c t)"
  shows "search c t dot = Some (Inr (True, utc_tm (after_second c t)))"
proof -
  define t1 where "t1 = after_second c t"
  obtain n where n: "find_next_value utc_clock (seconds c) (utc_tm t) (nat (sec_of t)) second minute (marks False False False False) =
      Inr (Some n, utc_tm t1)" "n = nat (sec_of t) \<longleftrightarrow> sec_ok c t" "0 \<le> t1"
    unfolding t1_def by (rule second_stage [OF t c])
  show ?thesis using n(1,2) unfolding t1_def [symmetric]
    by (cases "sec_ok c t"; subst find_next.simps; simp add: occurs_stages [OF o [folded t1_def]] year_stage [OF c] Let_def)
qed

section \<open>The search ends\<close>

definition time_ok :: "cronexpr \<Rightarrow> int \<Rightarrow> bool" where
  "time_ok c u \<longleftrightarrow> sec_ok c u \<and> min_ok c u \<and> hour_ok c u"

text \<open>The time of day can still match on the same day.\<close>

definition fresh :: "cronexpr \<Rightarrow> int \<Rightarrow> bool" where
  "fresh c t \<longleftrightarrow> (\<exists>u \<ge> t. day_number u = day_number t \<and> time_ok c u)"

definition search_rank :: "cronexpr \<Rightarrow> int \<Rightarrow> nat" where
  "search_rank c t = (if \<not> fresh c t then 2 else if \<not> day_ok c t then 1 else 0)"

lemma time_exists:
  assumes "wf_cronexpr c"
  shows "\<exists>u. day_number u = d \<and> time_ok c u"
proof -
  define h m s where "h = first_bit (hours c)" and "m = first_bit (minutes c)" and "s = first_bit (seconds c)"
  have b: "bit_test (hours c) h" "bit_test (minutes c) m" "bit_test (seconds c) s"
    using assms first_bit(2) by (simp_all add: wf_cronexpr_def h_def m_def s_def)
  then have r: "h < 24" "m < 60" "s < 60" using assms by (simp_all add: wf_cronexpr_def bit_test_def)
  define u where "u = 86400 * d + 3600 * int h + 60 * int m + int s"
  have "day_number u = d" "hour_of u = int h" "min_of u = int m" "sec_of u = int s"
    using r by (intro time_parts_unique [OF u_def]; simp)+
  then show ?thesis using b by (intro exI [of _ u]) (simp add: time_ok_def sec_ok_def min_ok_def hour_ok_def)
qed

lemma later_day: "day_number t < day_number u \<Longrightarrow> t \<le> u"
  using day_number_mono [of u t] by linarith

lemma fresh_after:
  assumes m: "moves bs ok t1 t2" and s: "sec_ok c t1" and u: "t1 \<le> u" "ok u" "time_ok c u" "day_number u = day_number t2"
  shows "fresh c t2"
proof (cases bs)
  case True
  then have "t2 \<le> u" using m u number_parts [of t2] number_parts [of u] time_ranges(5) [of u] by (auto simp: moves_def)
  then show ?thesis using u by (auto simp: fresh_def)
next
  case False
  define v where "v = u + (sec_of t1 - sec_of u)"
  have r: "0 \<le> sec_of t1" "sec_of t1 < 60" by (rule time_ranges)+
  note p = put_second_parts [OF r, of u, folded v_def]
  have "time_ok c v" using u(3) s p by (simp add: time_ok_def sec_ok_def min_ok_def hour_ok_def)
  moreover have "minute_number t2 \<le> minute_number v"
    using m u(1,2) p by (auto simp: moves_def minute_number_def hour_number_def)
  then have "t2 \<le> v" using m False p number_parts [of t2] number_parts [of v] by (auto simp: moves_def)
  ultimately show ?thesis using p(1) u(4) by (auto simp: fresh_def)
qed

lemma second_facts:
  assumes "0 \<le> t" "cron_ok c"
  shows "t \<le> after_second c t" "sec_ok c (after_second c t)"
    "\<And>u. t \<le> u \<Longrightarrow> sec_ok c u \<Longrightarrow> after_second c t \<le> u" "sec_ok c t \<longleftrightarrow> after_second c t = t"
  using sec_move [OF assms(1), of c] assms(2) by (simp_all add: after_second_def cron_ok_def wf_cronexpr_def)

lemma time_move_rank:
  assumes t: "0 \<le> t" and c: "cron_ok c" and m: "moves bs ok (after_second c t) t2"
    and ok: "\<And>u. time_ok c u \<Longrightarrow> ok u"
  shows "search_rank c t2 < search_rank c t \<or> search_rank c t2 \<le> search_rank c t \<and> day_number t2 = day_number t"
proof -
  note s = second_facts [OF t c]
  have le: "day_number t \<le> day_number t2" using s(1) moves_less [OF m] by (intro day_number_mono) simp
  have reach: "fresh c t2" if "t \<le> u" "time_ok c u" "day_number u = day_number t2" for u
    using fresh_after [OF m s(2) s(3) [OF that(1)] ok [OF that(2)] that(2,3)] that(2) by (simp add: time_ok_def)
  show ?thesis
  proof (cases "fresh c t")
    case True
    then obtain u where u: "t \<le> u" "day_number u = day_number t" "time_ok c u" by (auto simp: fresh_def)
    then have "after_second c t \<le> u" using s(3) by (simp add: time_ok_def)
    then have "minute_number t2 \<le> minute_number u" using m ok [OF u(3)] by (auto simp: moves_def)
    then have "day_number t2 \<le> day_number u" using minute_day(1) [of t2] minute_day(2) [of u] by linarith
    then have d: "day_number t2 = day_number t" using u(2) le by simp
    then have "fresh c t2" using reach [OF u(1,3)] u(2) by simp
    then show ?thesis using True d day_ok_day [OF d, of c] by (simp add: search_rank_def)
  next
    case False
    show ?thesis
    proof (cases "day_number t2 = day_number t")
      case True
      then show ?thesis using False by (simp add: search_rank_def)
    next
      case ne: False
      obtain u where u: "day_number u = day_number t2" "time_ok c u" using time_exists c by (auto simp: cron_ok_def)
      have "t \<le> u" using ne le u(1) by (intro later_day) simp
      then have "fresh c t2" using reach u by simp
      then show ?thesis using False by (simp add: search_rank_def)
    qed
  qed
qed

lemma day_move_rank:
  assumes t: "0 \<le> t" and c: "cron_ok c" and t1: "min_ok c (after_second c t)" "hour_ok c (after_second c t)"
    and no: "\<not> day_ok c (after_second c t)" and m: "moves bs (day_ok c) (after_second c t) t2" "day_ok c t2"
  shows "search_rank c t2 < search_rank c t"
proof -
  note s = second_facts [OF t c]
  obtain u where u: "day_number u = day_number t2" "time_ok c u" using time_exists c by (auto simp: cron_ok_def)
  have "day_number (after_second c t) \<noteq> day_number t2" using day_ok_day m(2) no by blast
  moreover have "day_number (after_second c t) \<le> day_number t2"
    using moves_less [OF m(1)] by (intro day_number_mono) simp
  ultimately have "after_second c t \<le> u" using u(1) by (intro later_day) simp
  then have "fresh c t2" using fresh_after [OF m(1) s(2)] u day_ok_day [OF u(1), of c] m(2) by simp
  then have "search_rank c t2 = 0" using m(2) by (simp add: search_rank_def)
  moreover have "search_rank c t \<noteq> 0"
  proof
    assume "search_rank c t = 0"
    then have "fresh c t" "day_ok c t" by (auto simp: search_rank_def split: if_splits)
    then obtain v where v: "t \<le> v" "day_number v = day_number t" "time_ok c v" by (auto simp: fresh_def)
    then have "after_second c t \<le> v" using s(3) by (simp add: time_ok_def)
    then have "day_number (after_second c t) = day_number t"
      using day_number_mono [of "after_second c t" v] day_number_mono [OF s(1)] v(2) by simp
    then show False using day_ok_day no \<open>day_ok c t\<close> by blast
  qed
  ultimately show ?thesis by simp
qed

section \<open>Correctness of the search\<close>

text \<open>The seconds field names one second, as it does for every five-field expression.\<close>

definition one_second :: "cronexpr \<Rightarrow> bool" where
  "one_second c \<longleftrightarrow> (\<forall>i j. bit_test (seconds c) i \<longrightarrow> bit_test (seconds c) j \<longrightarrow> i = j)"

definition search_correct :: "cronexpr \<Rightarrow> int \<Rightarrow> int \<Rightarrow> bool" where
  "search_correct c dot t \<longleftrightarrow>
     (\<exists>b t'. search c t dot = Some (Inr (b, utc_tm t')) \<and> t \<le> t' \<and> (b \<longrightarrow> occurs c t') \<and>
        (\<not> b \<longrightarrow> year_at t' - 1900 - dot > 4) \<and> (one_second c \<longrightarrow> (\<forall>u \<ge> t. occurs c u \<longrightarrow> t' \<le> u)))"

lemma move_before_occurrence:
  assumes t: "0 \<le> t" and c: "cron_ok c" "one_second c" and m: "moves bs ok (after_second c t) t2"
    and ok: "\<And>u. occurs c u \<Longrightarrow> ok u" and u: "t \<le> u" "occurs c u"
  shows "t2 \<le> u"
proof -
  note s = second_facts [OF t c(1)]
  have "after_second c t \<le> u" using s(3) u by (simp add: occurs_def)
  then have "minute_number t2 \<le> minute_number u" using m ok [OF u(2)] by (auto simp: moves_def)
  moreover have "nat (sec_of (after_second c t)) = nat (sec_of u)"
    using c(2) s(2) u(2) by (simp add: one_second_def occurs_def sec_ok_def)
  then have "sec_of (after_second c t) = sec_of u" using time_ranges(5) [of "after_second c t"] time_ranges(5) [of u] by linarith
  then have "sec_of t2 \<le> sec_of u" using m time_ranges(5) [of u] by (auto simp: moves_def)
  ultimately show ?thesis using number_parts [of t2] number_parts [of u] by linarith
qed

lemma search_correct_again:
  assumes t: "0 \<le> t" and c: "cron_ok c" and m: "moves bs ok (after_second c t) t2"
    and ok: "\<And>u. occurs c u \<Longrightarrow> ok u" and nxt: "search_correct c dot t2"
    and rec: "\<And>b t'. search c t2 dot = Some (Inr (b, utc_tm t')) \<Longrightarrow> (b \<longrightarrow> occurs c t') \<Longrightarrow>
      search c t dot = Some (Inr (b, utc_tm t'))"
  shows "search_correct c dot t"
proof -
  from nxt obtain b t' where r: "search c t2 dot = Some (Inr (b, utc_tm t'))" "t2 \<le> t'" "b \<longrightarrow> occurs c t'"
    "\<not> b \<longrightarrow> year_at t' - 1900 - dot > 4" "one_second c \<longrightarrow> (\<forall>u \<ge> t2. occurs c u \<longrightarrow> t' \<le> u)"
    by (auto simp: search_correct_def)
  have "search c t dot = Some (Inr (b, utc_tm t'))" by (rule rec [OF r(1,3)])
  moreover have "t \<le> t'" using second_facts(1) [OF t c] moves_less [OF m] r(2) by simp
  moreover have "t' \<le> u" if "one_second c" "t \<le> u" "occurs c u" for u
    using move_before_occurrence [OF t c that(1) m ok that(2,3)] r(5) that by blast
  ultimately show ?thesis using r(3,4) unfolding search_correct_def by blast
qed

definition day_left :: "int \<Rightarrow> nat" where
  "day_left t = nat (86400 * day_number t + 86400 - t)"

lemma day_left_less: "t < s \<Longrightarrow> day_number s = day_number t \<Longrightarrow> day_left s < day_left t"
  using instant_parts [of s] time_of_day_range(2) [of s] by (simp add: day_left_def)

definition months_left :: "int \<Rightarrow> int \<Rightarrow> nat" where
  "months_left dot t = nat (12 * (dot + 1905) - month_index t)"

definition search_order :: "cronexpr \<Rightarrow> int \<Rightarrow> (int \<times> int) set" where
  "search_order c dot = measures [months_left dot, search_rank c, day_left]"

lemma search_order_time:
  assumes "t < t2" "search_rank c t2 < search_rank c t \<or> search_rank c t2 \<le> search_rank c t \<and> day_number t2 = day_number t"
  shows "(t2, t) \<in> search_order c dot"
proof -
  have "months_left dot t2 \<le> months_left dot t"
    using month_index_mono [of t t2] assms(1) by (simp add: months_left_def nat_mono)
  then show ?thesis using assms day_left_less [OF assms(1)] by (auto simp: search_order_def)
qed

lemma search_order_month:
  assumes "month_index t < month_index t2" "year_at t2 - 1900 - dot \<le> 4"
  shows "(t2, t) \<in> search_order c dot"
proof -
  have "month_index t2 < 12 * (dot + 1905)" using assms(2) mon_at_less [of t2] by (simp add: month_index_def)
  then show ?thesis using assms(1) by (simp add: search_order_def months_left_def)
qed

lemma search_total_correct:
  "0 \<le> t \<Longrightarrow> dot \<le> year_at t - 1900 \<Longrightarrow> cron_ok c \<Longrightarrow> search_correct c dot t"
proof (induction t rule: wf_induct_rule [OF wf_measures [of "[months_left dot, search_rank c, day_left]"]])
  case (1 t)
  note t = "1.prems"(1) and dot = "1.prems"(2) and c = "1.prems"(3)
  note s = second_facts [OF t c]
  define t1 where "t1 = after_second c t"
  have t1: "0 \<le> t1" using s(1) t by (simp add: t1_def)
  have w: "wf_cronexpr c" using c by (simp add: cron_ok_def)
  have IH: "search_correct c dot t2" if "(t2, t) \<in> search_order c dot" "t < t2" for t2
    using "1.IH" [of t2] that t dot c year_at_mono [of t t2] by (simp add: search_order_def)
  consider "\<not> min_ok c t1" | "min_ok c t1" "\<not> hour_ok c t1" | "min_ok c t1" "hour_ok c t1" "\<not> day_ok c t1"
    | "min_ok c t1" "hour_ok c t1" "day_ok c t1" "\<not> mon_ok c t1" | "occurs c t1"
    using s(2) by (auto simp: occurs_def t1_def)
  then show ?case
  proof cases
    case 1
    define t2 where "t2 = mins.move (minutes c) (sec_ok c t) False False False t1"
    have m: "moves (sec_ok c t) (min_ok c) (after_second c t) t2"
      unfolding t2_def t1_def [symmetric] by (rule min_move [OF t1 _ _ 1]) (use w in \<open>simp_all add: wf_cronexpr_def\<close>)
    have "t < t2" using s(1) moves_less [OF m] by simp
    moreover have "(t2, t) \<in> search_order c dot"
      by (rule search_order_time [OF \<open>t < t2\<close> time_move_rank [OF t c m]]) (simp add: time_ok_def)
    ultimately show ?thesis using search_min [OF t c 1 [unfolded t1_def], folded t1_def, folded t2_def]
      by (intro search_correct_again [OF t c m _ IH]) (auto simp: occurs_def)
  next
    case 2
    define t2 where "t2 = hrs.move (hours c) (sec_ok c t) True False False t1"
    have m: "moves (sec_ok c t) (hour_ok c) (after_second c t) t2"
      unfolding t2_def t1_def [symmetric] by (rule hour_move [OF t1 _ _ 2(2)]) (use w in \<open>simp_all add: wf_cronexpr_def\<close>)
    have "t < t2" using s(1) moves_less [OF m] by simp
    moreover have "(t2, t) \<in> search_order c dot"
      by (rule search_order_time [OF \<open>t < t2\<close> time_move_rank [OF t c m]]) (simp add: time_ok_def)
    ultimately show ?thesis using search_hour [OF t c 2 [unfolded t1_def], folded t1_def, folded t2_def]
      by (intro search_correct_again [OF t c m _ IH]) (auto simp: occurs_def)
  next
    case 3
    from search_day [OF t c 3 [unfolded t1_def], of dot] obtain t2
      where m: "moves (sec_ok c t) (day_ok c) (after_second c t) t2" "day_ok c t2"
        and rec: "\<And>b t'. search c t2 dot = Some (Inr (b, utc_tm t')) \<Longrightarrow> (b \<longrightarrow> occurs c t') \<Longrightarrow>
          search c t dot = Some (Inr (b, utc_tm t'))" by blast
    have "t < t2" using s(1) moves_less [OF m(1)] by simp
    moreover have "(t2, t) \<in> search_order c dot"
      using search_order_time [OF \<open>t < t2\<close>] day_move_rank [OF t c 3 [unfolded t1_def] m] by blast
    ultimately show ?thesis
      by (intro search_correct_again [OF t c m(1) _ IH rec]) (auto simp: occurs_def)
  next
    case 4
    define t2 where "t2 = mon.move (months c) (sec_ok c t) True True True t1"
    have a: "length (months c) = 12" "\<not> bit_none (months c)" using w by (simp_all add: wf_cronexpr_def)
    have m: "moves (sec_ok c t) (mon_ok c) (after_second c t) t2" "month_index t1 < month_index t2"
      unfolding t2_def t1_def [symmetric] by (rule mon_move [OF t1 a 4(4)])+
    have lt: "t < t2" using s(1) moves_less [OF m(1)] by simp
    note sm = search_month [OF t c 4 [unfolded t1_def] dot, folded t1_def, folded t2_def]
    show ?thesis
    proof (cases "year_at t2 - 1900 - dot > 4")
      case True
      then have "search c t dot = Some (Inr (False, utc_tm t2))" by (intro sm) simp_all
      moreover have "t2 \<le> u" if "one_second c" "t \<le> u" "occurs c u" for u
        by (rule move_before_occurrence [OF t c that(1) m(1) _ that(2,3)]) (simp add: occurs_def)
      ultimately show ?thesis using True lt unfolding search_correct_def by (intro exI [of _ False] exI [of _ t2]) auto
    next
      case False
      have "month_index t \<le> month_index t1" using s(1) by (intro month_index_mono) (simp add: t1_def)
      then have "(t2, t) \<in> search_order c dot" using False m(2) by (intro search_order_month) simp_all
      then show ?thesis using False sm lt
        by (intro search_correct_again [OF t c m(1) _ IH]) (auto simp: occurs_def)
    qed
  next
    case 5
    then show ?thesis using search_found [OF t c 5 [unfolded t1_def], of dot] s unfolding search_correct_def t1_def
      by (auto simp: occurs_def)
  qed
qed

end
