(* ===== verification/Cron_Correct.thy ===== *)
theory Cron_Correct
  imports Cron_Next
begin

text \<open>
  What \<open>cron_next\<close> guarantees to the scheduler in UTC: it returns, what it returns is a later
  occurrence of the expression, and for the expressions crontab users write it is the next one. Two
  inputs show where the library falls short: several seconds in one field, and the nearest-weekday
  qualifier.
\<close>

section \<open>The next occurrence\<close>

lemma next_loop:
  assumes s: "search_correct c (year_at start - 1900) start" "original \<le> start" "0 \<le> start"
  obtains b t' where "start \<le> t'" "b \<longrightarrow> occurs c t'" "\<not> b \<longrightarrow> year_at t' - year_at start > 4"
    "one_second c \<longrightarrow> (\<forall>u \<ge> start. occurs c u \<longrightarrow> t' \<le> u)"
    "find_next_after_loop n utc_clock cron_standard_traits c original start =
       (if \<not> b then Some (Inr (INVALID_TIME, None))
        else if original < t' then Some (Inr (t', Some (utc_tm t')))
        else case n of 0 \<Rightarrow> Some (Inr (INVALID_TIME, None))
             | Suc n \<Rightarrow> find_next_after_loop n utc_clock cron_standard_traits c original (start + 1))"
proof -
  from s(1) obtain b t' where r: "search c start (year_at start - 1900) = Some (Inr (b, utc_tm t'))" "start \<le> t'"
    "b \<longrightarrow> occurs c t'" "\<not> b \<longrightarrow> year_at t' - year_at start > 4"
    "one_second c \<longrightarrow> (\<forall>u \<ge> start. occurs c u \<longrightarrow> t' \<le> u)"
    by (auto simp: search_correct_def)
  have "find_next_after_loop n utc_clock cron_standard_traits c original start =
       (if \<not> b then Some (Inr (INVALID_TIME, None))
        else if original < t' then Some (Inr (t', Some (utc_tm t')))
        else case n of 0 \<Rightarrow> Some (Inr (INVALID_TIME, None))
             | Suc n \<Rightarrow> find_next_after_loop n utc_clock cron_standard_traits c original (start + 1))"
    using r(1,2) s(3)
    by (subst find_next_after_loop.simps) (simp add: utc_clock_def date_at(4) INVALID_TIME_def)
  with r show thesis by (intro that)
qed

text \<open>At most two rounds: the second starts one second after an occurrence.\<close>

lemma cron_next_cases:
  assumes t: "0 \<le> t" and c: "cron_ok c"
  obtains (none) "cron_next utc_clock cron_standard_traits c t = Some (Inr INVALID_TIME)"
      "one_second c \<longrightarrow> (\<forall>u > t. occurs c u \<longrightarrow> year_at t + 4 < year_at u)"
  | (found) r where "cron_next utc_clock cron_standard_traits c t = Some (Inr r)" "t < r" "occurs c r"
      "one_second c \<longrightarrow> (\<forall>u > t. occurs c u \<longrightarrow> r \<le> u)"
proof -
  have ne: "\<not> cron_empty c"
    using c by (auto simp: cron_ok_def wf_cronexpr_def cron_empty_def wf_day_of_month_def wf_day_of_week_def)
  have nx: "cron_next utc_clock cron_standard_traits c t =
      map_option (map_sum id fst) (find_next_after_loop (Suc 7199) utc_clock cron_standard_traits c t t)"
    using ne by (simp add: cron_next_def find_next_after_def CRON_MAX_DST_SHIFT_def)
  have y: "year_at t \<le> year_at (t + 1)" by (rule year_at_mono) simp
  obtain b t' where a: "t \<le> t'" "b \<longrightarrow> occurs c t'" "\<not> b \<longrightarrow> year_at t' - year_at t > 4"
      "one_second c \<longrightarrow> (\<forall>u \<ge> t. occurs c u \<longrightarrow> t' \<le> u)"
      "find_next_after_loop (Suc 7199) utc_clock cron_standard_traits c t t =
         (if \<not> b then Some (Inr (INVALID_TIME, None)) else if t < t' then Some (Inr (t', Some (utc_tm t')))
          else find_next_after_loop 7199 utc_clock cron_standard_traits c t (t + 1))"
    by (rule next_loop [OF search_total_correct [OF t order_refl c] order_refl t, of "Suc 7199", unfolded nat.case])
      (rule that)
  have far: "year_at t + 4 < year_at u" if "\<not> p" "\<not> p \<longrightarrow> year_at v - year_at s > 4" "t \<le> s" "v \<le> u" for p s u v
    using that year_at_mono [OF that(3)] year_at_mono [OF that(4)] by auto
  show thesis
  proof (cases "b \<and> \<not> t < t'")
    case False
    show thesis
    proof (cases b)
      case True
      then show thesis using a nx False by (intro found [of t']) auto
    next
      case nb: False
      then show thesis using a nx far [OF nb a(3) order_refl] by (intro none) auto
    qed
  next
    case True
    have t1: "0 \<le> t + 1" "t \<le> t + 1" using t by simp_all
    obtain b2 t2 where a2: "t + 1 \<le> t2" "b2 \<longrightarrow> occurs c t2" "\<not> b2 \<longrightarrow> year_at t2 - year_at (t + 1) > 4"
        "one_second c \<longrightarrow> (\<forall>u \<ge> t + 1. occurs c u \<longrightarrow> t2 \<le> u)"
        "find_next_after_loop 7199 utc_clock cron_standard_traits c t (t + 1) =
         (if \<not> b2 then Some (Inr (INVALID_TIME, None)) else if t < t2 then Some (Inr (t2, Some (utc_tm t2)))
          else case 7199 of 0 \<Rightarrow> Some (Inr (INVALID_TIME, None))
             | Suc n \<Rightarrow> find_next_after_loop n utc_clock cron_standard_traits c t (t + 1 + 1))"
      by (rule next_loop [OF search_total_correct [OF t1(1) order_refl c] t1(2,1), of 7199]) (rule that)
    have "t < t2" using a2(1) by simp
    note a3 = a2(5) [unfolded if_P [OF this]]
    show thesis
    proof (cases b2)
      case b2: True
      then show thesis using a(5) a2(1,2,4) a3 nx True by (intro found [of t2]) auto
    next
      case nb: False
      then show thesis using a(5) a2(4) a3 nx True far [OF nb a2(3) t1(2)] by (intro none) auto
    qed
  qed
qed

lemma one_second_count:
  assumes "bit_count (seconds c) = 1"
  shows "one_second c"
proof -
  have "card {i. i < length (seconds c) \<and> seconds c ! i} = 1"
    using assms by (simp add: bit_count_def length_filter_conv_card)
  then obtain k where k: "{i. i < length (seconds c) \<and> seconds c ! i} = {k}" by (rule card_1_singletonE)
  have "i = k" if "bit_test (seconds c) i" for i
  proof -
    have "i \<in> {k}" unfolding k [symmetric] using that by (simp add: bit_test_def)
    then show ?thesis by simp
  qed
  then show ?thesis unfolding one_second_def by blast
qed

lemma parsed_cron_ok:
  assumes "make_cron cron_standard_traits e = Inr c" "plain_days c" "bit_all (years c)"
  shows "cron_ok c"
proof -
  have "known_traits cron_standard_traits" by (simp add: known_traits_def)
  from make_cron_wf(1) [OF this assms(1)] show ?thesis using assms(2,3) by (simp add: cron_ok_def)
qed

text \<open>
  The specification: the least later occurrence, or none within the four calendar years that follow.
  \<open>cron_next\<close> meets it whenever the seconds field names one second.
\<close>

definition least_after :: "cronexpr \<Rightarrow> int \<Rightarrow> int \<Rightarrow> bool" where
  "least_after c t r \<longleftrightarrow>
     (if r = INVALID_TIME then \<forall>u > t. occurs c u \<longrightarrow> year_at t + 4 < year_at u
      else t < r \<and> occurs c r \<and> (\<forall>u > t. occurs c u \<longrightarrow> r \<le> u))"

lemma cron_next_least:
  assumes "0 \<le> t" "cron_ok c" "one_second c"
  shows "\<exists>r. cron_next utc_clock cron_standard_traits c t = Some (Inr r) \<and> least_after c t r"
  by (rule cron_next_cases [OF assms(1,2)]) (use assms in \<open>auto simp: least_after_def INVALID_TIME_def\<close>)

text \<open>C16: computing the next occurrence always returns, and what it returns is an occurrence. In UTC,
  for every accepted expression that leaves the year open and uses no nearest-weekday, n-th-weekday
  or last-weekday qualifier, the recursive search behind \<open>cron_next\<close> comes to an end from every
  instant since the epoch and never with an exception; an answer other than \<open>INVALID_TIME\<close> lies
  strictly after the given instant, and its second, minute, hour, day and month all match the
  expression.
\<close>

theorem cron_next_terminates:
  assumes "make_cron cron_standard_traits e = Inr c" "plain_days c" "bit_all (years c)" "0 \<le> t"
  shows "\<exists>r. cron_next utc_clock cron_standard_traits c t = Some (Inr r) \<and> (r = INVALID_TIME \<or> t < r \<and> occurs c r)"
  by (rule cron_next_cases [OF assms(4) parsed_cron_ok [OF assms(1-3)]]) blast+

text \<open>C7: in UTC, for an accepted expression whose seconds field names one second, which every five-field
  crontab expression does, that leaves the year open and uses no nearest-weekday, n-th-weekday or
  last-weekday qualifier, and for an instant since the epoch, \<open>cron_next\<close> refines the specification
  "the least later occurrence": it returns an occurrence with no other between it and the given
  instant, or \<open>INVALID_TIME\<close> when there is none within the search horizon of four years. (With a
  nearest weekday it can answer a time that does not match, \<open>nearest_weekday_misses_time\<close>.)
\<close>

theorem cron_next_is_least:
  assumes "make_cron cron_standard_traits e = Inr c" "plain_days c" "bit_all (years c)" "0 \<le> t"
    and "bit_count (seconds c) = 1"
  shows "\<exists>r. cron_next utc_clock cron_standard_traits c t = Some (Inr r) \<and> least_after c t r"
  by (rule cron_next_least [OF assms(4) parsed_cron_ok [OF assms(1-3)] one_second_count [OF assms(5)]])

section \<open>Witnesses and shortcomings\<close>

text \<open>The parsed expression, for closed statements.\<close>

definition parsed :: "string \<Rightarrow> cronexpr" where
  "parsed e = (case make_cron cron_standard_traits e of Inl _ \<Rightarrow> default_cronexpr | Inr c \<Rightarrow> c)"

lemma parsed_hourly:
  "make_cron cron_standard_traits ''0 30 * * * *'' = Inr (parsed ''0 30 * * * *'')"
  "plain_days (parsed ''0 30 * * * *'')" "bit_all (years (parsed ''0 30 * * * *''))"
  "bit_count (seconds (parsed ''0 30 * * * *'')) = 1" "min_ok (parsed ''0 30 * * * *'') 1800"
  "occurs (parsed ''0 30 * * * *'') 1800"
  unfolding parsed_def by code_simp+

text \<open>The witnesses: half past every hour.\<close>

lemma cron_next_terminates_witness:
  "\<exists>r. cron_next utc_clock cron_standard_traits (parsed ''0 30 * * * *'') 0 = Some (Inr r) \<and>
     (r = INVALID_TIME \<or> 0 < r \<and> occurs (parsed ''0 30 * * * *'') r)"
  by (rule cron_next_terminates [OF parsed_hourly(1-3)]) simp

lemma search_hourly: "search (parsed ''0 30 * * * *'') 0 70 = Some (Inr (True, utc_tm 1800))"
proof -
  define c where "c = parsed ''0 30 * * * *''"
  have ok: "cron_ok c" unfolding c_def by (rule parsed_cron_ok [OF parsed_hourly(1-3)])
  have b: "next_set_bit (minutes c) 0 = Some 30" "sec_ok c 0" "sec_ok c 1800" "\<not> min_ok c 0" "occurs c 1800"
    unfolding c_def parsed_def by code_simp+
  have s: "after_second c 0 = 0" "after_second c 1800 = 1800"
    using b(2,3) second_facts(4) [OF _ ok, of 0] second_facts(4) [OF _ ok, of 1800] by simp_all
  have m: "mins.move (minutes c) True False False False 0 = 1800"
    using b(1) unfolding mins.move_def put_minute_def
    by (simp add: reset_at_def day_number_def hour_of_def min_of_def sec_of_def)
  have "search c 1800 70 = Some (Inr (True, utc_tm 1800))" using search_found [OF _ ok, of 1800] b(5) s by simp
  then show ?thesis using search_min [OF _ ok, of 0 70 True 1800] s b m unfolding c_def by simp
qed

lemma cron_next_hourly: "cron_next utc_clock cron_standard_traits (parsed ''0 30 * * * *'') 0 = Some (Inr 1800)"
proof -
  have ne: "\<not> cron_empty (parsed ''0 30 * * * *'')" unfolding parsed_def by code_simp
  have y: "tm_year (utc_tm 0) = 70" by code_simp
  show ?thesis using ne search_hourly y
    by (simp add: cron_next_def find_next_after_def find_next_after_loop.simps utc_clock_def INVALID_TIME_def)
qed

lemma cron_next_is_least_witness:
  "cron_next utc_clock cron_standard_traits (parsed ''0 30 * * * *'') 0 = Some (Inr 1800) \<and>
   least_after (parsed ''0 30 * * * *'') 0 1800"
  using cron_next_is_least [OF parsed_hourly(1-3) _ parsed_hourly(4), of 0] cron_next_hourly by simp

text \<open>C39: with several seconds in the field the search can jump over an occurrence. From 00:05:30 on the
  first day of the epoch, \<open>10,45 10 * * * *\<close> is answered with 00:10:45 although 00:10:10 matches: the
  second found first, 45, is kept when the minute moves on.
\<close>

theorem cron_next_skips_occurrence:
  "cron_next utc_clock cron_standard_traits (parsed ''10,45 10 * * * *'') 330 = Some (Inr 645) \<and>
   occurs (parsed ''10,45 10 * * * *'') 610"
proof -
  define c where "c = parsed ''10,45 10 * * * *''"
  have p: "make_cron cron_standard_traits ''10,45 10 * * * *'' = Inr c" "plain_days c" "bit_all (years c)" "\<not> cron_empty c"
    unfolding c_def parsed_def by code_simp+
  have ok: "cron_ok c" by (rule parsed_cron_ok [OF p(1-3)])
  have b: "next_set_bit (seconds c) 30 = Some 45" "next_set_bit (minutes c) 5 = Some 10" "\<not> sec_ok c 330" "sec_ok c 645"
    "\<not> min_ok c 345" "occurs c 645" "occurs c 610"
    unfolding c_def parsed_def by code_simp+
  have s1: "after_second c 330 = 345" using b(1) unfolding after_second_def sec.move_def put_second_def by (simp add: sec_of_def)
  have s2: "after_second c 645 = 645" using b(4) second_facts(4) [OF _ ok, of 645] by simp
  have m: "mins.move (minutes c) False False False False 345 = 645"
    using b(2) unfolding mins.move_def put_minute_def by (simp add: min_of_def)
  have "search c 645 70 = Some (Inr (True, utc_tm 645))" using search_found [OF _ ok, of 645] b(6) s2 by simp
  then have "search c 330 70 = Some (Inr (True, utc_tm 645))"
    using search_min [OF _ ok, of 330 70 True 645] s1 b m by simp
  moreover have "tm_year (utc_tm 330) = 70" by code_simp
  ultimately have "cron_next utc_clock cron_standard_traits c 330 = Some (Inr 645)" using p(4)
    by (simp add: cron_next_def find_next_after_def find_next_after_loop.simps utc_clock_def INVALID_TIME_def)
  then show ?thesis using b(7) unfolding c_def by blast
qed

text \<open>
  The day fields of \<open>0 30 10 15W * ?\<close>, half past ten on the weekday nearest the 15th; in August 2026
  the 15th is a Saturday and the day is the 14th.
\<close>

primrec days_without :: "cronexpr \<Rightarrow> nat \<Rightarrow> int \<Rightarrow> bool" where
  "days_without c 0 d = True"
| "days_without c (Suc n) d = (\<not> day_ok c (86400 * d) \<and> days_without c n (d + 1))"

lemma days_withoutD: "days_without c n d \<Longrightarrow> d \<le> e \<Longrightarrow> e < d + int n \<Longrightarrow> \<not> day_ok c (86400 * e)"
proof (induction n arbitrary: d)
  case (Suc n)
  show ?case
  proof (cases "e = d")
    case False
    then show ?thesis using Suc.prems by (intro Suc.IH [of "d + 1"]) auto
  qed (use Suc.prems in simp)
qed simp

definition nearest_15th :: cronexpr where
  "nearest_15th = default_cronexpr
     \<lparr>dom_options := \<lparr>dom_last = False, dom_nearest_weekday = True, dom_day = 15, dom_restricted = True\<rparr>,
      dow_options := \<lparr>dow_nth = 0, dow_last = False, dow_restricted = False\<rparr>, days_of_week := replicate 7 True\<rparr>"

lemma nearest_15th_days: "days_without nearest_15th 31 20680" "day_ok nearest_15th (86400 * 20711)"
  by code_simp+

lemma parsed_15W:
  fixes c defines "c \<equiv> parsed ''0 30 10 15W * ?''"
  shows "day_ok c = day_ok nearest_15th" "bit_test (months c) 8" "bit_test (seconds c) 0" "bit_test (minutes c) 30"
    "bit_test (hours c) 10" "bit_all (years c)" "\<not> cron_empty c" "\<not> hour_ok c 1789430400"
proof -
  have "dom_options c = dom_options nearest_15th" "dow_options c = dow_options nearest_15th"
    "days_of_week c = days_of_week nearest_15th" "days_of_month c = days_of_month nearest_15th"
    unfolding c_def by code_simp+
  then show "day_ok c = day_ok nearest_15th"
    by (intro ext) (simp only: day_ok_def matches_day_def)
  show "bit_test (months c) 8" "bit_test (seconds c) 0" "bit_test (minutes c) 30"
    "bit_test (hours c) 10" "bit_all (years c)" "\<not> cron_empty c" "\<not> hour_ok c 1789430400"
    unfolding c_def by code_simp+
qed

lemma saturday_parts:
  "sec_of 1786789800 = 0" "min_of 1786789800 = 30" "hour_of 1786789800 = 10" "mday_at 1786789800 = 15"
  "mday_at 1789430400 = 15" "mon_at 1789430400 = 8" "year_at 1786789800 = 2026" "day_number 1786789800 = 20680"
  by code_simp+

text \<open>the nearest-weekday qualifier can yield a time that does not match. From half past ten on
  Saturday the 15th of August 2026, \<open>0 30 10 15W * ?\<close> is answered with midnight of the 15th of
  September: the day moved on by a month to the same day of the month, the search takes that for no
  move at all, and the hour and the minute it had already reset are not searched again.
\<close>

theorem nearest_weekday_misses_time:
  "cron_next utc_clock cron_standard_traits (parsed ''0 30 10 15W * ?'') 1786789800 = Some (Inr 1789430400) \<and>
   \<not> occurs (parsed ''0 30 10 15W * ?'') 1789430400"
proof -
  define c where "c = parsed ''0 30 10 15W * ?''"
  note p = parsed_15W [folded c_def] and t = saturday_parts
  define t0 :: int where "t0 = 1786789800"
  note t' = t [folded t0_def]
  have no: "\<not> day_ok c (86400 * e)" if "20680 \<le> e" "e < 20711" for e
    using days_withoutD [OF nearest_15th_days(1), of e] that p(1) by simp
  have ok: "day_ok c (86400 * 20711)" using nearest_15th_days(2) p(1) by simp
  have "day_number t0 = day_number (86400 * 20680)" using t'(8) by (simp only: day_instant)
  from day_ok_day [OF this, of c] have "\<not> day_ok c t0" using no [of 20680] by simp
  moreover have "0 \<le> t0" "day_number t0 \<le> 20711" "20711 \<le> day_number t0 + int 366" using t' by (simp_all add: t0_def)
  ultimately obtain t2 where t2: "find_next_day utc_clock cron_standard_traits c (utc_tm t0) (mday_at t0)
      (marks True True True False) = Inr (mday_at t2, utc_tm t2)" "moves True (day_ok c) t0 t2" "day_ok c t2"
    using day_loop [of t0 c 20711 366 "mday_at t0" True] ok unfolding find_next_day_def by blast
  have "minute_number t2 \<le> minute_number 1789430400"
  proof -
    have "t0 \<le> 86400 * 20711" by (simp add: t0_def)
    then show ?thesis using t2(2) ok by (auto simp: moves_def)
  qed
  moreover have "minute_number 1789430400 = 29823840" by code_simp
  ultimately have hi: "minute_number t2 \<le> 29823840" by simp
  have "day_number t2 = 20711"
  proof (rule ccontr)
    assume ne: "day_number t2 \<noteq> 20711"
    have "day_number t2 < 20711" using hi ne minute_day(1) [of t2] by simp
    moreover have "20680 \<le> day_number t2" using day_number_mono [of t0 t2] moves_less [OF t2(2)] t' by simp
    ultimately show False using no [of "day_number t2"] t2(3) day_ok_day [of t2 "86400 * day_number t2" c] by simp
  qed
  then have "minute_number t2 = 29823840" using hi minute_day(1) [of t2] by simp
  moreover have "sec_of t2 = 0" using t2(2) by (simp add: moves_def)
  ultimately have e: "t2 = 1789430400" using number_parts [of t2] by simp
  have stages: "find_next_value utc_clock (seconds c) (utc_tm t0) 0 second minute m = Inr (Some 0, utc_tm t0)"
      "find_next_value utc_clock (minutes c) (utc_tm t0) 30 minute hour_of_day m = Inr (Some 30, utc_tm t0)"
      "find_next_value utc_clock (hours c) (utc_tm t0) 10 hour_of_day day_of_week m = Inr (Some 10, utc_tm t0)"
      "find_next_value utc_clock (months c) (utc_tm 1789430400) 8 month year m = Inr (Some 8, utc_tm 1789430400)" for m
    using p by (simp_all add: find_next_value_here)
  have "find_next utc_clock cron_standard_traits c (utc_tm t0) 126 = Some (Inr (True, utc_tm 1789430400))"
    by (subst find_next.simps)
      (use t2(1) t' p(6) in \<open>simp add: stages Let_def e check_year_def mday_at_def [symmetric] date_at(3)\<close>)
  moreover have "tm_year (utc_tm t0) = 126" using date_at(4) [of t0] t' by simp
  ultimately have "cron_next utc_clock cron_standard_traits c t0 = Some (Inr 1789430400)" using p(7)
    by (simp add: cron_next_def find_next_after_def find_next_after_loop.simps utc_clock_def INVALID_TIME_def t0_def)
  then show ?thesis using p(8) unfolding c_def t0_def by (simp add: occurs_def)
qed

end
