(* ===== verification/Cron_Print.thy ===== *)
theory Cron_Print
  imports Cron_Wf
begin

text \<open>
  The concrete syntax of one numeric field of a crontab expression and the values it stands for, and
  the round trip: printing a list of values, ranges and steps and parsing it sets exactly their
  bits.
\<close>

section \<open>The syntax of a field\<close>

datatype range_item = All | One nat | Span nat nat

datatype cron_item = Plain range_item | Step range_item nat

fun print_range :: "range_item \<Rightarrow> string" where
  "print_range All = ''*''"
| "print_range (One n) = to_string n"
| "print_range (Span a b) = to_string a @ ''-'' @ to_string b"

fun print_item :: "cron_item \<Rightarrow> string" where
  "print_item (Plain r) = print_range r"
| "print_item (Step r d) = print_range r @ ''/'' @ to_string d"

fun print_items :: "cron_item list \<Rightarrow> string" where
  "print_items [] = []"
| "print_items [i] = print_item i"
| "print_items (i # is) = print_item i @ '','' @ print_items is"

fun range_bounds :: "nat \<Rightarrow> nat \<Rightarrow> range_item \<Rightarrow> nat \<times> nat" where
  "range_bounds lo hi All = (lo, hi)"
| "range_bounds lo hi (One n) = (n, n)"
| "range_bounds lo hi (Span a b) = (a, b)"

fun step_bound :: "nat \<Rightarrow> nat \<Rightarrow> range_item \<Rightarrow> nat" where
  "step_bound lo hi (Span a b) = b"
| "step_bound lo hi _ = hi"

fun item_values :: "nat \<Rightarrow> nat \<Rightarrow> cron_item \<Rightarrow> nat set" where
  "item_values lo hi (Plain r) = {fst (range_bounds lo hi r) .. snd (range_bounds lo hi r)}"
| "item_values lo hi (Step r d) = {n. \<exists>k. n = fst (range_bounds lo hi r) + k * d \<and> n \<le> step_bound lo hi r}"

definition range_ok :: "nat \<Rightarrow> nat \<Rightarrow> range_item \<Rightarrow> bool" where
  "range_ok lo hi r = (case range_bounds lo hi r of (a, b) \<Rightarrow> lo \<le> a \<and> a \<le> b \<and> b \<le> hi)"

text \<open>A step is read back when no value of the field plus the step exceeds the number type.\<close>

fun item_ok :: "cron_type \<Rightarrow> nat \<Rightarrow> nat \<Rightarrow> cron_item \<Rightarrow> bool" where
  "item_ok t lo hi (Plain r) = range_ok lo hi r"
| "item_ok t lo hi (Step r d) = (range_ok lo hi r \<and> 0 < d \<and> int (hi - lo) + int d \<le> type_max t)"

section \<open>Reading numbers\<close>

lemma number_of_snoc [simp]: "number_of (s @ [c]) = number_of s * 10 + int (digit_value c)"
  by (simp add: number_of_def)

lemma number_of_to_string [simp]: "number_of (to_string n) = int n"
proof (induction n rule: less_induct)
  case (less n)
  show ?case
  proof (cases "n < 10")
    case True
    then show ?thesis by (simp add: to_string_small number_of_def)
  next
    case False
    then have "number_of (to_string (n div 10)) = int (n div 10)" by (intro less) simp
    then show ?thesis using False by (simp add: to_string_large) presburger
  qed
qed

lemma to_cron_number_to_string: "int n \<le> type_max t \<Longrightarrow> to_cron_number t (to_string n) = Inr n"
proof -
  assume n: "int n \<le> type_max t"
  have "find (\<lambda>c. \<not> is_digit c) (to_string n) = None" using to_string_digits by (auto simp: find_None_iff)
  moreover have "int n \<le> ULONG_MAX" using n by (cases t) (simp_all add: ULONG_MAX_def)
  ultimately show ?thesis using n by (simp add: to_cron_number_def Let_def)
qed

lemma not_in_to_string [simp]: "\<not> is_digit c \<Longrightarrow> c \<notin> set (to_string n)"
  using to_string_digits by blast

lemma not_is_digit [simp]:
  "\<not> is_digit (CHR ''-'')" "\<not> is_digit (CHR ''/'')" "\<not> is_digit (CHR '','')" "\<not> is_digit (CHR ''*'')"
  "\<not> is_digit (CHR 0x00)"
  by (simp_all add: is_digit_def)

section \<open>Splitting\<close>

lemma getline_tokens_last: "d \<notin> set s \<Longrightarrow> s \<noteq> [] \<Longrightarrow> getline_tokens s d = [s]"
proof (cases s)
  case (Cons c cs)
  assume "d \<notin> set s"
  then have c: "c \<noteq> d" "\<forall>x \<in> set cs. x \<noteq> d" using Cons by auto
  then have "takeWhile (\<lambda>c. c \<noteq> d) cs = cs" "dropWhile (\<lambda>c. c \<noteq> d) cs = []"
    by (simp_all add: takeWhile_eq_all_conv dropWhile_eq_Nil_conv)
  then show ?thesis unfolding Cons getline_tokens.simps using c(1) by (simp only: if_False) simp
qed simp

lemma getline_tokens_append: "d \<notin> set s \<Longrightarrow> getline_tokens (s @ d # rest) d = s # getline_tokens rest d"
proof (cases s)
  case (Cons c cs)
  assume "d \<notin> set s"
  then have "takeWhile (\<lambda>c. c \<noteq> d) (cs @ d # rest) = cs" "dropWhile (\<lambda>c. c \<noteq> d) (cs @ d # rest) = d # rest"
    using Cons by (auto simp: takeWhile_append dropWhile_append takeWhile_eq_all_conv)
  moreover have "c \<noteq> d" using Cons \<open>d \<notin> set s\<close> by auto
  ultimately show ?thesis using Cons by simp
qed simp

lemma c_string_id [simp]: "CHR 0x00 \<notin> set s \<Longrightarrow> c_string s = s"
  by (auto simp: c_string_def takeWhile_eq_all_conv)

lemma split_two:
  "d \<notin> set a \<Longrightarrow> d \<notin> set b \<Longrightarrow> b \<noteq> [] \<Longrightarrow> CHR 0x00 \<notin> set (a @ d # b) \<Longrightarrow> split (a @ d # b) d = [a, b]"
  by (simp add: split_def getline_tokens_append getline_tokens_last)

lemma print_range_chars: "c \<in> set (print_range r) \<Longrightarrow> is_digit c \<or> c = CHR ''-'' \<or> c = CHR ''*''"
  by (cases r) (auto dest: to_string_digits)

lemma print_item_chars: "c \<in> set (print_item i) \<Longrightarrow> is_digit c \<or> c = CHR ''-'' \<or> c = CHR ''*'' \<or> c = CHR ''/''"
  by (cases i) (auto dest: to_string_digits print_range_chars)

lemma print_range_nonempty [simp]: "print_range r \<noteq> []"
  by (cases r) simp_all

lemma print_item_nonempty [simp]: "print_item i \<noteq> []"
  by (cases i) simp_all

section \<open>The round trip\<close>

lemma type_max_ge: "255 \<le> type_max t"
  by (cases t) simp_all

lemma contains_print_range: "contains (print_range r) (CHR ''-'') \<longleftrightarrow> (\<exists>a b. r = Span a b)"
  by (cases r) (simp_all add: contains_def)

lemma make_range_print:
  assumes ok: "range_ok lo hi r" and hi: "int hi \<le> type_max t"
  shows "make_range t (print_range r) lo hi = Inr (range_bounds lo hi r)"
proof -
  have chk: "check_range lo hi (range_bounds lo hi r) = Inr (range_bounds lo hi r)"
    using ok by (auto simp: range_ok_def check_range_def split: prod.splits)
  show ?thesis
  proof (cases r)
    case All
    then show ?thesis using chk by (simp add: make_range_def)
  next
    case (One n)
    have "int n \<le> type_max t" using One ok hi by (simp add: range_ok_def)
    moreover have "to_string n \<noteq> ''*''" by (metis list.set_intros(1) not_in_to_string not_is_digit(4))
    ultimately show ?thesis using chk One
      by (simp add: make_range_def contains_def to_cron_number_to_string)
  next
    case (Span a b)
    have n: "int a \<le> type_max t" "int b \<le> type_max t" using Span ok hi by (simp_all add: range_ok_def)
    have s: "split (to_string a @ CHR ''-'' # to_string b) (CHR ''-'') = [to_string a, to_string b]"
      by (rule split_two) simp_all
    have "to_string a @ CHR ''-'' # to_string b \<noteq> ''*''"
      by (metis append_is_Nil_conv list.distinct(1) list.sel(3) to_string_nonempty append_eq_Cons_conv)
    then show ?thesis using chk Span n s
      by (simp add: make_range_def contains_def to_cron_number_to_string)
  qed
qed

lemma set_steps_bits:
  "final \<le> index_limit t \<Longrightarrow> 0 < d \<Longrightarrow> int final + int d \<le> type_max t \<Longrightarrow> final < length a \<Longrightarrow>
   \<exists>b. set_steps t i final d a = Inr b \<and> length b = length a \<and>
     (\<forall>j. bit_test b j \<longleftrightarrow> bit_test a j \<or> (j \<le> final \<and> (\<exists>k. j = i + k * d)))"
proof (induction t i final d a rule: set_steps.induct)
  case (1 t i final d a)
  have g: "\<not> (final > index_limit t \<or> d = 0 \<or> int d > type_max t)" using "1.prems" by auto
  show ?case
  proof (cases "i \<le> final")
    case False
    then have "set_steps t i final d a = Inr a" using g by (subst set_steps.simps) simp
    moreover have "\<not> (j \<le> final \<and> (\<exists>k. j = i + k * d))" for j using False by auto
    ultimately show ?thesis by blast
  next
    case True
    have put: "bit_put a i = Inr (a[i := True])" using True "1.prems" by (simp add: bit_put_ok)
    have adv: "advance t i d = Inr (i + d)" using True "1.prems" by (cases t) auto
    from "1.IH" [OF g True put adv] "1.prems" obtain b
      where b: "set_steps t (i + d) final d (a[i := True]) = Inr b" "length b = length a"
        "\<And>j. bit_test b j \<longleftrightarrow> bit_test (a[i := True]) j \<or> (j \<le> final \<and> (\<exists>k. j = i + d + k * d))"
      by auto
    have "(\<exists>k. j = i + k * d) \<longleftrightarrow> j = i \<or> (\<exists>k. j = i + d + k * d)" for j
    proof
      assume "\<exists>k. j = i + k * d"
      then obtain k where "j = i + k * d" by blast
      then show "j = i \<or> (\<exists>k. j = i + d + k * d)" by (cases k) auto
    next
      assume "j = i \<or> (\<exists>k. j = i + d + k * d)"
      then show "\<exists>k. j = i + k * d"
        by (metis add.assoc mult_0 add_0_right mult_Suc)
    qed
    then have "bit_test b j \<longleftrightarrow> bit_test a j \<or> (j \<le> final \<and> (\<exists>k. j = i + k * d))" for j
      using b(3) [of j] True "1.prems" by (auto simp: bit_test_put)
    moreover have "set_steps t i final d a = Inr b" using b(1) g True put adv by (subst set_steps.simps) simp
    ultimately show ?thesis using b(2) by blast
  qed
qed

text \<open>What parsing an item does to a bitset whose bit \<open>0\<close> is the value \<open>lo\<close>.\<close>

definition adds_values :: "nat \<Rightarrow> nat set \<Rightarrow> bool list \<Rightarrow> bool list \<Rightarrow> bool" where
  "adds_values lo V a b \<longleftrightarrow> length b = length a \<and> (\<forall>j. bit_test b j \<longleftrightarrow> bit_test a j \<or> lo + j \<in> V)"

lemma adds_values_trans:
  "adds_values lo U a b \<Longrightarrow> adds_values lo V b c \<Longrightarrow> adds_values lo (U \<union> V) a c"
  by (auto simp: adds_values_def)

lemma set_element_plain:
  assumes w: "field_width t lo hi a" and hi: "int hi \<le> type_max t" and ok: "range_ok lo hi r"
  shows "\<exists>b. set_element t lo hi (print_range r) a = Inr b \<and> adds_values lo (item_values lo hi (Plain r)) a b"
proof -
  obtain f l where fl: "range_bounds lo hi r = (f, l)" by fastforce
  then have b: "lo \<le> f" "f \<le> l" "l \<le> hi" using ok by (simp_all add: range_ok_def)
  define n where "n = Suc (l - lo) - (f - lo)"
  have "f - lo + n \<le> length a" using b w by (auto simp: field_width_def n_def)
  from set_range_bits [OF this] obtain c where c: "set_range (f - lo) n a = Inr c" "length c = length a"
    "\<And>j. bit_test c j \<longleftrightarrow> bit_test a j \<or> (f - lo \<le> j \<and> j < f - lo + n)" by blast
  have "f - lo \<le> j \<and> j < f - lo + n \<longleftrightarrow> lo + j \<in> {f..l}" for j using b by (auto simp: n_def)
  then have "adds_values lo {f..l} a c" using c by (simp add: adds_values_def)
  moreover have "\<not> contains (print_range r) (CHR ''/'')"
    using print_range_chars [of "CHR ''/''" r] by (auto simp: contains_def)
  ultimately show ?thesis using c(1) make_range_print [OF ok hi] fl
    by (simp add: set_element_def n_def)
qed

lemma set_element_step:
  assumes w: "field_width t lo hi a" and hi: "int hi \<le> type_max t" and ok: "item_ok t lo hi (Step r d)"
  shows "\<exists>b. set_element t lo hi (print_item (Step r d)) a = Inr b \<and>
     adds_values lo (item_values lo hi (Step r d)) a b"
proof -
  obtain f l where fl: "range_bounds lo hi r = (f, l)" by fastforce
  from ok have r: "range_ok lo hi r" and d: "0 < d" "int (hi - lo) + int d \<le> type_max t" by simp_all
  define k where "k = step_bound lo hi r"
  have b: "lo \<le> f" "f \<le> hi" "lo \<le> k" "k \<le> hi" using r fl w
    by (cases r; auto simp: range_ok_def k_def field_width_def)+
  have sp: "split (print_range r @ CHR ''/'' # to_string d) (CHR ''/'') = [print_range r, to_string d]"
    using print_range_chars [of "CHR ''/''" r] print_range_chars [of "CHR 0x00" r] by (intro split_two) auto
  have st: "k - lo \<le> index_limit t" "int (k - lo) + int d \<le> type_max t" "k - lo < length a"
    using b d w by (auto simp: field_width_def)
  from set_steps_bits [OF st(1) d(1) st(2,3), of "f - lo"] obtain c
    where c: "set_steps t (f - lo) (k - lo) d a = Inr c" "length c = length a"
      "\<And>j. bit_test c j \<longleftrightarrow> bit_test a j \<or> (j \<le> k - lo \<and> (\<exists>m. j = f - lo + m * d))" by blast
  have "j \<le> k - lo \<and> (\<exists>m. j = f - lo + m * d) \<longleftrightarrow> lo + j \<in> item_values lo hi (Step r d)" for j
  proof -
    have "j = f - lo + m * d \<longleftrightarrow> lo + j = f + m * d" for m using b by auto
    moreover have "j \<le> k - lo \<longleftrightarrow> lo + j \<le> k" using b by auto
    ultimately show ?thesis using fl by (auto simp: k_def)
  qed
  then have "adds_values lo (item_values lo hi (Step r d)) a c" using c by (simp add: adds_values_def)
  moreover have "k = (if \<not> contains (print_range r) (CHR ''-'') then hi else l)"
    using fl unfolding contains_print_range k_def by (cases r) auto
  moreover have "to_cron_number t (to_string d) = Inr d" using d by (intro to_cron_number_to_string) simp
  ultimately show ?thesis using c(1) make_range_print [OF r hi] fl sp d(1)
    by (simp add: set_element_def contains_def Let_def)
qed

lemma set_elements_print:
  "\<forall>i \<in> set is. item_ok t lo hi i \<Longrightarrow> field_width t lo hi a \<Longrightarrow> int hi \<le> type_max t \<Longrightarrow>
   \<exists>b. set_elements t lo hi (map print_item is) a = Inr b \<and>
     adds_values lo (\<Union>i \<in> set is. item_values lo hi i) a b"
proof (induction "is" arbitrary: a)
  case (Cons i "is")
  have "\<exists>b. set_element t lo hi (print_item i) a = Inr b \<and> adds_values lo (item_values lo hi i) a b"
    using Cons.prems set_element_plain [of t lo hi a] set_element_step [of t lo hi a] by (cases i) auto
  then obtain b where b: "set_element t lo hi (print_item i) a = Inr b" "adds_values lo (item_values lo hi i) a b"
    by blast
  then have "field_width t lo hi b" using Cons.prems by (simp add: field_width_def adds_values_def)
  with Cons obtain c where "set_elements t lo hi (map print_item is) b = Inr c"
    "adds_values lo (\<Union>i \<in> set is. item_values lo hi i) b c" by auto
  then show ?case using b adds_values_trans [OF b(2)] by simp
qed (simp add: adds_values_def)

lemma getline_print_items: "is \<noteq> [] \<Longrightarrow> getline_tokens (print_items is) (CHR '','') = map print_item is"
proof (induction "is" rule: print_items.induct)
  case (2 i)
  then show ?case using print_item_chars [of "CHR '',''" i] by (auto intro!: getline_tokens_last)
next
  case (3 i j "is")
  have "CHR '','' \<notin> set (print_item i)" using print_item_chars [of "CHR '',''" i] by auto
  then show ?case using 3 by (simp add: getline_tokens_append)
qed simp

lemma print_items_chars: "c \<in> set (print_items is) \<Longrightarrow> c \<noteq> CHR 0x00"
  by (induction "is" rule: print_items.induct) (auto dest: print_item_chars)

lemma print_items_last: "is \<noteq> [] \<Longrightarrow> print_items is \<noteq> [] \<and> last (print_items is) \<noteq> CHR '',''"
proof (induction "is" rule: print_items.induct)
  case (2 i)
  have "last (print_item i) \<in> set (print_item i)" by simp
  then show ?case using print_item_chars by fastforce
qed auto

text \<open>C38: a field of a crontab expression means what it says. Printing a non-empty list of values,
  ranges and steps and parsing the text sets exactly the bits of the values the list denotes, a step
  without an upper bound running to the end of the field, provided every value is in the range of
  the field and no step can carry a value past the number type.
\<close>

theorem field_roundtrip:
  assumes "is \<noteq> []" "\<forall>i \<in> set is. item_ok t lo hi i" "field_width t lo hi a" "int hi \<le> type_max t"
  shows "\<exists>b. set_cron_field t (print_items is) a lo hi = Inr b \<and> length b = length a \<and>
     (\<forall>j. bit_test b j \<longleftrightarrow> bit_test a j \<or> (\<exists>i \<in> set is. lo + j \<in> item_values lo hi i))"
proof -
  have "c_string (print_items is) = print_items is"
    using print_items_chars by (intro c_string_id) blast
  then have "split (print_items is) (CHR '','') = map print_item is"
    using getline_print_items assms(1) by (simp add: split_def)
  then show ?thesis using set_elements_print [OF assms(2-4)] print_items_last [OF assms(1)] assms(1)
    by (auto simp: set_cron_field_def adds_values_def)
qed

text \<open>The witness: the minutes \<open>5,20-22,30/15\<close>.\<close>

lemma field_roundtrip_witness:
  "\<exists>b. set_cron_field CronInt ''5,20-22,30/15'' (no_bits 60) 0 59 = Inr b \<and> bit_test b 45 \<and> \<not> bit_test b 15"
proof -
  define m where "m = [Plain (One 5), Plain (Span 20 22), Step (One 30) 15]"
  have p: "print_items m = ''5,20-22,30/15''" unfolding m_def by code_simp
  have ok: "m \<noteq> []" "\<forall>i \<in> set m. item_ok CronInt 0 59 i" by (simp_all add: m_def range_ok_def)
  have w: "field_width CronInt 0 59 (no_bits 60)" by (simp add: field_width_def no_bits_def)
  obtain b where b: "set_cron_field CronInt (print_items m) (no_bits 60) 0 59 = Inr b"
    "\<And>j. bit_test b j \<longleftrightarrow> bit_test (no_bits 60) j \<or> (\<exists>i \<in> set m. 0 + j \<in> item_values 0 59 i)"
    using field_roundtrip [OF ok w] by auto
  have "(45 :: nat) = 30 + 1 * 15" by simp
  then have "\<exists>k. (45 :: nat) = 30 + k * 15" by blast
  then have "bit_test b 45" using b(2) [of 45] by (auto simp: m_def)
  moreover have "\<not> bit_test b 15" using b(2) [of 15] by (auto simp: m_def no_bits_def bit_test_def)
  ultimately show ?thesis using b(1) p by auto
qed

text \<open>
  Beyond that proviso the eight-bit index wraps: the step of \<open>59/200\<close> is past every second, and still
  the second 3 is set besides 59.
\<close>

lemma step_wraps:
  "case set_cron_field CronInt ''59/200'' (no_bits 60) 0 59 of
     Inl _ \<Rightarrow> False | Inr b \<Rightarrow> bit_test b 59 \<and> bit_test b 3"
  by code_simp

end
