(* ===== verification/Job_Scheduler.thy ===== *)
theory Job_Scheduler
  imports Cron_Correct Cron_Print
begin

text \<open>
  The scheduler of \<open>src/job_scheduler/job_scheduler.cpp\<close>: the normalisation of the crontab
  expression, the constructor, and the loop of its thread as a step relation. The steps of the
  thread interleave with the passing of time, the end of the job and the destructor's request to
  stop. The next occurrence comes from \<open>cron_next\<close> of the process's clock; the system clock counts
  nanoseconds and is not set back.
\<close>

section \<open>The expression\<close>

definition is_blank :: "char \<Rightarrow> bool" where
  "is_blank c \<longleftrightarrow> c = CHR '' '' \<or> c = CHR 0x09 \<or> c = CHR 0x0A \<or> c = CHR 0x0D"

fun count_loop :: "string \<Rightarrow> bool \<Rightarrow> nat \<Rightarrow> nat" where
  "count_loop [] in_field count = count"
| "count_loop (c # cs) in_field count =
     (let space = is_blank c;
          count = (if \<not> space \<and> \<not> in_field then count + 1 else count)
      in count_loop cs (\<not> space) count)"

definition count_fields :: "string \<Rightarrow> nat" where
  "count_fields e = count_loop e False 0"

definition normalize_cron_expr :: "string \<Rightarrow> string" where
  "normalize_cron_expr e = (if count_fields e = 5 then ''0 '' @ e else e)"

section \<open>The scheduler\<close>

text \<open>The counters wrap at 64 bits; the duration of the last run, a floating-point number of seconds in the
  code, is kept in nanoseconds.\<close>

record sched_stats =
  runs_total :: u64
  failures_total :: u64
  running :: u64
  last_run_seconds :: int
  last_run_unix :: int
  next_run_unix :: int

definition zero_stats :: sched_stats where
  "zero_stats = \<lparr>runs_total = 0, failures_total = 0, running = 0, last_run_seconds = 0, last_run_unix = 0,
     next_run_unix = 0\<rparr>"

text \<open>
  Where the thread is: at the head of the loop, in the half-second sleep, waiting for the planned
  occurrence (computed when the clock read \<open>asked\<close>), inside the job, behind the loop, or ended by an
  exception that leaves the thread function.
\<close>

datatype phase = Planning | Sleeping int | Waiting int int | Running int | Stopped | Crashed

text \<open>
  \<open>sc_log\<close> records the runs for the statements below: the second the planning looked at, the planned
  second, and the instant the job started. \<open>sc_failed\<close> counts the jobs that threw.
\<close>

record sched =
  sc_cron :: cronexpr
  sc_stats :: sched_stats
  sc_phase :: phase
  sc_stop :: bool
  sc_now :: int
  sc_log :: "(int \<times> int \<times> int) list"
  sc_failed :: nat

datatype ctor_error = invalid_argument string | uncaught cron_error

definition make_scheduler :: "string \<Rightarrow> int \<Rightarrow> ctor_error + sched" where
  "make_scheduler cron_expr now =
     (case make_cron cron_standard_traits (normalize_cron_expr cron_expr) of
        Inl (bad_cronexpr m) \<Rightarrow> Inl (invalid_argument (''Invalid cron expression: '' @ m))
      | Inl e \<Rightarrow> Inl (uncaught e)
      | Inr c \<Rightarrow> Inr \<lparr>sc_cron = c, sc_stats = zero_stats, sc_phase = Planning, sc_stop = False, sc_now = now,
          sc_log = [], sc_failed = 0\<rparr>)"

definition plan :: "sched \<Rightarrow> int \<Rightarrow> sched" where
  "plan s r =
     (let s = s\<lparr>sc_stats := (sc_stats s)\<lparr>next_run_unix := r\<rparr>\<rparr>
      in if from_time_t r \<le> sc_now s then s\<lparr>sc_phase := Sleeping (sc_now s + 500000000)\<rparr>
         else s\<lparr>sc_phase := Waiting (to_time_t (sc_now s)) r\<rparr>)"

definition start_job :: "sched \<Rightarrow> int \<Rightarrow> int \<Rightarrow> sched" where
  "start_job s asked r =
     s\<lparr>sc_stats := (sc_stats s)\<lparr>runs_total := runs_total (sc_stats s) + 1, running := 1\<rparr>,
       sc_phase := Running (sc_now s), sc_log := sc_log s @ [(asked, r, sc_now s)]\<rparr>"

definition finish_job :: "sched \<Rightarrow> int \<Rightarrow> bool \<Rightarrow> sched" where
  "finish_job s started threw =
     (let st = sc_stats s;
          st = (if threw then st\<lparr>failures_total := failures_total st + 1\<rparr> else st);
          st = st\<lparr>running := 0, last_run_seconds := sc_now s - started, last_run_unix := to_time_t (sc_now s)\<rparr>
      in s\<lparr>sc_stats := st, sc_phase := Planning, sc_failed := sc_failed s + (if threw then 1 else 0)\<rparr>)"

text \<open>The steps of the thread in \<open>run\<close>; \<open>threw\<close> is how the job ended.\<close>

inductive thread_step :: "clock \<Rightarrow> sched \<Rightarrow> sched \<Rightarrow> bool" for ck where
  loop_stop: "sc_phase s = Planning \<Longrightarrow> sc_stop s \<Longrightarrow> thread_step ck s (s\<lparr>sc_phase := Stopped\<rparr>)"
| loop_none: "sc_phase s = Planning \<Longrightarrow> \<not> sc_stop s \<Longrightarrow>
    cron_next ck cron_standard_traits (sc_cron s) (to_time_t (sc_now s)) = Some (Inr INVALID_TIME) \<Longrightarrow>
    thread_step ck s (s\<lparr>sc_phase := Stopped\<rparr>)"
| loop_throw: "sc_phase s = Planning \<Longrightarrow> \<not> sc_stop s \<Longrightarrow>
    cron_next ck cron_standard_traits (sc_cron s) (to_time_t (sc_now s)) = Some (Inl e) \<Longrightarrow>
    thread_step ck s (s\<lparr>sc_phase := Crashed\<rparr>)"
| loop_plan: "sc_phase s = Planning \<Longrightarrow> \<not> sc_stop s \<Longrightarrow>
    cron_next ck cron_standard_traits (sc_cron s) (to_time_t (sc_now s)) = Some (Inr r) \<Longrightarrow> r \<noteq> INVALID_TIME \<Longrightarrow>
    thread_step ck s (plan s r)"
| slept: "sc_phase s = Sleeping u \<Longrightarrow> u \<le> sc_now s \<Longrightarrow> thread_step ck s (s\<lparr>sc_phase := Planning\<rparr>)"
| wait_stop: "sc_phase s = Waiting a r \<Longrightarrow> sc_stop s \<Longrightarrow> thread_step ck s (s\<lparr>sc_phase := Stopped\<rparr>)"
| wait_over: "sc_phase s = Waiting a r \<Longrightarrow> \<not> sc_stop s \<Longrightarrow> from_time_t r \<le> sc_now s \<Longrightarrow>
    thread_step ck s (start_job s a r)"
| job_done: "sc_phase s = Running t \<Longrightarrow> thread_step ck s (finish_job s t threw)"

text \<open>A step of the system: of the thread, of the clock, or of the destructor.\<close>

inductive sched_step :: "clock \<Rightarrow> sched \<Rightarrow> sched \<Rightarrow> bool" for ck where
  thread: "thread_step ck s s' \<Longrightarrow> sched_step ck s s'"
| tick: "0 \<le> d \<Longrightarrow> sched_step ck s (s\<lparr>sc_now := sc_now s + d\<rparr>)"
| request_stop: "sched_step ck s (s\<lparr>sc_stop := True\<rparr>)"

inductive_cases thread_stepE: "thread_step ck s s'"
inductive_cases sched_stepE: "sched_step ck s s'"

abbreviation reaches :: "clock \<Rightarrow> sched \<Rightarrow> sched \<Rightarrow> bool" where
  "reaches ck \<equiv> (sched_step ck)\<^sup>*\<^sup>*"

section \<open>The invariant of the thread\<close>

lemma to_time_t_nonneg: "0 \<le> n \<Longrightarrow> 0 \<le> to_time_t n"
  by (simp add: to_time_t_def trunc_div_def NANOS_def)

lemma to_time_t_bounds: "0 \<le> n \<Longrightarrow> from_time_t (to_time_t n) \<le> n \<and> n < from_time_t (to_time_t n + 1)"
  using trunc_div_bounds(1) [of NANOS n] by (simp add: to_time_t_def from_time_t_def NANOS_def algebra_simps)

lemma from_time_t_less: "from_time_t r < from_time_t q \<longleftrightarrow> r < q"
  by (simp add: from_time_t_def NANOS_def)

lemma from_le_iff: "0 \<le> n \<Longrightarrow> from_time_t r \<le> n \<longleftrightarrow> r \<le> to_time_t n"
  using to_time_t_bounds [of n] from_time_t_less [of r "to_time_t n + 1"] from_time_t_less [of "to_time_t n" r]
  by linarith

text \<open>A planned occurrence: the next one after the second the planning looked at.\<close>

definition planned_ok :: "cronexpr \<Rightarrow> int \<Rightarrow> int \<Rightarrow> bool" where
  "planned_ok c a p \<longleftrightarrow> 0 \<le> a \<and> a < p \<and> occurs c p \<and>
     (bit_count (seconds c) = 1 \<longrightarrow> (\<forall>u. a < u \<and> u < p \<longrightarrow> \<not> occurs c u))"

fun run_ok :: "cronexpr \<Rightarrow> int \<Rightarrow> int \<times> int \<times> int \<Rightarrow> bool" where
  "run_ok c now (a, p, st) = (planned_ok c a p \<and> from_time_t p \<le> st \<and> st \<le> now)"

fun run_before :: "int \<times> int \<times> int \<Rightarrow> int \<times> int \<times> int \<Rightarrow> bool" where
  "run_before (a, p, st) (a', p', st') = (p \<le> a')"

fun phase_ok :: "cronexpr \<Rightarrow> int \<Rightarrow> (int \<times> int \<times> int) list \<Rightarrow> phase \<Rightarrow> bool" where
  "phase_ok c now runs (Waiting a r) = (planned_ok c a r \<and> (\<forall>x \<in> set runs. run_before x (a, r, 0)))"
| "phase_ok c now runs (Sleeping u) = False"
| "phase_ok c now runs Crashed = False"
| "phase_ok c now runs (Running t) = (runs \<noteq> [])"
| "phase_ok c now runs p = True"

definition is_running :: "phase \<Rightarrow> bool" where
  "is_running p = (case p of Running _ \<Rightarrow> True | _ \<Rightarrow> False)"

definition sched_inv :: "cronexpr \<Rightarrow> sched \<Rightarrow> bool" where
  "sched_inv c s \<longleftrightarrow>
     sc_cron s = c \<and> 0 \<le> sc_now s \<and> (\<forall>x \<in> set (sc_log s). run_ok c (sc_now s) x) \<and>
     sorted_wrt run_before (sc_log s) \<and> phase_ok c (sc_now s) (sc_log s) (sc_phase s) \<and>
     running (sc_stats s) = (if is_running (sc_phase s) then 1 else 0) \<and>
     runs_total (sc_stats s) = of_nat (length (sc_log s)) \<and>
     failures_total (sc_stats s) = of_nat (sc_failed s) \<and>
     sc_failed s + (if is_running (sc_phase s) then 1 else 0) \<le> length (sc_log s)"

lemma run_ok_mono: "run_ok c now x \<Longrightarrow> now \<le> now' \<Longrightarrow> run_ok c now' x"
  by (cases x) auto

lemma run_ok_before: "run_ok c now x \<Longrightarrow> 0 \<le> now \<Longrightarrow> run_before x (to_time_t now, r, st)"
proof (cases x)
  case (fields a p st')
  assume "run_ok c now x" "0 \<le> now"
  then have "from_time_t p \<le> now" using fields by simp
  then show ?thesis using from_le_iff [OF \<open>0 \<le> now\<close>, of p] fields by simp
qed

lemma plan_next:
  assumes "cron_ok c" "0 \<le> now" "cron_next utc_clock cron_standard_traits c (to_time_t now) = Some (Inr r)" "r \<noteq> INVALID_TIME"
  shows "planned_ok c (to_time_t now) r" "\<not> from_time_t r \<le> now"
proof -
  have t: "0 \<le> to_time_t now" by (rule to_time_t_nonneg [OF assms(2)])
  have "to_time_t now < r \<and> occurs c r \<and> (one_second c \<longrightarrow> (\<forall>u > to_time_t now. occurs c u \<longrightarrow> r \<le> u))"
    by (rule cron_next_cases [OF t assms(1)]) (use assms(3,4) in auto)
  then show "planned_ok c (to_time_t now) r" "\<not> from_time_t r \<le> now"
    using t one_second_count [of c] from_le_iff [OF assms(2), of r] by (auto simp: planned_ok_def)
qed

lemma thread_step_inv:
  assumes c: "cron_ok c" and s: "thread_step utc_clock s s'" "sched_inv c s"
  shows "sched_inv c s'"
  using s(1)
proof (cases rule: thread_step.cases)
  case loop_throw
  have "0 \<le> to_time_t (sc_now s)" using s(2) by (intro to_time_t_nonneg) (simp add: sched_inv_def)
  then have "cron_next utc_clock cron_standard_traits (sc_cron s) (to_time_t (sc_now s)) \<noteq> Some (Inl e)" for e
    using s(2) by (intro notI, elim cron_next_cases [OF _ c]) (auto simp: sched_inv_def)
  then show ?thesis using loop_throw by blast
next
  case (loop_plan r)
  have p: "planned_ok c (to_time_t (sc_now s)) r" "\<not> from_time_t r \<le> sc_now s"
    using s(2) loop_plan by (intro plan_next [OF c]; simp add: sched_inv_def)+
  then have e: "s' = s\<lparr>sc_stats := (sc_stats s)\<lparr>next_run_unix := r\<rparr>, sc_phase := Waiting (to_time_t (sc_now s)) r\<rparr>"
    using loop_plan(1) by (simp add: plan_def)
  have "\<forall>x \<in> set (sc_log s). run_before x (to_time_t (sc_now s), r, 0)"
    using s(2) run_ok_before by (auto simp: sched_inv_def)
  then show ?thesis using s(2) p(1) loop_plan(2) unfolding e by (simp add: sched_inv_def is_running_def)
next
  case (wait_over a r)
  have b: "run_before x (a, r, st)" if "x \<in> set (sc_log s)" for x st
    using s(2) wait_over(2) that by (cases x) (auto simp: sched_inv_def)
  then show ?thesis using s(2) wait_over
    by (auto simp: sched_inv_def start_job_def is_running_def sorted_wrt_append)
next
  case (job_done t threw)
  then show ?thesis using s(2) by (auto simp: sched_inv_def finish_job_def is_running_def Let_def)
qed (use s(2) in \<open>auto simp: sched_inv_def is_running_def\<close>)

lemma sched_step_inv:
  assumes "cron_ok c" "sched_step utc_clock s s'" "sched_inv c s"
  shows "sched_inv c s'"
  using assms(2)
proof (cases rule: sched_step.cases)
  case thread
  then show ?thesis using thread_step_inv assms by blast
next
  case (tick d)
  have "phase_ok c (sc_now s + d) (sc_log s) (sc_phase s) = phase_ok c (sc_now s) (sc_log s) (sc_phase s)"
    by (cases "sc_phase s") simp_all
  moreover have "\<forall>x \<in> set (sc_log s). run_ok c (sc_now s + d) x"
    using assms(3) run_ok_mono [of c "sc_now s" _ "sc_now s + d"] tick by (simp add: sched_inv_def)
  ultimately show ?thesis using assms(3) tick by (simp add: sched_inv_def)
qed (use assms(3) in \<open>simp add: sched_inv_def\<close>)

lemma reaches_inv:
  assumes "cron_ok c" "reaches utc_clock s s'" "sched_inv c s"
  shows "sched_inv c s'"
  using assms(2,3) by (induction rule: rtranclp_induct) (auto intro: sched_step_inv [OF assms(1)])

lemma make_scheduler_inv:
  assumes "make_scheduler e now = Inr s" "0 \<le> now"
  shows "make_cron cron_standard_traits (normalize_cron_expr e) = Inr (sc_cron s)" "sched_inv (sc_cron s) s"
  using assms by (auto simp: make_scheduler_def sched_inv_def zero_stats_def is_running_def
      split: sum.splits cron_error.splits)

section \<open>Five-field expressions\<close>

lemma blank_free_count:
  "\<forall>c \<in> set s. is_blank c \<longrightarrow> c = CHR '' '' \<Longrightarrow>
   count_loop s True n = count_loop (tl (dropWhile (\<lambda>c. c \<noteq> CHR '' '') s)) False n"
proof (induction s)
  case (Cons c cs)
  show ?case
  proof (cases "c = CHR '' ''")
    case True
    then show ?thesis by (simp add: is_blank_def)
  next
    case False
    then have "\<not> is_blank c" using Cons.prems by simp
    moreover have "count_loop cs True n = count_loop (tl (dropWhile (\<lambda>c. c \<noteq> CHR '' '') cs)) False n"
      using Cons.prems by (intro Cons.IH) simp
    ultimately show ?thesis using False by simp
  qed
qed simp

lemma set_tl_dropWhile: "x \<in> set (tl (dropWhile P s)) \<Longrightarrow> x \<in> set s"
proof -
  assume "x \<in> set (tl (dropWhile P s))"
  then have "x \<in> set (dropWhile P s)" by (cases "dropWhile P s") simp_all
  from set_dropWhileD [OF this] show ?thesis by simp
qed

lemma count_loop_tokens:
  "\<forall>c \<in> set s. is_blank c \<longrightarrow> c = CHR '' '' \<Longrightarrow>
   count_loop s False n = n + length (filter (\<lambda>s. s \<noteq> []) (getline_tokens s (CHR '' '')))"
proof (induction s "CHR '' ''" arbitrary: n rule: getline_tokens.induct)
  case (2 c cs)
  show ?case
  proof (cases "c = CHR '' ''")
    case True
    have "count_loop cs False n = n + length (filter (\<lambda>s. s \<noteq> []) (getline_tokens cs (CHR '' '')))"
      using "2.prems" by (intro "2.hyps"(1) [OF True]) simp
    then show ?thesis using True by (simp add: is_blank_def)
  next
    case False
    define r where "r = tl (dropWhile (\<lambda>c. c \<noteq> CHR '' '') cs)"
    have "\<not> is_blank c" using False "2.prems" by simp
    moreover have "\<forall>x \<in> set r. is_blank x \<longrightarrow> x = CHR '' ''"
    proof
      fix x assume "x \<in> set r"
      then have "x \<in> set cs" unfolding r_def by (rule set_tl_dropWhile)
      then show "is_blank x \<longrightarrow> x = CHR '' ''" using "2.prems" by simp
    qed
    then have "count_loop r False (n + 1) = n + 1 + length (filter (\<lambda>s. s \<noteq> []) (getline_tokens r (CHR '' '')))"
      unfolding r_def by (rule "2.hyps"(2) [OF False])
    moreover have "count_loop cs True (n + 1) = count_loop r False (n + 1)"
      unfolding r_def using "2.prems" by (intro blank_free_count) simp
    ultimately show ?thesis using False by (simp add: r_def [symmetric])
  qed
qed simp

text \<open>a crontab expression of five fields is scheduled on second 0 of the minute. Written with
  spaces between the fields, it reaches the parser as six fields, so the only second of the
  scheduler's expression is 0 and every year is allowed; the guarantees for expressions with a single
  second therefore apply to it.
\<close>

theorem five_fields_run_on_second_zero:
  assumes "count_fields e = 5" "\<forall>c \<in> set e. is_blank c \<longrightarrow> c = CHR '' ''" "CHR 0x00 \<notin> set e"
    and "make_scheduler e now = Inr s"
  shows "seconds (sc_cron s) = True # replicate 59 False \<and> bit_all (years (sc_cron s))"
proof -
  have m: "make_cron cron_standard_traits (''0 '' @ e) = Inr (sc_cron s)"
    using assms(1,4) by (auto simp: make_scheduler_def normalize_cron_expr_def split: sum.splits cron_error.splits)
  have "c_string (''0 '' @ e) = ''0 '' @ e" using assms(3) by (intro c_string_id) auto
  then have "split (''0 '' @ e) (CHR '' '') = ''0'' # getline_tokens e (CHR '' '')"
    using getline_tokens_append [of "CHR '' ''" "''0''" e] by (simp add: split_def)
  moreover have "length (filter (\<lambda>s. s \<noteq> []) (getline_tokens e (CHR '' ''))) = 5"
    using count_loop_tokens [OF assms(2), of 0] assms(1) by (simp add: count_fields_def)
  ultimately have fs: "cron_texts (''0 '' @ e) ! 0 = ''0''" "length (cron_texts (''0 '' @ e)) = 6"
    by (simp_all add: cron_texts_def)
  note f = make_cron_parts [OF m refl]
  have "set_cron_field CronInt ''0'' (no_bits 60) (CRON_MIN_SECONDS cron_standard_traits) (CRON_MAX_SECONDS cron_standard_traits) =
      Inr (True # replicate 59 False)" by code_simp
  moreover have "year_set_all cron_standard_traits (no_bits CRON_YEAR_COUNT) = Inr (replicate 130 True)" by code_simp
  ultimately have "seconds (sc_cron s) = True # replicate 59 False" and y: "years (sc_cron s) = replicate 130 True"
    using f(1,7) fs by simp_all
  then show ?thesis unfolding bit_all_def y by simp
qed

lemma five_fields_run_on_second_zero_witness:
  "case make_scheduler ''30 * * * *'' 0 of Inl _ \<Rightarrow> False | Inr s \<Rightarrow> seconds (sc_cron s) = True # replicate 59 False"
proof -
  have "\<not> isl (make_scheduler ''30 * * * *'' 0)" by code_simp
  then obtain s where s: "make_scheduler ''30 * * * *'' 0 = Inr s" by (metis isl_def sum.exhaust)
  moreover have "count_fields ''30 * * * *'' = 5" by code_simp
  ultimately show ?thesis using five_fields_run_on_second_zero [of "''30 * * * *''" 0 s] by (simp add: is_blank_def)
qed

section \<open>What the scheduler guarantees\<close>

lemma reachable_inv:
  assumes "make_scheduler e now = Inr s0" "0 \<le> now" "plain_days (sc_cron s0)" "bit_all (years (sc_cron s0))"
    and "reaches utc_clock s0 s"
  shows "sched_inv (sc_cron s0) s"
proof -
  note m = make_scheduler_inv [OF assms(1,2)]
  have "cron_ok (sc_cron s0)" by (rule parsed_cron_ok [OF m(1) assms(3,4)])
  from reaches_inv [OF this assms(5) m(2)] show ?thesis .
qed

lemma planned_increasing:
  "sorted_wrt run_before xs \<Longrightarrow> \<forall>x \<in> set xs. run_ok c now x \<Longrightarrow> sorted_wrt (<) (map (\<lambda>(a, p, st). p) xs)"
proof (induction xs)
  case (Cons x xs)
  obtain a p st where x: "x = (a, p, st)" by (cases x)
  have "p < q" if "(b, q, r) \<in> set xs" for b q r
    using Cons.prems that x by (auto simp: planned_ok_def dest!: bspec [of _ _ "(b, q, r)"])
  then show ?case using Cons x by auto
qed simp

text \<open>C8: jobs run when the expression says so and never twice for the same occurrence. In every state
  the scheduler can reach in UTC, started since the epoch with an expression that leaves the year open
  and uses no nearest-weekday, n-th-weekday or last-weekday qualifier, whatever the durations of the
  jobs: every run was planned for an
  occurrence of the expression, started no earlier than that occurrence, and with a single second in
  the expression no occurrence lies between the moment of planning and the planned one; the planned
  occurrences strictly increase from run to run.
\<close>

theorem jobs_run_on_schedule:
  assumes "make_scheduler e now = Inr s0" "0 \<le> now" "plain_days (sc_cron s0)" "bit_all (years (sc_cron s0))"
    and "reaches utc_clock s0 s"
  shows "(\<forall>(asked, planned, started) \<in> set (sc_log s).
      occurs (sc_cron s0) planned \<and> asked < planned \<and> from_time_t planned \<le> started \<and>
      (bit_count (seconds (sc_cron s0)) = 1 \<longrightarrow> (\<forall>u. asked < u \<and> u < planned \<longrightarrow> \<not> occurs (sc_cron s0) u))) \<and>
    sorted_wrt (<) (map (\<lambda>(asked, planned, started). planned) (sc_log s))"
proof -
  have "sched_inv (sc_cron s0) s" by (rule reachable_inv [OF assms])
  then have r: "\<forall>x \<in> set (sc_log s). run_ok (sc_cron s0) (sc_now s) x" "sorted_wrt run_before (sc_log s)"
    by (simp_all add: sched_inv_def)
  show ?thesis
  proof
    show "sorted_wrt (<) (map (\<lambda>(asked, planned, started). planned) (sc_log s))"
      by (rule planned_increasing [OF r(2,1)])
    show "\<forall>(asked, planned, started) \<in> set (sc_log s).
      occurs (sc_cron s0) planned \<and> asked < planned \<and> from_time_t planned \<le> started \<and>
      (bit_count (seconds (sc_cron s0)) = 1 \<longrightarrow> (\<forall>u. asked < u \<and> u < planned \<longrightarrow> \<not> occurs (sc_cron s0) u))"
      using r(1) by (fastforce simp: planned_ok_def)
  qed
qed

text \<open>C34: the counters tell the truth. In every state reachable in UTC since the epoch, for an expression with
  an open year and plain day fields, \<open>running\<close> is 1 exactly while a job runs and
  0 otherwise, so jobs never overlap; \<open>runs_total\<close> counts the jobs started and \<open>failures_total\<close> the jobs
  that threw, modulo the width of the counters, and no more jobs failed than were started and
  finished. The thread never ends by an exception of the cron library.
\<close>

theorem scheduler_counters:
  assumes "make_scheduler e now = Inr s0" "0 \<le> now" "plain_days (sc_cron s0)" "bit_all (years (sc_cron s0))"
    and "reaches utc_clock s0 s"
  shows "running (sc_stats s) = (if is_running (sc_phase s) then 1 else 0) \<and>
    runs_total (sc_stats s) = of_nat (length (sc_log s)) \<and> failures_total (sc_stats s) = of_nat (sc_failed s) \<and>
    sc_failed s + (if is_running (sc_phase s) then 1 else 0) \<le> length (sc_log s) \<and> sc_phase s \<noteq> Crashed"
proof -
  have "sched_inv (sc_cron s0) s" by (rule reachable_inv [OF assms])
  then show ?thesis by (cases "sc_phase s") (simp_all add: sched_inv_def)
qed

fun stop_rank :: "phase \<Rightarrow> nat" where
  "stop_rank Stopped = 0"
| "stop_rank (Running t) = 2"
| "stop_rank _ = 1"

text \<open>C35: destroying the scheduler ends its thread. Once the stop has been requested, in every state reachable
  in UTC since the epoch, for an expression with an open year and plain day fields, the thread can
  take a step until it has stopped, every step it takes brings it nearer to the
  end, at most the end of the running job and the head of the loop are left, and no step starts
  another job.
\<close>

theorem stop_ends_thread:
  assumes "make_scheduler e now = Inr s0" "0 \<le> now" "plain_days (sc_cron s0)" "bit_all (years (sc_cron s0))"
    and "reaches utc_clock s0 s" "sc_stop s"
  shows "(sc_phase s = Stopped \<or> (\<exists>s'. thread_step utc_clock s s')) \<and>
    (\<forall>s'. thread_step utc_clock s s' \<longrightarrow>
       stop_rank (sc_phase s') < stop_rank (sc_phase s) \<and> sc_log s' = sc_log s \<and> sc_stop s')"
proof -
  have "sched_inv (sc_cron s0) s" by (rule reachable_inv [OF assms(1-5)])
  then have p: "phase_ok (sc_cron s0) (sc_now s) (sc_log s) (sc_phase s)" by (simp add: sched_inv_def)
  have "sc_phase s = Stopped \<or> (\<exists>s'. thread_step utc_clock s s')"
    using p assms(6) by (cases "sc_phase s") (auto intro: loop_stop wait_stop job_done)
  moreover have "stop_rank (sc_phase s') < stop_rank (sc_phase s) \<and> sc_log s' = sc_log s \<and> sc_stop s'"
    if "thread_step utc_clock s s'" for s'
    using that p assms(6) by (cases rule: thread_step.cases) (auto simp: finish_job_def Let_def)
  ultimately show ?thesis by blast
qed

section \<open>A run\<close>

text \<open>The scheduler of \<open>30 * * * *\<close>, created at the epoch and run into its first job.\<close>

definition half_past :: sched where
  "half_past = \<lparr>sc_cron = parsed ''0 30 * * * *'', sc_stats = zero_stats, sc_phase = Planning, sc_stop = False,
     sc_now = 0, sc_log = [], sc_failed = 0\<rparr>"

definition first_job :: sched where
  "first_job = start_job ((plan half_past 1800)\<lparr>sc_now := 1800000000000\<rparr>) 0 1800"

lemma half_past_created:
  "make_scheduler ''30 * * * *'' 0 = Inr half_past" "plain_days (sc_cron half_past)" "bit_all (years (sc_cron half_past))"
proof -
  have "normalize_cron_expr ''30 * * * *'' = ''0 30 * * * *''" by code_simp
  then show "make_scheduler ''30 * * * *'' 0 = Inr half_past"
    by (simp add: make_scheduler_def parsed_hourly(1) half_past_def)
  show "plain_days (sc_cron half_past)" "bit_all (years (sc_cron half_past))"
    using parsed_hourly(2,3) by (simp_all add: half_past_def)
qed

lemma half_past_run: "reaches utc_clock half_past first_job"
proof -
  define s1 where "s1 = plan half_past 1800"
  define s2 where "s2 = s1\<lparr>sc_now := sc_now s1 + 1800000000000\<rparr>"
  have "sched_step utc_clock half_past s1" unfolding s1_def
    using cron_next_hourly
    by (intro thread loop_plan) (simp_all add: half_past_def to_time_t_def trunc_div_def NANOS_def INVALID_TIME_def)
  moreover have "sched_step utc_clock s1 s2" unfolding s2_def by (rule tick) simp
  moreover have s1: "sc_phase s1 = Waiting 0 1800" "\<not> sc_stop s1" "sc_now s1 = 0"
    by (simp_all add: s1_def plan_def half_past_def from_time_t_def to_time_t_def trunc_div_def NANOS_def)
  then have "sched_step utc_clock s2 (start_job s2 0 1800)"
    by (intro thread wait_over) (simp_all add: s2_def from_time_t_def NANOS_def)
  moreover have "start_job s2 0 1800 = first_job" using s1(3) by (simp add: first_job_def s2_def s1_def)
  ultimately show ?thesis by (metis converse_rtranclp_into_rtranclp rtranclp.rtrancl_refl)
qed

lemma first_job_log: "sc_log first_job = [(0, 1800, 1800000000000)]" "sc_phase first_job = Running 1800000000000"
  by (simp_all add: first_job_def start_job_def plan_def half_past_def Let_def)

lemma jobs_run_on_schedule_witness:
  "sc_log first_job = [(0, 1800, 1800000000000)] \<and> occurs (parsed ''0 30 * * * *'') 1800 \<and> from_time_t 1800 \<le> 1800000000000"
  using jobs_run_on_schedule [OF half_past_created(1) _ half_past_created(2,3) half_past_run]
  by (simp add: first_job_log half_past_def)

lemma scheduler_counters_witness: "running (sc_stats first_job) = 1 \<and> runs_total (sc_stats first_job) = 1"
  using scheduler_counters [OF half_past_created(1) _ half_past_created(2,3) half_past_run]
  by (simp add: first_job_log is_running_def)

lemma stop_ends_thread_witness:
  "\<exists>s'. thread_step utc_clock (first_job\<lparr>sc_stop := True\<rparr>) s' \<and> stop_rank (sc_phase s') < 2"
proof -
  have "reaches utc_clock half_past (first_job\<lparr>sc_stop := True\<rparr>)"
    using half_past_run request_stop by (rule rtranclp.rtrancl_into_rtrancl)
  from stop_ends_thread [OF half_past_created(1) _ half_past_created(2,3) this] show ?thesis
    by (auto simp: first_job_log)
qed

end
