(* ===== verification/Agent_Run.thy ===== *)
theory Agent_Run
  imports App Server Job_Scheduler
begin

text \<open>
  The life of the agent (\<open>run_spoa_agent\<close> in \<open>src/main.cpp\<close>): the hourly refresh, the start of the
  database, the shards and the metrics endpoint, the signal, and the chain of \<open>finally\<close> continuations
  that takes everything down again. It is a step relation over the states of the components, in which
  the steps of the shards with their connections, of the scheduler and of the database watcher
  interleave with those of the start and the shutdown. Every shard's agent shares the one database
  object, so a reload reaches all of them. The endpoint of the metrics is only up or down; that
  \<open>seastar::sharded\<close> destroys its instances when \<open>stop\<close> is done, also when it reports a failure, and
  those it has created when \<open>start\<close> fails, is Seastar's.
\<close>

section \<open>The run\<close>

text \<open>How far the chain of continuations has come; \<open>Joining\<close> is inside the scheduler's destructor.\<close>

datatype run_phase = Opening | Starting | Configuring | Starting_Http | Serving
  | Stopping_Http | Stopping_Servers | Stopping_Scheduler | Joining | Closing | Finished

record 'db agent_run =
  ar_phase :: run_phase
  ar_scheduler :: "sched option"
  ar_scheduler_metrics :: bool
  ar_signaled :: bool
  ar_mmdb :: "'db reloadable"
  ar_servers :: "'db server list"
  ar_http :: bool
  ar_failed :: bool

definition refresh_schedule :: string where
  "refresh_schedule = ''0 * * * *''"

definition run_start :: "app_config \<Rightarrow> int \<Rightarrow> ctor_error + 'db agent_run" where
  "run_start settings now =
     (let r = \<lparr>ar_phase = Opening, ar_scheduler = None, ar_scheduler_metrics = False, ar_signaled = False,
               ar_mmdb = reloadable_new, ar_servers = [], ar_http = False, ar_failed = False\<rparr>
      in if cfg_mmdb_path settings = [] then Inr r
         else rbind (make_scheduler refresh_schedule now) (\<lambda>s.
                Inr (r\<lparr>ar_scheduler := Some s, ar_scheduler_metrics := True\<rparr>)))"

text \<open>The handler of the signals fulfils the promise once.\<close>

definition on_signal :: "'db agent_run \<Rightarrow> 'db agent_run" where
  "on_signal r = (if \<not> ar_signaled r then r\<lparr>ar_signaled := True\<rparr> else r)"

text \<open>\<open>SpoaServer::start\<close> on one shard. When the address cannot be bound the agent is configured already.\<close>

definition start_shard :: "app_config \<Rightarrow> 'db reloadable \<Rightarrow> bool \<Rightarrow> 'db server \<Rightarrow> 'db server" where
  "start_shard settings db bound s =
     (let s' = server_start s (drop_by_category settings) (Some db)
      in if bound then s' else s'\<lparr>srv_listening := srv_listening s, srv_accepting := srv_accepting s\<rparr>)"

text \<open>A failed continuation skips the following ones up to the first \<open>finally\<close>.\<close>

definition run_failed :: "'db agent_run \<Rightarrow> 'db agent_run" where
  "run_failed r = r\<lparr>ar_phase := Stopping_Http, ar_failed := True\<rparr>"

definition configure_shards :: "app_config \<Rightarrow> bool list \<Rightarrow> 'db agent_run \<Rightarrow> 'db agent_run" where
  "configure_shards settings bound r =
     (let r = r\<lparr>ar_servers := map2 (start_shard settings (ar_mmdb r)) bound (ar_servers r)\<rparr>
      in if list_all id bound then r\<lparr>ar_phase := Starting_Http\<rparr> else run_failed r)"

text \<open>The watcher's reload as the shards see it.\<close>

definition shard_reload :: "'db mmdb res \<Rightarrow> 'db server \<Rightarrow> 'db server" where
  "shard_reload snap s = s\<lparr>srv_agent := agent_reload snap (srv_agent s)\<rparr>"

definition is_reload :: "'db event \<Rightarrow> bool" where
  "is_reload e = (case e of Reloaded _ \<Rightarrow> True | _ \<Rightarrow> False)"

text \<open>A failure of \<open>http.stop()\<close> or \<open>servers.stop()\<close> fails the run but does not skip the continuations
  that follow.\<close>

inductive run_step ::
  "('db, 'w) maxminddb \<Rightarrow> bool \<Rightarrow> app_config \<Rightarrow> clock \<Rightarrow> 'db agent_run \<Rightarrow> 'db agent_run \<Rightarrow> bool"
  for lib logging settings ck where
  open_none: "ar_phase r = Opening \<Longrightarrow> cfg_mmdb_path settings = [] \<Longrightarrow>
    run_step lib logging settings ck r (r\<lparr>ar_phase := Starting\<rparr>)"
| open_mmdb: "ar_phase r = Opening \<Longrightarrow> cfg_mmdb_path settings \<noteq> [] \<Longrightarrow>
    rl_open lib err (ar_mmdb r) True env w fds = Some ((db, w', res), fds') \<Longrightarrow>
    run_step lib logging settings ck r
      (case res of Inr _ \<Rightarrow> r\<lparr>ar_mmdb := db, ar_phase := Starting\<rparr> | Inl _ \<Rightarrow> run_failed (r\<lparr>ar_mmdb := db\<rparr>))"
| start_servers: "ar_phase r = Starting \<Longrightarrow>
    run_step lib logging settings ck r (r\<lparr>ar_servers := replicate shards server_new, ar_phase := Configuring\<rparr>)"
| start_servers_fails: "ar_phase r = Starting \<Longrightarrow>
    run_step lib logging settings ck r (run_failed r)"
| configure: "ar_phase r = Configuring \<Longrightarrow> length bound = length (ar_servers r) \<Longrightarrow>
    run_step lib logging settings ck r (configure_shards settings bound r)"
| start_http: "ar_phase r = Starting_Http \<Longrightarrow>
    run_step lib logging settings ck r (r\<lparr>ar_http := True, ar_phase := Serving\<rparr>)"
| start_http_fails: "ar_phase r = Starting_Http \<Longrightarrow>
    run_step lib logging settings ck r (run_failed (r\<lparr>ar_http := started\<rparr>))"
| signal: "run_step lib logging settings ck r (on_signal r)"
| shutdown: "ar_phase r = Serving \<Longrightarrow> ar_signaled r \<Longrightarrow>
    run_step lib logging settings ck r (r\<lparr>ar_phase := Stopping_Http\<rparr>)"
| stop_http: "ar_phase r = Stopping_Http \<Longrightarrow>
    run_step lib logging settings ck r
      (r\<lparr>ar_http := False, ar_failed := ar_failed r \<or> failed, ar_servers := map server_stop (ar_servers r),
         ar_phase := Stopping_Servers\<rparr>)"
| servers_stopped: "ar_phase r = Stopping_Servers \<Longrightarrow> \<forall>s \<in> set (ar_servers r). srv_stop s = stop_phase.Stopped \<Longrightarrow>
    run_step lib logging settings ck r
      (r\<lparr>ar_servers := [], ar_failed := ar_failed r \<or> failed, ar_phase := Stopping_Scheduler\<rparr>)"
| stop_scheduler: "ar_phase r = Stopping_Scheduler \<Longrightarrow>
    run_step lib logging settings ck r
      (r\<lparr>ar_scheduler_metrics := False, ar_scheduler := map_option (sc_stop_update (\<lambda>_. True)) (ar_scheduler r),
         ar_phase := Joining\<rparr>)"
| joined: "ar_phase r = Joining \<Longrightarrow> \<forall>s. ar_scheduler r = Some s \<longrightarrow> sc_phase s = phase.Stopped \<Longrightarrow>
    run_step lib logging settings ck r (r\<lparr>ar_scheduler := None, ar_phase := Closing\<rparr>)"
| close_mmdb: "ar_phase r = Closing \<Longrightarrow>
    run_step lib logging settings ck r (r\<lparr>ar_mmdb := fst (rl_close (ar_mmdb r) fds), ar_phase := Finished\<rparr>)"
| shard: "i < length (ar_servers r) \<Longrightarrow> server_step lib logging (ar_servers r ! i) evs s' \<Longrightarrow>
    \<not> list_ex is_reload evs \<Longrightarrow>
    (srv_stop (ar_servers r ! i) = stop_phase.Running \<longleftrightarrow> srv_stop s' = stop_phase.Running) \<Longrightarrow>
    run_step lib logging settings ck r (r\<lparr>ar_servers := (ar_servers r)[i := s']\<rparr>)"
| scheduler: "ar_scheduler r = Some s \<Longrightarrow> sched_step ck s s' \<Longrightarrow> sc_stop s' = sc_stop s \<Longrightarrow>
    run_step lib logging settings ck r (r\<lparr>ar_scheduler := Some s'\<rparr>)"
| reload: "watcher (ar_mmdb r) \<Longrightarrow>
    run_step lib logging settings ck r
      (r\<lparr>ar_mmdb := rl_reload (ar_mmdb r) snap, ar_servers := map (shard_reload snap) (ar_servers r)\<rparr>)"

section \<open>The invariant of the run\<close>

definition db_usable :: "app_config \<Rightarrow> 'db agent_run \<Rightarrow> bool" where
  "db_usable settings r \<longleftrightarrow> cfg_mmdb_path settings \<noteq> [] \<longrightarrow> current (ar_mmdb r) \<noteq> None"

definition torn_down :: "'db agent_run \<Rightarrow> bool" where
  "torn_down r \<longleftrightarrow> ar_scheduler r = None \<and> \<not> ar_http r \<and> \<not> watcher (ar_mmdb r) \<and> current (ar_mmdb r) = None \<and>
     \<not> fd_valid (inotify (ar_mmdb r)) \<and> \<not> fd_valid (stop_event (ar_mmdb r))"

text \<open>The agent of a shard that accepts or has connections reads the one database of the run.\<close>

definition reads_db :: "'db reloadable \<Rightarrow> 'db server \<Rightarrow> bool" where
  "reads_db db s \<longleftrightarrow> srv_accepting s \<or> srv_conns s \<noteq> [] \<longrightarrow> agent_mmdb (srv_agent s) = Some db"

definition shards_ok :: "'db agent_run \<Rightarrow> bool" where
  "shards_ok r \<longleftrightarrow> (\<forall>s \<in> set (ar_servers r). server_inv s \<and> reads_db (ar_mmdb r) s \<and>
     (ar_phase r \<noteq> Stopping_Servers \<longrightarrow> srv_stop s = stop_phase.Running))"

definition run_inv :: "app_config \<Rightarrow> 'db agent_run \<Rightarrow> bool" where
  "run_inv settings r \<longleftrightarrow>
     shards_ok r \<and>
     (ar_phase r \<in> {Opening, Starting, Stopping_Scheduler, Joining, Closing, Finished} \<longrightarrow> ar_servers r = []) \<and>
     (ar_phase r \<in> {Starting, Configuring, Starting_Http, Serving} \<or> ar_servers r \<noteq> [] \<longrightarrow> db_usable settings r) \<and>
     (ar_phase r \<in> {Stopping_Servers, Stopping_Scheduler, Joining, Closing, Finished} \<longrightarrow> \<not> ar_http r) \<and>
     (ar_phase r \<in> {Closing, Finished} \<longrightarrow> ar_scheduler r = None) \<and>
     (ar_phase r = Finished \<longrightarrow> torn_down r)"

lemma run_start_inv: "run_start settings now = Inr r \<Longrightarrow> run_inv settings r"
  by (auto simp: run_start_def run_inv_def shards_ok_def Let_def split: if_splits)

lemma server_inv_start: "server_inv s \<Longrightarrow> srv_stop s = stop_phase.Running \<Longrightarrow> server_inv (start_shard settings db b s)"
  by (auto simp: server_inv_def start_shard_def server_start_def start_listening_def Let_def)

lemma server_inv_stop: "server_inv s \<Longrightarrow> server_inv (server_stop s)"
  by (auto simp: server_inv_def server_stop_def)

lemma start_shard_running [simp]: "srv_stop (start_shard settings db b s) = srv_stop s"
  by (simp add: start_shard_def server_start_def start_listening_def Let_def)

lemma current_rl_reload: "current m \<noteq> None \<Longrightarrow> current (rl_reload m x) \<noteq> None"
  by (simp add: rl_reload_def split: sum.splits)

lemma load_and_watch_current:
  assumes "load_and_watch lib err m env w li ls fds = Some (ls', (li', m', w', Inr u), g)"
  shows "current m' \<noteq> None"
proof -
  obtain w1 x f1 where l: "load_snapshot lib err (rl_path m) (load_answers env) w fds = Some ((w1, x), f1)"
    using assms by (auto simp: load_and_watch_def split: option.splits)
  then show ?thesis
    using assms load_and_watch_taken [of lib err m env w fds w1 _ f1 li ls]
    by (cases x) (auto simp: load_and_watch_def split: if_splits)
qed

lemma rl_open_current:
  assumes "rl_open lib err m l env w fds = Some ((db, w', Inr u), fds')"
  shows "current db \<noteq> None"
  using assms load_and_watch_current
  by (auto simp: rl_open_def scoped_def Let_def split: if_splits sum.splits prod.splits)

lemma rl_close_closed:
  "\<not> watcher (fst (rl_close m fds)) \<and> current (fst (rl_close m fds)) = None \<and>
   \<not> fd_valid (inotify (fst (rl_close m fds))) \<and> \<not> fd_valid (stop_event (fst (rl_close m fds)))"
  by (simp add: rl_close_def stop_watcher_def fd_reset_def fd_valid_def Let_def)

text \<open>Frames change the counters of an agent, never its database.\<close>

lemma evaluate_argument_mmdb: "agent_mmdb (snd (snd (evaluate_argument lib l ag a db bad))) = agent_mmdb ag"
  by (auto simp: evaluate_argument_def evaluate_lookup_def inc_lookups_def inc_lookup_errors_def Let_def
      split: option.splits prod.splits if_splits)

lemma evaluate_args_mmdb: "agent_mmdb (snd (snd (evaluate_args lib l db as st))) = agent_mmdb (snd (snd st))"
proof (induction as arbitrary: st)
  case (Cons a as)
  obtain ni bad ag where "st = (ni, bad, ag)" by (cases st)
  then show ?case
    using Cons evaluate_argument_mmdb [of lib l ag a db bad] by (auto split: prod.splits)
qed simp

lemma evaluate_messages_mmdb: "agent_mmdb (snd (snd (evaluate_messages lib l db ms st))) = agent_mmdb (snd (snd st))"
  by (induction ms arbitrary: st) (simp_all add: evaluate_args_mmdb)

lemma handle_frame_mmdb: "agent_mmdb (fst (handle_frame lib l buf ag t payload)) = agent_mmdb ag"
proof -
  have "agent_mmdb (fst (handle_notify lib l buf ag n)) = agent_mmdb ag" for n
    using evaluate_messages_mmdb [of lib l "agent_snapshot ag" "messages n" "(False, False, ag)"]
    by (auto simp: handle_notify_def Let_def split: prod.splits if_splits)
  then show ?thesis
    by (auto simp: handle_frame_def Let_def split_beta split: sum.splits in_frame.splits)
qed

lemma process_one_frame_mmdb:
  "process_one_frame lib l buf p ag c = (ag', c') \<Longrightarrow> agent_mmdb ag' = agent_mmdb ag"
  using handle_frame_mmdb [of lib l buf ag]
  by (auto simp: process_one_frame_def Let_def split_beta split: option.splits if_splits)

lemma reads_db_step:
  assumes "server_step lib logging s evs s'" "reads_db db s" "\<not> list_ex is_reload evs"
  shows "reads_db db s'"
  using assms
proof (induction rule: server_step.induct)
  case (read k s i c stack_buf p ag c')
  then show ?case using process_one_frame_mmdb [OF read(5)] by (auto simp: reads_db_def)
next
  case (reload s snap)
  then show ?case by (simp add: is_reload_def)
qed (auto simp: reads_db_def accept_turn_def conn_finished_def server_stop_def stop_continue_def
    split: option.splits if_splits stop_phase.splits)

lemma reads_db_new: "reads_db db server_new"
  by (simp add: reads_db_def server_new_def)

lemma reads_db_start: "reads_db db (start_shard settings db b s)"
  by (simp add: reads_db_def start_shard_def server_start_def start_listening_def set_mmdb_def Let_def)

lemma reads_db_reload: "reads_db db s \<Longrightarrow> reads_db (rl_reload db snap) (shard_reload snap s)"
  by (simp add: reads_db_def shard_reload_def agent_reload_def)

lemma server_inv_reload [simp]: "server_inv (shard_reload snap s) = server_inv s" "srv_stop (shard_reload snap s) = srv_stop s"
  by (simp_all add: server_inv_def shard_reload_def)

lemma reads_db_stop [simp]: "reads_db db (server_stop s) = reads_db db s"
  by (simp add: reads_db_def server_stop_def)

lemma configure_inv:
  assumes "run_inv settings r" "ar_phase r = Configuring" "length bound = length (ar_servers r)"
  shows "run_inv settings (configure_shards settings bound r)"
proof -
  have ok: "server_inv s \<and> srv_stop s = stop_phase.Running" if "s \<in> set (ar_servers r)" for s
    using that assms(1,2) by (simp add: run_inv_def shards_ok_def)
  have "server_inv s \<and> reads_db (ar_mmdb r) s \<and> srv_stop s = stop_phase.Running"
    if "s \<in> set (map2 (start_shard settings (ar_mmdb r)) bound (ar_servers r))" for s
    using that ok by (auto dest!: set_zip_rightD intro: server_inv_start reads_db_start)
  moreover have "db_usable settings r" using assms(1,2) by (simp add: run_inv_def)
  ultimately show ?thesis
    by (simp add: run_inv_def shards_ok_def configure_shards_def run_failed_def db_usable_def Let_def)
qed

lemma shard_inv:
  assumes "run_inv settings r" "i < length (ar_servers r)" "server_step lib logging (ar_servers r ! i) evs s'"
    and "\<not> list_ex is_reload evs"
    and "srv_stop (ar_servers r ! i) = stop_phase.Running \<longleftrightarrow> srv_stop s' = stop_phase.Running"
  shows "run_inv settings (r\<lparr>ar_servers := (ar_servers r)[i := s']\<rparr>)"
proof -
  have ok: "shards_ok r" using assms(1) by (simp add: run_inv_def)
  have i: "ar_servers r ! i \<in> set (ar_servers r)" using assms(2) by simp
  have "server_inv s'" "reads_db (ar_mmdb r) s'"
    using ok i server_step_inv [OF assms(3)] reads_db_step [OF assms(3) _ assms(4)] by (simp_all add: shards_ok_def)
  then have "shards_ok (r\<lparr>ar_servers := (ar_servers r)[i := s']\<rparr>)"
    using set_update_subset_insert [of "ar_servers r" i s'] ok assms(5) i unfolding shards_ok_def by auto
  then show ?thesis using assms(1) by (simp add: run_inv_def db_usable_def torn_down_def)
qed

lemma reload_inv:
  assumes "run_inv settings r" "watcher (ar_mmdb r)"
  shows "run_inv settings (r\<lparr>ar_mmdb := rl_reload (ar_mmdb r) x, ar_servers := map (shard_reload x) (ar_servers r)\<rparr>)"
proof -
  define r' where "r' = r\<lparr>ar_mmdb := rl_reload (ar_mmdb r) x, ar_servers := map (shard_reload x) (ar_servers r)\<rparr>"
  have same: "ar_phase r' = ar_phase r" "ar_servers r' = [] \<longleftrightarrow> ar_servers r = []" "ar_http r' = ar_http r"
    "ar_scheduler r' = ar_scheduler r" by (simp_all add: r'_def)
  have "shards_ok r" using assms(1) by (simp add: run_inv_def)
  then have "shards_ok r'" unfolding shards_ok_def r'_def by (auto intro: reads_db_reload)
  moreover have "db_usable settings r \<Longrightarrow> db_usable settings r'"
    unfolding db_usable_def r'_def using current_rl_reload [of "ar_mmdb r" x] by simp
  moreover have "ar_phase r \<noteq> Finished" using assms by (auto simp: run_inv_def torn_down_def)
  ultimately have "run_inv settings r'" using assms(1) unfolding run_inv_def same by blast
  then show ?thesis by (simp only: r'_def)
qed

lemmas run_inv_simps = run_inv_def shards_ok_def db_usable_def torn_down_def run_failed_def

lemma run_step_inv:
  assumes "run_step lib logging settings ck r r'" "run_inv settings r"
  shows "run_inv settings r'"
  using assms
proof (induction rule: run_step.induct)
  case (open_mmdb r err env w fds db w' res fds')
  then show ?case using rl_open_current [of lib err "ar_mmdb r" True env w fds db w' _ fds']
    by (cases res) (simp_all add: run_inv_simps)
next
  case (configure r bound)
  then show ?case by (intro configure_inv)
next
  case (shard i r evs s')
  then show ?case by (intro shard_inv)
next
  case (close_mmdb r fds)
  then show ?case using rl_close_closed [of "ar_mmdb r" fds] by (simp add: run_inv_simps)
next
  case (reload r x)
  then show ?case by (rule reload_inv [rotated])
next
  case (start_servers r n)
  then show ?case by (simp add: run_inv_simps server_inv_new reads_db_new) (simp add: server_new_def)
next
  case (stop_http r failed)
  then show ?case by (simp add: run_inv_simps server_inv_stop)
next
  case (signal r)
  then show ?case by (simp add: run_inv_simps on_signal_def)
qed (simp_all add: run_inv_simps)

lemma run_reaches_inv:
  "(run_step lib logging settings ck)\<^sup>*\<^sup>* r0 r \<Longrightarrow> run_inv settings r0 \<Longrightarrow> run_inv settings r"
  by (induction rule: rtranclp_induct) (auto intro: run_step_inv)

text \<open>C5: the database outlives the connections, and a finished run leaves nothing behind. In every state
  the process can reach, whatever fails during the start or the shutdown, however signals arrive and
  however the shards with their connections, the scheduler and the watcher are interleaved: while a
  shard has an open connection and a database is configured, readers get a snapshot; the agent of a
  shard with a connection reads that very database; and once the chain of continuations has ended
  there is no shard, no scheduler thread, no watcher, no metrics endpoint, and every descriptor of
  the database is closed.\<close>

theorem database_outlives_connections:
  assumes "run_start settings now = Inr r0" "(run_step lib logging settings ck)\<^sup>*\<^sup>* r0 r"
  shows "(cfg_mmdb_path settings \<noteq> [] \<longrightarrow> (\<exists>s \<in> set (ar_servers r). srv_conns s \<noteq> []) \<longrightarrow> snapshot (ar_mmdb r) \<noteq> None) \<and>
    (\<forall>s \<in> set (ar_servers r). srv_conns s \<noteq> [] \<longrightarrow> agent_mmdb (srv_agent s) = Some (ar_mmdb r)) \<and>
    (ar_phase r = Finished \<longrightarrow> ar_servers r = [] \<and> ar_scheduler r = None \<and> \<not> ar_http r \<and>
       snapshot (ar_mmdb r) = None \<and> \<not> watcher (ar_mmdb r) \<and>
       \<not> fd_valid (inotify (ar_mmdb r)) \<and> \<not> fd_valid (stop_event (ar_mmdb r)))"
proof -
  have i: "run_inv settings r" by (rule run_reaches_inv [OF assms(2) run_start_inv [OF assms(1)]])
  have "snapshot (ar_mmdb r) \<noteq> None" if "cfg_mmdb_path settings \<noteq> []" "s \<in> set (ar_servers r)" for s
  proof -
    have "ar_servers r \<noteq> []" using that(2) by auto
    then have "db_usable settings r" using i unfolding run_inv_def by blast
    then show ?thesis using that(1) by (simp add: db_usable_def snapshot_def)
  qed
  moreover have "agent_mmdb (srv_agent s) = Some (ar_mmdb r)" if "s \<in> set (ar_servers r)" "srv_conns s \<noteq> []" for s
    using i that by (auto simp: run_inv_def shards_ok_def reads_db_def)
  moreover have "torn_down r \<and> ar_servers r = []" if "ar_phase r = Finished" using i that by (simp add: run_inv_def)
  ultimately show ?thesis by (auto simp: torn_down_def snapshot_def)
qed

section \<open>The hourly refresh\<close>

lemma hourly_cron:
  "make_cron cron_standard_traits ''0 0 * * * *'' = Inr (parsed ''0 0 * * * *'')"
  "plain_days (parsed ''0 0 * * * *'')" "bit_all (years (parsed ''0 0 * * * *''))"
  "bit_count (seconds (parsed ''0 0 * * * *'')) = 1"
  "seconds (parsed ''0 0 * * * *'') = True # replicate 59 False"
  "minutes (parsed ''0 0 * * * *'') = True # replicate 59 False"
  "hours (parsed ''0 0 * * * *'') = replicate 24 True"
  "days_of_month (parsed ''0 0 * * * *'') = replicate 31 True"
  "months (parsed ''0 0 * * * *'') = replicate 12 True"
  "days_of_week (parsed ''0 0 * * * *'') = replicate 7 True"
  "dom_restricted (dom_options (parsed ''0 0 * * * *'')) = False"
  "dom_last (dom_options (parsed ''0 0 * * * *'')) = False"
  unfolding parsed_def by code_simp+

lemma refresh_created:
  "make_scheduler refresh_schedule now = Inr \<lparr>sc_cron = parsed ''0 0 * * * *'', sc_stats = zero_stats,
     sc_phase = Planning, sc_stop = False, sc_now = now, sc_log = [], sc_failed = 0\<rparr>"
proof -
  have "normalize_cron_expr refresh_schedule = ''0 0 * * * *''" by code_simp
  then show ?thesis by (simp add: make_scheduler_def hourly_cron(1))
qed

lemma hourly_bits:
  "bit_test (True # replicate 59 False) i \<longleftrightarrow> i = 0" "bit_test (replicate n True) i \<longleftrightarrow> i < n"
  by (auto simp: bit_test_def nth_Cons' split: if_splits)

lemma hourly_occurs: "occurs (parsed ''0 0 * * * *'') u \<longleftrightarrow> u mod 3600 = 0"
proof -
  let ?c = "parsed ''0 0 * * * *''"
  have p: "\<not> dom_nearest_weekday (dom_options ?c)" "dow_nth (dow_options ?c) = 0" "\<not> dow_last (dow_options ?c)"
    using hourly_cron(2) by (simp_all add: plain_days_def)
  have "day_ok ?c u" using mday_at_range [of u] p
    by (simp add: day_ok_def matches_day_def matches_day_of_month_def matches_day_of_week_def hourly_cron hourly_bits
        cron_standard_traits_def wday_of_def nat_less_iff mday_at_def)
  moreover have "hour_ok ?c u" "mon_ok ?c u"
    using mon_at_less [of u] by (simp_all add: hour_ok_def mon_ok_def hourly_cron hourly_bits hour_of_def nat_less_iff)
  moreover have "sec_ok ?c u \<longleftrightarrow> u mod 60 = 0" "min_ok ?c u \<longleftrightarrow> u div 60 mod 60 = 0"
    by (simp_all add: sec_ok_def min_ok_def hourly_cron hourly_bits sec_of_def min_of_def nat_eq_iff)
  moreover have "u mod 60 = 0 \<and> u div 60 mod 60 = 0 \<longleftrightarrow> u mod 3600 = 0"
    using zmod_zmult2_eq [of 60 u 60] pos_mod_sign [of 60 u] pos_mod_sign [of 60 "u div 60"] by auto
  ultimately show ?thesis by (simp only: occurs_def simp_thms)
qed

text \<open>C17: the database is refreshed at every full hour. The schedule of the agent is always accepted, so the
  agent starts; and when the process runs in UTC with a clock that does not show a time before the
  epoch, in every state the scheduler reaches each refresh was planned for the first full hour after
  the moment of planning, and started no earlier. (In a zone whose offset is not a whole number of
  hours, or that sets its clocks back, the full hours are others.)\<close>

theorem refresh_every_hour:
  assumes "0 \<le> now"
  shows "\<exists>s0. make_scheduler refresh_schedule now = Inr s0 \<and>
    (\<forall>s. reaches utc_clock s0 s \<longrightarrow>
       (\<forall>(asked, planned, started) \<in> set (sc_log s).
          planned = 3600 * (asked div 3600 + 1) \<and> from_time_t planned \<le> started))"
proof -
  define s0 where "s0 = \<lparr>sc_cron = parsed ''0 0 * * * *'', sc_stats = zero_stats,
     sc_phase = Planning, sc_stop = False, sc_now = now, sc_log = [], sc_failed = 0\<rparr>"
  have m: "make_scheduler refresh_schedule now = Inr s0" unfolding s0_def by (rule refresh_created)
  have c: "sc_cron s0 = parsed ''0 0 * * * *''" by (simp add: s0_def)
  have "planned = 3600 * (asked div 3600 + 1) \<and> from_time_t planned \<le> started"
    if r: "reaches utc_clock s0 s" and x: "(asked, planned, started) \<in> set (sc_log s)" for s asked planned started
  proof -
    have "sched_inv (sc_cron s0) s"
      by (rule reachable_inv [OF m assms _ _ r]) (simp_all add: c hourly_cron)
    then have ok: "run_ok (sc_cron s0) (sc_now s) (asked, planned, started)" using x by (auto simp: sched_inv_def)
    then have p: "planned mod 3600 = 0" "asked < planned"
      and least: "\<And>u. asked < u \<Longrightarrow> u < planned \<Longrightarrow> u mod 3600 \<noteq> 0"
      using hourly_cron(4) by (simp_all add: planned_ok_def c hourly_occurs)
    define q where "q = asked div 3600"
    obtain k where k: "planned = 3600 * k" using p(1) by (metis mult_div_mod_eq add.right_neutral)
    have q: "3600 * q \<le> asked" "asked < 3600 * q + 3600" unfolding q_def by presburger+
    have "\<not> 3600 * q + 3600 < planned" using least [of "3600 * q + 3600"] q(2) by auto
    then have "k = q + 1" using p(2) q k by linarith
    then have "planned = 3600 * (asked div 3600 + 1)" by (simp add: k q_def)
    then show ?thesis using ok by simp
  qed
  then show ?thesis using m by blast
qed

lemma hourly_next: "cron_next utc_clock cron_standard_traits (parsed ''0 0 * * * *'') 0 = Some (Inr 3600)"
proof -
  have ok: "cron_ok (parsed ''0 0 * * * *'')" by (rule parsed_cron_ok [OF hourly_cron(1-3)])
  have one: "one_second (parsed ''0 0 * * * *'')" by (rule one_second_count [OF hourly_cron(4)])
  have y: "year_at 3600 \<le> year_at 0 + 4" by code_simp
  show ?thesis
  proof (rule cron_next_cases [OF _ ok, of 0])
    assume "one_second (parsed ''0 0 * * * *'') \<longrightarrow>
      (\<forall>u > 0. occurs (parsed ''0 0 * * * *'') u \<longrightarrow> year_at 0 + 4 < year_at u)"
    then show ?thesis using one y hourly_occurs [of 3600] by force
  next
    fix r assume r: "cron_next utc_clock cron_standard_traits (parsed ''0 0 * * * *'') 0 = Some (Inr r)" "0 < r"
      "occurs (parsed ''0 0 * * * *'') r"
      "one_second (parsed ''0 0 * * * *'') \<longrightarrow> (\<forall>u > 0. occurs (parsed ''0 0 * * * *'') u \<longrightarrow> r \<le> u)"
    have "r \<le> 3600" using r(4) one hourly_occurs [of 3600] by simp
    moreover have "r mod 3600 = 0" using r(3) by (simp add: hourly_occurs)
    then obtain k where "r = 3600 * k" by (metis mult_div_mod_eq add.right_neutral)
    ultimately have "r = 3600" using r(2) by simp
    with r(1) show ?thesis by simp
  qed simp
qed

text \<open>A process started at the epoch: the thread plans the first refresh, waits, and starts it at one
  o'clock.\<close>

theorem refresh_every_hour_witness:
  "\<exists>s0 s. make_scheduler refresh_schedule 0 = Inr s0 \<and> reaches utc_clock s0 s \<and>
     sc_log s = [(0, 3600, from_time_t 3600)] \<and>
     (\<forall>(asked, planned, started) \<in> set (sc_log s).
        planned = 3600 * (asked div 3600 + 1) \<and> from_time_t planned \<le> started)"
proof -
  obtain s0 where s0: "make_scheduler refresh_schedule 0 = Inr s0"
    and all: "\<forall>s. reaches utc_clock s0 s \<longrightarrow> (\<forall>(asked, planned, started) \<in> set (sc_log s).
      planned = 3600 * (asked div 3600 + 1) \<and> from_time_t planned \<le> started)"
    using refresh_every_hour [of 0] by auto
  have f: "sc_cron s0 = parsed ''0 0 * * * *''" "sc_phase s0 = Planning" "\<not> sc_stop s0" "sc_now s0 = 0" "sc_log s0 = []"
    using s0 by (auto simp: refresh_created)
  define s1 where "s1 = plan s0 3600"
  define s2 where "s2 = s1\<lparr>sc_now := sc_now s1 + from_time_t 3600\<rparr>"
  have t: "to_time_t 0 = 0" by (simp add: to_time_t_def trunc_div_def)
  have p: "s1 = s0\<lparr>sc_stats := (sc_stats s0)\<lparr>next_run_unix := 3600\<rparr>, sc_phase := Waiting 0 3600\<rparr>"
    by (simp add: s1_def plan_def f t from_time_t_def NANOS_def)
  have "sched_step utc_clock s0 s1" unfolding s1_def
    by (intro sched_step.thread thread_step.loop_plan) (simp_all add: f t hourly_next INVALID_TIME_def)
  moreover have "sched_step utc_clock s1 s2" unfolding s2_def by (rule sched_step.tick) (simp add: from_time_t_def NANOS_def)
  moreover have "sched_step utc_clock s2 (start_job s2 0 3600)"
    by (intro sched_step.thread thread_step.wait_over) (simp_all add: s2_def p f)
  ultimately have reach: "reaches utc_clock s0 (start_job s2 0 3600)"
    by (meson rtranclp.rtrancl_into_rtrancl rtranclp.rtrancl_refl)
  have "sc_log (start_job s2 0 3600) = [(0, 3600, from_time_t 3600)]"
    by (simp add: start_job_def s2_def p f)
  with s0 reach all show ?thesis by blast
qed

text \<open>A start with a database up to the first connection of the only shard.\<close>

definition example_open :: open_env where
  "example_open = \<lparr>absolute_path = Inr (''/firehol.mmdb'', ''firehol.mmdb''), inotify_init1 = 5,
     inotify_add_watch = 1, eventfd = 6,
     load_answers = \<lparr>source_open = Inr 7, tmpfile_open = Inr 8, copy_calls = [Copied [1], Copied []]\<rparr>,
     thread_created = True\<rparr>"

lemma example_opened:
  "\<exists>db w' fds'. rl_open example_lib (\<lambda>_. ''error'') reloadable_new True example_open () {0, 1, 2} =
     Some ((db, w', Inr ()), fds')"
  by (simp add: rl_open_def load_and_watch_def load_snapshot_def scoped_def example_open_def reloadable_new_def
      fd_open_def fd_none_def fd_valid_def fd_move_assign_def fd_reset_def fd_release_def mmdb_construct_def mmdb_open_def
      mmdb_close_def mmdb_new_def example_lib_def MMDB_SUCCESS_def Let_def)

theorem database_outlives_connections_witness:
  "\<exists>r0 r :: unit agent_run. run_start (example_config ''https://a'') 0 = Inr r0 \<and>
     (run_step example_lib False (example_config ''https://a'') utc_clock)\<^sup>*\<^sup>* r0 r \<and>
     (\<exists>s \<in> set (ar_servers r). srv_conns s \<noteq> []) \<and> snapshot (ar_mmdb r) \<noteq> None"
proof -
  let ?c = "example_config ''https://a''"
  let ?step = "run_step example_lib False ?c utc_clock :: unit agent_run \<Rightarrow> unit agent_run \<Rightarrow> bool"
  have "\<exists>r0. run_start ?c 0 = Inr (r0 :: unit agent_run) \<and> ar_phase r0 = Opening \<and> ar_mmdb r0 = reloadable_new"
    by (simp add: run_start_def refresh_created example_job_facts Let_def)
  then obtain r0 :: "unit agent_run" where r0: "run_start ?c 0 = Inr r0" "ar_phase r0 = Opening" "ar_mmdb r0 = reloadable_new"
    by blast
  obtain db w' fds' where o: "rl_open example_lib (\<lambda>_. ''error'') (ar_mmdb r0) True example_open () {0, 1, 2} =
      Some ((db, w', Inr ()), fds')"
    using example_opened r0(3) by auto
  define r1 where "r1 = r0\<lparr>ar_mmdb := db, ar_phase := Starting\<rparr>"
  define r2 where "r2 = r1\<lparr>ar_servers := replicate 1 server_new, ar_phase := Configuring\<rparr>"
  define r3 where "r3 = configure_shards ?c [True] r2"
  define s where "s = accept_turn (ar_servers r3 ! 0) (Some [])"
  define r4 where "r4 = r3\<lparr>ar_servers := (ar_servers r3)[0 := s]\<rparr>"
  have s3: "ar_servers r3 = [start_shard ?c db True server_new]"
    by (simp add: r3_def r2_def r1_def configure_shards_def Let_def)
  have "?step r0 r1" using run_step.open_mmdb [OF r0(2) _ o, of ?c False utc_clock] by (simp add: r1_def example_job_facts)
  moreover have "?step r1 r2" unfolding r2_def by (rule run_step.start_servers) (simp add: r1_def)
  moreover have "?step r2 r3" unfolding r3_def by (rule run_step.configure) (simp_all add: r2_def)
  moreover have "?step r3 r4" unfolding r4_def
  proof (rule run_step.shard)
    show "server_step example_lib False (ar_servers r3 ! 0) (accept_events (ar_servers r3 ! 0) (Some [])) s" unfolding s_def
      by (rule server_step.accept) (simp add: s3 start_shard_def server_start_def start_listening_def Let_def)
    show "\<not> list_ex is_reload (accept_events (ar_servers r3 ! 0) (Some []))"
      by (simp add: accept_events_def is_reload_def)
  qed (simp_all add: s3 s_def accept_turn_def start_shard_def server_start_def start_listening_def server_new_def Let_def)
  ultimately have reach: "?step\<^sup>*\<^sup>* r0 r4" by (meson rtranclp.rtrancl_into_rtrancl rtranclp.rtrancl_refl)
  have conn: "\<exists>s \<in> set (ar_servers r4). srv_conns s \<noteq> []"
    by (simp add: r4_def s3 s_def accept_turn_def start_shard_def server_start_def start_listening_def server_new_def Let_def)
  have "snapshot (ar_mmdb r4) \<noteq> None"
    using database_outlives_connections [OF r0(1) reach] conn by (simp add: example_job_facts)
  then show ?thesis using r0(1) reach conn by blast
qed

end
