(* ===== verification/Cron_Prev.thy ===== *)
theory Cron_Prev
  imports Cron_Correct
begin

text \<open>
  The correctness of \<open>cron_prev\<close> (\<open>src/job_scheduler/croncpp.h\<close>), which searches backwards with calls of
  \<open>cron_next\<close> only: it brackets the last earlier occurrence in a growing window and halves the
  interval. What it relies on is an interface, stated as a locale over the forward search; the
  interpretation on \<open>cron_next\<close> gives the theorem about the code.
\<close>

section \<open>The forward search as an interface\<close>

text \<open>
  Asked at \<open>t\<close>, the forward search answers with the least later occurrence, or with \<open>INVALID_TIME\<close>
  when none lies within \<open>reach\<close>.
\<close>

locale forward_search =
  fixes nxt :: "'c \<Rightarrow> int \<Rightarrow> (cron_error + int) option"
    and occ :: "'c \<Rightarrow> int \<Rightarrow> bool"
    and good :: "'c \<Rightarrow> bool"
    and reach :: int
  assumes answers: "good c \<Longrightarrow> 0 \<le> t \<Longrightarrow>
      \<exists>r. nxt c t = Some (Inr r) \<and>
        (if r = INVALID_TIME then \<forall>u. t < u \<longrightarrow> u \<le> t + reach \<longrightarrow> \<not> occ c u
         else t < r \<and> occ c r \<and> (\<forall>u. t < u \<longrightarrow> occ c u \<longrightarrow> r \<le> u))"
begin

text \<open>Whether an occurrence lies strictly between two instants, and whether all of them are in reach.\<close>

definition between :: "'c \<Rightarrow> int \<Rightarrow> int \<Rightarrow> bool" where
  "between c t date \<longleftrightarrow> (\<exists>u. t < u \<and> u < date \<and> occ c u)"

definition in_reach :: "'c \<Rightarrow> int \<Rightarrow> int \<Rightarrow> bool" where
  "in_reach c t date \<longleftrightarrow> (\<forall>u. t < u \<longrightarrow> u < date \<longrightarrow> occ c u \<longrightarrow> u \<le> t + reach)"

lemma in_reach_mono: "in_reach c s date \<Longrightarrow> s \<le> t \<Longrightarrow> in_reach c t date"
  unfolding in_reach_def by (metis add_mono dual_order.trans order.refl order_le_less_trans)

lemma probe:
  assumes "good c" "0 \<le> t" "in_reach c t date"
  shows "\<exists>r. nxt c t = Some (Inr r) \<and> (r \<noteq> INVALID_TIME \<and> r < date \<longleftrightarrow> between c t date) \<and>
    (r \<noteq> INVALID_TIME \<longrightarrow> t < r \<and> occ c r \<and> (\<forall>u. t < u \<longrightarrow> occ c u \<longrightarrow> r \<le> u))"
proof -
  obtain r where r: "nxt c t = Some (Inr r)"
    "if r = INVALID_TIME then \<forall>u. t < u \<longrightarrow> u \<le> t + reach \<longrightarrow> \<not> occ c u
     else t < r \<and> occ c r \<and> (\<forall>u. t < u \<longrightarrow> occ c u \<longrightarrow> r \<le> u)" using answers [OF assms(1,2)] by blast
  have "r \<noteq> INVALID_TIME \<and> r < date \<longleftrightarrow> between c t date"
  proof (cases "r = INVALID_TIME")
    case True
    then show ?thesis using r(2) assms(3) by (auto simp: between_def in_reach_def)
  next
    case False
    then show ?thesis using r(2) unfolding between_def by (metis order_le_less_trans)
  qed
  then show ?thesis using r by auto
qed

lemma bisect_last:
  assumes "good c" "0 \<le> low" "low < high" "high \<le> date" "in_reach c low date" "between c low date" "\<not> between c high date"
  shows "\<exists>l. bisect (nxt c) date low high = Some (Inr l) \<and> low \<le> l \<and> between c l date \<and> \<not> between c (l + 1) date"
  using assms
proof (induction "nat (high - low)" arbitrary: low high rule: less_induct)
  case less
  show ?case
  proof (cases "high - low > 1")
    case True
    define middle where "middle = low + (high - low) div 2"
    have m: "low < middle" "middle < high" unfolding middle_def using True by auto
    have reach_m: "in_reach c middle date" using in_reach_mono [OF less.prems(5)] m(1) by simp
    obtain r where r: "nxt c middle = Some (Inr r)" "r \<noteq> INVALID_TIME \<and> r < date \<longleftrightarrow> between c middle date"
      using probe [OF less.prems(1) _ reach_m] less.prems(2) m(1) by auto
    show ?thesis
    proof (cases "between c middle date")
      case up: True
      then obtain l where "bisect (nxt c) date middle high = Some (Inr l)" "middle \<le> l" "between c l date"
        "\<not> between c (l + 1) date"
        using less.hyps [of high middle] less.prems m reach_m by auto
      then show ?thesis using True r up m(1)
        by (intro exI [of _ l]) (simp add: bisect.simps [of _ _ low] flip: middle_def)
    next
      case down: False
      then obtain l where "bisect (nxt c) date low middle = Some (Inr l)" "low \<le> l" "between c l date"
        "\<not> between c (l + 1) date"
        using less.hyps [of middle low] less.prems m by auto
      then show ?thesis using True r down
        by (intro exI [of _ l]) (auto simp: bisect.simps [of _ _ low] simp flip: middle_def)
    qed
  next
    case False
    then have "high = low + 1" using less.prems(3) by simp
    then show ?thesis using less.prems by (auto simp: bisect.simps [of _ _ low])
  qed
qed

text \<open>The windows grow by no more than the reach, so a window that follows empty ones is searched whole.\<close>

fun steps_within :: "int \<Rightarrow> int list \<Rightarrow> bool" where
  "steps_within v [] = True"
| "steps_within v (w # ws) = (v \<le> w \<and> w - v \<le> reach \<and> steps_within w ws)"

lemma bracket_finds:
  assumes "good c" "steps_within v ws" "\<forall>w \<in> set ws. 0 < w \<and> w \<le> date"
    and "\<not> between c (date - v) date"
  shows "(\<exists>low. bracket (nxt c) date ws = Some (Inr (Some low)) \<and> 0 \<le> low \<and> low < date \<and> in_reach c low date \<and>
      between c low date) \<or>
    bracket (nxt c) date ws = Some (Inr None) \<and> \<not> between c (date - last (v # ws)) date"
  using assms
proof (induction ws arbitrary: v)
  case (Cons w ws)
  have w: "0 < w" "w \<le> date" "v \<le> w" "w - v \<le> reach" using Cons.prems(2,3) by auto
  have "u \<le> date - v" if "u < date" "occ c u" for u
    using Cons.prems(4) that unfolding between_def by (meson not_le)
  then have reach_w: "in_reach c (date - w) date" unfolding in_reach_def using w(4) by fastforce
  obtain r where r: "nxt c (date - w) = Some (Inr r)" "r \<noteq> INVALID_TIME \<and> r < date \<longleftrightarrow> between c (date - w) date"
    using probe [OF Cons.prems(1) _ reach_w] w(2) by auto
  have range: "\<not> date < TIME_MIN + w" using w by (simp add: TIME_MIN_def)
  show ?case
  proof (cases "between c (date - w) date")
    case True
    then show ?thesis using r range w reach_w by (intro disjI1 exI [of _ "date - w"]) simp
  next
    case False
    then show ?thesis using Cons.IH [of w] Cons.prems False r range by (auto split: if_splits)
  qed
qed simp

end

section \<open>The horizon of the forward search\<close>

text \<open>An instant five calendar years later is more than 1460 days away.\<close>

lemma five_years_later:
  assumes "year_at t + 4 < year_at u"
  shows "t + 126144000 < u"
proof -
  define Y where "Y = year_at t"
  have s: "month_start (12 * y) = days_before_year y - 719162" for y
    using month_start_index [of 0 y] by (simp add: days_of_civil_def days_before_month_def month_offsets_def)
  have "month_start (12 * (Y + 5)) \<le> month_start (month_index u)"
    using assms by (intro month_start_mono) (simp add: Y_def month_index_def)
  moreover have "month_start (month_index t + 1) \<le> month_start (12 * (Y + 1))"
    using mon_at_less [of t] by (intro month_start_mono) (simp add: Y_def month_index_def)
  moreover have "days_before_year (Y + 1) + 1460 \<le> days_before_year (Y + 5)"
    using days_before_year_mono [of "Y + 1" "Y + 2"] days_before_year_mono [of "Y + 2" "Y + 3"]
      days_before_year_mono [of "Y + 3" "Y + 4"] days_before_year_mono [of "Y + 4" "Y + 5"] by simp
  ultimately have "day_number t + 1461 \<le> day_number u"
    using month_index_bounds [of t] month_index_bounds [of u] s [of "Y + 1"] s [of "Y + 5"] by linarith
  moreover have "t < 86400 * day_number t + 86400" "86400 * day_number u \<le> u"
    using time_of_day_range [of t] time_of_day_range [of u] by (simp_all add: time_of_day_def)
  ultimately show ?thesis by linarith
qed

interpretation cron: forward_search "cron_next utc_clock cron_standard_traits" occurs
  "\<lambda>c. cron_ok c \<and> one_second c" 126144000
proof
  fix c t assume "cron_ok c \<and> one_second c" "0 \<le> (t :: int)"
  then obtain r where r: "cron_next utc_clock cron_standard_traits c t = Some (Inr r)" "least_after c t r"
    using cron_next_least by blast
  have "\<not> occurs c u" if "\<forall>u > t. occurs c u \<longrightarrow> year_at t + 4 < year_at u" "t < u" "u \<le> t + 126144000" for u
    using that five_years_later [of t u] by auto
  then show "\<exists>r. cron_next utc_clock cron_standard_traits c t = Some (Inr r) \<and>
      (if r = INVALID_TIME then \<forall>u. t < u \<longrightarrow> u \<le> t + 126144000 \<longrightarrow> \<not> occurs c u
       else t < r \<and> occurs c r \<and> (\<forall>u. t < u \<longrightarrow> occurs c u \<longrightarrow> r \<le> u))"
    using r by (intro exI [of _ r]) (auto simp: least_after_def)
qed

section \<open>The previous occurrence\<close>

text \<open>C15: \<open>cron_prev\<close> is the greatest earlier occurrence. In UTC, for an accepted expression with one second,
  an open year and plain day fields, asked at an instant at least four years after the epoch, it
  returns the last occurrence strictly before the instant, or \<open>INVALID_TIME\<close> when none lies in the
  1464 days before it; the halving never steps over an occurrence.\<close>

theorem cron_prev_is_greatest:
  assumes "make_cron cron_standard_traits e = Inr c" "plain_days c" "bit_all (years c)"
    and "bit_count (seconds c) = 1" "126489600 \<le> date"
  shows "\<exists>r. cron_prev utc_clock cron_standard_traits c date = Some (Inr r) \<and>
    (if r = INVALID_TIME then \<forall>u. date - 126489600 < u \<longrightarrow> u < date \<longrightarrow> \<not> occurs c u
     else r < date \<and> occurs c r \<and> (\<forall>u. r < u \<longrightarrow> u < date \<longrightarrow> \<not> occurs c u))"
proof -
  have ok: "cron_ok c \<and> one_second c"
    using parsed_cron_ok [OF assms(1-3)] one_second_count [OF assms(4)] by blast
  have "known_traits cron_standard_traits" by (simp add: known_traits_def)
  then have ne: "\<not> cron_empty c" using make_cron_wf [OF _ assms(1)]
    by (simp add: wf_cronexpr_def cron_empty_def wf_day_of_month_def wf_day_of_week_def) blast
  have none: "\<not> cron.between c (date - 0) date" by (auto simp: cron.between_def)
  have ws: "cron.steps_within 0 cron_windows" "\<forall>w \<in> set cron_windows. 0 < w \<and> w \<le> date"
    "last (0 # cron_windows) = 126489600"
    using assms(5) by (simp_all add: cron_windows_def)
  consider low where "bracket (cron_next utc_clock cron_standard_traits c) date cron_windows = Some (Inr (Some low))"
      "0 \<le> low" "low < date" "cron.in_reach c low date" "cron.between c low date"
    | "bracket (cron_next utc_clock cron_standard_traits c) date cron_windows = Some (Inr None)"
      "\<not> cron.between c (date - 126489600) date"
    using cron.bracket_finds [OF ok ws(1,2) none] ws(3) by auto
  then show ?thesis
  proof cases
    case low: 1
    have "\<not> cron.between c date date" by (auto simp: cron.between_def)
    then obtain l where l: "bisect (cron_next utc_clock cron_standard_traits c) date low date = Some (Inr l)" "low \<le> l"
      "cron.between c l date" "\<not> cron.between c (l + 1) date"
      using cron.bisect_last [OF ok low(2,3) order.refl low(4,5)] by blast
    have "cron.in_reach c l date" by (rule cron.in_reach_mono [OF low(4) l(2)])
    then obtain r where r: "cron_next utc_clock cron_standard_traits c l = Some (Inr r)" "r \<noteq> INVALID_TIME" "r < date"
      "l < r" "occurs c r"
      using cron.probe [OF ok, of l date] low(2) l(2,3) by auto
    have "\<not> occurs c u" if "r < u" "u < date" for u using l(4) that r(4) by (auto simp: cron.between_def)
    then show ?thesis using low(1) l(1) r ne by (intro exI [of _ r]) (simp add: cron_prev_def)
  next
    case 2
    then show ?thesis using ne by (intro exI [of _ INVALID_TIME]) (auto simp: cron_prev_def cron.between_def)
  qed
qed

theorem cron_prev_is_greatest_witness:
  "\<exists>r. cron_prev utc_clock cron_standard_traits (parsed ''0 30 * * * *'') 126489600 = Some (Inr r) \<and>
    (if r = INVALID_TIME then \<forall>u. 126489600 - 126489600 < u \<longrightarrow> u < 126489600 \<longrightarrow> \<not> occurs (parsed ''0 30 * * * *'') u
     else r < 126489600 \<and> occurs (parsed ''0 30 * * * *'') r \<and>
       (\<forall>u. r < u \<longrightarrow> u < 126489600 \<longrightarrow> \<not> occurs (parsed ''0 30 * * * *'') u))"
  by (rule cron_prev_is_greatest [OF parsed_hourly(1-4)]) simp

end
