(* ===== verification/Metrics.thy ===== *)
theory Metrics
  imports Agent Job_Scheduler Firehol_Metrics
begin

text \<open>
  The series the process exports (\<open>src/metrics/scheduler_metrics.cpp\<close>, \<open>src/metrics/spoa_metrics.cpp\<close>,
  and the registration in \<open>src/metrics/firehol_metrics.cpp\<close>): what one scrape reads from the state of
  the scheduler, of an agent and of the compilation pipeline. The aggregation over shards is done by
  Seastar. Descriptions are not modelled.
\<close>

section \<open>Series\<close>

datatype metric_kind = Counter | Gauge

record sample =
  sm_group :: string
  sm_name :: string
  sm_labels :: "(string \<times> string) list"
  sm_kind :: metric_kind
  sm_value :: int

definition series :: "sample \<Rightarrow> string \<times> string \<times> (string \<times> string) list" where
  "series s = (sm_group s, sm_name s, sm_labels s)"

definition make_sample :: "string \<Rightarrow> (string \<times> string) list \<Rightarrow> metric_kind \<times> string \<times> int \<Rightarrow> sample" where
  "make_sample grp labels x =
     (case x of (kind, name, v) \<Rightarrow> \<lparr>sm_group = grp, sm_name = name, sm_labels = labels, sm_kind = kind, sm_value = v\<rparr>)"

text \<open>\<open>register_scheduler_metrics\<close>; the duration counts nanoseconds.\<close>

definition scheduler_samples :: "sched_stats \<Rightarrow> sample list" where
  "scheduler_samples stats =
     map (make_sample ''job_scheduler'' [(''job'', ''firehol_mmdb'')])
       [(Counter, ''runs_total'', uint (runs_total stats)),
        (Counter, ''failures_total'', uint (failures_total stats)),
        (Gauge, ''running'', uint (running stats)),
        (Gauge, ''last_run_seconds'', last_run_seconds stats),
        (Gauge, ''last_run_timestamp_seconds'', last_run_unix stats),
        (Gauge, ''next_run_timestamp_seconds'', next_run_unix stats)]"

text \<open>\<open>SpoaMetrics::register_metrics\<close>: one series per configured category.\<close>

definition spoa_samples :: "'db agent \<Rightarrow> sample list" where
  "spoa_samples ag =
     map (make_sample ''mmdb'' [])
       [(Counter, ''reloads_total'', case agent_mmdb ag of Some db \<Rightarrow> uint (reload_count db) | None \<Rightarrow> 0),
        (Counter, ''lookups_total'', uint (lookups_total ag)),
        (Counter, ''lookup_errors_total'', uint (lookup_errors_total ag))] @
     map (\<lambda>key. make_sample ''firehol'' [(''categorie'', key)]
                  (Counter, ''blocked_total'', uint (blocked (agent_categories ag) key)))
       (names (agent_categories ag))"

text \<open>\<open>FireholMetrics::register_metrics\<close>. The gauges of durations hold floating-point numbers outside the
  model; \<open>duration\<close> gives their values by name.\<close>

definition firehol_samples :: "(string \<Rightarrow> int) \<Rightarrow> firehol_metrics \<Rightarrow> sample list" where
  "firehol_samples duration m =
     map (make_sample ''firehol_compile'' [])
       [(Counter, ''runs_total'', uint (compile_runs_total m)),
        (Counter, ''failures_total'', uint (compile_failures_total m)),
        (Gauge, ''in_progress'', uint (compile_in_progress m)),
        (Gauge, ''parse_seconds'', duration ''compile_parse_seconds''),
        (Gauge, ''build_seconds'', duration ''compile_build_seconds''),
        (Gauge, ''total_seconds'', duration ''compile_total_seconds''),
        (Gauge, ''networks'', uint (compile_networks m)),
        (Gauge, ''blocklists'', uint (compile_blocklists m)),
        (Gauge, ''mmdb_bytes'', uint (compile_mmdb_bytes m)),
        (Gauge, ''trie_nodes'', uint (compile_trie_nodes m)),
        (Gauge, ''data_records'', uint (compile_data_records m)),
        (Gauge, ''last_success_timestamp_seconds'', sint (compile_last_success_unix m))] @
     map (make_sample ''firehol_git'' [])
       [(Counter, ''clones_total'', uint (git_clones_total m)),
        (Counter, ''fetches_total'', uint (git_fetches_total m)),
        (Counter, ''failures_total'', uint (git_failures_total m)),
        (Gauge, ''sync_seconds'', duration ''git_sync_seconds''),
        (Gauge, ''last_success_timestamp_seconds'', sint (git_last_success_unix m))]"

text \<open>The gauges of the last rebuild, one per list.\<close>

definition blocklist_samples :: "firehol_metrics \<Rightarrow> sample list" where
  "blocklist_samples m =
     map (\<lambda>(file_name, category, networks).
            make_sample ''firehol_blocklist'' [(''file_name'', file_name), (''category'', category)]
              (Gauge, ''networks'', int networks))
       (fm_series m)"

section \<open>No series is exported twice\<close>

lemma series_make_sample [simp]: "series (make_sample grp labels (kind, name, v)) = (grp, name, labels)"
  by (simp add: series_def make_sample_def)

lemma scheduler_series_distinct: "distinct (map series (scheduler_samples stats))"
  by (simp add: scheduler_samples_def)

lemma spoa_series_distinct:
  assumes "dc_inv (agent_categories ag)"
  shows "distinct (map series (spoa_samples ag))"
proof -
  have "distinct (names (agent_categories ag))" using assms by (simp add: dc_inv_def names_def)
  then show ?thesis by (auto simp: spoa_samples_def distinct_map inj_on_def comp_def)
qed

lemma firehol_series_distinct: "distinct (map series (firehol_samples duration m))"
  by (simp add: firehol_samples_def)

lemma blocklist_series_distinct:
  assumes "distinct (map fst (fm_series m))"
  shows "distinct (map series (blocklist_samples m))"
proof -
  have "map series (blocklist_samples m) =
      map (\<lambda>(f, c, n). (''firehol_blocklist'', ''networks'', [(''file_name'', f), (''category'', c)])) (fm_series m)"
    by (simp add: blocklist_samples_def comp_def split_beta)
  then show ?thesis using assms by (fastforce simp: distinct_map inj_on_def)
qed

end
