(* ===== verification/Spec2Isabelle.thy ===== *)
theory Spec2Isabelle
  imports Agent_Run Cron_Prev Metrics
begin

text \<open>
  Verification of the HAProxy SPOA agent with FireHOL block lists.

  \<^bold>\<open>The program.\<close> The process is a HAProxy Stream Processing Offload Agent. HAProxy sends it NOTIFY
  frames with addresses; it looks each address up in a MaxMind database and answers with a variable
  that says whether the address belongs to a configured category. The process makes that database
  itself: at the start and at every full hour it synchronises a Git checkout of the FireHOL IP lists,
  compiles them into a database file, and renames the file into place; a watcher notices the new file
  and swaps the snapshot the shards read. The sources are under \<open>src/src\<close>; file names below are
  relative to that directory.

  \<^bold>\<open>Conventions.\<close> A class is a record, an enumeration or variant a datatype, a function or handler one
  definition with the same name where Isabelle allows it. An exception is the left of a sum. Machine
  integers are words of their width where they can wrap around (counters, varints, lengths, the
  eight-bit fields of a crontab expression by explicit \<open>mod 256\<close>); sizes and indices bounded by memory
  are natural numbers, among them the \<open>uint32_t\<close> node and record identifiers of the builder, so a
  builder of more than \<open>2 ^ 32\<close> nodes is outside the model. What the operating system and other libraries answer is an input of the definitions. Threads
  and futures are step relations, or step functions under an explicit schedule, and the properties
  quantify over all interleavings. Log lines are left out everywhere.

  \<^bold>\<open>The theories, from the bottom up.\<close>
  \<^item> \<open>Prelude\<close>: machine types, the exception type, \<open>rbind\<close>, and lemmas on lists and words.
  \<^item> \<open>Varint\<close> (\<open>spoa/varint.h\<close>), \<open>Protocol_IO\<close> (\<open>spoa/protocol_io.h\<close>), \<open>Typed_Data\<close>
    (\<open>spoa/typed_data.*\<close>), \<open>Frame\<close> (\<open>spoa/message.h\<close>, \<open>spoa/frame.*\<close>): the wire format. Decoding inverts
    encoding exactly, including the rejection of overlong varints; parsers stay inside their buffers;
    NOTIFY payloads round-trip; encoders throw exactly when a length exceeds its field.
  \<^item> \<open>Utils\<close> (\<open>utils/string_utils.h\<close>, \<open>utils/environment.h\<close>, \<open>utils/net_utils.h\<close>): the dotted-quad parser
    accepts exactly the canonical texts.
  \<^item> \<open>Drop_Categories\<close> (\<open>spoa/drop_categories.*\<close>): the configured categories and their counters, behind a
    locale of counter laws interpreted on the model.
  \<^item> \<open>Mmdb\<close> (\<open>mmdb/mmdb.*\<close>) over a parameter for libmaxminddb, and \<open>Mmdb_Reload\<close> (\<open>mmdb/mmdb_reload.*\<close>,
    \<open>utils/unique_fd.h\<close>): the snapshot, the copy to a private file, the watcher. The open descriptors
    of the process are a set; a local \<open>UniqueFd\<close> is a scope that closes what it still owns on every way
    out. Descriptors never leak and readers never lose a snapshot.
  \<^item> \<open>Agent\<close> (\<open>spoa/spoa_agent.*\<close>) and \<open>Server\<close> (\<open>spoa/spoa_server.*\<close>): the decision on a NOTIFY frame end
    to end, the counters, and the shard as a labelled step relation: all connections read on the one
    shared agent, with writes, flushes and closes as calls on their output streams, failing reads and
    answers, accepts, reloads and the stop. Every run refines the sequential handling of its events.
  \<^item> \<open>Data_Pool\<close>, \<open>Pool_Merge\<close> (\<open>mmdb_builder/data_pool.*\<close>): interned records and their merge, refined
    to a merge of values. \<open>Builder\<close>, \<open>Builder_Tree\<close>, \<open>Builder_Insert\<close>, \<open>Builder_Final\<close>, \<open>Mmdb_Encode\<close>,
    \<open>Mmdb_File\<close> (\<open>mmdb_builder/builder.*\<close>): the prefix tree, pruning by parallel tasks, and the file; a
    reader of the MaxMind DB format gets back the record of every address.
  \<^item> \<open>Blocklist\<close>, \<open>Compiler\<close>, \<open>Compile_Correct\<close> (\<open>firehol_blocklist_ipsets/compiler.*\<close>), \<open>Firehol_Metrics\<close>
    (\<open>metrics/firehol_metrics.*\<close>): parsing a list, the worker threads, the publication. A compilation
    that succeeds publishes exactly the lists under every schedule, one that fails changes no file but
    its temporary one, and under a fair schedule it ends.
  \<^item> \<open>Git_Repository\<close> (\<open>firehol_blocklist_ipsets/git_repository.*\<close>) over a record of the libgit2 calls: a
    foreign checkout is rejected untouched, every call is counted once, the recorded time is the one of
    the checked-out commit.
  \<^item> \<open>Cron_Parse\<close>, \<open>Cron_Wf\<close>, \<open>Cron_Print\<close> (the parser in \<open>job_scheduler/croncpp.h\<close>): accepted expressions
    are well formed, errors are \<open>bad_cronexpr\<close> but for two kinds of undefined behaviour, printed fields
    parse to their meaning.
  \<^item> \<open>Calendar\<close>, \<open>Cron_Search\<close>, \<open>Cron_Utc\<close>, \<open>Cron_Next\<close>, \<open>Cron_Correct\<close>, \<open>Cron_Prev\<close> (the search in
    \<open>croncpp.h\<close>): the C library's clock is a parameter, instantiated with the Gregorian calendar in UTC;
    the moves of one field are proved once in a locale and interpreted for seconds, minutes, hours and
    months; \<open>cron_next\<close> ends and is the least later occurrence, and \<open>cron_prev\<close>, a client of the locale
    \<open>forward_search\<close>, the greatest earlier one.
  \<^item> \<open>Job_Scheduler\<close> (\<open>job_scheduler/job_scheduler.*\<close>): the thread as a step relation; jobs run on schedule
    and never overlap, the counters are exact, a stop ends the thread.
  \<^item> \<open>App\<close> (\<open>app_config.*\<close>, \<open>main.cpp\<close>): the configuration and the refresh job, composed of the repository,
    the reader and the compiler; \<open>Agent_Run\<close> (\<open>run_spoa_agent\<close> in \<open>main.cpp\<close>): the life of the process
    over the states of the scheduler, the shards and the database, with failures of the start and of the
    shutdown.
  \<^item> \<open>Metrics\<close> (\<open>metrics/scheduler_metrics.cpp\<close>, \<open>metrics/spoa_metrics.cpp\<close>): the exported series.

  \<^bold>\<open>Bounds and fuel.\<close> The recursive search of \<open>cron_next\<close> is a \<open>partial_function\<close>; that it returns is proved,
  for instants since the epoch, plain day fields and an open year, which covers the schedule the
  program uses. Merging and comparing records carry fuel of the sum of their identifiers plus one,
  pruning the number of nodes, both proved sufficient. A schedule of the compiler's threads that is too short gives \<open>None\<close>;
  \<open>compile_terminates\<close> shows that every fair schedule has a long enough prefix. The theorem on the
  published file assumes that the tree has a node, that the tree and the data section fit the format's
  28-bit records, and that no array has 29 members or more. Parallel pruning is scheduled by which of
  two child tasks runs first, as a whole: the tasks work on disjoint subtrees.

  \<^bold>\<open>Shortcomings of the code.\<close> Some theorems state behaviour the code does not intend: pointers in the
  metadata section count from the start of the marker (\<open>metadata_read_from_marker\<close>,
  \<open>metadata_languages_misread\<close>), long arrays get control bytes in the wrong order, which is right by
  accident for 33 members only (\<open>long_array_misread\<close>), a stop answered by a pending write is dropped
  (\<open>pending_stop_is_dropped\<close>), a failed response is waited on twice (\<open>failed_front_waits_twice\<close>), an
  accented letter in a day field is passed to \<open>std::toupper\<close> as a negative number
  (\<open>accented_day_undefined\<close>), a crontab expression with several seconds can skip an occurrence
  (\<open>cron_next_skips_occurrence\<close>), the nearest-weekday qualifier can yield a wrong time
  (\<open>nearest_weekday_misses_time\<close>), a large step wraps around (\<open>step_wraps\<close>), a branch moved back is not
  followed (\<open>older_remote_not_followed\<close>), and a commit dated before the last build is never compiled
  (\<open>late_commit_not_compiled\<close>).

  \<^bold>\<open>Not modelled.\<close> Seastar, libgit2, libmaxminddb, Boost.Program\_options, \<open>inet_pton\<close>, \<open>strptime\<close> and the
  C library's time zones are parameters or inputs. \<open>utils/blocking_task.h\<close> only moves a call to another
  thread and its result back; its callers wait for it. Floating-point durations, log lines, the
  \<open>--version\<close> and \<open>--help\<close> texts, the conversions of \<open>std::tm\<close> to and from text in \<open>croncpp.h\<close>, which the
  program never calls, and memory reservation hints are left out. The search is proved correct in UTC
  only: daylight-saving transitions are in the definitions, through the clock parameter, but not in the
  theorems. The UTC clock never fails and has no largest year. The files of the process do not include
  the Git checkout, which is part of the state of libgit2: a refresh that fails may have moved it. What
  Seastar's output stream does with a call of \<open>write\<close> while an earlier one is being flushed is left to
  Seastar.
\<close>

end
